(* ===== verification/Prelude.thy ===== *)
theory Prelude
  imports Main "HOL-Library.Word" "HOL-Library.List_Lexorder" "HOL-Library.AList"
begin

text \<open>
  Shared vocabulary of the development: byte strings and fixed-width integers as the Go code has
  them, the big- and little-endian integer forms of the package \<^verbatim>\<open>encoding/binary\<close>, Go errors as
  values, and generic facts on lists, association lists (Go maps) and the byte-wise order that
  \<^verbatim>\<open>bytes.Compare\<close> and \<^verbatim>\<open>sort.Strings\<close> use (the lexicographic order of
  \<^verbatim>\<open>HOL-Library.List_Lexorder\<close>).
\<close>

unbundle bit_operations_syntax

section \<open>Types\<close>

type_synonym byte = "8 word"
type_synonym bytes = "byte list"
type_synonym u64 = "64 word"
type_synonym u16 = "16 word"

text \<open>Go's \<^verbatim>\<open>[32]byte\<close> is a byte string; \<open>is_hash\<close> is the length its array type fixes.\<close>

type_synonym hash = bytes

abbreviation (input) HashSize :: nat where "HashSize \<equiv> 32"

definition is_hash :: "bytes \<Rightarrow> bool" where
  "is_hash h \<longleftrightarrow> length h = HashSize"

text \<open>A Go string literal as its bytes.\<close>

definition ascii :: "string \<Rightarrow> bytes" where
  "ascii s = map of_char s"

section \<open>Errors\<close>

text \<open>
  The ledger's error kinds (\<^verbatim>\<open>ledger/errors.go\<close>) and the Go error values that reach a caller: an
  error of the ledger with its kind and its message (for a formatted message the format string), the
  error of a backend passed through unwrapped, an error of the SQL layer with its text (the format string,
  or the name of the engine's error kind), an error wrapped by \<^verbatim>\<open>fmt.Errorf\<close>, and a run-time
  panic (an index out of range), which is a value here so that every branch of the code is visible.
\<close>

datatype Kind = KindBackend | KindCorrupted | KindMissing | KindInvalid

datatype goerr =
    LedgerErr Kind string
  | BackendErr string
  | TextErr string
  | WrapErr string goerr
  | Panic string

definition errBackend :: "string \<Rightarrow> goerr" where "errBackend e = LedgerErr KindBackend e"
definition errCorrupted :: "string \<Rightarrow> goerr" where "errCorrupted m = LedgerErr KindCorrupted m"
definition errMissing :: "string \<Rightarrow> goerr" where "errMissing m = LedgerErr KindMissing m"
definition errInvalid :: "string \<Rightarrow> goerr" where "errInvalid m = LedgerErr KindInvalid m"

named_theorems err_defs "the error constructors of errors.go"
declare errBackend_def [err_defs] errCorrupted_def [err_defs] errMissing_def [err_defs]
  errInvalid_def [err_defs]

section \<open>Integers as bytes\<close>

text \<open>\<^verbatim>\<open>binary.BigEndian.PutUint64\<close>, \<^verbatim>\<open>Uint64\<close> and \<^verbatim>\<open>binary.LittleEndian.PutUint16\<close>,
  \<^verbatim>\<open>Uint16\<close>.\<close>

definition putUint64 :: "u64 \<Rightarrow> bytes" where
  "putUint64 v =
     [ucast (drop_bit 56 v), ucast (drop_bit 48 v), ucast (drop_bit 40 v), ucast (drop_bit 32 v),
      ucast (drop_bit 24 v), ucast (drop_bit 16 v), ucast (drop_bit 8 v), ucast v]"

definition uint64 :: "bytes \<Rightarrow> u64" where
  "uint64 b =
     push_bit 56 (ucast (b ! 0)) OR push_bit 48 (ucast (b ! 1)) OR push_bit 40 (ucast (b ! 2)) OR
     push_bit 32 (ucast (b ! 3)) OR push_bit 24 (ucast (b ! 4)) OR push_bit 16 (ucast (b ! 5)) OR
     push_bit 8 (ucast (b ! 6)) OR ucast (b ! 7)"

definition putUint16LE :: "u16 \<Rightarrow> bytes" where
  "putUint16LE v = [ucast v, ucast (drop_bit 8 v)]"

definition uint16LE :: "bytes \<Rightarrow> u16" where
  "uint16LE b = ucast (b ! 0) OR push_bit 8 (ucast (b ! 1))"

lemma length_putUint64 [simp]: "length (putUint64 v) = 8"
  by (simp add: putUint64_def)

lemma length_putUint16LE [simp]: "length (putUint16LE v) = 2"
  by (simp add: putUint16LE_def)

lemma bit_byte_ge: "8 \<le> n \<Longrightarrow> \<not> bit (w :: byte) n"
  using bit_imp_le_length [of w n] by auto

lemma uint16LE_putUint16LE [simp]: "uint16LE (putUint16LE v @ xs) = v"
  by (rule bit_word_eqI) (auto simp: uint16LE_def putUint16LE_def bit_simps)

lemma uint16LE_putUint16LE_id [simp]: "uint16LE (putUint16LE v) = v"
  using uint16LE_putUint16LE [of v "[]"] by simp

lemma ucast_uint64:
  "(ucast (uint64 b) :: byte) = b ! 7" "(ucast (drop_bit 8 (uint64 b)) :: byte) = b ! 6"
  "(ucast (drop_bit 16 (uint64 b)) :: byte) = b ! 5" "(ucast (drop_bit 24 (uint64 b)) :: byte) = b ! 4"
  "(ucast (drop_bit 32 (uint64 b)) :: byte) = b ! 3" "(ucast (drop_bit 40 (uint64 b)) :: byte) = b ! 2"
  "(ucast (drop_bit 48 (uint64 b)) :: byte) = b ! 1" "(ucast (drop_bit 56 (uint64 b)) :: byte) = b ! 0"
  by (rule bit_word_eqI; simp add: uint64_def bit_simps bit_byte_ge)+

lemma list_of_nths:
  "length b = 2 \<Longrightarrow> [b ! 0, b ! 1] = b"
  "length b = 8 \<Longrightarrow> [b ! 0, b ! 1, b ! 2, b ! 3, b ! 4, b ! 5, b ! 6, b ! 7] = b"
  by (rule nth_equalityI; auto simp: less_Suc_eq numeral_eq_Suc)+

lemma putUint64_uint64: "length b = 8 \<Longrightarrow> putUint64 (uint64 b) = b"
  by (simp only: putUint64_def ucast_uint64 list_of_nths)

lemma ucast_uint16LE:
  "(ucast (uint16LE b) :: byte) = b ! 0" "(ucast (drop_bit 8 (uint16LE b)) :: byte) = b ! 1"
  by (rule bit_word_eqI; simp add: uint16LE_def bit_simps bit_byte_ge)+

lemma putUint16LE_uint16LE: "length b = 2 \<Longrightarrow> putUint16LE (uint16LE b) = b"
  by (simp only: putUint16LE_def ucast_uint16LE list_of_nths)

section \<open>Byte-wise order\<close>

text \<open>The number a byte string denotes in base 256: on strings of one length the lexicographic order
  is the numeric order, so the big-endian form of an integer sorts like the integer.\<close>

definition be_nat :: "bytes \<Rightarrow> nat" where
  "be_nat bs = foldl (\<lambda>a b. a * 256 + unat b) 0 bs"

lemma foldl_be_nat: "foldl (\<lambda>a b. a * 256 + unat b) n bs = n * 256 ^ length bs + be_nat (bs::bytes)"
proof (induction bs arbitrary: n)
  case Nil show ?case by (simp add: be_nat_def)
next
  case (Cons b bs)
  have "be_nat (b # bs) = unat b * 256 ^ length bs + be_nat bs"
    using Cons.IH[of "unat b"] by (simp add: be_nat_def)
  then show ?case using Cons.IH[of "n * 256 + unat b"] by (simp add: algebra_simps)
qed

lemma be_nat_Nil [simp]: "be_nat [] = 0" by (simp add: be_nat_def)
lemma be_nat_Cons: "be_nat (b # bs) = unat b * 256 ^ length bs + be_nat bs"
  using foldl_be_nat[of "unat b" bs] by (simp add: be_nat_def)

lemma be_nat_bound: "be_nat bs < 256 ^ length bs"
proof (induction bs)
  case (Cons b bs)
  have "unat b \<le> 255" using unsigned_less[of b, where ?'a=nat] by simp
  then have "unat b * 256 ^ length bs \<le> 255 * 256 ^ length bs" by (rule mult_le_mono1)
  then have "unat b * 256 ^ length bs + be_nat bs < 255 * 256 ^ length bs + 256 ^ length bs"
    using Cons by linarith
  then show ?case by (simp add: be_nat_Cons)
qed simp

lemma digit_less:
  assumes "(r::nat) < m" "s < m"
  shows "a * m + r < b * m + s \<longleftrightarrow> a < b \<or> a = b \<and> r < s"
proof -
  have "a < b \<Longrightarrow> a * m + r < b * m + s"
  proof -
    assume "a < b" then have "Suc a * m \<le> b * m" by (intro mult_le_mono1) simp
    then show ?thesis using assms by simp
  qed
  moreover have "b < a \<Longrightarrow> b * m + s < a * m + r"
  proof -
    assume "b < a" then have "Suc b * m \<le> a * m" by (intro mult_le_mono1) simp
    then show ?thesis using assms by simp
  qed
  ultimately show ?thesis by (cases a b rule: linorder_cases) auto
qed

lemma less_be_nat: "length xs = length ys \<Longrightarrow> xs < ys \<longleftrightarrow> be_nat xs < be_nat ys"
proof (induction xs ys rule: list_induct2)
  case (Cons x xs y ys)
  have "be_nat xs < 256 ^ length ys" "be_nat ys < 256 ^ length ys"
    using be_nat_bound[of xs] be_nat_bound[of ys] Cons.hyps by simp_all
  then show ?case
    using Cons by (simp add: be_nat_Cons digit_less word_less_nat_alt word_unat_eq_iff)
qed simp

lemma append_less_same_length:
  "length xs = length ys \<Longrightarrow> xs @ us < ys @ vs \<longleftrightarrow> xs < ys \<or> xs = ys \<and> us < (vs :: 'a::linorder list)"
  by (induction xs ys rule: list_induct2) auto

lemma div_step: "(n::nat) div 2 ^ (k + 8) * 256 + n div 2 ^ k mod 256 = n div 2 ^ k"
proof -
  have "n div 2 ^ (k + 8) = n div 2 ^ k div 256" by (simp add: power_add div_mult2_eq)
  then show ?thesis by simp
qed

lemma unat_byte_of: "unat (ucast (drop_bit k v) :: byte) = unat (v :: u64) div 2 ^ k mod 256"
proof -
  have "take_bit 64 (unat v) = unat v"
    using unsigned_less[of v, where ?'a = nat] by (simp add: take_bit_nat_eq_self_iff)
  then have "unat (ucast (drop_bit k v) :: byte) = take_bit 8 (drop_bit k (unat v))"
    by (simp add: unsigned_ucast_eq unsigned_drop_bit_eq)
  then show ?thesis by (simp add: drop_bit_eq_div take_bit_eq_mod)
qed

lemma be_nat_putUint64: "be_nat (putUint64 v) = unat v"
proof -
  have top: "unat v div 2 ^ 56 mod 256 = unat v div 2 ^ 56"
    using unsigned_less[of v, where ?'a = nat] by (simp add: less_mult_imp_div_less)
  have low: "unat (ucast v :: byte) = unat v mod 256"
    using unat_byte_of[of 0 v] by simp
  show ?thesis
    unfolding be_nat_def putUint64_def
    using div_step[of "unat v" 0] div_step[of "unat v" 8] div_step[of "unat v" 16]
      div_step[of "unat v" 24] div_step[of "unat v" 32] div_step[of "unat v" 40]
      div_step[of "unat v" 48] top
    by (simp only: foldl.simps unat_byte_of low) simp
qed

lemma putUint64_inject [simp]: "putUint64 v = putUint64 w \<longleftrightarrow> v = w"
  by (metis be_nat_putUint64 word_unat_eq_iff)

lemma uint64_putUint64_id [simp]: "uint64 (putUint64 v) = v"
  using putUint64_uint64 [of "putUint64 v"] by simp

lemma uint64_append: "8 \<le> length b \<Longrightarrow> uint64 (b @ xs) = uint64 b"
  by (auto simp: uint64_def nth_append)

lemma uint64_putUint64 [simp]: "uint64 (putUint64 v @ xs) = v"
  by (simp add: uint64_append)

lemma putUint64_less: "putUint64 v @ xs < putUint64 w @ ys \<longleftrightarrow> v < w \<or> v = w \<and> xs < ys"
proof -
  have "putUint64 v < putUint64 w \<longleftrightarrow> v < w"
    by (simp add: less_be_nat be_nat_putUint64 word_less_nat_alt)
  then show ?thesis by (simp add: append_less_same_length)
qed

section \<open>Go maps as association lists\<close>

lemma length_alist_update:
  "length (AList.update k v m) = (if k \<in> fst ` set m then length m else Suc (length m))"
  by (induction m) auto

section \<open>Effects\<close>

text \<open>
  A Go function that may fail and that changes the state reached through its receiver: it takes the
  state and returns an error or a result, with the state it leaves behind in both cases.
\<close>

type_synonym ('s, 'a) io = "'s \<Rightarrow> (goerr + 'a) \<times> 's"

definition ret :: "'a \<Rightarrow> ('s, 'a) io" where
  "ret x s = (Inr x, s)"

definition throw :: "goerr \<Rightarrow> ('s, 'a) io" where
  "throw e s = (Inl e, s)"

text \<open>\<^verbatim>\<open>x, err := m(); if err != nil { return err }\<close>, then \<open>f x\<close>.\<close>

definition andThen :: "('s, 'a) io \<Rightarrow> ('a \<Rightarrow> ('s, 'b) io) \<Rightarrow> ('s, 'b) io" where
  "andThen m f s = (case m s of (Inl e, s') \<Rightarrow> (Inl e, s') | (Inr x, s') \<Rightarrow> f x s')"

definition getState :: "('s \<Rightarrow> 'a) \<Rightarrow> ('s, 'a) io" where
  "getState f s = (Inr (f s), s)"

definition setState :: "('s \<Rightarrow> 's) \<Rightarrow> ('s, unit) io" where
  "setState f s = (Inr (), f s)"

text \<open>A result that no longer touches the state.\<close>

definition liftE :: "goerr + 'a \<Rightarrow> ('s, 'a) io" where
  "liftE r s = (r, s)"

named_theorems io_defs "the effect combinators, unfolded"
declare ret_def [io_defs] throw_def [io_defs] andThen_def [io_defs] getState_def [io_defs]
  setState_def [io_defs] liftE_def [io_defs]

lemma andThen_cong [fundef_cong]:
  assumes "s = t" "m t = m' t" "\<And>x s'. m' t = (Inr x, s') \<Longrightarrow> f x s' = f' x s'"
  shows "andThen m f s = andThen m' f' t"
  using assms by (auto simp: andThen_def split: prod.split sum.split)

lemma io_run [simp]:
  "andThen (ret x) f s = f x s"
  "andThen (throw e) f s = (Inl e, s)"
  "andThen (getState g) f s = f (g s) s"
  "andThen (setState h) k s = k () (h s)"
  "andThen (andThen m f) k s = andThen m (\<lambda>x. andThen (f x) k) s"
  by (auto simp: io_defs split: prod.split sum.split)

text \<open>
  \<open>runs may E Q (m s)\<close>: the run ends with a result that \<open>Q\<close> accepts, or, only when \<open>may\<close> allows it,
  with the error of a backend and a state that \<open>E\<close> accepts.
\<close>

definition runs :: "bool \<Rightarrow> ('s \<Rightarrow> bool) \<Rightarrow> ('a \<Rightarrow> 's \<Rightarrow> bool) \<Rightarrow> (goerr + 'a) \<times> 's \<Rightarrow> bool" where
  "runs may E Q r =
     (case r of (Inl e, s) \<Rightarrow> may \<and> (\<exists>m. e = errBackend m) \<and> E s | (Inr x, s) \<Rightarrow> Q x s)"

lemma runs_ret [simp]: "runs may E Q (Inr x, s) = Q x s"
  by (simp add: runs_def)

lemma runs_ret' [simp]: "runs may E Q (ret x s) = Q x s"
  by (simp add: runs_def ret_def)

lemma runs_andThen:
  assumes "runs may E Q (m s)" "\<And>x s'. Q x s' \<Longrightarrow> runs may E R (f x s')"
  shows "runs may E R (andThen m f s)"
proof -
  obtain r s1 where m: "m s = (r, s1)" by fastforce
  show ?thesis
  proof (cases r)
    case (Inl e)
    then show ?thesis using assms(1) by (simp add: runs_def andThen_def m)
  next
    case (Inr x)
    then show ?thesis using assms(1) assms(2) [of x s1] by (simp add: runs_def andThen_def m)
  qed
qed

lemma runs_mono:
  assumes "runs may E Q r" "\<And>s. E s \<Longrightarrow> E' s" "\<And>x s. Q x s \<Longrightarrow> Q' x s"
  shows "runs may E' Q' r"
  using assms by (auto simp: runs_def split: prod.splits sum.splits)

lemma runs_InrD: "runs may E Q r \<Longrightarrow> r = (Inr x, s) \<Longrightarrow> Q x s"
  by (simp add: runs_def)

lemma runs_no_fail: "runs False E Q r \<Longrightarrow> \<exists>x s. r = (Inr x, s) \<and> Q x s"
  by (auto simp: runs_def split: prod.splits sum.splits)

end
