(* ===== verification/Backend.thy ===== *)
theory Backend
  imports Prelude
begin

text \<open>
  \<^verbatim>\<open>ledger/backend.go\<close>: the storage interface of the tree and the in-memory backend. An interface
  value is a record of its methods and the state they work on, so that the store is defined for every
  backend, a hostile one included. The locale \<open>kv_backend\<close> is the contract of the interface comment
  (point reads, atomic batches, ascending range scans); its interpretation shows that the in-memory
  backend keeps it without ever failing.
\<close>

type_synonym u32 = "32 word"

record BatchOp =
  bo_key :: bytes
  bo_value :: bytes
  bo_delete :: bool

record KV =
  kv_key :: bytes
  kv_value :: bytes

record 'b Backend =
  be_Get :: "bytes \<Rightarrow> 'b \<Rightarrow> (string + bytes option) \<times> 'b"
  be_WriteBatch :: "BatchOp list \<Rightarrow> 'b \<Rightarrow> (string + unit) \<times> 'b"
  be_Scan :: "bytes \<Rightarrow> bytes \<Rightarrow> u32 \<Rightarrow> 'b \<Rightarrow> (string + KV list) \<times> 'b"
  be_state :: 'b

section \<open>The in-memory backend\<close>

record MemBackend =
  mb_m :: "(bytes \<times> bytes) list"
  mb_reads :: nat

definition NewMemBackend :: MemBackend where
  "NewMemBackend = \<lparr>mb_m = [], mb_reads = 0\<rparr>"

definition Reads :: "MemBackend \<Rightarrow> nat" where
  "Reads b = mb_reads b"

definition ResetReads :: "MemBackend \<Rightarrow> MemBackend" where
  "ResetReads b = b\<lparr>mb_reads := 0\<rparr>"

definition Len :: "MemBackend \<Rightarrow> nat" where
  "Len b = length (mb_m b)"

definition Keys :: "MemBackend \<Rightarrow> bytes list" where
  "Keys b = sort (map fst (mb_m b))"

definition Tamper :: "bytes \<Rightarrow> MemBackend \<Rightarrow> bool \<times> MemBackend" where
  "Tamper key b =
     (case map_of (mb_m b) key of
        None \<Rightarrow> (False, b)
      | Some v \<Rightarrow>
          if v = [] then (False, b)
          else (True, b\<lparr>mb_m := AList.update key (v[0 := v ! 0 XOR 1]) (mb_m b)\<rparr>))"

definition Remove :: "bytes \<Rightarrow> MemBackend \<Rightarrow> bool \<times> MemBackend" where
  "Remove key b = (map_of (mb_m b) key \<noteq> None, b\<lparr>mb_m := AList.delete key (mb_m b)\<rparr>)"

definition memGet :: "bytes \<Rightarrow> MemBackend \<Rightarrow> (string + bytes option) \<times> MemBackend" where
  "memGet key b = (Inr (map_of (mb_m b) key), b\<lparr>mb_reads := mb_reads b + 1\<rparr>)"

definition memApply :: "(bytes \<times> bytes) list \<Rightarrow> BatchOp \<Rightarrow> (bytes \<times> bytes) list" where
  "memApply m op =
     (if bo_delete op then AList.delete (bo_key op) m
      else AList.update (bo_key op) (bo_value op) m)"

definition memWriteBatch :: "BatchOp list \<Rightarrow> MemBackend \<Rightarrow> (string + unit) \<times> MemBackend" where
  "memWriteBatch ops b = (Inr (), b\<lparr>mb_m := foldl memApply (mb_m b) ops\<rparr>)"

text \<open>The loop of \<^verbatim>\<open>Scan\<close> over the sorted keys; \<open>mx\<close> is the limit, tested after each
  append.\<close>

fun scanLoop :: "(bytes \<times> bytes) list \<Rightarrow> bytes \<Rightarrow> bytes \<Rightarrow> nat \<Rightarrow> bytes list \<Rightarrow> KV list \<Rightarrow> KV list" where
  "scanLoop m start end mx [] out = out"
| "scanLoop m start end mx (k # ks) out =
     (if k < start then scanLoop m start end mx ks out
      else if end \<noteq> [] \<and> end \<le> k then out
      else let out' = out @ [\<lparr>kv_key = k, kv_value = the (map_of m k)\<rparr>]
           in if mx \<le> length out' then out' else scanLoop m start end mx ks out')"

definition memScan :: "bytes \<Rightarrow> bytes \<Rightarrow> u32 \<Rightarrow> MemBackend \<Rightarrow> (string + KV list) \<times> MemBackend" where
  "memScan start end limit b =
     (let keys = sort (map fst (mb_m b));
          mx = (if limit = 0 then length keys else unat limit)
      in (Inr (scanLoop (mb_m b) start end mx keys []), b))"

definition memBackend :: "MemBackend \<Rightarrow> MemBackend Backend" where
  "memBackend b =
     \<lparr>be_Get = memGet, be_WriteBatch = memWriteBatch, be_Scan = memScan, be_state = b\<rparr>"

section \<open>The contract of the interface\<close>

text \<open>A batch applied to the map that a backend stands for.\<close>

definition applyOp :: "(bytes \<rightharpoonup> bytes) \<Rightarrow> BatchOp \<Rightarrow> bytes \<rightharpoonup> bytes" where
  "applyOp V op = V(bo_key op := (if bo_delete op then None else Some (bo_value op)))"

definition applyBatch :: "BatchOp list \<Rightarrow> (bytes \<rightharpoonup> bytes) \<Rightarrow> bytes \<rightharpoonup> bytes" where
  "applyBatch ops V = foldl applyOp V ops"

definition inRange :: "bytes \<Rightarrow> bytes \<Rightarrow> bytes \<Rightarrow> bool" where
  "inRange start end k \<longleftrightarrow> start \<le> k \<and> (end = [] \<or> k < end)"

text \<open>What a scan may return: records of the range in strictly ascending key order, at most
  \<open>limit\<close> of them, and all of the range up to the last one returned.\<close>

definition scanned :: "(bytes \<rightharpoonup> bytes) \<Rightarrow> bytes \<Rightarrow> bytes \<Rightarrow> u32 \<Rightarrow> KV list \<Rightarrow> bool" where
  "scanned V start end limit kvs \<longleftrightarrow>
     sorted_wrt (<) (map kv_key kvs) \<and>
     (\<forall>kv \<in> set kvs. V (kv_key kv) = Some (kv_value kv) \<and> inRange start end (kv_key kv)) \<and>
     (limit \<noteq> 0 \<longrightarrow> length kvs \<le> unat limit) \<and>
     (\<forall>k \<in> dom V. inRange start end k \<longrightarrow>
        k \<in> kv_key ` set kvs \<or>
        limit \<noteq> 0 \<and> length kvs = unat limit \<and> (\<forall>kv \<in> set kvs. kv_key kv < k))"

locale kv_backend =
  fixes getB :: "bytes \<Rightarrow> 'b \<Rightarrow> (string + bytes option) \<times> 'b"
    and writeB :: "BatchOp list \<Rightarrow> 'b \<Rightarrow> (string + unit) \<times> 'b"
    and scanB :: "bytes \<Rightarrow> bytes \<Rightarrow> u32 \<Rightarrow> 'b \<Rightarrow> (string + KV list) \<times> 'b"
    and live :: "'b \<Rightarrow> bool"
    and view :: "'b \<Rightarrow> bytes \<rightharpoonup> bytes"
    and may_fail :: bool
  assumes get_law: "live b \<Longrightarrow> getB k b = (r, b') \<Longrightarrow>
      live b' \<and> view b' = view b \<and> (case r of Inl e \<Rightarrow> may_fail | Inr v \<Rightarrow> v = view b k)"
    and write_law: "live b \<Longrightarrow> writeB ops b = (w, b') \<Longrightarrow>
      live b' \<and> (case w of Inl e \<Rightarrow> may_fail \<and> view b' = view b | Inr u \<Rightarrow> view b' = applyBatch ops (view b))"
    and scan_law: "live b \<Longrightarrow> scanB start end limit b = (q, b') \<Longrightarrow>
      live b' \<and> view b' = view b \<and>
      (case q of Inl e \<Rightarrow> may_fail | Inr kvs \<Rightarrow> scanned (view b) start end limit kvs)"
    and view_finite: "live b \<Longrightarrow> finite (dom (view b))"

lemma applyBatch_snoc: "applyBatch (ops @ [op]) V = applyOp (applyBatch ops V) op"
  by (simp add: applyBatch_def)

lemma map_of_memApply: "distinct (map fst m) \<Longrightarrow> map_of (memApply m op) = applyOp (map_of m) op \<and> distinct (map fst (memApply m op))"
  by (auto simp: memApply_def applyOp_def update_conv' delete_conv' distinct_update distinct_delete)

lemma map_of_memApplys:
  "distinct (map fst m) \<Longrightarrow>
     map_of (foldl memApply m ops) = applyBatch ops (map_of m) \<and> distinct (map fst (foldl memApply m ops))"
proof (induction ops arbitrary: m)
  case (Cons op ops)
  from map_of_memApply [OF Cons.prems, of op] Cons.IH [of "memApply m op"]
  show ?case by (simp add: applyBatch_def)
qed (simp add: applyBatch_def)

definition memLive :: "MemBackend \<Rightarrow> bool" where
  "memLive b \<longleftrightarrow> distinct (map fst (mb_m b))"

text \<open>The loop keeps the entries found so far and appends the next ones of the range.\<close>

lemma scanLoop_filter:
  assumes "sorted ks" "distinct ks" "length out < mx"
  shows "scanLoop m start end mx ks out =
     out @ map (\<lambda>k. \<lparr>kv_key = k, kv_value = the (map_of m k)\<rparr>)
             (take (mx - length out) (filter (inRange start end) ks))"
  using assms
proof (induction ks arbitrary: out)
  case (Cons k ks)
  consider "k < start" | "start \<le> k" "end \<noteq> []" "end \<le> k" | "start \<le> k" "end = [] \<or> k < end"
    by force
  then show ?case
  proof cases
    case 1
    then have "\<not> inRange start end k" by (auto simp: inRange_def)
    then show ?thesis using 1 Cons by simp
  next
    case 2
    have "\<not> inRange start end k'" if "k' \<in> set (k # ks)" for k'
      using that 2 Cons.prems(1) by (auto simp: inRange_def)
    then have "filter (inRange start end) (k # ks) = []" by (simp add: filter_empty_conv del: filter.simps)
    moreover have "\<not> k < start" using 2(1) by simp
    ultimately show ?thesis using 2 by simp
  next
    case 3
    then have r: "inRange start end k" "\<not> k < start" "\<not> (end \<noteq> [] \<and> end \<le> k)" by (auto simp: inRange_def)
    show ?thesis
    proof (cases "mx \<le> Suc (length out)")
      case True
      with Cons.prems(3) have "mx - length out = 1" by simp
      with r True show ?thesis by simp
    next
      case False
      then have "mx - length out = Suc (mx - Suc (length out))" using Cons.prems(3) by simp
      with r False Cons show ?thesis by simp
    qed
  qed
qed simp

lemma scanned_memScan:
  assumes "memLive b" "memScan start end limit b = (Inr kvs, b')"
  shows "scanned (map_of (mb_m b)) start end limit kvs"
proof -
  let ?m = "mb_m b" and ?mk = "\<lambda>k. \<lparr>kv_key = k, kv_value = the (map_of (mb_m b) k)\<rparr>"
  define keys where "keys = sort (map fst ?m)"
  define F where "F = filter (inRange start end) keys"
  define n where "n = (if limit = 0 then length keys else unat limit)"
  have keys: "sorted keys" "distinct keys" "set keys = dom (map_of ?m)"
    using assms(1) by (auto simp: keys_def memLive_def dom_map_of_conv_image_fst)
  then have F: "sorted_wrt (<) F" "set F = {k \<in> dom (map_of ?m). inRange start end k}"
    by (auto simp: F_def strict_sorted_iff sorted_wrt_filter)
  have kvs: "kvs = map ?mk (take n F)"
  proof (cases "n = 0")
    case True
    then have "keys = []" by (auto simp: n_def word_unat_eq_iff split: if_splits)
    then show ?thesis using assms(2) by (simp add: memScan_def keys_def F_def)
  next
    case False
    then show ?thesis
      using assms(2) scanLoop_filter [OF keys(1,2), of "[]" n ?m start "end"]
      by (auto simp: memScan_def Let_def keys_def n_def F_def)
  qed
  have tk: "set (take n F) \<subseteq> {k \<in> dom (map_of ?m). inRange start end k}"
    using set_take_subset F(2) by fast
  have keq: "map kv_key kvs = take n F" by (simp add: kvs comp_def)
  have order: "k' < k" if "k' \<in> set (take n F)" "k \<in> set (drop n F)" for k k'
    using F(1) that by (metis append_take_drop_id sorted_wrt_append)
  have "k \<in> set (take n F) \<or> limit \<noteq> 0 \<and> length kvs = unat limit \<and> (\<forall>kv \<in> set kvs. kv_key kv < k)"
    if "k \<in> dom (map_of ?m)" "inRange start end k" for k
  proof (cases "k \<in> set (take n F)")
    case False
    with F(2) that have k: "k \<in> set (drop n F)" by (metis (mono_tags, lifting) Un_iff append_take_drop_id mem_Collect_eq set_append)
    then have "n < length F" by (metis drop_all empty_iff list.set(1) not_le)
    moreover have "length F \<le> length keys" by (simp add: F_def)
    ultimately have "limit \<noteq> 0" "length kvs = unat limit" by (auto simp: n_def kvs split: if_splits)
    with order [OF _ k] show ?thesis by (auto simp: kvs)
  qed simp
  moreover have "sorted_wrt (<) (take n F)" by (rule sorted_wrt_take [OF F(1)])
  moreover have "kv_key ` set kvs = set (take n F)" by (metis keq set_map)
  ultimately show ?thesis
    using tk unfolding scanned_def keq by (auto simp: kvs n_def)
qed

interpretation mem: kv_backend memGet memWriteBatch memScan memLive "\<lambda>b. map_of (mb_m b)" False
proof
  fix b k r b' assume "memLive b" "memGet k b = (r, b')"
  then show "memLive b' \<and> map_of (mb_m b') = map_of (mb_m b) \<and> (case r of Inl e \<Rightarrow> False | Inr v \<Rightarrow> v = map_of (mb_m b) k)"
    by (auto simp: memGet_def memLive_def)
next
  fix b ops w b' assume "memLive b" "memWriteBatch ops b = (w, b')"
  then show "memLive b' \<and> (case w of Inl e \<Rightarrow> False \<and> map_of (mb_m b') = map_of (mb_m b)
      | Inr u \<Rightarrow> map_of (mb_m b') = applyBatch ops (map_of (mb_m b)))"
    using map_of_memApplys [of "mb_m b" ops] by (auto simp: memWriteBatch_def memLive_def)
next
  fix b start "end" limit q b' assume a: "memLive b" "memScan start end limit b = (q, b')"
  then obtain kvs where q: "q = Inr kvs" "b' = b" by (auto simp: memScan_def Let_def)
  with a scanned_memScan show "memLive b' \<and> map_of (mb_m b') = map_of (mb_m b) \<and>
      (case q of Inl e \<Rightarrow> False | Inr kvs \<Rightarrow> scanned (map_of (mb_m b)) start end limit kvs)"
    by auto
qed (simp add: finite_dom_map_of)

text \<open>C28. \<^verbatim>\<open>MemBackend.Scan\<close> meets the contract of the interface: it returns records of the range in
  strictly ascending key order, at most \<^verbatim>\<open>limit\<close> of them, and leaves out none before the last.\<close>

theorem memScan_correct:
  assumes "memLive b"
  shows "\<exists>kvs. memScan start end limit b = (Inr kvs, b) \<and> scanned (map_of (mb_m b)) start end limit kvs"
proof -
  obtain kvs where k: "memScan start end limit b = (Inr kvs, b)" by (simp add: memScan_def Let_def)
  then show ?thesis using mem.scan_law [OF assms k] by simp
qed

theorem memScan_correct_witness:
  "\<exists>kvs. memScan [1] [] 1 \<lparr>mb_m = [([2], [20]), ([1], [10])], mb_reads = 0\<rparr> =
     (Inr kvs, \<lparr>mb_m = [([2], [20]), ([1], [10])], mb_reads = 0\<rparr>) \<and> kvs = [\<lparr>kv_key = [1], kv_value = [10]\<rparr>]"
proof -
  let ?b = "\<lparr>mb_m = [([2], [20]), ([1], [10])], mb_reads = 0\<rparr>"
  have "memLive ?b" by (simp add: memLive_def)
  then obtain kvs where k: "memScan [1] [] 1 ?b = (Inr kvs, ?b)" using memScan_correct by blast
  moreover have "memScan [1] [] 1 ?b = (Inr [\<lparr>kv_key = [1], kv_value = [10]\<rparr>], ?b)" by (simp add: memScan_def Let_def)
  ultimately show ?thesis by simp
qed

end
