(* ===== verification/Pebble_Backend.thy ===== *)
theory Pebble_Backend
  imports Backend
begin

text \<open>
  \<^verbatim>\<open>backend/pebble/pebble.go\<close>: the adapter from a Pebble database to the storage interface. Pebble itself is a
  parameter, a record of the methods that the adapter calls; \<open>pebble_db\<close> states what its documentation promises of
  them. On such a database the adapter's scan always returns (\<open>pebbleScan_spec\<close>), and the adapter keeps the contract of the
  interface (\<open>pebble_kv\<close>), so that all that is shown of the store on an honest backend holds on Pebble.
\<close>

section \<open>The database\<close>

text \<open>The error of a point read: \<^verbatim>\<open>pebble.ErrNotFound\<close>, as \<^verbatim>\<open>errors.Is\<close> sees it, or any other.\<close>

datatype pebbleErr = ErrNotFound | PebbleErr string

text \<open>The methods of \<^verbatim>\<open>*pebble.DB\<close>, \<^verbatim>\<open>*pebble.Batch\<close> and \<^verbatim>\<open>*pebble.Iterator\<close> that the adapter uses, on a database \<open>'d\<close>,
  a batch \<open>'t\<close> and an iterator \<open>'i\<close>. The results of the deferred calls of \<^verbatim>\<open>Close\<close> are dropped, as in the
  source.\<close>

record ('d, 't, 'i) Pebble =
  pd_Get :: "bytes \<Rightarrow> 'd \<Rightarrow> (pebbleErr + bytes) \<times> 'd"
  pd_Release :: "'d \<Rightarrow> string option \<times> 'd"
  pd_NewBatch :: "'d \<Rightarrow> 't \<times> 'd"
  pd_Set :: "bytes \<Rightarrow> bytes \<Rightarrow> 't \<Rightarrow> string option \<times> 't"
  pd_Delete :: "bytes \<Rightarrow> 't \<Rightarrow> string option \<times> 't"
  pd_Commit :: "bool \<Rightarrow> 't \<Rightarrow> 'd \<Rightarrow> string option \<times> 'd"
  pd_CloseBatch :: "'t \<Rightarrow> 'd \<Rightarrow> 'd"
  pd_NewIter :: "bytes \<Rightarrow> bytes option \<Rightarrow> 'd \<Rightarrow> (string + 'i) \<times> 'd"
  pd_First :: "'i \<Rightarrow> bool \<times> 'i"
  pd_Next :: "'i \<Rightarrow> bool \<times> 'i"
  pd_Key :: "'i \<Rightarrow> bytes"
  pd_ValueAndErr :: "'i \<Rightarrow> (string + bytes) \<times> 'i"
  pd_Error :: "'i \<Rightarrow> string option"
  pd_CloseIter :: "'i \<Rightarrow> 'd \<Rightarrow> 'd"

section \<open>The adapter\<close>

record 'd PebbleBackend =
  pb_db :: 'd
  pb_sync :: bool

record 'o PebbleOptions =
  po_NoSync :: bool
  po_Pebble :: "'o option"

definition pebbleOpen :: "(bytes \<Rightarrow> 'o \<Rightarrow> string + 'd) \<Rightarrow> 'o \<Rightarrow> bytes \<Rightarrow> 'o PebbleOptions option \<Rightarrow> string + 'd PebbleBackend" where
  "pebbleOpen openDB defaults dir opts =
     (let ob = (case opts of None \<Rightarrow> \<lparr>po_NoSync = False, po_Pebble = None\<rparr> | Some x \<Rightarrow> x);
          po = (case po_Pebble ob of None \<Rightarrow> defaults | Some x \<Rightarrow> x)
      in case openDB dir po of
           Inl e \<Rightarrow> Inl e
         | Inr db \<Rightarrow> Inr \<lparr>pb_db = db, pb_sync = \<not> po_NoSync ob\<rparr>)"

definition pebbleWrap :: "'d \<Rightarrow> 'd PebbleBackend" where
  "pebbleWrap db = \<lparr>pb_db = db, pb_sync = True\<rparr>"

definition pebbleGet :: "('d, 't, 'i) Pebble \<Rightarrow> bytes \<Rightarrow> 'd PebbleBackend \<Rightarrow> (string + bytes option) \<times> 'd PebbleBackend" where
  "pebbleGet p key b =
     (case pd_Get p key (pb_db b) of
        (Inl ErrNotFound, d) \<Rightarrow> (Inr None, b\<lparr>pb_db := d\<rparr>)
      | (Inl (PebbleErr e), d) \<Rightarrow> (Inl e, b\<lparr>pb_db := d\<rparr>)
      | (Inr v, d) \<Rightarrow>
          (case pd_Release p d of
             (Some e, d') \<Rightarrow> (Inl e, b\<lparr>pb_db := d'\<rparr>)
           | (None, d') \<Rightarrow> (Inr (Some v), b\<lparr>pb_db := d'\<rparr>)))"

fun stageOps :: "('d, 't, 'i) Pebble \<Rightarrow> BatchOp list \<Rightarrow> 't \<Rightarrow> string option \<times> 't" where
  "stageOps p [] t = (None, t)"
| "stageOps p (op # ops) t =
     (case (if bo_delete op then pd_Delete p (bo_key op) t else pd_Set p (bo_key op) (bo_value op) t) of
        (Some e, t') \<Rightarrow> (Some e, t')
      | (None, t') \<Rightarrow> stageOps p ops t')"

definition pebbleWriteBatch :: "('d, 't, 'i) Pebble \<Rightarrow> BatchOp list \<Rightarrow> 'd PebbleBackend \<Rightarrow> (string + unit) \<times> 'd PebbleBackend" where
  "pebbleWriteBatch p ops b =
     (let (t, d) = pd_NewBatch p (pb_db b) in
      case stageOps p ops t of
        (Some e, t') \<Rightarrow> (Inl e, b\<lparr>pb_db := pd_CloseBatch p t' d\<rparr>)
      | (None, t') \<Rightarrow>
          (case pd_Commit p (pb_sync b) t' d of
             (Some e, d') \<Rightarrow> (Inl e, b\<lparr>pb_db := pd_CloseBatch p t' d'\<rparr>)
           | (None, d') \<Rightarrow> (Inr (), b\<lparr>pb_db := pd_CloseBatch p t' d'\<rparr>)))"

text \<open>The loop of \<^verbatim>\<open>Scan\<close>; it runs for as long as the iterator says that it is valid, so that a database could keep it
  running. The entries that it returns beside an iterator error are dropped by every caller and are not kept here.\<close>

partial_function (option) pebbleLoop ::
  "('d, 't, 'i) Pebble \<Rightarrow> int \<Rightarrow> bool \<Rightarrow> 'i \<Rightarrow> KV list \<Rightarrow> ((string + KV list) \<times> 'i) option"
where
  "pebbleLoop p mx valid it out =
     (if \<not> valid then Some (Inr out, it)
      else case pd_ValueAndErr p it of
             (Inl e, it1) \<Rightarrow> Some (Inl e, it1)
           | (Inr v, it1) \<Rightarrow>
               (let out' = out @ [\<lparr>kv_key = pd_Key p it1, kv_value = v\<rparr>] in
                if 0 < mx \<and> mx \<le> int (length out') then Some (Inr out', it1)
                else case pd_Next p it1 of (valid', it2) \<Rightarrow> pebbleLoop p mx valid' it2 out'))"

definition pebbleScan ::
  "('d, 't, 'i) Pebble \<Rightarrow> bytes \<Rightarrow> bytes \<Rightarrow> u32 \<Rightarrow> 'd PebbleBackend \<Rightarrow> ((string + KV list) \<times> 'd PebbleBackend) option"
where
  "pebbleScan p start end limit b =
     (case pd_NewIter p start (if 0 < length end then Some end else None) (pb_db b) of
        (Inl e, d) \<Rightarrow> Some (Inl e, b\<lparr>pb_db := d\<rparr>)
      | (Inr it, d) \<Rightarrow>
          (let mx = (if limit = 0 then -1 else int (unat limit));
               (valid, it1) = pd_First p it
           in case pebbleLoop p mx valid it1 [] of
                None \<Rightarrow> None
              | Some (Inl e, it2) \<Rightarrow> Some (Inl e, b\<lparr>pb_db := pd_CloseIter p it2 d\<rparr>)
              | Some (Inr out, it2) \<Rightarrow>
                  Some (case pd_Error p it2 of Some e \<Rightarrow> Inl e | None \<Rightarrow> Inr out, b\<lparr>pb_db := pd_CloseIter p it2 d\<rparr>)))"

section \<open>What Pebble promises\<close>

text \<open>\<open>view\<close> is the content of a database, \<open>staged\<close> that of a batch, \<open>entries\<close> the entries that an iterator
  ranges over and \<open>ahead\<close> the entry that it is at and those after it.\<close>

definition keeps_db :: "('d \<Rightarrow> bool) \<Rightarrow> ('d \<Rightarrow> bytes \<rightharpoonup> bytes) \<Rightarrow> 'd \<Rightarrow> 'd \<Rightarrow> bool" where
  "keeps_db live view d d' \<longleftrightarrow> live d' \<and> view d' = view d"

text \<open>Point reads find the value of the key or report that there is none.\<close>

definition pebble_reads :: "('d, 't, 'i) Pebble \<Rightarrow> ('d \<Rightarrow> bool) \<Rightarrow> ('d \<Rightarrow> bytes \<rightharpoonup> bytes) \<Rightarrow> bool" where
  "pebble_reads p live view \<longleftrightarrow>
     (\<forall>d. live d \<longrightarrow> finite (dom (view d))) \<and>
     (\<forall>d k r d'. live d \<longrightarrow> pd_Get p k d = (r, d') \<longrightarrow>
        keeps_db live view d d' \<and> (r = Inl ErrNotFound \<longrightarrow> view d k = None) \<and> (\<forall>v. r = Inr v \<longrightarrow> view d k = Some v)) \<and>
     (\<forall>d r d'. live d \<longrightarrow> pd_Release p d = (r, d') \<longrightarrow> keeps_db live view d d')"

text \<open>A batch collects its operations in order; a commit applies them all or, when it fails, none.\<close>

definition pebble_batches ::
  "('d, 't, 'i) Pebble \<Rightarrow> ('d \<Rightarrow> bool) \<Rightarrow> ('d \<Rightarrow> bytes \<rightharpoonup> bytes) \<Rightarrow> ('t \<Rightarrow> BatchOp list) \<Rightarrow> bool"
where
  "pebble_batches p live view staged \<longleftrightarrow>
     (\<forall>d t d'. live d \<longrightarrow> pd_NewBatch p d = (t, d') \<longrightarrow> keeps_db live view d d' \<and> staged t = []) \<and>
     (\<forall>k v t t'. pd_Set p k v t = (None, t') \<longrightarrow> staged t' = staged t @ [\<lparr>bo_key = k, bo_value = v, bo_delete = False\<rparr>]) \<and>
     (\<forall>k t t'. pd_Delete p k t = (None, t') \<longrightarrow> staged t' = staged t @ [\<lparr>bo_key = k, bo_value = [], bo_delete = True\<rparr>]) \<and>
     (\<forall>sync t d r d'. live d \<longrightarrow> pd_Commit p sync t d = (r, d') \<longrightarrow>
        live d' \<and> view d' = (if r = None then applyBatch (staged t) (view d) else view d)) \<and>
     (\<forall>t d. live d \<longrightarrow> keeps_db live view d (pd_CloseBatch p t d))"

text \<open>An iterator visits the entries between its bounds in ascending key order; where it stops early, it has an error to report.\<close>

definition pebble_iterates ::
  "('d, 't, 'i) Pebble \<Rightarrow> ('d \<Rightarrow> bool) \<Rightarrow> ('d \<Rightarrow> bytes \<rightharpoonup> bytes) \<Rightarrow> ('i \<Rightarrow> KV list) \<Rightarrow> ('i \<Rightarrow> KV list) \<Rightarrow> bool"
where
  "pebble_iterates p live view entries ahead \<longleftrightarrow>
     (\<forall>lower upper d r d'. live d \<longrightarrow> pd_NewIter p lower upper d = (r, d') \<longrightarrow>
        keeps_db live view d d' \<and>
        (\<forall>it. r = Inr it \<longrightarrow>
           sorted_wrt (<) (map kv_key (entries it)) \<and>
           (\<forall>kv. kv \<in> set (entries it) \<longleftrightarrow>
              view d (kv_key kv) = Some (kv_value kv) \<and> lower \<le> kv_key kv \<and> (\<forall>u. upper = Some u \<longrightarrow> kv_key kv < u)))) \<and>
     (\<forall>it valid it'. pd_First p it = (valid, it') \<longrightarrow>
        (if valid then ahead it' = entries it \<and> entries it \<noteq> [] else entries it = [] \<or> pd_Error p it' \<noteq> None)) \<and>
     (\<forall>it valid it' kv kvs. pd_Next p it = (valid, it') \<longrightarrow> ahead it = kv # kvs \<longrightarrow>
        (if valid then ahead it' = kvs \<and> kvs \<noteq> [] else kvs = [] \<or> pd_Error p it' \<noteq> None)) \<and>
     (\<forall>it kv kvs. ahead it = kv # kvs \<longrightarrow> pd_Key p it = kv_key kv) \<and>
     (\<forall>it kv kvs v it'. ahead it = kv # kvs \<longrightarrow> pd_ValueAndErr p it = (Inr v, it') \<longrightarrow> v = kv_value kv \<and> ahead it' = ahead it) \<and>
     (\<forall>it d. live d \<longrightarrow> keeps_db live view d (pd_CloseIter p it d))"

definition pebble_db ::
  "('d, 't, 'i) Pebble \<Rightarrow> ('d \<Rightarrow> bool) \<Rightarrow> ('d \<Rightarrow> bytes \<rightharpoonup> bytes) \<Rightarrow> ('t \<Rightarrow> BatchOp list) \<Rightarrow> ('i \<Rightarrow> KV list) \<Rightarrow> ('i \<Rightarrow> KV list) \<Rightarrow> bool"
where
  "pebble_db p live view staged entries ahead \<longleftrightarrow>
     pebble_reads p live view \<and> pebble_batches p live view staged \<and> pebble_iterates p live view entries ahead"

section \<open>The adapter keeps the contract\<close>

lemma stageOps_spec:
  "pebble_batches p live view staged \<Longrightarrow> stageOps p ops t = (None, t') \<Longrightarrow>
     applyBatch (staged t') V = applyBatch ops (applyBatch (staged t) V)"
proof (induction ops arbitrary: t)
  case (Cons op ops)
  obtain t1 where t1: "(if bo_delete op then pd_Delete p (bo_key op) t else pd_Set p (bo_key op) (bo_value op) t) = (None, t1)"
    "stageOps p ops t1 = (None, t')"
    using Cons.prems(2) by (auto split: prod.splits option.splits)
  have "applyBatch (staged t1) V = applyOp (applyBatch (staged t) V) op"
    using Cons.prems(1) t1(1) by (auto simp: pebble_batches_def applyBatch_snoc applyOp_def split: if_splits)
  then show ?case using Cons.IH [OF Cons.prems(1) t1(2)] by (simp add: applyBatch_def)
qed (simp add: applyBatch_def)

lemma iterator_range:
  assumes "pebble_iterates p live view entries ahead" "live d" "pd_NewIter p lower upper d = (r, d')"
  shows "keeps_db live view d d'"
    "r = Inr it \<Longrightarrow> sorted_wrt (<) (map kv_key (entries it))"
    "r = Inr it \<Longrightarrow> kv \<in> set (entries it) \<longleftrightarrow>
       view d (kv_key kv) = Some (kv_value kv) \<and> lower \<le> kv_key kv \<and> (\<forall>u. upper = Some u \<longrightarrow> kv_key kv < u)"
  using pebble_iterates_def [THEN iffD1, THEN conjunct1, OF assms(1), rule_format, OF assms(2,3)] by simp_all

lemma iterator_moves:
  assumes "pebble_iterates p live view entries ahead"
  shows "pd_First p it = (valid, it') \<Longrightarrow> if valid then ahead it' = entries it \<and> entries it \<noteq> [] else entries it = [] \<or> pd_Error p it' \<noteq> None"
    "pd_Next p it = (valid, it') \<Longrightarrow> ahead it = kv # kvs \<Longrightarrow> if valid then ahead it' = kvs \<and> kvs \<noteq> [] else kvs = [] \<or> pd_Error p it' \<noteq> None"
    "ahead it = kv # kvs \<Longrightarrow> pd_Key p it = kv_key kv"
    "ahead it = kv # kvs \<Longrightarrow> pd_ValueAndErr p it = (Inr v, it') \<Longrightarrow> v = kv_value kv \<and> ahead it' = ahead it"
    "live d \<Longrightarrow> keeps_db live view d (pd_CloseIter p it d)"
  using assms unfolding pebble_iterates_def by blast+

lemma KV_eta: "\<lparr>kv_key = kv_key kv, kv_value = kv_value kv\<rparr> = kv"
  by simp

lemma pebbleLoop_spec:
  assumes "pebble_iterates p live view entries ahead"
    and "if valid then ahead it = kvs \<and> kvs \<noteq> [] else kvs = [] \<or> pd_Error p it \<noteq> None" "0 < mx \<longrightarrow> int (length out) < mx"
  shows "\<exists>r it'. pebbleLoop p mx valid it out = Some (r, it') \<and>
    (\<forall>res. r = Inr res \<longrightarrow> pd_Error p it' = None \<longrightarrow> res = out @ (if 0 < mx then take (nat mx - length out) kvs else kvs))"
  using assms(2,3)
proof (induction kvs arbitrary: valid it out)
  case Nil
  then show ?case by (cases valid) (simp_all add: pebbleLoop.simps)
next
  case (Cons kv kvs)
  show ?case
  proof (cases valid)
    case True
    then have a: "ahead it = kv # kvs" using Cons.prems by simp
    show ?thesis
    proof (cases "pd_ValueAndErr p it")
      case (Pair rv it1)
      show ?thesis
      proof (cases rv)
        case (Inl e)
        then show ?thesis using Pair True by (simp add: pebbleLoop.simps)
      next
        case (Inr v)
        have v: "v = kv_value kv" "ahead it1 = kv # kvs" "pd_Key p it1 = kv_key kv"
          using iterator_moves(4) [OF assms(1) a, of v it1] iterator_moves(3) [OF assms(1)] a Pair Inr by auto
        let ?out = "out @ [kv]"
        obtain valid2 it2 where n: "pd_Next p it1 = (valid2, it2)" by fastforce
        have nx: "if valid2 then ahead it2 = kvs \<and> kvs \<noteq> [] else kvs = [] \<or> pd_Error p it2 \<noteq> None"
          by (rule iterator_moves(2) [OF assms(1) n v(2)])
        have step: "pebbleLoop p mx valid it out =
            (if 0 < mx \<and> mx \<le> int (length ?out) then Some (Inr ?out, it1) else pebbleLoop p mx valid2 it2 ?out)"
          using True Pair Inr v n by (subst pebbleLoop.simps) (simp add: Let_def KV_eta)
        show ?thesis
        proof (cases "0 < mx \<and> mx \<le> int (length ?out)")
          case True
          then have "nat mx - length out = 1" using Cons.prems(2) by simp
          then show ?thesis using step True by simp
        next
          case False
          have "take (nat mx - length out) (kv # kvs) = kv # take (nat mx - length ?out) kvs" if "0 < mx"
            using that False Cons.prems(2) by (simp add: take_Cons')
          then show ?thesis using Cons.IH [OF nx, of ?out] False step by (auto split: if_splits)
        qed
      qed
    qed
  next
    case False
    then show ?thesis using Cons.prems by (auto simp: pebbleLoop.simps)
  qed
qed

text \<open>The first entries of a range make a scan.\<close>

lemma scanned_take:
  assumes "sorted_wrt (<) (map kv_key kvs)" "\<And>kv. kv \<in> set kvs \<longleftrightarrow> V (kv_key kv) = Some (kv_value kv) \<and> inRange start end (kv_key kv)"
  shows "scanned V start end limit (if limit = 0 then kvs else take (unat limit) kvs)" (is "scanned _ _ _ _ ?t")
proof -
  have s: "set ?t \<subseteq> set kvs" "sorted_wrt (<) (map kv_key ?t)"
    using assms(1) set_take_subset [of "unat limit" kvs] by (auto simp: take_map [symmetric] sorted_wrt_take)
  have all: "k \<in> kv_key ` set ?t \<or> limit \<noteq> 0 \<and> length ?t = unat limit \<and> (\<forall>kv \<in> set ?t. kv_key kv < k)"
    if k: "V k = Some v" "inRange start end k" for k v
  proof -
    have "\<lparr>kv_key = k, kv_value = v\<rparr> \<in> set (take (unat limit) kvs) \<union> set (drop (unat limit) kvs)"
      using assms(2) k by (simp flip: set_append)
    then consider "\<lparr>kv_key = k, kv_value = v\<rparr> \<in> set ?t"
      | "limit \<noteq> 0" "\<lparr>kv_key = k, kv_value = v\<rparr> \<in> set (drop (unat limit) kvs)"
      by (cases "limit = 0") (auto dest: in_set_takeD in_set_dropD)
    then show ?thesis
    proof cases
      case 2
      have "sorted_wrt (<) (map kv_key (take (unat limit) kvs) @ map kv_key (drop (unat limit) kvs))"
        using assms(1) by (simp flip: map_append)
      then show ?thesis using 2 by (force simp: sorted_wrt_append)
    qed force
  qed
  show ?thesis unfolding scanned_def
  proof (intro conjI ballI impI)
    show "sorted_wrt (<) (map kv_key ?t)" by (rule s(2))
    fix kv
    assume "kv \<in> set ?t"
    then show "V (kv_key kv) = Some (kv_value kv)" "inRange start end (kv_key kv)" using s(1) assms(2) by auto
  next
    show "length ?t \<le> unat limit" if "limit \<noteq> 0" using that by simp
  next
    fix k
    assume "k \<in> dom V" "inRange start end k"
    then show "k \<in> kv_key ` set ?t \<or> limit \<noteq> 0 \<and> length ?t = unat limit \<and> (\<forall>kv \<in> set ?t. kv_key kv < k)" using all by blast
  qed
qed

lemma pebbleScan_spec:
  assumes "pebble_iterates p live view entries ahead" "live (pb_db b)"
  shows "\<exists>q b'. pebbleScan p start end limit b = Some (q, b') \<and> keeps_db live view (pb_db b) (pb_db b') \<and>
    (\<forall>kvs. q = Inr kvs \<longrightarrow> scanned (view (pb_db b)) start end limit kvs)"
proof -
  let ?u = "if 0 < length end then Some end else None"
  obtain r d where n: "pd_NewIter p start ?u (pb_db b) = (r, d)" by fastforce
  note rng = iterator_range [OF assms n]
  have k: "keeps_db live view (pb_db b) d" by (rule rng(1))
  show ?thesis
  proof (cases r)
    case (Inl e)
    then show ?thesis using n k by (simp add: pebbleScan_def)
  next
    case (Inr it)
    have e: "sorted_wrt (<) (map kv_key (entries it))"
      "kv \<in> set (entries it) \<longleftrightarrow> view (pb_db b) (kv_key kv) = Some (kv_value kv) \<and> inRange start end (kv_key kv)" for kv
      using rng(2,3) [OF Inr] by (auto simp: inRange_def)
    obtain valid it1 where f: "pd_First p it = (valid, it1)" by fastforce
    have fi: "if valid then ahead it1 = entries it \<and> entries it \<noteq> [] else entries it = [] \<or> pd_Error p it1 \<noteq> None"
      by (rule iterator_moves(1) [OF assms(1) f])
    let ?mx = "if limit = 0 then -1 else int (unat limit)"
    have mx: "0 < ?mx \<longrightarrow> int (length []) < ?mx" "0 < ?mx \<longleftrightarrow> limit \<noteq> 0" "nat ?mx = (if limit = 0 then 0 else unat limit)"
      by (simp_all add: word_less_nat_alt [symmetric] word_neq_0_conv [symmetric] uint_0_iff order_less_le)
    obtain r2 it2 where l: "pebbleLoop p ?mx valid it1 [] = Some (r2, it2)"
      "r2 = Inr res \<Longrightarrow> pd_Error p it2 = None \<Longrightarrow> res = (if limit = 0 then entries it else take (unat limit) (entries it))" for res
      using pebbleLoop_spec [OF assms(1) fi mx(1)] unfolding mx by (auto split: if_splits)
    have c: "keeps_db live view (pb_db b) (pd_CloseIter p it2 d)" using k iterator_moves(5) [OF assms(1), of d it2] by (simp add: keeps_db_def)
    show ?thesis using n Inr f l c scanned_take [OF e, of limit]
      by (cases r2; cases "pd_Error p it2") (auto simp: pebbleScan_def Let_def)
  qed
qed

lemma pebble_kv:
  assumes "pebble_db p live view staged entries ahead"
  shows "kv_backend (pebbleGet p) (pebbleWriteBatch p) (\<lambda>start end limit b. the (pebbleScan p start end limit b))
    (\<lambda>b. live (pb_db b)) (\<lambda>b. view (pb_db b)) True"
proof
  have r: "pebble_reads p live view" and w: "pebble_batches p live view staged" and i: "pebble_iterates p live view entries ahead"
    using assms by (simp_all add: pebble_db_def)
  fix b :: "'a PebbleBackend"
  assume b: "live (pb_db b)"
  show "live (pb_db b') \<and> view (pb_db b') = view (pb_db b) \<and> (case q of Inl e \<Rightarrow> True | Inr v \<Rightarrow> v = view (pb_db b) k)"
    if "pebbleGet p k b = (q, b')" for k q b'
  proof (cases "pd_Get p k (pb_db b)")
    case (Pair rv d)
    have d: "keeps_db live view (pb_db b) d" "rv = Inl ErrNotFound \<longrightarrow> view (pb_db b) k = None" "\<forall>v. rv = Inr v \<longrightarrow> view (pb_db b) k = Some v"
      using r b Pair unfolding pebble_reads_def by blast+
    have "keeps_db live view (pb_db b) d'" if "pd_Release p d = (x, d')" for x d'
      using r d(1) that unfolding pebble_reads_def keeps_db_def by metis
    then show ?thesis using that d Pair
      by (auto simp: pebbleGet_def keeps_db_def split: sum.splits pebbleErr.splits option.splits prod.splits)
  qed
  show "live (pb_db b') \<and> (case q of Inl e \<Rightarrow> True \<and> view (pb_db b') = view (pb_db b) | Inr u \<Rightarrow> view (pb_db b') = applyBatch ops (view (pb_db b)))"
    if "pebbleWriteBatch p ops b = (q, b')" for ops q b'
  proof -
    obtain t d e t' where t: "pd_NewBatch p (pb_db b) = (t, d)" "stageOps p ops t = (e, t')" by fastforce
    have d: "keeps_db live view (pb_db b) d" "staged t = []" using w b t(1) unfolding pebble_batches_def by blast+
    have c: "keeps_db live view x (pd_CloseBatch p t' x)" if "live x" for x using w that unfolding pebble_batches_def by blast
    have "live d' \<and> view d' = (if x = None then applyBatch (staged t') (view d) else view d)" if "pd_Commit p (pb_sync b) t' d = (x, d')" for x d'
      using w d(1) that unfolding pebble_batches_def keeps_db_def by blast
    note cm = this
    show ?thesis
    proof (cases e)
      case None
      obtain x d' where x: "pd_Commit p (pb_sync b) t' d = (x, d')" by fastforce
      have "applyBatch (staged t') (view d) = applyBatch ops (view d)"
        using stageOps_spec [OF w, of ops t t' "view d"] t(2) None d(2) by (simp add: applyBatch_def)
      then show ?thesis using that t None x cm [OF x] c [of d'] d(1)
        by (cases x) (auto simp: pebbleWriteBatch_def keeps_db_def)
    next
      case (Some m)
      then show ?thesis using that t c [of d] d(1) by (auto simp: pebbleWriteBatch_def keeps_db_def)
    qed
  qed
  show "live (pb_db b') \<and> view (pb_db b') = view (pb_db b) \<and>
      (case q of Inl e \<Rightarrow> True | Inr kvs \<Rightarrow> scanned (view (pb_db b)) start end limit kvs)"
    if "the (pebbleScan p start end limit b) = (q, b')" for start "end" limit q b'
    using pebbleScan_spec [OF i b, of start "end" limit] that by (auto simp: keeps_db_def split: sum.splits)
  show "finite (dom (view (pb_db b)))" using r b by (simp add: pebble_reads_def)
qed

text \<open>C33. Refinement. On a Pebble database that does what its documentation says, the adapter keeps the contract of the storage
  interface: point reads, atomic batches and ascending scans with a limit; and its scan always returns.\<close>

theorem pebble_contract:
  assumes "pebble_db p live view staged entries ahead"
  shows "kv_backend (pebbleGet p) (pebbleWriteBatch p) (\<lambda>start end limit b. the (pebbleScan p start end limit b))
      (\<lambda>b. live (pb_db b)) (\<lambda>b. view (pb_db b)) True \<and>
    (live (pb_db b) \<longrightarrow> pebbleScan p start end limit b \<noteq> None)"
  using pebble_kv [OF assms] pebbleScan_spec [of p live view entries ahead b start "end" limit] assms
  by (auto simp: pebble_db_def)

text \<open>A database as a list of entries: the instance on which the property is exercised.\<close>

definition listPebble :: "((bytes \<times> bytes) list, BatchOp list, KV list \<times> KV list) Pebble" where
  "listPebble =
     \<lparr>pd_Get = (\<lambda>k d. (case map_of d k of None \<Rightarrow> Inl ErrNotFound | Some v \<Rightarrow> Inr v, d)),
      pd_Release = (\<lambda>d. (None, d)),
      pd_NewBatch = (\<lambda>d. ([], d)),
      pd_Set = (\<lambda>k v t. (None, t @ [\<lparr>bo_key = k, bo_value = v, bo_delete = False\<rparr>])),
      pd_Delete = (\<lambda>k t. (None, t @ [\<lparr>bo_key = k, bo_value = [], bo_delete = True\<rparr>])),
      pd_Commit = (\<lambda>sync t d. (None, foldl memApply d t)),
      pd_CloseBatch = (\<lambda>t d. d),
      pd_NewIter = (\<lambda>lower upper d.
        (Inr (map (\<lambda>k. \<lparr>kv_key = k, kv_value = the (map_of d k)\<rparr>)
           (filter (\<lambda>k. lower \<le> k \<and> (case upper of None \<Rightarrow> True | Some u \<Rightarrow> k < u)) (sort (map fst d))), []), d)),
      pd_First = (\<lambda>(es, _). (es \<noteq> [], es, es)),
      pd_Next = (\<lambda>(es, rest). (tl rest \<noteq> [], es, tl rest)),
      pd_Key = (\<lambda>(_, rest). kv_key (hd rest)),
      pd_ValueAndErr = (\<lambda>(es, rest). (Inr (kv_value (hd rest)), es, rest)),
      pd_Error = (\<lambda>_. None),
      pd_CloseIter = (\<lambda>_ d. d)\<rparr>"

lemma listPebble_db: "pebble_db listPebble (\<lambda>d. distinct (map fst d)) map_of id fst snd"
proof -
  have "pebble_reads listPebble (\<lambda>d. distinct (map fst d)) map_of"
    by (auto simp: pebble_reads_def listPebble_def keeps_db_def finite_dom_map_of split: option.splits)
  moreover have "pebble_batches listPebble (\<lambda>d. distinct (map fst d)) map_of id"
    using map_of_memApplys by (auto simp: pebble_batches_def listPebble_def keeps_db_def)
  moreover have "pebble_iterates listPebble (\<lambda>d. distinct (map fst d)) map_of fst snd"
  proof -
    have s: "sorted_wrt (<) (filter P (sort (map fst d)))" if "distinct (map fst d)" for P and d :: "(bytes \<times> bytes) list"
      using that by (simp add: strict_sorted_iff sorted_filter [of id, simplified])
    have m: "kv \<in> (\<lambda>k. \<lparr>kv_key = k, kv_value = the (map_of d k)\<rparr>) ` {k \<in> fst ` set d. Q k} \<longleftrightarrow>
        map_of d (kv_key kv) = Some (kv_value kv) \<and> Q (kv_key kv)" for kv Q and d :: "(bytes \<times> bytes) list"
    proof -
      have "k \<in> fst ` set d \<longleftrightarrow> map_of d k \<noteq> None" for k by (simp add: map_of_eq_None_iff)
      then show ?thesis by (cases kv) auto
    qed
    show ?thesis using s m by (auto simp: pebble_iterates_def listPebble_def keeps_db_def comp_def split: option.splits)
  qed
  ultimately show ?thesis by (simp add: pebble_db_def)
qed

theorem pebble_contract_witness:
  "pebbleScan listPebble [1] [] 1 (pebbleWrap [([2], [7]), ([1], [5])]) \<noteq> None"
  using pebble_contract [OF listPebble_db, of "pebbleWrap [([2], [7]), ([1], [5])]" "[1]" "[]" 1] by (simp add: pebbleWrap_def)

end
