(* ===== verification/Go_Crypto.thy ===== *)
theory Go_Crypto
  imports Prelude
begin

text \<open>
  The parts of Go's standard library the ledger computes with: SHA-256 (\<^verbatim>\<open>crypto/sha256\<close>, FIPS
  180-4), HMAC-SHA-256 (\<^verbatim>\<open>crypto/hmac\<close>, FIPS 198-1) and AES-256-GCM with a 12-byte nonce
  (\<^verbatim>\<open>crypto/aes\<close> and \<^verbatim>\<open>crypto/cipher\<close>, FIPS 197 and SP 800-38D). They are executable
  definitions, so the ledger's hashes are closed terms and no property of a hash function is assumed
  anywhere: the lemmas here are the output lengths and that GCM opens what it sealed.
\<close>

unbundle bit_operations_syntax

section \<open>SHA-256\<close>

type_synonym w32 = "32 word"
type_synonym sha_state = "w32 \<times> w32 \<times> w32 \<times> w32 \<times> w32 \<times> w32 \<times> w32 \<times> w32"

definition sha_K :: "w32 list" where
  "sha_K =
     [1116352408, 1899447441, 3049323471, 3921009573, 961987163, 1508970993, 2453635748, 2870763221,
      3624381080, 310598401, 607225278, 1426881987, 1925078388, 2162078206, 2614888103, 3248222580,
      3835390401, 4022224774, 264347078, 604807628, 770255983, 1249150122, 1555081692, 1996064986,
      2554220882, 2821834349, 2952996808, 3210313671, 3336571891, 3584528711, 113926993, 338241895,
      666307205, 773529912, 1294757372, 1396182291, 1695183700, 1986661051, 2177026350, 2456956037,
      2730485921, 2820302411, 3259730800, 3345764771, 3516065817, 3600352804, 4094571909, 275423344,
      430227734, 506948616, 659060556, 883997877, 958139571, 1322822218, 1537002063, 1747873779,
      1955562222, 2024104815, 2227730452, 2361852424, 2428436474, 2756734187, 3204031479, 3329325298]"

definition sha_H0 :: sha_state where
  "sha_H0 =
     (1779033703, 3144134277, 1013904242, 2773480762,
      1359893119, 2600822924, 528734635, 1541459225)"

definition put32 :: "w32 \<Rightarrow> bytes" where
  "put32 v = [ucast (drop_bit 24 v), ucast (drop_bit 16 v), ucast (drop_bit 8 v), ucast v]"

fun get32s :: "bytes \<Rightarrow> w32 list" where
  "get32s (a # b # c # d # bs) =
     (push_bit 24 (ucast a) OR push_bit 16 (ucast b) OR push_bit 8 (ucast c) OR ucast d) # get32s bs"
| "get32s _ = []"

fun chunks :: "nat \<Rightarrow> 'a list \<Rightarrow> 'a list list" where
  "chunks n xs = (if xs = [] \<or> n = 0 then [] else take n xs # chunks n (drop n xs))"

declare chunks.simps [simp del]

definition sha_pad :: "bytes \<Rightarrow> bytes" where
  "sha_pad m = m @ 0x80 # replicate ((119 - length m mod 64) mod 64) 0 @
     putUint64 (of_nat (8 * length m))"

definition sha_Ch :: "w32 \<Rightarrow> w32 \<Rightarrow> w32 \<Rightarrow> w32" where
  "sha_Ch x y z = (x AND y) XOR (NOT x AND z)"

definition sha_Maj :: "w32 \<Rightarrow> w32 \<Rightarrow> w32 \<Rightarrow> w32" where
  "sha_Maj x y z = (x AND y) XOR (x AND z) XOR (y AND z)"

definition sha_rotr :: "nat \<Rightarrow> w32 \<Rightarrow> w32" where
  "sha_rotr n x = drop_bit n x OR push_bit (32 - n) x"

definition sha_next :: "w32 list \<Rightarrow> nat \<Rightarrow> w32" where
  "sha_next w t =
     (let a = w ! (t - 15); b = w ! (t - 2)
      in (sha_rotr 17 b XOR sha_rotr 19 b XOR drop_bit 10 b) + w ! (t - 7) +
         (sha_rotr 7 a XOR sha_rotr 18 a XOR drop_bit 3 a) + w ! (t - 16))"

definition sha_schedule :: "bytes \<Rightarrow> w32 list" where
  "sha_schedule blk = foldl (\<lambda>w t. w @ [sha_next w t]) (get32s blk) [16..<64]"

fun sha_round :: "sha_state \<Rightarrow> w32 \<times> w32 \<Rightarrow> sha_state" where
  "sha_round (a, b, c, d, e, f, g, h) (k, w) =
     (let t1 = h + (sha_rotr 6 e XOR sha_rotr 11 e XOR sha_rotr 25 e) + sha_Ch e f g + k + w;
          t2 = (sha_rotr 2 a XOR sha_rotr 13 a XOR sha_rotr 22 a) + sha_Maj a b c
      in (t1 + t2, a, b, c, d + t1, e, f, g))"

fun sha_add :: "sha_state \<Rightarrow> sha_state \<Rightarrow> sha_state" where
  "sha_add (a, b, c, d, e, f, g, h) (a', b', c', d', e', f', g', h') =
     (a + a', b + b', c + c', d + d', e + e', f + f', g + g', h + h')"

definition sha_block :: "sha_state \<Rightarrow> bytes \<Rightarrow> sha_state" where
  "sha_block s blk = sha_add (foldl sha_round s (zip sha_K (sha_schedule blk))) s"

fun sha_out :: "sha_state \<Rightarrow> bytes" where
  "sha_out (a, b, c, d, e, f, g, h) =
     put32 a @ put32 b @ put32 c @ put32 d @ put32 e @ put32 f @ put32 g @ put32 h"

definition sha256 :: "bytes \<Rightarrow> hash" where
  "sha256 m = sha_out (foldl sha_block sha_H0 (chunks 64 (sha_pad m)))"

lemma length_sha_out [simp]: "length (sha_out s) = 32"
  by (cases s rule: sha_out.cases) (simp add: put32_def)

lemma length_sha256 [simp]: "length (sha256 m) = 32"
  by (simp add: sha256_def)

section \<open>HMAC-SHA-256\<close>

definition hmac_key :: "bytes \<Rightarrow> bytes" where
  "hmac_key k = (let k0 = (if length k > 64 then sha256 k else k) in k0 @ replicate (64 - length k0) 0)"

definition hmac256 :: "bytes \<Rightarrow> bytes \<Rightarrow> hash" where
  "hmac256 k m =
     sha256 (map (\<lambda>b. b XOR 0x5c) (hmac_key k) @
       sha256 (map (\<lambda>b. b XOR 0x36) (hmac_key k) @ m))"

lemma length_hmac256 [simp]: "length (hmac256 k m) = 32"
  by (simp add: hmac256_def)

section \<open>AES-256\<close>

definition aes_sbox :: "bytes" where
  "aes_sbox =
     [0x63, 0x7c, 0x77, 0x7b, 0xf2, 0x6b, 0x6f, 0xc5, 0x30, 0x01, 0x67, 0x2b, 0xfe, 0xd7, 0xab, 0x76,
      0xca, 0x82, 0xc9, 0x7d, 0xfa, 0x59, 0x47, 0xf0, 0xad, 0xd4, 0xa2, 0xaf, 0x9c, 0xa4, 0x72, 0xc0,
      0xb7, 0xfd, 0x93, 0x26, 0x36, 0x3f, 0xf7, 0xcc, 0x34, 0xa5, 0xe5, 0xf1, 0x71, 0xd8, 0x31, 0x15,
      0x04, 0xc7, 0x23, 0xc3, 0x18, 0x96, 0x05, 0x9a, 0x07, 0x12, 0x80, 0xe2, 0xeb, 0x27, 0xb2, 0x75,
      0x09, 0x83, 0x2c, 0x1a, 0x1b, 0x6e, 0x5a, 0xa0, 0x52, 0x3b, 0xd6, 0xb3, 0x29, 0xe3, 0x2f, 0x84,
      0x53, 0xd1, 0x00, 0xed, 0x20, 0xfc, 0xb1, 0x5b, 0x6a, 0xcb, 0xbe, 0x39, 0x4a, 0x4c, 0x58, 0xcf,
      0xd0, 0xef, 0xaa, 0xfb, 0x43, 0x4d, 0x33, 0x85, 0x45, 0xf9, 0x02, 0x7f, 0x50, 0x3c, 0x9f, 0xa8,
      0x51, 0xa3, 0x40, 0x8f, 0x92, 0x9d, 0x38, 0xf5, 0xbc, 0xb6, 0xda, 0x21, 0x10, 0xff, 0xf3, 0xd2,
      0xcd, 0x0c, 0x13, 0xec, 0x5f, 0x97, 0x44, 0x17, 0xc4, 0xa7, 0x7e, 0x3d, 0x64, 0x5d, 0x19, 0x73,
      0x60, 0x81, 0x4f, 0xdc, 0x22, 0x2a, 0x90, 0x88, 0x46, 0xee, 0xb8, 0x14, 0xde, 0x5e, 0x0b, 0xdb,
      0xe0, 0x32, 0x3a, 0x0a, 0x49, 0x06, 0x24, 0x5c, 0xc2, 0xd3, 0xac, 0x62, 0x91, 0x95, 0xe4, 0x79,
      0xe7, 0xc8, 0x37, 0x6d, 0x8d, 0xd5, 0x4e, 0xa9, 0x6c, 0x56, 0xf4, 0xea, 0x65, 0x7a, 0xae, 0x08,
      0xba, 0x78, 0x25, 0x2e, 0x1c, 0xa6, 0xb4, 0xc6, 0xe8, 0xdd, 0x74, 0x1f, 0x4b, 0xbd, 0x8b, 0x8a,
      0x70, 0x3e, 0xb5, 0x66, 0x48, 0x03, 0xf6, 0x0e, 0x61, 0x35, 0x57, 0xb9, 0x86, 0xc1, 0x1d, 0x9e,
      0xe1, 0xf8, 0x98, 0x11, 0x69, 0xd9, 0x8e, 0x94, 0x9b, 0x1e, 0x87, 0xe9, 0xce, 0x55, 0x28, 0xdf,
      0x8c, 0xa1, 0x89, 0x0d, 0xbf, 0xe6, 0x42, 0x68, 0x41, 0x99, 0x2d, 0x0f, 0xb0, 0x54, 0xbb, 0x16]"

definition aes_sub :: "byte \<Rightarrow> byte" where
  "aes_sub b = aes_sbox ! unat b"

definition aes_xtime :: "byte \<Rightarrow> byte" where
  "aes_xtime b = push_bit 1 b XOR (if bit b 7 then 0x1b else 0)"

definition xor_bytes :: "bytes \<Rightarrow> bytes \<Rightarrow> bytes" where
  "xor_bytes a b = map2 (XOR) a b"

text \<open>Key schedule: 60 words of four bytes from the eight words of the key.\<close>

definition aes_rcon :: "nat \<Rightarrow> byte" where
  "aes_rcon i = push_bit i 1"

definition aes_next_word :: "bytes list \<Rightarrow> nat \<Rightarrow> bytes" where
  "aes_next_word w i =
     (let t = w ! (i - 1);
          t' = (if i mod 8 = 0
                then xor_bytes (map aes_sub (rotate1 t)) [aes_rcon (i div 8 - 1), 0, 0, 0]
                else if i mod 8 = 4 then map aes_sub t else t)
      in xor_bytes (w ! (i - 8)) t')"

definition aes_round_keys :: "bytes \<Rightarrow> bytes list" where
  "aes_round_keys key =
     map concat (chunks 4 (foldl (\<lambda>w i. w @ [aes_next_word w i]) (chunks 4 key) [8..<60]))"

text \<open>The state is the 16 bytes in column order.\<close>

definition aes_shift_rows :: "bytes \<Rightarrow> bytes" where
  "aes_shift_rows s = map (\<lambda>i. s ! i) [0, 5, 10, 15, 4, 9, 14, 3, 8, 13, 2, 7, 12, 1, 6, 11]"

fun aes_mix_columns :: "bytes \<Rightarrow> bytes" where
  "aes_mix_columns (a # b # c # d # s) =
     [aes_xtime a XOR aes_xtime b XOR b XOR c XOR d,
      a XOR aes_xtime b XOR aes_xtime c XOR c XOR d,
      a XOR b XOR aes_xtime c XOR aes_xtime d XOR d,
      aes_xtime a XOR a XOR b XOR c XOR aes_xtime d] @ aes_mix_columns s"
| "aes_mix_columns _ = []"

definition aes_block :: "bytes \<Rightarrow> bytes \<Rightarrow> bytes" where
  "aes_block key b =
     (let rk = aes_round_keys key;
          s = foldl (\<lambda>s i. xor_bytes (aes_mix_columns (aes_shift_rows (map aes_sub s))) (rk ! i))
                (xor_bytes b (rk ! 0)) [1..<14]
      in xor_bytes (aes_shift_rows (map aes_sub s)) (rk ! 14))"

section \<open>Galois/counter mode\<close>

type_synonym w128 = "128 word"

definition gcm_word :: "bytes \<Rightarrow> w128" where
  "gcm_word bs = foldl (\<lambda>a b. push_bit 8 a OR ucast b) 0 bs"

definition gcm_bytes :: "w128 \<Rightarrow> bytes" where
  "gcm_bytes w = map (\<lambda>i. ucast (drop_bit (120 - 8 * i) w)) [0..<16]"

definition gcm_mult :: "w128 \<Rightarrow> w128 \<Rightarrow> w128" where
  "gcm_mult x y =
     fst (foldl (\<lambda>(z, v) i.
       (if bit x (127 - i) then z XOR v else z,
        if bit v 0 then drop_bit 1 v XOR push_bit 120 0xe1 else drop_bit 1 v)) (0, y) [0..<128])"

definition gcm_pad16 :: "bytes \<Rightarrow> bytes" where
  "gcm_pad16 bs = bs @ replicate ((16 - length bs mod 16) mod 16) 0"

definition gcm_ghash :: "w128 \<Rightarrow> bytes \<Rightarrow> w128" where
  "gcm_ghash h bs = foldl (\<lambda>y blk. gcm_mult (y XOR gcm_word blk) h) 0 (chunks 16 bs)"

text \<open>Counter block \<open>i\<close> of the key stream: the nonce and the 32-bit counter, which starts at 2.\<close>

definition gcm_counter :: "bytes \<Rightarrow> nat \<Rightarrow> bytes" where
  "gcm_counter nonce i = nonce @ put32 (of_nat i)"

definition gcm_stream :: "bytes \<Rightarrow> bytes \<Rightarrow> nat \<Rightarrow> bytes" where
  "gcm_stream key nonce n =
     concat (map (\<lambda>i. aes_block key (gcm_counter nonce (i + 2))) [0..<(n + 15) div 16])"

text \<open>The key stream is padded with zeros to the length of the data, a no-op since every AES block has
  16 bytes.\<close>

definition gcm_ctr :: "bytes \<Rightarrow> bytes \<Rightarrow> bytes \<Rightarrow> bytes" where
  "gcm_ctr key nonce d = xor_bytes d (gcm_stream key nonce (length d) @ replicate (length d) 0)"

definition gcm_tag :: "bytes \<Rightarrow> bytes \<Rightarrow> bytes \<Rightarrow> bytes \<Rightarrow> bytes" where
  "gcm_tag key nonce ct aad =
     (let h = gcm_word (aes_block key (replicate 16 0));
          y = gcm_ghash h (gcm_pad16 aad @ gcm_pad16 ct @
                putUint64 (of_nat (8 * length aad)) @ putUint64 (of_nat (8 * length ct)))
      in gcm_bytes (y XOR gcm_word (aes_block key (gcm_counter nonce 1))))"

text \<open>\<^verbatim>\<open>gcm.Seal(nil, nonce, plaintext, aad)\<close> and \<^verbatim>\<open>gcm.Open\<close>.\<close>

definition gcm_seal :: "bytes \<Rightarrow> bytes \<Rightarrow> bytes \<Rightarrow> bytes \<Rightarrow> bytes" where
  "gcm_seal key nonce pt aad =
     (let ct = gcm_ctr key nonce pt in ct @ gcm_tag key nonce ct aad)"

definition gcm_open :: "bytes \<Rightarrow> bytes \<Rightarrow> bytes \<Rightarrow> bytes \<Rightarrow> bytes option" where
  "gcm_open key nonce sealed aad =
     (if length sealed < 16 then None
      else let ct = take (length sealed - 16) sealed; tag = drop (length sealed - 16) sealed
           in if gcm_tag key nonce ct aad = tag then Some (gcm_ctr key nonce ct) else None)"

lemma length_gcm_bytes [simp]: "length (gcm_bytes w) = 16"
  by (simp add: gcm_bytes_def)

lemma length_gcm_tag [simp]: "length (gcm_tag key nonce ct aad) = 16"
  by (simp add: gcm_tag_def Let_def)

lemma length_gcm_ctr [simp]: "length (gcm_ctr key nonce d) = length d"
  by (simp add: gcm_ctr_def xor_bytes_def)

lemma xor_bytes_twice: "length d \<le> length s \<Longrightarrow> xor_bytes (xor_bytes d s) s = d"
  by (induction d arbitrary: s) (auto simp: xor_bytes_def xor.assoc split: list.split, case_tac s, auto simp: xor.assoc)

lemma gcm_ctr_twice [simp]: "gcm_ctr key nonce (gcm_ctr key nonce d) = d"
  using xor_bytes_twice [of d "gcm_stream key nonce (length d) @ replicate (length d) 0"]
  by (simp add: gcm_ctr_def) (simp add: xor_bytes_def)

text \<open>Opening with the nonce and the associated data of the seal gives the plaintext back.\<close>

lemma gcm_open_seal [simp]: "gcm_open key nonce (gcm_seal key nonce pt aad) aad = Some pt"
  by (simp add: gcm_open_def gcm_seal_def Let_def)

lemma length_gcm_seal [simp]: "length (gcm_seal key nonce pt aad) = length pt + 16"
  by (simp add: gcm_seal_def Let_def)

end
