(* ===== verification/Node.thy ===== *)
theory Node
  imports Go_Crypto
begin

text \<open>
  \<^verbatim>\<open>ledger/hash.go\<close> and \<^verbatim>\<open>ledger/node.go\<close>: the domain-separated node hashes, the versioned node
  keys, internal and leaf nodes, their binary codecs and the node hash. The lemmas are the round
  trips of the two codecs in both directions (the decoder accepts exactly the encoder's image), that
  node keys encode injectively, and that the hash of a 16-slot node folded over index ranges is the
  fold over list slices.
\<close>

unbundle bit_operations_syntax

section \<open>Node hashes\<close>

definition tagLeaf :: bytes where "tagLeaf = ascii ''enclave-os-merkle:leaf:v1''"
definition tagInternal :: bytes where "tagInternal = ascii ''enclave-os-merkle:node:v1''"
definition tagPlaceholder :: bytes where "tagPlaceholder = ascii ''ENCLAVE_OS_MERKLE_PLACEHOLDER''"

definition sha256Parts :: "bytes list \<Rightarrow> hash" where
  "sha256Parts parts = sha256 (concat parts)"

definition placeholderHash :: hash where
  "placeholderHash = sha256Parts [tagPlaceholder]"

definition leafHash :: "hash \<Rightarrow> hash \<Rightarrow> hash" where
  "leafHash path vh = sha256Parts [tagLeaf, path, vh]"

definition internalHash :: "hash \<Rightarrow> hash \<Rightarrow> hash" where
  "internalHash left right = sha256Parts [tagInternal, left, right]"

lemma length_node_hashes [simp]:
  "length placeholderHash = 32" "length (leafHash p v) = 32" "length (internalHash l r) = 32"
  by (simp_all add: placeholderHash_def leafHash_def internalHash_def sha256Parts_def)

section \<open>Nibbles and node keys\<close>

text \<open>A full path has 64 nibbles; a nibble is a number below 16.\<close>

abbreviation (input) nibbles :: nat where "nibbles \<equiv> 64"

definition nibble :: "hash \<Rightarrow> nat \<Rightarrow> nat" where
  "nibble path i =
     (let b = path ! (i div 2)
      in if i mod 2 = 0 then unat (drop_bit 4 b) else unat (b AND 0x0F))"

record nodeKey =
  nk_version :: u64
  nk_prefix :: "nat list"

definition rootNodeKey :: "u64 \<Rightarrow> nodeKey" where
  "rootNodeKey v = \<lparr>nk_version = v, nk_prefix = []\<rparr>"

fun packNibbles :: "nat list \<Rightarrow> bytes" where
  "packNibbles [] = []"
| "packNibbles [h] = [push_bit 4 (of_nat h) OR 0]"
| "packNibbles (h # l # ns) = (push_bit 4 (of_nat h) OR of_nat l) # packNibbles ns"

definition encodeKey :: "nodeKey \<Rightarrow> bytes" where
  "encodeKey nk =
     putUint64 (nk_version nk) @ of_nat (length (nk_prefix nk)) # packNibbles (nk_prefix nk)"

section \<open>Nodes\<close>

record child =
  c_version :: u64
  c_hash :: hash
  c_isLeaf :: bool

record leafNode =
  l_path :: hash
  l_vh :: hash
  l_valueVersion :: u64

text \<open>The 16 children of an internal node are a list of length 16, \<open>None\<close> for a nil pointer.\<close>

datatype node = Internal "child option list" | Leaf leafNode

fun isLeaf :: "node \<Rightarrow> bool" where
  "isLeaf (Leaf l) = True"
| "isLeaf (Internal cs) = False"

abbreviation (input) nodeTagInternal :: byte where "nodeTagInternal \<equiv> 1"
abbreviation (input) nodeTagLeaf :: byte where "nodeTagLeaf \<equiv> 2"

text \<open>The slot indices, as a constant so that they are not unfolded into sixteen cases.\<close>

definition slots :: "nat list" where "slots = [0..<16]"

lemma slots_simps [simp]: "set slots = {0..<16}" "length slots = 16" "distinct slots"
  by (simp_all add: slots_def)

definition bitmapOf :: "child option list \<Rightarrow> u16" where
  "bitmapOf cs =
     foldl (\<lambda>bm i. if cs ! i \<noteq> None then bm OR push_bit i 1 else bm) 0 slots"

definition encodeChild :: "child \<Rightarrow> bytes" where
  "encodeChild c = putUint64 (c_version c) @ c_hash c @ [if c_isLeaf c then 1 else 0]"

fun encodeNode :: "node \<Rightarrow> bytes" where
  "encodeNode (Leaf l) = nodeTagLeaf # l_path l @ l_vh l @ putUint64 (l_valueVersion l)"
| "encodeNode (Internal cs) =
     nodeTagInternal # putUint16LE (bitmapOf cs) @
       concat (map (\<lambda>c. case c of None \<Rightarrow> [] | Some c \<Rightarrow> encodeChild c) cs)"

text \<open>The loop of the internal case over the slots, \<open>d\<close> the bytes from offset \<^verbatim>\<open>off\<close> on.\<close>

fun decodeChildren :: "u16 \<Rightarrow> nat list \<Rightarrow> bytes \<Rightarrow> goerr + child option list" where
  "decodeChildren bm [] d = Inr []"
| "decodeChildren bm (i # is) d =
     (if \<not> bit bm i then
        (case decodeChildren bm is d of Inl e \<Rightarrow> Inl e | Inr cs \<Rightarrow> Inr (None # cs))
      else let v = uint64 (take 8 d); h = take HashSize (drop 8 d); f = d ! 40
           in if f \<noteq> 0 \<and> f \<noteq> 1 then Inl (errCorrupted ''node decode: bad is_leaf flag'')
              else (case decodeChildren bm is (drop 41 d) of
                  Inl e \<Rightarrow> Inl e
                | Inr cs \<Rightarrow> Inr (Some \<lparr>c_version = v, c_hash = h, c_isLeaf = (f = 1)\<rparr> # cs)))"

definition decodeLeaf :: "bytes \<Rightarrow> goerr + node" where
  "decodeLeaf data =
     (if length data \<noteq> 1 + 2 * HashSize + 8 then Inl (errCorrupted ''node decode: bad leaf length'')
      else Inr (Leaf \<lparr>l_path = take HashSize (drop 1 data),
                      l_vh = take HashSize (drop (1 + HashSize) data),
                      l_valueVersion = uint64 (drop (1 + 2 * HashSize) data)\<rparr>))"

definition decodeInternal :: "bytes \<Rightarrow> goerr + node" where
  "decodeInternal data =
     (if length data < 3 then Inl (errCorrupted ''node decode: internal too short'')
      else let bm = uint16LE (take 2 (drop 1 data));
               count = length (filter (bit bm) slots)
           in if count = 0 then Inl (errCorrupted ''node decode: internal with no children'')
              else if length data \<noteq> 3 + count * 41
              then Inl (errCorrupted ''node decode: bad internal length'')
              else (case decodeChildren bm slots (drop 3 data) of
                  Inl e \<Rightarrow> Inl e | Inr cs \<Rightarrow> Inr (Internal cs)))"

definition decodeNode :: "bytes \<Rightarrow> goerr + node" where
  "decodeNode data =
     (if data = [] then Inl (errCorrupted ''node decode: unknown tag'')
      else if data ! 0 = nodeTagLeaf then decodeLeaf data
      else if data ! 0 = nodeTagInternal then decodeInternal data
      else Inl (errCorrupted ''node decode: unknown tag''))"

text \<open>The children present in the slots \<open>[start, start + width)\<close>.\<close>

definition present :: "child option list \<Rightarrow> nat \<Rightarrow> nat \<Rightarrow> child list" where
  "present cs start width = List.map_filter (\<lambda>i. cs ! i) [start..<start + width]"

lemma length_map_filter_le: "length (List.map_filter f xs) \<le> length xs"
  by (induction xs) (auto simp: List.map_filter_simps split: option.split)

lemma length_present_le: "length (present cs start width) \<le> width"
  using length_map_filter_le [of "\<lambda>i. cs ! i" "[start..<start + width]"] by (simp add: present_def)

function subtreeHash :: "child option list \<Rightarrow> nat \<Rightarrow> nat \<Rightarrow> hash" where
  "subtreeHash cs start width =
     (let ps = present cs start width
      in if length ps = 0 then placeholderHash
         else if length ps = 1 \<and> (width = 1 \<or> c_isLeaf (hd ps)) then c_hash (hd ps)
         else let half = width div 2;
                  left = subtreeHash cs start half;
                  right = subtreeHash cs (start + half) half
              in internalHash left right)"
  by pat_completeness auto
termination
proof (relation "measure (\<lambda>(cs, start, width). width)", goal_cases)
  case (2 cs start width x half)
  then show ?case using length_present_le [of cs start width] by (cases width) auto
next
  case (3 cs start width x half left)
  then show ?case using length_present_le [of cs start width] by (cases width) auto
qed simp

declare subtreeHash.simps [simp del]

fun hashNode :: "node \<Rightarrow> hash" where
  "hashNode (Leaf l) = leafHash (l_path l) (l_vh l)"
| "hashNode (Internal cs) = subtreeHash cs 0 16"

section \<open>Nibbles address a path\<close>

lemma nibble_less [simp]: "nibble p i < 16"
proof -
  have "unat (drop_bit 4 b) < 16" for b :: byte
  proof -
    have "take_bit 8 (unat b) = unat b"
      using unsigned_less [of b, where ?'a = nat] by (simp add: take_bit_nat_eq_self_iff)
    then have "unat (drop_bit 4 b) = drop_bit 4 (unat b)" by (simp add: unsigned_drop_bit_eq)
    also have "\<dots> = unat b div 16" by (simp add: drop_bit_eq_div)
    finally show ?thesis
      using unsigned_less [of b, where ?'a = nat] by (simp add: less_mult_imp_div_less)
  qed
  moreover have "unat (b AND 15) < 16" for b :: byte
    using word_and_le1 [of b 15] by (simp add: word_le_nat_alt)
  ultimately show ?thesis by (simp add: nibble_def Let_def)
qed

lemma byte_nibbles_eqI:
  assumes "unat (drop_bit 4 a) = unat (drop_bit 4 b)" "unat (a AND 15) = unat (b AND 15)"
  shows "a = (b :: byte)"
proof (rule bit_word_eqI)
  fix n assume "n < LENGTH(8)"
  have m: "mask 4 = (15 :: byte)" by (simp add: mask_numeral)
  from assms have hi: "drop_bit 4 a = drop_bit 4 b" and lo: "a AND mask 4 = b AND mask 4"
    by (auto simp only: m word_unat_eq_iff)
  show "bit a n = bit b n"
  proof (cases "n < 4")
    case True
    from lo have "bit (a AND mask 4) n = bit (b AND mask 4) n" by simp
    with True show ?thesis by (simp add: bit_simps)
  next
    case False
    from hi have "bit (drop_bit 4 a) (n - 4) = bit (drop_bit 4 b) (n - 4)" by simp
    with False show ?thesis by (simp add: bit_simps)
  qed
qed
lemma path_eq_nibbles:
  assumes "length p = 32" "length q = 32" "\<And>i. i < 64 \<Longrightarrow> nibble p i = nibble q i"
  shows "p = q"
proof (rule nth_equalityI)
  fix k assume "k < length p"
  with assms(1) have "2 * k < 64" "Suc (2 * k) < 64" by simp_all
  with assms(3) have "nibble p (2 * k) = nibble q (2 * k)" "nibble p (Suc (2 * k)) = nibble q (Suc (2 * k))"
    by blast+
  then show "p ! k = q ! k"
    by (intro byte_nibbles_eqI) (simp_all add: nibble_def)
qed (simp add: assms)

section \<open>Node keys encode injectively\<close>

definition wf_nodeKey :: "nodeKey \<Rightarrow> bool" where
  "wf_nodeKey nk \<longleftrightarrow> length (nk_prefix nk) \<le> 64 \<and> (\<forall>n \<in> set (nk_prefix nk). n < 16)"

lemma bit_small_nat: "(h::nat) < 16 \<Longrightarrow> bit h n \<Longrightarrow> n < 4"
proof (rule ccontr)
  assume h: "h < 16" "bit h n" "\<not> n < 4"
  then have "(2::nat) ^ 4 \<le> 2 ^ n" by (intro power_increasing) auto
  with h(1) have "h div 2 ^ n = 0" by simp
  with h(2) show False by (simp add: bit_iff_odd)
qed

lemma byte_pack: "h < 16 \<Longrightarrow> l < 16 \<Longrightarrow> push_bit 4 (of_nat h) OR of_nat l = (of_nat (16 * h + l) :: byte)"
proof -
  assume a: "h < 16" "l < 16"
  have "push_bit 4 (of_nat h) AND (of_nat l :: byte) = 0"
    by (intro bit_word_eqI) (auto simp: bit_simps dest: bit_small_nat [OF a(2)])
  then have "push_bit 4 (of_nat h) OR of_nat l = push_bit 4 (of_nat h) + (of_nat l :: byte)"
    by (simp add: disjunctive_add_eq_or)
  then show ?thesis by (simp add: push_bit_eq_mult)
qed
lemma of_nat_byte_inject: "a < 256 \<Longrightarrow> b < 256 \<Longrightarrow> (of_nat a :: byte) = of_nat b \<longleftrightarrow> a = b"
  by (auto simp: word_unat_eq_iff unat_of_nat)

lemma byte_high_low:
  assumes "h < 16" "l < 16" "h' < 16" "l' < 16"
    and "push_bit 4 (of_nat h) OR of_nat l = (push_bit 4 (of_nat h') OR of_nat l' :: byte)"
  shows "h = h' \<and> l = l'"
proof -
  have "(of_nat (16 * h + l) :: byte) = of_nat (16 * h' + l')"
    using assms by (simp only: byte_pack)
  moreover have "16 * h + l < 256" "16 * h' + l' < 256" using assms by simp_all
  ultimately have "16 * h + l = 16 * h' + l'" by (simp only: of_nat_byte_inject)
  then have "(16 * h + l) div 16 = (16 * h' + l') div 16" "(16 * h + l) mod 16 = (16 * h' + l') mod 16"
    by simp_all
  with assms(1-4) show ?thesis by simp
qed

lemma packNibbles_inject:
  "length xs = length ys \<Longrightarrow> \<forall>n \<in> set xs. n < 16 \<Longrightarrow> \<forall>n \<in> set ys. n < 16 \<Longrightarrow>
   packNibbles xs = packNibbles ys \<Longrightarrow> xs = ys"
proof (induction xs arbitrary: ys rule: packNibbles.induct)
  case (2 h)
  then obtain h' where "ys = [h']" by (cases ys) auto
  with 2 show ?case using byte_high_low [of h 0 h' 0] by simp
next
  case (3 h l ns)
  then obtain h' l' ns' where ys: "ys = h' # l' # ns'" by (cases ys rule: packNibbles.cases) auto
  have "h = h' \<and> l = l'" using 3(3-5) ys by (intro byte_high_low) auto
  moreover have "ns = ns'" using 3 ys by (intro 3(1)) auto
  ultimately show ?case using ys by simp
qed simp
lemma encodeKey_inject:
  assumes "wf_nodeKey a" "wf_nodeKey b"
  shows "encodeKey a = encodeKey b \<longleftrightarrow> a = b"
proof
  assume eq: "encodeKey a = encodeKey b"
  then have v: "nk_version a = nk_version b"
    and len: "(of_nat (length (nk_prefix a)) :: byte) = of_nat (length (nk_prefix b))"
    and pk: "packNibbles (nk_prefix a) = packNibbles (nk_prefix b)"
    by (simp_all add: encodeKey_def)
  from len assms have "length (nk_prefix a) = length (nk_prefix b)"
    by (simp add: wf_nodeKey_def of_nat_byte_inject)
  with pk assms have "nk_prefix a = nk_prefix b"
    by (intro packNibbles_inject) (auto simp: wf_nodeKey_def)
  with v show "a = b" by simp
qed simp

section \<open>Codec round trips\<close>

definition wf_leaf :: "leafNode \<Rightarrow> bool" where
  "wf_leaf l \<longleftrightarrow> is_hash (l_path l) \<and> is_hash (l_vh l)"

fun wf_node :: "node \<Rightarrow> bool" where
  "wf_node (Leaf l) = wf_leaf l"
| "wf_node (Internal cs) =
     (length cs = 16 \<and> (\<exists>c. Some c \<in> set cs) \<and> (\<forall>c. Some c \<in> set cs \<longrightarrow> is_hash (c_hash c)))"

lemma bit_push_bit_1: "bit (push_bit i 1 :: u16) n \<longleftrightarrow> n = i \<and> n < 16"
  by (auto simp only: push_bit_of_1 bit_exp_iff possible_bit_word len_num1 len_bit0 len_num0)

lemma bit_bitmap_fold:
  "bit (foldl (\<lambda>bm i. if cs ! i \<noteq> None then bm OR push_bit i 1 else bm) bm0 is :: u16) n \<longleftrightarrow>
     bit bm0 n \<or> n < 16 \<and> n \<in> set is \<and> cs ! n \<noteq> None"
proof (induction "is" arbitrary: bm0)
  case (Cons i "is")
  show ?case
    by (simp only: foldl.simps Cons.IH list.set) (auto simp only: bit_or_iff bit_push_bit_1 split: if_splits)
qed simp

lemma bit_bitmapOf: "bit (bitmapOf cs) n \<longleftrightarrow> n < 16 \<and> cs ! n \<noteq> None"
  unfolding bitmapOf_def bit_bitmap_fold by auto

lemma length_encodeChild: "is_hash (c_hash c) \<Longrightarrow> length (encodeChild c) = 41"
  by (simp add: encodeChild_def is_hash_def)

lemma decodeChildren_encode:
  assumes "\<And>i c. i \<in> set is \<Longrightarrow> cs ! i = Some c \<Longrightarrow> is_hash (c_hash c)"
    and "\<And>i. i \<in> set is \<Longrightarrow> bit bm i \<longleftrightarrow> cs ! i \<noteq> None"
  shows "decodeChildren bm is (concat (map (\<lambda>i. case cs ! i of None \<Rightarrow> [] | Some c \<Rightarrow> encodeChild c) is)) =
    Inr (map (\<lambda>i. cs ! i) is)"
  using assms
proof (induction "is")
  case (Cons i "is")
  then have IH: "decodeChildren bm is (concat (map (\<lambda>i. case cs ! i of None \<Rightarrow> [] | Some c \<Rightarrow> encodeChild c) is)) =
    Inr (map (\<lambda>i. cs ! i) is)"
    using Cons.prems(1) Cons.prems(2) by (intro Cons.IH) (meson list.set_intros(2))+
  show ?case
  proof (cases "cs ! i")
    case None
    with Cons.prems(2) [of i] have "\<not> bit bm i" by simp
    with None IH show ?thesis by simp
  next
    case (Some c)
    with Cons.prems(2) [of i] have b: "bit bm i" by simp
    from Cons.prems(1) [of i c] Some have h: "length (c_hash c) = 32" by (simp add: is_hash_def)
    then have "drop 41 (encodeChild c @ xs) = xs" "take 8 (encodeChild c @ xs) = putUint64 (c_version c)"
      "take 32 (drop 8 (encodeChild c @ xs)) = c_hash c"
      "(encodeChild c @ xs) ! 40 = (if c_isLeaf c then 1 else 0)" for xs
      by (simp_all add: encodeChild_def nth_append)
    with b Some IH show ?thesis by (simp add: Let_def)
  qed
qed simp

lemma map_nth_slots: "length cs = 16 \<Longrightarrow> map (\<lambda>i. cs ! i) slots = cs"
  unfolding slots_def by (metis map_nth)

lemma nth_slots [simp]: "i < 16 \<Longrightarrow> slots ! i = i"
  by (simp add: slots_def)


lemma decodeNode_encodeNode:
  assumes "wf_node n"
  shows "decodeNode (encodeNode n) = Inr n"
proof (cases n)
  case (Leaf l)
  then have "length (l_path l) = 32" "length (l_vh l) = 32" using assms by (simp_all add: wf_leaf_def is_hash_def)
  with Leaf show ?thesis by (simp add: decodeNode_def decodeLeaf_def)
next
  case (Internal cs)
  with assms have len: "length cs = 16" and ex: "\<exists>c. Some c \<in> set cs"
    and h: "\<And>c. Some c \<in> set cs \<Longrightarrow> is_hash (c_hash c)" by auto
  let ?enc = "\<lambda>c. case c of None \<Rightarrow> [] | Some c \<Rightarrow> encodeChild c"
  let ?f = "filter (bit (bitmapOf cs)) slots"
  have cnt: "length (concat (map ?enc (map (\<lambda>i. cs ! i) is))) = 41 * length (filter (\<lambda>i. cs ! i \<noteq> None) is)"
    if "set is \<subseteq> {0..<16}" for "is"
    using that
  proof (induction "is")
    case (Cons i "is")
    then have "i < length cs" using len by simp
    then have "cs ! i \<in> set cs" by simp
    with Cons h show ?case by (cases "cs ! i") (auto simp: length_encodeChild)
  qed simp
  have f: "?f = filter (\<lambda>i. cs ! i \<noteq> None) slots"
    by (rule filter_cong) (auto simp: bit_bitmapOf)
  have lenE: "length (concat (map ?enc cs)) = 41 * length ?f"
    using cnt [of "slots"] map_nth_slots [OF len] f by simp
  have pos: "length ?f \<noteq> 0"
  proof -
    from ex obtain i where "i < 16" "cs ! i \<noteq> None" using len by (metis in_set_conv_nth option.distinct(1))
    then have "i \<in> set ?f" by (simp add: f)
    then have "?f \<noteq> []" by (metis empty_iff empty_set)
    then show ?thesis by simp
  qed
  have hn: "is_hash (c_hash c)" if "i < 16" "cs ! i = Some c" for i c
    using that h [of c] nth_mem [of i cs] len by simp
  have "decodeChildren (bitmapOf cs) slots (concat (map (\<lambda>i. ?enc (cs ! i)) slots)) = Inr (map (\<lambda>i. cs ! i) slots)"
  proof (rule decodeChildren_encode)
    show "is_hash (c_hash c)" if "i \<in> set slots" "cs ! i = Some c" for i c
      using hn [of i c] that by simp
  qed (simp add: bit_bitmapOf)
  moreover have "map (\<lambda>i. ?enc (cs ! i)) slots = map ?enc (map (\<lambda>i. cs ! i) slots)"
    unfolding map_map comp_def ..
  ultimately have "decodeChildren (bitmapOf cs) slots (concat (map ?enc cs)) = Inr cs"
    using map_nth_slots [OF len] by simp
  then show ?thesis
    using Internal lenE pos by (simp add: decodeNode_def decodeInternal_def Let_def)
qed

lemma decodeChildren_Inr:
  assumes "decodeChildren bm is d = Inr cs" "length d = 41 * length (filter (bit bm) is)"
  shows "map (\<lambda>c. c \<noteq> None) cs = map (bit bm) is \<and> (\<forall>c. Some c \<in> set cs \<longrightarrow> is_hash (c_hash c)) \<and>
    concat (map (\<lambda>c. case c of None \<Rightarrow> [] | Some c \<Rightarrow> encodeChild c) cs) = d"
  using assms
proof (induction "is" arbitrary: d cs)
  case (Cons i "is")
  show ?case
  proof (cases "bit bm i")
    case False
    with Cons.prems obtain cs' where "decodeChildren bm is d = Inr cs'" "cs = None # cs'"
      by (auto split: sum.splits)
    with Cons.IH [of d cs'] Cons.prems False show ?thesis by simp
  next
    case True
    let ?c = "\<lparr>c_version = uint64 (take 8 d), c_hash = take 32 (drop 8 d), c_isLeaf = (d ! 40 = 1)\<rparr>"
    from True Cons.prems obtain cs' where f: "d ! 40 = 0 \<or> d ! 40 = 1"
      and dc: "decodeChildren bm is (drop 41 d) = Inr cs'" and cs: "cs = Some ?c # cs'"
      by (auto simp: Let_def split: sum.splits if_splits)
    from True Cons.prems have len: "41 \<le> length d" by simp
    have "encodeChild ?c = take 8 d @ take 32 (drop 8 d) @ [d ! 40]"
      using f len by (auto simp: encodeChild_def putUint64_uint64)
    also have "\<dots> = take 41 d"
    proof -
      have "take 41 d = take 8 d @ take 33 (drop 8 d)" using take_add [of 8 33 d] by simp
      moreover have "take 33 (drop 8 d) = take 32 (drop 8 d) @ [d ! 40]"
        using take_Suc_conv_app_nth [of 32 "drop 8 d"] len by (simp add: nth_drop)
      ultimately show ?thesis by simp
    qed
    finally have enc: "encodeChild ?c = take 41 d" .
    have "is_hash (c_hash ?c)" using len by (simp add: is_hash_def)
    moreover have "length (drop 41 d) = 41 * length (filter (bit bm) is)" using Cons.prems(2) True by simp
    ultimately show ?thesis using Cons.IH [OF dc] True cs enc by auto
  qed
qed auto

lemma bitmapOf_eqI:
  assumes "map (\<lambda>c. c \<noteq> None) cs = map (bit bm) slots"
  shows "bitmapOf cs = bm"
proof (rule bit_word_eqI)
  fix n assume "n < LENGTH(16)"
  then have n: "n < 16" by simp
  have "length cs = 16" using arg_cong [OF assms, of length] by simp
  then have "(cs ! n \<noteq> None) = map (\<lambda>c. c \<noteq> None) cs ! n" using n by simp
  also have "\<dots> = bit bm n" using n by (simp only: assms) simp
  finally show "bit (bitmapOf cs) n = bit bm n" using n by (simp add: bit_bitmapOf)
qed

lemma decodeLeaf_Inr:
  assumes "decodeLeaf d = Inr n" "d = 2 # drop 1 d"
  shows "wf_node n \<and> encodeNode n = d"
proof -
  from assms(1) have len: "length d = 73"
    and n: "n = Leaf \<lparr>l_path = take 32 (drop 1 d), l_vh = take 32 (drop 33 d), l_valueVersion = uint64 (drop 65 d)\<rparr>"
    by (auto simp: decodeLeaf_def split: if_splits)
  have "drop 1 d = take 32 (drop 1 d) @ take 32 (drop 33 d) @ drop 65 d"
    using append_take_drop_id [of 32 "drop 1 d"] append_take_drop_id [of 32 "drop 33 d"] by simp
  with assms(2) len n show ?thesis
    by (simp add: wf_leaf_def is_hash_def putUint64_uint64)
qed

lemma decodeInternal_Inr:
  assumes di: "decodeInternal d = Inr n" and d: "d = 1 # drop 1 d"
  shows "wf_node n \<and> encodeNode n = d"
proof -
  let ?bm = "uint16LE (take 2 (drop 1 d))"
  from di have len3: "3 \<le> length d" by (simp add: decodeInternal_def split: if_splits)
  then have big: "\<not> length d < 3" by simp
  define k where "k = length (filter (bit ?bm) slots)"
  have eq: "decodeInternal d = (if k = 0 then Inl (errCorrupted ''node decode: internal with no children'')
      else if length d \<noteq> 3 + k * 41 then Inl (errCorrupted ''node decode: bad internal length'')
      else (case decodeChildren ?bm slots (drop 3 d) of Inl e \<Rightarrow> Inl e | Inr cs \<Rightarrow> Inr (Internal cs)))"
    unfolding decodeInternal_def using big by (simp only: if_False Let_def k_def)
  from eq di have k0: "k \<noteq> 0" by (intro notI) simp
  with eq di have lenk: "length d = 3 + k * 41" by (intro ccontr [of "length d = 3 + k * 41"]) simp
  from k0 lenk eq have "decodeInternal d = (case decodeChildren ?bm slots (drop 3 d) of Inl e \<Rightarrow> Inl e | Inr cs \<Rightarrow> Inr (Internal cs))"
    by simp
  then obtain cs where dc: "decodeChildren ?bm slots (drop 3 d) = Inr cs" and n: "n = Internal cs"
    using di by (simp split: sum.splits)
  have c0: "filter (bit ?bm) slots \<noteq> []" using k0 by (simp add: k_def)
  have "length (drop 3 d) = 41 * k" using lenk by simp
  from decodeChildren_Inr [OF dc this [unfolded k_def]] have bm: "map (\<lambda>c. c \<noteq> None) cs = map (bit ?bm) slots"
    and h: "\<forall>c. Some c \<in> set cs \<longrightarrow> is_hash (c_hash c)"
    and enc: "concat (map (\<lambda>c. case c of None \<Rightarrow> [] | Some c \<Rightarrow> encodeChild c) cs) = drop 3 d"
    by auto
  have "length cs = 16" using arg_cong [OF bm, of length] by simp
  moreover have "\<exists>c. Some c \<in> set cs"
  proof -
    from c0 obtain i where "i \<in> set slots" "bit ?bm i" by (meson filter_False)
    then have "True \<in> set (map (bit ?bm) slots)" by auto
    then have "True \<in> set (map (\<lambda>c. c \<noteq> None) cs)" by (simp only: bm)
    then show ?thesis by auto
  qed
  moreover have "putUint16LE ?bm = take 2 (drop 1 d)" using len3 by (intro putUint16LE_uint16LE) simp
  moreover have "drop 1 d = take 2 (drop 1 d) @ drop 3 d"
    using append_take_drop_id [of 2 "drop 1 d"] by simp
  ultimately show ?thesis
    using h enc n d bitmapOf_eqI [OF bm] by simp
qed

lemma decodeNode_Inr:
  assumes "decodeNode d = Inr n"
  shows "wf_node n \<and> encodeNode n = d"
proof -
  from assms have ne: "d \<noteq> []" by (auto simp: decodeNode_def)
  then have d: "d = d ! 0 # drop 1 d" by (cases d) auto
  consider (leaf) "d ! 0 = 2" | (int) "d ! 0 = 1"
    using assms ne by (auto simp: decodeNode_def split: if_splits)
  then show ?thesis
  proof cases
    case leaf
    with assms ne d show ?thesis by (intro decodeLeaf_Inr) (simp_all add: decodeNode_def)
  next
    case int
    with assms ne d show ?thesis by (intro decodeInternal_Inr) (simp_all add: decodeNode_def)
  qed
qed

section \<open>The node hash over slices\<close>

text \<open>The same fold on the list of slots of a range.\<close>

function sliceHash :: "child option list \<Rightarrow> hash" where
  "sliceHash xs =
     (let ps = List.map_filter id xs
      in if length ps = 0 then placeholderHash
         else if length ps = 1 \<and> (length xs = 1 \<or> c_isLeaf (hd ps)) then c_hash (hd ps)
         else internalHash (sliceHash (take (length xs div 2) xs)) (sliceHash (take (length xs div 2) (drop (length xs div 2) xs))))"
  by pat_completeness auto
termination
proof (relation "measure length", goal_cases)
  case (2 xs ps)
  then show ?case using length_map_filter_le [of id xs] by (cases "length xs") auto
next
  case (3 xs ps)
  then show ?case using length_map_filter_le [of id xs] by (cases "length xs") auto
qed simp

declare sliceHash.simps [simp del]

lemma present_slice:
  "start + width \<le> length cs \<Longrightarrow> present cs start width = List.map_filter id (take width (drop start cs))"
proof -
  assume "start + width \<le> length cs"
  then have "take width (drop start cs) = map (\<lambda>i. cs ! i) [start..<start + width]"
    by (intro nth_equalityI) auto
  then show ?thesis by (simp add: present_def List.map_filter_def comp_def filter_map)
qed

lemma subtreeHash_slice:
  "start + width \<le> length cs \<Longrightarrow> subtreeHash cs start width = sliceHash (take width (drop start cs))"
proof (induction cs start width rule: subtreeHash.induct)
  case (1 cs start width)
  define xs where "xs = take width (drop start cs)"
  have ps: "present cs start width = List.map_filter id xs" and len: "length xs = width"
    using 1(3) present_slice [of start width cs] by (simp_all add: xs_def)
  show ?case
  proof (cases "length (present cs start width) = 0 \<or> length (present cs start width) = 1 \<and> (width = 1 \<or> c_isLeaf (hd (present cs start width)))")
    case True
    then show ?thesis
      unfolding xs_def [symmetric]
      by (subst subtreeHash.simps, subst sliceHash.simps) (auto simp: ps len Let_def)
  next
    case False
    let ?h = "width div 2"
    have l: "subtreeHash cs start ?h = sliceHash (take ?h (drop start cs))"
      using False 1(3) by (intro 1(1)) auto
    have r: "subtreeHash cs (start + ?h) ?h = sliceHash (take ?h (drop (start + ?h) cs))"
      using False 1(3) by (intro 1(2)) auto
    have "subtreeHash cs start width = internalHash (sliceHash (take ?h (drop start cs))) (sliceHash (take ?h (drop (start + ?h) cs)))"
      using False l r by (subst subtreeHash.simps) (auto simp: Let_def)
    moreover have "take ?h xs = take ?h (drop start cs)" by (simp add: xs_def min_def)
    moreover have "take ?h (drop ?h xs) = take ?h (drop (start + ?h) cs)"
      by (simp add: xs_def drop_take min_def add.commute)
    ultimately show ?thesis
      unfolding xs_def [symmetric] using False by (subst sliceHash.simps) (auto simp: ps len Let_def)
  qed
qed

section \<open>Properties\<close>

text \<open>C26. The node codec is exact: the decoder accepts a record if and only if it is the encoding of a
  well-formed node, and then returns that node (the claim of \<^verbatim>\<open>decodeNode\<close>'s comment: strict,
  rejects anything the encoder would not produce).\<close>

theorem decodeNode_exact: "decodeNode d = Inr n \<longleftrightarrow> wf_node n \<and> encodeNode n = d"
  using decodeNode_Inr decodeNode_encodeNode by auto

text \<open>Node keys of different (version, prefix) pairs have different encodings, so node records
  never overwrite each other.\<close>

theorem encodeKey_injective:
  assumes "wf_nodeKey a" "wf_nodeKey b" "encodeKey a = encodeKey b"
  shows "a = b"
  using encodeKey_inject [OF assms(1,2)] assms(3) by simp

theorem encodeKey_injective_witness:
  "\<lparr>nk_version = 7, nk_prefix = [1, 2, 3]\<rparr> = \<lparr>nk_version = 7, nk_prefix = [1, 2, 3 :: nat]\<rparr>"
  by (rule encodeKey_injective) (simp_all add: wf_nodeKey_def)

end
