(* ===== verification/Cache.thy ===== *)
theory Cache
  imports Node
begin

text \<open>
  \<^verbatim>\<open>ledger/cache.go\<close>: the least-recently-used cache of node records. A Go map is an association
  list with distinct keys. The lemmas show that the cache never grows beyond its capacity, that it
  only ever returns the node last put under a key, and that an eviction removes an entry whose last use
  is the oldest.
\<close>

record cacheEntry =
  ce_node :: node
  ce_lastUsed :: u64

record nodeCache =
  nc_capacity :: int
  nc_tick :: u64
  nc_m :: "(bytes \<times> cacheEntry) list"

definition newNodeCache :: "int \<Rightarrow> nodeCache" where
  "newNodeCache capacity = \<lparr>nc_capacity = capacity, nc_tick = 0, nc_m = []\<rparr>"

definition cacheGet :: "nodeKey \<Rightarrow> nodeCache \<Rightarrow> node option \<times> nodeCache" where
  "cacheGet nk c =
     (let c1 = c\<lparr>nc_tick := nc_tick c + 1\<rparr>; k = encodeKey nk
      in case map_of (nc_m c1) k of
           None \<Rightarrow> (None, c1)
         | Some e \<Rightarrow>
             (Some (ce_node e),
              c1\<lparr>nc_m := AList.update k (e\<lparr>ce_lastUsed := nc_tick c1\<rparr>) (nc_m c1)\<rparr>))"

text \<open>The loop that looks for the oldest entry; \<open>None\<close> while \<^verbatim>\<open>first\<close> holds.\<close>

definition olderEntry :: "(bytes \<times> u64) option \<Rightarrow> bytes \<times> cacheEntry \<Rightarrow> (bytes \<times> u64) option" where
  "olderEntry acc ke =
     (case acc of
        None \<Rightarrow> Some (fst ke, ce_lastUsed (snd ke))
      | Some (oldestKey, oldestTick) \<Rightarrow>
          if ce_lastUsed (snd ke) < oldestTick then Some (fst ke, ce_lastUsed (snd ke)) else acc)"

definition oldestKey :: "(bytes \<times> cacheEntry) list \<Rightarrow> bytes" where
  "oldestKey m = (case foldl olderEntry None m of None \<Rightarrow> [] | Some (k, t) \<Rightarrow> k)"

definition cachePut :: "nodeKey \<Rightarrow> node \<Rightarrow> nodeCache \<Rightarrow> nodeCache" where
  "cachePut nk n c =
     (if nc_capacity c = 0 then c
      else let k = encodeKey nk;
               m = (if map_of (nc_m c) k = None \<and> nc_capacity c \<le> int (length (nc_m c))
                    then AList.delete (oldestKey (nc_m c)) (nc_m c) else nc_m c);
               tick = nc_tick c + 1
           in c\<lparr>nc_tick := tick,
                nc_m := AList.update k \<lparr>ce_node = n, ce_lastUsed = tick\<rparr> m\<rparr>)"

definition cacheClear :: "nodeCache \<Rightarrow> nodeCache" where
  "cacheClear c = c\<lparr>nc_m := []\<rparr>"

definition cacheSetCapacity :: "int \<Rightarrow> nodeCache \<Rightarrow> nodeCache" where
  "cacheSetCapacity capacity c = c\<lparr>nc_capacity := capacity, nc_m := []\<rparr>"

definition cacheLen :: "nodeCache \<Rightarrow> nat" where
  "cacheLen c = length (nc_m c)"

section \<open>Contents, bound and eviction order\<close>

text \<open>The node that the cache holds for an encoded key.\<close>

definition cached :: "nodeCache \<Rightarrow> bytes \<rightharpoonup> node" where
  "cached c k = map_option ce_node (map_of (nc_m c) k)"

definition cache_ok :: "nodeCache \<Rightarrow> bool" where
  "cache_ok c \<longleftrightarrow> distinct (map fst (nc_m c)) \<and> (0 \<le> nc_capacity c \<longrightarrow> int (cacheLen c) \<le> nc_capacity c)"

lemma cacheGet_spec:
  "cache_ok c \<Longrightarrow> cacheGet nk c = (r, c') \<Longrightarrow>
     r = cached c (encodeKey nk) \<and> cached c' = cached c \<and> cache_ok c' \<and> nc_capacity c' = nc_capacity c"
  by (auto simp: cacheGet_def cached_def cache_ok_def cacheLen_def Let_def update_conv' distinct_update fun_eq_iff
        dom_map_of_conv_image_fst length_alist_update image_iff split: option.splits)
    (metis fst_conv)

lemma olderEntry_simps [simp]:
  "olderEntry None (k, e) = Some (k, ce_lastUsed e)"
  "olderEntry (Some (k0, t0)) (k, e) =
     (if ce_lastUsed e < t0 then Some (k, ce_lastUsed e) else Some (k0, t0))"
  by (simp_all add: olderEntry_def)

text \<open>The key found by the eviction loop is a key of the cache with a minimal last use.\<close>

lemma foldl_olderEntry:
  "foldl olderEntry (Some (k0, t0)) m = Some (k, t) \<Longrightarrow>
     (k, t) \<in> insert (k0, t0) ((\<lambda>(k, e). (k, ce_lastUsed e)) ` set m) \<and> t \<le> t0 \<and>
     (\<forall>(k', e) \<in> set m. t \<le> ce_lastUsed e)"
proof (induction m arbitrary: k0 t0)
  case (Cons ke m)
  obtain k1 e1 where ke: "ke = (k1, e1)" by fastforce
  show ?case
  proof (cases "ce_lastUsed e1 < t0")
    case True
    then have "foldl olderEntry (Some (k1, ce_lastUsed e1)) m = Some (k, t)"
      using Cons.prems by (simp add: ke)
    from Cons.IH [OF this] True show ?thesis by (auto simp: ke)
  next
    case False
    then have "foldl olderEntry (Some (k0, t0)) m = Some (k, t)"
      using Cons.prems by (simp add: ke)
    from Cons.IH [OF this] False show ?thesis by (auto simp: ke)
  qed
qed simp

lemma foldl_olderEntry_Some: "\<exists>k t. foldl olderEntry (Some a) m = Some (k, t)"
  by (induction m arbitrary: a) (auto simp: olderEntry_def split: prod.split)

lemma oldestKey_least:
  assumes "m \<noteq> []"
  shows "\<exists>e. (oldestKey m, e) \<in> set m \<and> (\<forall>(k', e') \<in> set m. ce_lastUsed e \<le> ce_lastUsed e')"
proof -
  obtain k1 e1 m' where m: "m = (k1, e1) # m'" using assms by (cases m) auto
  obtain k t where f: "foldl olderEntry (Some (k1, ce_lastUsed e1)) m' = Some (k, t)"
    using foldl_olderEntry_Some by blast
  then have "oldestKey m = k" by (simp add: oldestKey_def m)
  then show ?thesis using foldl_olderEntry [OF f] unfolding m by auto
qed

lemma length_delete_in:
  "distinct (map fst m) \<Longrightarrow> k \<in> fst ` set m \<Longrightarrow> Suc (length (AList.delete k m)) = length m"
  by (induction m) auto

lemma cachePut_spec:
  assumes "cache_ok c"
  shows "cache_ok (cachePut nk n c) \<and> nc_capacity (cachePut nk n c) = nc_capacity c \<and>
     (nc_capacity c \<noteq> 0 \<longrightarrow> cached (cachePut nk n c) (encodeKey nk) = Some n) \<and>
     (\<forall>k n'. cached (cachePut nk n c) k = Some n' \<longrightarrow>
        (if k = encodeKey nk \<and> nc_capacity c \<noteq> 0 then n' = n else cached c k = Some n'))"
proof (cases "nc_capacity c = 0")
  case False
  define k where "k = encodeKey nk"
  define m where "m = (if map_of (nc_m c) k = None \<and> nc_capacity c \<le> int (length (nc_m c))
                    then AList.delete (oldestKey (nc_m c)) (nc_m c) else nc_m c)"
  have put: "cachePut nk n c = c\<lparr>nc_tick := nc_tick c + 1,
      nc_m := AList.update k \<lparr>ce_node = n, ce_lastUsed = nc_tick c + 1\<rparr> m\<rparr>"
    using False by (simp add: cachePut_def Let_def k_def m_def)
  have d: "distinct (map fst (nc_m c))" "0 \<le> nc_capacity c \<longrightarrow> int (length (nc_m c)) \<le> nc_capacity c"
    using assms by (auto simp: cache_ok_def cacheLen_def)
  have sub: "map_of m j = Some e \<Longrightarrow> map_of (nc_m c) j = Some e" for j e
    by (auto simp: m_def delete_conv' split: if_splits)
  have dm: "distinct (map fst m)" using d by (simp add: m_def distinct_delete)
  have len: "int (length (AList.update k e m)) \<le> nc_capacity c" if "0 \<le> nc_capacity c" for e
  proof (cases "map_of (nc_m c) k = None")
    case True
    then have new: "k \<notin> fst ` set m" by (auto simp: m_def map_of_eq_None_iff AList.delete_eq split: if_splits)
    show ?thesis
    proof (cases "nc_capacity c \<le> int (length (nc_m c))")
      case ge: True
      then have "nc_m c \<noteq> []" using that False by auto
      then have "oldestKey (nc_m c) \<in> fst ` set (nc_m c)" using oldestKey_least by force
      then have "Suc (length m) = length (nc_m c)"
        using length_delete_in [OF d(1)] True ge by (simp add: m_def)
      then show ?thesis using new d(2) that by (simp add: length_alist_update)
    qed (use new True in \<open>simp add: length_alist_update m_def\<close>)
  next
    case False
    then have "m = nc_m c" "k \<in> fst ` set m" by (auto simp: m_def map_of_eq_None_iff)
    then show ?thesis using d(2) that by (simp add: length_alist_update insert_absorb)
  qed
  show ?thesis
    using False d(1) dm len sub
    by (auto simp: put cache_ok_def cacheLen_def cached_def update_conv' distinct_update k_def split: if_splits)
qed (use assms in \<open>simp add: cachePut_def\<close>)

lemma cacheGet_fst: "fst (cacheGet nk c) = cached c (encodeKey nk)"
  by (simp add: cacheGet_def cached_def Let_def split: option.split)

text \<open>C29. Bound and content of the cache: a put never takes it over its capacity, a lookup of the key
  just put returns that node (unless the cache is disabled), and any other hit was there before.\<close>

theorem cache_bounded:
  assumes "cache_ok c" "0 \<le> nc_capacity c"
  shows "int (cacheLen (cachePut nk n c)) \<le> nc_capacity c \<and> (nc_capacity c \<noteq> 0 \<longrightarrow> fst (cacheGet nk (cachePut nk n c)) = Some n) \<and>
     (\<forall>nk' n'. encodeKey nk' \<noteq> encodeKey nk \<longrightarrow> fst (cacheGet nk' (cachePut nk n c)) = Some n' \<longrightarrow> fst (cacheGet nk' c) = Some n')"
  using cachePut_spec [OF assms(1), of nk n] assms(2) unfolding cacheGet_fst cache_ok_def by auto

theorem cache_bounded_witness:
  "let c = newNodeCache 1; nk = rootNodeKey 3; l = Leaf \<lparr>l_path = [], l_vh = [], l_valueVersion = 0\<rparr>
   in cacheLen (cachePut nk l c) \<le> 1 \<and> fst (cacheGet nk (cachePut nk l c)) = Some l"
  using cache_bounded [of "newNodeCache 1" "rootNodeKey 3" "Leaf \<lparr>l_path = [], l_vh = [], l_valueVersion = 0\<rparr>"]
  by (simp add: newNodeCache_def cache_ok_def cacheLen_def)

text \<open>Eviction is least-recently-used: when a put drops an entry, no entry of the cache was used
  before the one dropped.\<close>

theorem eviction_lru:
  assumes "cache_ok c" "map_of (nc_m c) k = Some e" "k \<noteq> encodeKey nk" "map_of (nc_m (cachePut nk n c)) k = None"
    "map_of (nc_m c) k' = Some e'"
  shows "ce_lastUsed e \<le> ce_lastUsed e'"
proof -
  have ev: "k = oldestKey (nc_m c)"
    using assms(2-4) by (auto simp: cachePut_def Let_def update_conv' delete_conv' split: if_splits)
  have d: "distinct (map fst (nc_m c))" using assms(1) by (simp add: cache_ok_def)
  obtain e0 where e0: "(oldestKey (nc_m c), e0) \<in> set (nc_m c)" "\<forall>(k', e') \<in> set (nc_m c). ce_lastUsed e0 \<le> ce_lastUsed e'"
    using oldestKey_least [of "nc_m c"] assms(2) by fastforce
  then have "e0 = e" using assms(2) ev d by simp
  then show ?thesis using e0(2) map_of_SomeD [OF assms(5)] by auto
qed

theorem eviction_lru_witness:
  "let l = Leaf \<lparr>l_path = [], l_vh = [], l_valueVersion = 0\<rparr>;
       c = \<lparr>nc_capacity = 2, nc_tick = 5, nc_m = [([1], \<lparr>ce_node = l, ce_lastUsed = 4\<rparr>), ([2], \<lparr>ce_node = l, ce_lastUsed = 3\<rparr>)]\<rparr>
   in map_of (nc_m (cachePut (rootNodeKey 3) l c)) [2] = None \<and> (3 :: u64) \<le> 4"
proof -
  define l where "l = Leaf \<lparr>l_path = [], l_vh = [], l_valueVersion = 0\<rparr>"
  define c where "c = \<lparr>nc_capacity = 2, nc_tick = 5, nc_m = [([1], \<lparr>ce_node = l, ce_lastUsed = 4\<rparr>), ([2], \<lparr>ce_node = l, ce_lastUsed = 3\<rparr>)]\<rparr>"
  have k: "encodeKey (rootNodeKey 3) \<noteq> [1]" "encodeKey (rootNodeKey 3) \<noteq> [2]"
    by (auto simp: encodeKey_def rootNodeKey_def dest!: arg_cong [of _ _ length])
  have ok: "cache_ok c" by (simp add: c_def cache_ok_def cacheLen_def)
  have gone: "map_of (nc_m (cachePut (rootNodeKey 3) l c)) [2] = None"
    using k by (simp add: c_def cachePut_def Let_def oldestKey_def update_conv')
  have "ce_lastUsed \<lparr>ce_node = l, ce_lastUsed = 3\<rparr> \<le> ce_lastUsed \<lparr>ce_node = l, ce_lastUsed = 4\<rparr>"
    by (rule eviction_lru [where k' = "[1]", OF ok _ _ gone]) (use k in \<open>simp_all add: c_def\<close>)
  then show ?thesis using gone by (simp add: l_def c_def)
qed

end
