(* ===== verification/Aead.thy ===== *)
theory Aead
  imports Go_Crypto
begin

text \<open>
  \<^verbatim>\<open>ledger/aead.go\<close>: records sealed as \<^verbatim>\<open>nonce(12) || ciphertext || tag(16)\<close> under AES-256-GCM.
  The nonce is what \<^verbatim>\<open>rand.Read\<close> delivers, \<open>None\<close> when it fails.
\<close>

abbreviation (input) KeySize :: nat where "KeySize \<equiv> 32"
abbreviation (input) aeadNonceSize :: nat where "aeadNonceSize \<equiv> 12"
abbreviation (input) aeadTagSize :: nat where "aeadTagSize \<equiv> 16"

record aeadCipher =
  ac_key :: bytes

text \<open>The key is a \<^verbatim>\<open>[32]byte\<close>, a key size that \<^verbatim>\<open>aes.NewCipher\<close> accepts; it refuses other sizes.\<close>

definition newAEAD :: "bytes \<Rightarrow> goerr + aeadCipher" where
  "newAEAD key =
     (if length key = KeySize then Inr \<lparr>ac_key = key\<rparr> else Inl (errCorrupted ''aead init: %v''))"

definition encrypt :: "aeadCipher \<Rightarrow> bytes option \<Rightarrow> bytes \<Rightarrow> bytes \<Rightarrow> goerr + bytes" where
  "encrypt a rnd plaintext aad =
     (case rnd of
        None \<Rightarrow> Inl (errCorrupted ''aead nonce: %v'')
      | Some nonce \<Rightarrow> Inr (nonce @ gcm_seal (ac_key a) nonce plaintext aad))"

definition decrypt :: "aeadCipher \<Rightarrow> bytes \<Rightarrow> bytes \<Rightarrow> goerr + bytes" where
  "decrypt a rec aad =
     (if length rec < aeadNonceSize + aeadTagSize then Inl (errCorrupted ''aead record too short'')
      else case gcm_open (ac_key a) (take aeadNonceSize rec) (drop aeadNonceSize rec) aad of
             None \<Rightarrow> Inl (errCorrupted ''aead open failed'')
           | Some pt \<Rightarrow> Inr pt)"

lemma decrypt_encrypt:
  "length nonce = 12 \<Longrightarrow> encrypt a (Some nonce) pt aad = Inr ct \<Longrightarrow> decrypt a ct aad = Inr pt"
  by (auto simp: encrypt_def decrypt_def)

text \<open>C30. Round trip of encrypted records: a record sealed with a 12-byte nonce opens under the same key
  and associated data to the plaintext, and is 28 bytes longer than it.\<close>

theorem aead_roundtrip:
  assumes "length nonce = aeadNonceSize"
  shows "\<exists>ct. encrypt a (Some nonce) pt aad = Inr ct \<and> decrypt a ct aad = Inr pt \<and> length ct = aeadNonceSize + length pt + aeadTagSize"
  using decrypt_encrypt [OF assms] assms by (simp add: encrypt_def)

theorem aead_roundtrip_witness:
  "\<exists>ct. encrypt \<lparr>ac_key = replicate 32 1\<rparr> (Some (replicate 12 0)) [5] [6] = Inr ct \<and>
     decrypt \<lparr>ac_key = replicate 32 1\<rparr> ct [6] = Inr [5] \<and> length ct = 29"
  using aead_roundtrip [of "replicate 12 0" "\<lparr>ac_key = replicate 32 1\<rparr>" "[5]" "[6]"] by simp

end
