(* ===== verification/Merkle_Proof.thy ===== *)
theory Merkle_Proof
  imports Node
begin

text \<open>
  The pure part of \<^verbatim>\<open>ledger/proof.go\<close>: binary sparse-Merkle proofs, their verifier and their wire
  format. The lemmas are the round trips of the wire format and the binding of the verifier: from two
  proofs accepted for the same root and path with different statements, \<open>find_collision\<close>
  computes two byte strings with the same SHA-256 hash.
\<close>

unbundle bit_operations_syntax

abbreviation (input) maxDepth :: nat where "maxDepth \<equiv> 256"

record ProofLeaf =
  pl_path :: hash
  pl_vh :: hash

record Proof =
  p_leaf :: "ProofLeaf option"
  p_siblings :: "hash list"

text \<open>What a valid proof establishes: \<open>v_vh\<close> is the zero hash when the path is absent.\<close>

record Verified =
  v_present :: bool
  v_vh :: hash

definition absentVerified :: Verified where
  "absentVerified = \<lparr>v_present = False, v_vh = replicate HashSize 0\<rparr>"

definition bitAt :: "hash \<Rightarrow> nat \<Rightarrow> bool" where
  "bitAt path i \<longleftrightarrow> path ! (i div 8) AND drop_bit (i mod 8) 0x80 \<noteq> 0"

text \<open>The inner loop \<^verbatim>\<open>for x&0x80 == 0 { x <<= 1; n++ }\<close>; it runs at most 8 times on a non-zero
  byte, the bound of the first argument.\<close>

fun leadingZeros :: "nat \<Rightarrow> byte \<Rightarrow> nat" where
  "leadingZeros 0 x = 0"
| "leadingZeros (Suc f) x = (if x AND 0x80 = 0 then Suc (leadingZeros f (push_bit 1 x)) else 0)"

text \<open>The outer loop over the bytes, \<open>i\<close> the index of the heads.\<close>

fun prefixBitsFrom :: "nat \<Rightarrow> bytes \<Rightarrow> bytes \<Rightarrow> nat" where
  "prefixBitsFrom i (a # as) (b # bs) =
     (let x = a XOR b
      in if x \<noteq> 0 then i * 8 + leadingZeros 8 x else prefixBitsFrom (Suc i) as bs)"
| "prefixBitsFrom i _ _ = maxDepth"

definition commonPrefixBits :: "hash \<Rightarrow> hash \<Rightarrow> nat" where
  "commonPrefixBits a b = prefixBitsFrom 0 a b"

text \<open>The fold of \<^verbatim>\<open>Verify\<close> over the siblings, deepest first: the sibling at index \<open>i\<close> of \<open>n\<close> pairs
  at depth \<open>n - 1 - i\<close>, the number of siblings after it.\<close>

fun foldSiblings :: "hash \<Rightarrow> hash \<Rightarrow> hash list \<Rightarrow> hash" where
  "foldSiblings path acc [] = acc"
| "foldSiblings path acc (sib # sibs) =
     foldSiblings path
       (if bitAt path (length sibs) then internalHash sib acc else internalHash acc sib) sibs"

definition Verify :: "hash \<Rightarrow> hash \<Rightarrow> Proof \<Rightarrow> goerr + Verified" where
  "Verify root path prf =
     (let n = length (p_siblings prf)
      in if n > maxDepth then Inl (errInvalid ''proof too deep'')
         else let start =
             (case p_leaf prf of
                Some l \<Rightarrow>
                  if pl_path l = path
                  then Inr (leafHash (pl_path l) (pl_vh l), \<lparr>v_present = True, v_vh = pl_vh l\<rparr>)
                  else if commonPrefixBits (pl_path l) path < n
                  then Inl (errInvalid ''divergent leaf does not cover the proven path'')
                  else Inr (leafHash (pl_path l) (pl_vh l), absentVerified)
              | None \<Rightarrow> Inr (placeholderHash, absentVerified))
         in (case start of
               Inl e \<Rightarrow> Inl e
             | Inr (acc, statement) \<Rightarrow>
                 if foldSiblings path acc (p_siblings prf) \<noteq> root
                 then Inl (errInvalid ''proof does not match root'')
                 else Inr statement))"

definition encodeProof :: "Proof \<Rightarrow> bytes" where
  "encodeProof p =
     (case p_leaf p of
        Some l \<Rightarrow> 1 # pl_path l @ pl_vh l
      | None \<Rightarrow> [0]) @
     putUint16LE (of_nat (length (p_siblings p))) @ concat (p_siblings p)"

text \<open>The loop that copies the siblings out of the tail of the record.\<close>

fun decodeSiblings :: "nat \<Rightarrow> bytes \<Rightarrow> hash list" where
  "decodeSiblings 0 d = []"
| "decodeSiblings (Suc n) d = take HashSize d # decodeSiblings n (drop HashSize d)"

definition malformed :: goerr where
  "malformed = errInvalid ''malformed proof''"

text \<open>The part of \<^verbatim>\<open>DecodeProof\<close> after the leaf, \<open>rest\<close> the bytes from offset \<^verbatim>\<open>off\<close> on.\<close>

definition decodeProofTail :: "ProofLeaf option \<Rightarrow> bytes \<Rightarrow> goerr + Proof" where
  "decodeProofTail leaf rest =
     (if length rest < 2 then Inl malformed
      else let count = unat (uint16LE rest); tail = drop 2 rest
           in if count > maxDepth \<or> length tail \<noteq> count * HashSize then Inl malformed
              else Inr \<lparr>p_leaf = leaf, p_siblings = decodeSiblings count tail\<rparr>)"

definition DecodeProof :: "bytes \<Rightarrow> goerr + Proof" where
  "DecodeProof data =
     (if data = [] then Inl malformed
      else if data ! 0 = 0 then decodeProofTail None (drop 1 data)
      else if data ! 0 = 1 then
        (if length data < 1 + 2 * HashSize then Inl malformed
         else decodeProofTail
           (Some \<lparr>pl_path = take HashSize (drop 1 data),
                  pl_vh = take HashSize (drop (1 + HashSize) data)\<rparr>)
           (drop (1 + 2 * HashSize) data))
      else Inl malformed)"

text \<open>The sizes that Go's array types fix, and the depth that a path allows.\<close>

definition wf_proof :: "Proof \<Rightarrow> bool" where
  "wf_proof p \<longleftrightarrow> length (p_siblings p) \<le> maxDepth \<and> (\<forall>s \<in> set (p_siblings p). is_hash s) \<and>
     (\<forall>l. p_leaf p = Some l \<longrightarrow> is_hash (pl_path l) \<and> is_hash (pl_vh l))"

section \<open>Bits of a path\<close>

lemma and_single_bit: "k < 8 \<Longrightarrow> (x :: byte) AND drop_bit k 0x80 = 0 \<longleftrightarrow> \<not> bit x (7 - k)"
proof -
  assume k: "k < 8"
  have "drop_bit k (0x80 :: byte) = drop_bit k (push_bit 7 1)" by simp
  also have "\<dots> = push_bit (7 - k) 1"
    using k by (intro bit_word_eqI) (auto simp only: bit_drop_bit_eq bit_push_bit_iff bit_1_iff comp_def possible_bit_word len_num1 len_bit0 len_num0)
  also have "\<dots> = 2 ^ (7 - k)" by simp
  finally show ?thesis by (simp add: and_exp_eq_0_iff_not_bit)
qed

lemma bitAt_bit: "bitAt path i \<longleftrightarrow> bit (path ! (i div 8)) (7 - i mod 8)"
  by (simp add: bitAt_def and_single_bit)

lemma nibble_bit: "j < 4 \<Longrightarrow> bit (nibble path i) (3 - j) \<longleftrightarrow> bitAt path (4 * i + j)"
proof -
  assume j: "j < 4"
  show ?thesis
  proof (cases "i mod 2 = 0")
    case True
    then obtain k where i: "i = 2 * k" by (metis evenE mod_0_imp_dvd)
    have "(4 * i + j) div 8 = k" "(4 * i + j) mod 8 = j" using j i by auto
    then show ?thesis using j i by (simp add: nibble_def bitAt_bit bit_simps) 
  next
    case False
    then obtain k where i: "i = 2 * k + 1" by (metis oddE even_iff_mod_2_eq_zero)
    have "4 * i + j = j + 4 + 8 * k" using i by simp
    then have "(4 * i + j) div 8 = k \<and> (4 * i + j) mod 8 = j + 4" using j by (simp only: div_mult_self2 mod_mult_self2) simp
    moreover have "i div 2 = k" using i by simp
    moreover have "bit (15 :: byte) (3 - j)"
    proof -
      have "(15 :: byte) = mask 4" by (simp add: mask_numeral)
      then show ?thesis using j by (simp only: bit_mask_iff) auto
    qed
    ultimately show ?thesis using j False by (simp add: nibble_def bitAt_bit Let_def bit_simps)
  qed
qed

lemma leadingZeros_first:
  "f \<le> 8 \<Longrightarrow> leadingZeros f x \<le> f \<and> (\<forall>k < leadingZeros f x. \<not> bit x (7 - k)) \<and>
     (leadingZeros f x < f \<longrightarrow> bit x (7 - leadingZeros f x))"
proof (induction f arbitrary: x)
  case (Suc f)
  have s: "bit (push_bit 1 x) (7 - k) = bit x (7 - Suc k)" if "k \<le> f" "k < 7" for k
  proof -
    have "7 - k - 1 = 7 - Suc k" by simp
    with that show ?thesis
      by (simp only: bit_push_bit_iff possible_bit_word len_num1 len_bit0 len_num0) auto
  qed
  have b: "x AND 128 = 0 \<longleftrightarrow> \<not> bit x 7" using and_single_bit [of 0 x] by simp
  show ?case
  proof (cases "x AND 128 = 0")
    case True
    define z where "z = leadingZeros f (push_bit 1 x)"
    have z: "z \<le> f" "\<forall>k < z. \<not> bit (push_bit 1 x) (7 - k)" "z < f \<longrightarrow> bit (push_bit 1 x) (7 - z)"
      using Suc unfolding z_def by simp_all
    have lz: "leadingZeros (Suc f) x = Suc z" using True by (simp add: z_def)
    have "\<not> bit x (7 - k)" if "k < Suc z" for k
      using that True b z(1,2) s [of "k - 1"] Suc.prems by (cases k) auto
    moreover have "bit x (7 - Suc z)" if "z < f"
      using that z(3) s [of z] Suc.prems by simp
    ultimately show ?thesis using z(1) lz by simp
  qed (simp add: b)
qed simp

lemma prefixBitsFrom_first:
  assumes "length a = 32" "length b = 32" "i \<le> 32"
  shows "8 * i \<le> prefixBitsFrom i (drop i a) (drop i b) \<and> prefixBitsFrom i (drop i a) (drop i b) \<le> 256 \<and>
     (\<forall>k. 8 * i \<le> k \<and> k < prefixBitsFrom i (drop i a) (drop i b) \<longrightarrow> bitAt a k = bitAt b k) \<and>
     (prefixBitsFrom i (drop i a) (drop i b) < 256 \<longrightarrow>
        bitAt a (prefixBitsFrom i (drop i a) (drop i b)) \<noteq> bitAt b (prefixBitsFrom i (drop i a) (drop i b)))"
  using assms(3)
proof (induction "32 - i" arbitrary: i)
  case 0
  with assms show ?case by auto
next
  case (Suc m)
  then have i: "i < 32" by simp
  then have d: "drop i a = a ! i # drop (Suc i) a" "drop i b = b ! i # drop (Suc i) b"
    using assms by (simp_all add: Cons_nth_drop_Suc)
  have byte: "bitAt p k = bit (p ! i) (7 - (k - 8 * i))" if "8 * i \<le> k" "k < 8 * i + 8" for p k
  proof -
    from that have "k div 8 = i" "k mod 8 = k - 8 * i" by presburger+
    then show ?thesis by (simp add: bitAt_bit)
  qed
  show ?case
  proof (cases "a ! i XOR b ! i = 0")
    case True
    have "a ! i = (a ! i XOR b ! i) XOR b ! i" by (simp only: xor.assoc xor_self_eq xor.right_neutral)
    then have "a ! i = b ! i" by (simp only: True xor.left_neutral)
    then have "bitAt a k = bitAt b k" if "8 * i \<le> k" "k < 8 * Suc i" for k
      using that byte [of k a] byte [of k b] by simp
    moreover have "prefixBitsFrom i (drop i a) (drop i b) = prefixBitsFrom (Suc i) (drop (Suc i) a) (drop (Suc i) b)"
      using True by (simp add: d)
    moreover have "m = 32 - Suc i" "Suc i \<le> 32" using Suc.hyps(2) i by simp_all
    note Suc.hyps(1) [OF this]
    ultimately show ?thesis by (auto simp: not_less [symmetric])
  next
    case False
    define z where "z = leadingZeros 8 (a ! i XOR b ! i)"
    have lz: "z \<le> 8" "\<forall>k < z. \<not> bit (a ! i XOR b ! i) (7 - k)" "z < 8 \<longrightarrow> bit (a ! i XOR b ! i) (7 - z)"
      using leadingZeros_first [of 8 "a ! i XOR b ! i"] by (simp_all add: z_def)
    have z8: "z < 8"
    proof (rule ccontr)
      assume "\<not> z < 8"
      with lz have all: "\<forall>k < 8. \<not> bit (a ! i XOR b ! i) (7 - k)" by simp
      have "a ! i XOR b ! i = 0"
      proof (rule bit_word_eqI)
        fix n assume "n < LENGTH(8)"
        then have "7 - (7 - n) = n" "7 - n < 8" by auto
        with all show "bit (a ! i XOR b ! i) n = bit 0 n" by (metis bit_0_eq bot_apply bot_bool_def)
      qed
      with False show False by simp
    qed
    have r: "prefixBitsFrom i (drop i a) (drop i b) = 8 * i + z"
      using False by (simp add: d z_def Let_def)
    have "bitAt a k = bitAt b k" if "8 * i \<le> k" "k < 8 * i + z" for k
      using that lz(2) [rule_format, of "k - 8 * i"] z8 byte [of k a] byte [of k b] by (simp add: bit_xor_iff)
    moreover have "bitAt a (8 * i + z) \<noteq> bitAt b (8 * i + z)"
      using lz(3) z8 byte [of "8 * i + z" a] byte [of "8 * i + z" b] by (simp add: bit_xor_iff)
    ultimately show ?thesis using r z8 i by simp
  qed
qed

lemma commonPrefixBits_ge:
  assumes "length a = 32" "length b = 32" "n \<le> 256"
  shows "n \<le> commonPrefixBits a b \<longleftrightarrow> (\<forall>k < n. bitAt a k = bitAt b k)"
  using prefixBitsFrom_first [OF assms(1,2), of 0] assms(3)
  by (auto simp: commonPrefixBits_def not_le intro: ccontr)

section \<open>Round trips of the wire format\<close>

lemma decodeSiblings_concat:
  "\<forall>s \<in> set ss. is_hash s \<Longrightarrow> decodeSiblings (length ss) (concat ss) = ss"
  by (induction ss) (auto simp: is_hash_def)

lemma decodeSiblings_Inr:
  "length d = n * 32 \<Longrightarrow>
     length (decodeSiblings n d) = n \<and> (\<forall>s \<in> set (decodeSiblings n d). is_hash s) \<and>
     concat (decodeSiblings n d) = d"
proof (induction n arbitrary: d)
  case (Suc n)
  then have "length (drop 32 d) = n * 32" by simp
  from Suc.IH [OF this] Suc.prems show ?case by (auto simp: is_hash_def)
qed simp

lemma count_roundtrip:
  "n \<le> 256 \<Longrightarrow> unat (of_nat n :: u16) = n"
  by (simp add: unsigned_of_nat take_bit_nat_eq_self_iff)

lemma decodeProofTail_encode:
  assumes "length ss \<le> 256" "\<forall>s \<in> set ss. is_hash s"
  shows "decodeProofTail l (putUint16LE (of_nat (length ss)) @ concat ss) =
           Inr \<lparr>p_leaf = l, p_siblings = ss\<rparr>"
proof -
  have "length (concat ss) = length ss * 32"
    using assms(2) by (induction ss) (auto simp: is_hash_def)
  then show ?thesis
    using assms by (simp add: decodeProofTail_def Let_def decodeSiblings_concat count_roundtrip)
qed

lemma decodeProofTail_Inr:
  assumes "decodeProofTail l rest = Inr p"
  shows "p_leaf p = l \<and> length (p_siblings p) \<le> 256 \<and> (\<forall>s \<in> set (p_siblings p). is_hash s) \<and>
     rest = putUint16LE (of_nat (length (p_siblings p))) @ concat (p_siblings p)"
proof -
  define n where "n = unat (uint16LE rest)"
  have g: "2 \<le> length rest" "n \<le> 256" "length (drop 2 rest) = n * 32"
    "p = \<lparr>p_leaf = l, p_siblings = decodeSiblings n (drop 2 rest)\<rparr>"
    using assms by (auto simp: decodeProofTail_def Let_def n_def split: if_splits)
  have "of_nat n = uint16LE rest" by (simp add: n_def)
  moreover have "rest = take 2 rest @ drop 2 rest" by simp
  moreover have "putUint16LE (uint16LE rest) = take 2 rest"
    using putUint16LE_uint16LE [of "take 2 rest"] g(1) by (simp add: uint16LE_def)
  ultimately show ?thesis
    using g(2,4) decodeSiblings_Inr [OF g(3)] by (metis Proof.select_convs)
qed

lemma DecodeProof_encodeProof:
  assumes "wf_proof p"
  shows "DecodeProof (encodeProof p) = Inr p"
proof (cases "p_leaf p")
  case None
  with assms show ?thesis
    by (simp add: DecodeProof_def encodeProof_def wf_proof_def decodeProofTail_encode)
next
  case (Some l)
  with assms have "length (pl_path l) = 32" "length (pl_vh l) = 32"
    by (simp_all add: wf_proof_def is_hash_def)
  with Some assms show ?thesis
    by (simp add: DecodeProof_def encodeProof_def wf_proof_def decodeProofTail_encode)
qed

lemma DecodeProof_Inr:
  assumes "DecodeProof d = Inr p"
  shows "wf_proof p \<and> encodeProof p = d"
proof -
  from assms obtain b r where d: "d = b # r" by (cases d) (auto simp: DecodeProof_def)
  consider (none) "b = 0" "decodeProofTail None r = Inr p"
    | (leaf) "b = 1" "64 \<le> length r"
        "decodeProofTail (Some \<lparr>pl_path = take 32 r, pl_vh = take 32 (drop 32 r)\<rparr>) (drop 64 r) = Inr p"
    using assms by (auto simp: DecodeProof_def d split: if_splits)
  then show ?thesis
  proof cases
    case none
    from decodeProofTail_Inr [OF none(2)] none(1) show ?thesis
      by (simp add: wf_proof_def encodeProof_def d)
  next
    case leaf
    have "take 32 r @ take 32 (drop 32 r) @ drop 64 r = r"
      by (metis append_take_drop_id drop_drop numeral_Bit0)
    with decodeProofTail_Inr [OF leaf(3)] leaf(1,2) show ?thesis
      by (simp add: wf_proof_def encodeProof_def d is_hash_def)
  qed
qed

section \<open>The fold, top-down\<close>

definition nodePre :: "hash \<Rightarrow> nat \<Rightarrow> hash \<Rightarrow> hash \<Rightarrow> bytes" where
  "nodePre path d sib h =
     (if bitAt path d then tagInternal @ sib @ h else tagInternal @ h @ sib)"

definition termPre :: "ProofLeaf option \<Rightarrow> bytes" where
  "termPre t = (case t of None \<Rightarrow> tagPlaceholder | Some l \<Rightarrow> tagLeaf @ pl_path l @ pl_vh l)"

fun foldDown :: "hash \<Rightarrow> nat \<Rightarrow> hash list \<Rightarrow> ProofLeaf option \<Rightarrow> hash" where
  "foldDown path d [] t = sha256 (termPre t)"
| "foldDown path d (s # ss) t = sha256 (nodePre path d s (foldDown path (Suc d) ss t))"

lemma length_foldDown [simp]: "length (foldDown path d ss t) = 32"
  by (cases ss) simp_all

definition termHash :: "ProofLeaf option \<Rightarrow> hash" where
  "termHash t = (case t of None \<Rightarrow> placeholderHash | Some l \<Rightarrow> leafHash (pl_path l) (pl_vh l))"

lemma termHash_pre: "termHash t = sha256 (termPre t)"
  by (simp add: termHash_def termPre_def placeholderHash_def leafHash_def sha256Parts_def
        split: option.split)

text \<open>The bottom-up fold over \<open>rev ss\<close> computes the recursive top-down hash.\<close>

fun foldFrom :: "hash \<Rightarrow> nat \<Rightarrow> hash list \<Rightarrow> hash \<Rightarrow> hash" where
  "foldFrom path d [] h = h"
| "foldFrom path d (s # ss) h = sha256 (nodePre path d s (foldFrom path (Suc d) ss h))"

lemma foldFrom_snoc:
  "foldFrom path d (ss @ [s]) h = foldFrom path d ss (sha256 (nodePre path (d + length ss) s h))"
  by (induction ss arbitrary: d) auto

lemma foldSiblings_foldFrom: "foldSiblings path acc ss = foldFrom path 0 (rev ss) acc"
proof (induction ss arbitrary: acc)
  case (Cons s ss)
  then show ?case
    by (simp add: foldFrom_snoc nodePre_def internalHash_def sha256Parts_def)
qed simp

lemma foldDown_foldFrom: "foldDown path d ss t = foldFrom path d ss (termHash t)"
  by (induction ss arbitrary: d) (simp_all add: termHash_pre)

definition statementOf :: "hash \<Rightarrow> ProofLeaf option \<Rightarrow> Verified" where
  "statementOf path t =
     (case t of Some l \<Rightarrow> if pl_path l = path then \<lparr>v_present = True, v_vh = pl_vh l\<rparr> else absentVerified
      | None \<Rightarrow> absentVerified)"

definition covers :: "ProofLeaf option \<Rightarrow> hash \<Rightarrow> nat \<Rightarrow> bool" where
  "covers t path n \<longleftrightarrow>
     (case t of None \<Rightarrow> True | Some l \<Rightarrow> pl_path l = path \<or> n \<le> commonPrefixBits (pl_path l) path)"

lemma Verify_Inr:
  "Verify root path p = Inr s \<longleftrightarrow>
     length (p_siblings p) \<le> 256 \<and> covers (p_leaf p) path (length (p_siblings p)) \<and>
     foldDown path 0 (rev (p_siblings p)) (p_leaf p) = root \<and> s = statementOf path (p_leaf p)"
proof (cases "p_leaf p")
  case None
  then show ?thesis
    by (auto simp: Verify_def Let_def covers_def statementOf_def foldSiblings_foldFrom
          foldDown_foldFrom termHash_def)
next
  case (Some l)
  then show ?thesis
    by (auto simp: Verify_def Let_def covers_def statementOf_def foldSiblings_foldFrom
          foldDown_foldFrom termHash_def split: if_splits)
qed

section \<open>Binding\<close>

fun find_collision ::
  "hash \<Rightarrow> nat \<Rightarrow> hash list \<Rightarrow> ProofLeaf option \<Rightarrow> hash list \<Rightarrow> ProofLeaf option \<Rightarrow> (bytes \<times> bytes) option"
where
  "find_collision path d [] t1 [] t2 =
     (if termPre t1 = termPre t2 then None else Some (termPre t1, termPre t2))"
| "find_collision path d [] t1 (s2 # ss2) t2 =
     Some (termPre t1, nodePre path d s2 (foldDown path (Suc d) ss2 t2))"
| "find_collision path d (s1 # ss1) t1 [] t2 =
     Some (nodePre path d s1 (foldDown path (Suc d) ss1 t1), termPre t2)"
| "find_collision path d (s1 # ss1) t1 (s2 # ss2) t2 =
     (let x = nodePre path d s1 (foldDown path (Suc d) ss1 t1);
          y = nodePre path d s2 (foldDown path (Suc d) ss2 t2)
      in if x \<noteq> y then Some (x, y) else find_collision path (Suc d) ss1 t1 ss2 t2)"

definition wf_term :: "ProofLeaf option \<Rightarrow> bool" where
  "wf_term t \<longleftrightarrow> (\<forall>l. t = Some l \<longrightarrow> is_hash (pl_path l) \<and> is_hash (pl_vh l))"

lemma tags_distinct:
  "tagLeaf @ xs \<noteq> tagInternal @ ys" "tagPlaceholder \<noteq> tagInternal @ ys" "tagPlaceholder \<noteq> tagLeaf @ xs"
  by (simp_all add: tagLeaf_def tagInternal_def tagPlaceholder_def ascii_def)

lemma termPre_nodePre: "termPre t \<noteq> nodePre path d s h"
  using tags_distinct by (auto simp: termPre_def nodePre_def split: option.split)

lemma termPre_inject: "termPre t1 = termPre t2 \<Longrightarrow> wf_term t1 \<Longrightarrow> wf_term t2 \<Longrightarrow> t1 = t2"
  using tags_distinct(3) tags_distinct(3) [symmetric]
  by (auto simp: termPre_def wf_term_def is_hash_def split: option.splits)

lemma nodePre_inject:
  "nodePre path d s1 h1 = nodePre path d s2 h2 \<Longrightarrow> length s1 = length s2 \<Longrightarrow> length h1 = length h2 \<Longrightarrow>
     s1 = s2 \<and> h1 = h2"
  by (auto simp: nodePre_def split: if_splits)

lemma find_collision_sound:
  assumes "foldDown path d ss1 t1 = foldDown path d ss2 t2" "\<forall>s \<in> set ss1. is_hash s"
    "\<forall>s \<in> set ss2. is_hash s" "wf_term t1" "wf_term t2"
  shows "(find_collision path d ss1 t1 ss2 t2 = None \<and> t1 = t2 \<and> ss1 = ss2) \<or>
     (\<exists>x y. find_collision path d ss1 t1 ss2 t2 = Some (x, y) \<and> x \<noteq> y \<and> sha256 x = sha256 y)"
  using assms
proof (induction path d ss1 t1 ss2 t2 rule: find_collision.induct)
  case (4 path d s1 ss1 t1 s2 ss2 t2)
  define x where "x = nodePre path d s1 (foldDown path (Suc d) ss1 t1)"
  define y where "y = nodePre path d s2 (foldDown path (Suc d) ss2 t2)"
  have eq: "find_collision path d (s1 # ss1) t1 (s2 # ss2) t2 =
      (if x \<noteq> y then Some (x, y) else find_collision path (Suc d) ss1 t1 ss2 t2)"
    by (simp only: find_collision.simps x_def y_def Let_def)
  have h: "sha256 x = sha256 y" using "4.prems"(1) by (simp only: foldDown.simps x_def y_def)
  show ?case
  proof (cases "x = y")
    case True
    have s: "s1 = s2 \<and> foldDown path (Suc d) ss1 t1 = foldDown path (Suc d) ss2 t2"
      using nodePre_inject [OF True [unfolded x_def y_def]] "4.prems"(2,3) by (simp add: is_hash_def)
    from True have "\<not> nodePre path d s1 (foldDown path (Suc d) ss1 t1) \<noteq>
        nodePre path d s2 (foldDown path (Suc d) ss2 t2)" by (simp add: x_def y_def)
    note IH = "4.IH" [OF refl refl this]
    show ?thesis unfolding eq using IH s "4.prems" True by simp
  next
    case False
    with h show ?thesis unfolding eq by simp
  qed
next
  case (1 path d t1 t2)
  then show ?case using termPre_inject by auto
qed (simp_all add: termPre_nodePre termPre_nodePre [symmetric])

section \<open>Properties\<close>

text \<open>C27. The proof wire format is exact: \<^verbatim>\<open>DecodeProof\<close> accepts a byte string if and only if it is the
  encoding of a proof within the depth and size limits, and returns that proof.\<close>

theorem DecodeProof_exact: "DecodeProof d = Inr p \<longleftrightarrow> wf_proof p \<and> encodeProof p = d"
  using DecodeProof_Inr DecodeProof_encodeProof by auto

text \<open>C5. Binding: two proofs that \<^verbatim>\<open>Verify\<close> accepts for one root and one path establish the same
  statement (present with one value commitment, or absent), or the procedure \<open>find_collision\<close> computes
  from them two different byte strings with the same SHA-256 hash. No assumption on SHA-256 is made.\<close>

theorem Verify_binding:
  assumes "wf_proof p1" "wf_proof p2" "Verify root path p1 = Inr s1" "Verify root path p2 = Inr s2"
  shows "s1 = s2 \<or>
     (\<exists>x y. find_collision path 0 (rev (p_siblings p1)) (p_leaf p1) (rev (p_siblings p2)) (p_leaf p2)
              = Some (x, y) \<and> x \<noteq> y \<and> sha256 x = sha256 y)"
proof (cases "p_leaf p1 = p_leaf p2")
  case True
  then show ?thesis using assms(3,4) by (simp add: Verify_Inr)
next
  case False
  have "foldDown path 0 (rev (p_siblings p1)) (p_leaf p1) =
      foldDown path 0 (rev (p_siblings p2)) (p_leaf p2)"
    using assms(3,4) by (simp add: Verify_Inr)
  then show ?thesis
    using False find_collision_sound [of path 0 "rev (p_siblings p1)" "p_leaf p1" "rev (p_siblings p2)" "p_leaf p2"]
      assms(1,2) unfolding wf_proof_def wf_term_def by simp
qed

text \<open>The verifier on a proof without siblings, for instances.\<close>

lemma Verify_no_siblings:
  "Verify placeholderHash path \<lparr>p_leaf = None, p_siblings = []\<rparr> = Inr absentVerified"
  "Verify (leafHash path vh) path \<lparr>p_leaf = Some \<lparr>pl_path = path, pl_vh = vh\<rparr>, p_siblings = []\<rparr> =
     Inr \<lparr>v_present = True, v_vh = vh\<rparr>"
  by (simp_all add: Verify_def)

theorem Verify_binding_witness:
  "let p = \<lparr>p_leaf = Some \<lparr>pl_path = replicate 32 0, pl_vh = replicate 32 1\<rparr>, p_siblings = []\<rparr>;
       s = \<lparr>v_present = True, v_vh = replicate 32 1\<rparr>
   in Verify (leafHash (replicate 32 0) (replicate 32 1)) (replicate 32 0) p = Inr s \<and>
      (s = s \<or> (\<exists>x y. find_collision (replicate 32 0) 0 [] (p_leaf p) [] (p_leaf p) = Some (x, y) \<and>
                 x \<noteq> y \<and> sha256 x = sha256 y))"
  using Verify_binding [of "\<lparr>p_leaf = Some \<lparr>pl_path = replicate 32 0, pl_vh = replicate 32 1\<rparr>, p_siblings = []\<rparr>"
      "\<lparr>p_leaf = Some \<lparr>pl_path = replicate 32 0, pl_vh = replicate 32 1\<rparr>, p_siblings = []\<rparr>"
      "leafHash (replicate 32 0) (replicate 32 1)" "replicate 32 0"]
  by (simp only: Let_def Verify_no_siblings) (simp add: wf_proof_def is_hash_def)

end
