(* ===== verification/Smt_Spec.thy ===== *)
theory Smt_Spec
  imports Merkle_Proof "HOL-Library.Multiset"
begin

text \<open>
  What the tree promises, stated without the tree: \<open>smt\<close> is the root of a binary sparse Merkle tree
  over a list of entries (path, value commitment), with empty subtrees hashed to the placeholder and
  single-entry subtrees collapsed to their leaf (the header comment of \<^verbatim>\<open>ledger/node.go\<close>);
  \<open>smt_prove\<close> is the proof read off that definition. The lemmas show that the root depends on the set
  of entries only, and that \<^verbatim>\<open>Verify\<close> accepts the reference proof and returns the truth about the
  path.
\<close>

section \<open>The reference root\<close>

type_synonym entry = "hash \<times> hash"

function smt :: "nat \<Rightarrow> entry list \<Rightarrow> hash" where
  "smt d xs =
     (case xs of
        [] \<Rightarrow> placeholderHash
      | [(path, vh)] \<Rightarrow> leafHash path vh
      | _ \<Rightarrow>
          if 256 \<le> d then placeholderHash
          else internalHash (smt (Suc d) (filter (\<lambda>(path, vh). \<not> bitAt path d) xs))
                            (smt (Suc d) (filter (\<lambda>(path, vh). bitAt path d) xs)))"
  by auto
termination by (relation "measure (\<lambda>(d, xs). 256 - d)") auto

declare smt.simps [simp del]

lemma smt_Nil [simp]: "smt d [] = placeholderHash"
  by (simp add: smt.simps)

lemma smt_single [simp]: "smt d [(path, vh)] = leafHash path vh"
  by (simp add: smt.simps)

lemma smt_split:
  "2 \<le> length xs \<Longrightarrow> d < 256 \<Longrightarrow>
     smt d xs = internalHash (smt (Suc d) (filter (\<lambda>(path, vh). \<not> bitAt path d) xs))
                             (smt (Suc d) (filter (\<lambda>(path, vh). bitAt path d) xs))"
  by (subst smt.simps) (auto split: list.split)


lemma list_cases2:
  obtains "xs = []" | p v where "xs = [(p, v)]" | "2 \<le> length xs"
  by (cases xs rule: remdups_adj.cases) auto

lemma smt_perm: "mset xs = mset ys \<Longrightarrow> smt d xs = smt d ys"
proof (induction "256 - d" arbitrary: d xs ys)
  case 0
  then have "length xs = length ys" by (metis mset_eq_length)
  with 0 show ?case
    by (cases xs rule: list_cases2) (auto simp: smt.simps [of d xs] smt.simps [of d ys] split: list.split)
next
  case (Suc n)
  have len: "length xs = length ys" using Suc(3) by (metis mset_eq_length)
  have "mset (filter P xs) = mset (filter P ys)" for P using Suc(3) by simp
  note IH = Suc(1) [OF _ this, of "Suc d"]
  show ?case
  proof (cases xs rule: list_cases2)
    case 3
    moreover have "n = 256 - Suc d" "d < 256" using Suc(2) by auto
    ultimately show ?thesis using len IH by (simp add: smt_split)
  qed (use Suc(3) in auto)
qed

text \<open>A list of entries represents a map of value commitments.\<close>

definition represents :: "entry list \<Rightarrow> (hash \<rightharpoonup> hash) \<Rightarrow> bool" where
  "represents xs M \<longleftrightarrow> distinct (map fst xs) \<and> map_of xs = M"

lemma represents_set: "represents xs M \<Longrightarrow> (p, v) \<in> set xs \<longleftrightarrow> M p = Some v"
  by (auto simp: represents_def)

lemma represents_mset:
  assumes "represents xs M" "represents ys M"
  shows "mset xs = mset ys"
proof -
  have "set xs = set ys"
    using represents_set [OF assms(1)] represents_set [OF assms(2)] by auto
  moreover have "distinct xs" "distinct ys"
    using assms by (auto simp: represents_def distinct_map)
  ultimately show ?thesis by (simp add: set_eq_iff_mset_eq_distinct)
qed

lemma smt_represents: "represents xs M \<Longrightarrow> represents ys M \<Longrightarrow> smt d xs = smt d ys"
  by (rule smt_perm) (rule represents_mset)

lemma map_of_filter_fst: "map_of (filter (\<lambda>(path, vh). P path) xs) = map_of xs |` {path. P path}"
  by (induction xs) (auto simp: restrict_map_def fun_eq_iff)

lemma represents_filter:
  "represents xs M \<Longrightarrow> represents (filter (\<lambda>(path, vh). P path) xs) (M |` {path. P path})"
  by (auto simp: represents_def map_of_filter_fst distinct_map_filter)

lemma represents_empty: "represents xs M \<Longrightarrow> (xs = [] \<longleftrightarrow> M = Map.empty)"
  by (cases xs) (auto simp: represents_def)

lemma represents_single: "represents xs [path \<mapsto> vh] \<longleftrightarrow> xs = [(path, vh)]"
proof
  assume "represents xs [path \<mapsto> vh]"
  moreover have "represents [(path, vh)] [path \<mapsto> vh]" by (auto simp: represents_def)
  ultimately have "mset xs = {#(path, vh)#}" by (auto dest: represents_mset)
  then show "xs = [(path, vh)]" by simp
qed (auto simp: represents_def)

text \<open>A map with at least two keys.\<close>

definition multi :: "('k \<rightharpoonup> 'v) \<Rightarrow> bool" where
  "multi M \<longleftrightarrow> (\<exists>p \<in> dom M. \<exists>q \<in> dom M. p \<noteq> q)"

lemma map_cases [case_names empty single multi]:
  obtains "M = Map.empty" | p v where "M = [p \<mapsto> v]" | "multi M"
proof (cases "multi M")
  case False
  show thesis
  proof (cases "M = Map.empty")
    case False
    then obtain p v where p: "M p = Some v" by fastforce
    have "M = [p \<mapsto> v]"
    proof
      fix q show "M q = [p \<mapsto> v] q"
        using \<open>\<not> multi M\<close> p unfolding multi_def dom_def by (cases "M q"; cases "q = p") (auto, metis option.distinct(1))
    qed
    then show ?thesis using that by blast
  qed (use that in blast)
qed (use that in blast)

lemma multi_simps [simp]: "\<not> multi Map.empty" "\<not> multi [p \<mapsto> v]"
  by (auto simp: multi_def split: if_splits)

lemma represents_multi:
  assumes "represents xs M"
  shows "2 \<le> length xs \<longleftrightarrow> multi M"
proof (cases M rule: map_cases)
  case empty
  with assms represents_empty [OF assms] show ?thesis by simp
next
  case (single p v)
  with assms show ?thesis by (simp add: represents_single)
next
  case multi
  then show ?thesis
    using assms by (cases xs rule: list_cases2) (auto simp: represents_def)
qed

text \<open>The reference root of a map, whatever the list that represents it.\<close>

definition is_smt :: "nat \<Rightarrow> (hash \<rightharpoonup> hash) \<Rightarrow> hash \<Rightarrow> bool" where
  "is_smt d M h \<longleftrightarrow> (\<exists>xs. represents xs M \<and> h = smt d xs)"

lemma is_smt_unique: "is_smt d M h \<Longrightarrow> represents xs M \<Longrightarrow> h = smt d xs"
  by (auto simp: is_smt_def intro: smt_represents)

lemma is_smt_empty [simp]: "is_smt d Map.empty h \<longleftrightarrow> h = placeholderHash"
  by (auto simp: is_smt_def dest: represents_empty intro!: exI [of _ "[]"]) (auto simp: represents_def)

lemma is_smt_single [simp]: "is_smt d [p \<mapsto> v] h \<longleftrightarrow> h = leafHash p v"
  by (auto simp: is_smt_def represents_single)

lemma is_smt_split:
  assumes "is_smt (Suc d) (M |` {p. \<not> bitAt p d}) l" "is_smt (Suc d) (M |` {p. bitAt p d}) r"
    "multi M" "d < 256"
  shows "is_smt d M (internalHash l r)"
proof -
  obtain xs ys where x: "represents xs (M |` {p. \<not> bitAt p d})" "l = smt (Suc d) xs"
    and y: "represents ys (M |` {p. bitAt p d})" "r = smt (Suc d) ys"
    using assms(1,2) unfolding is_smt_def by blast
  have fx: "\<not> bitAt p d" if "(p, v) \<in> set xs" for p v
    using that represents_set [OF x(1)] by (auto simp: restrict_map_def split: if_splits)
  have fy: "bitAt p d" if "(p, v) \<in> set ys" for p v
    using that represents_set [OF y(1)] by (auto simp: restrict_map_def split: if_splits)
  have rep: "represents (xs @ ys) M"
    using x(1) y(1) fx fy unfolding represents_def
    by (auto simp: restrict_map_def map_add_def fun_eq_iff split: option.split) (metis option.distinct(1))+
  have "filter (\<lambda>(path, vh). \<not> bitAt path d) xs = xs" "filter (\<lambda>(path, vh). bitAt path d) xs = []"
    using fx by (auto simp: filter_id_conv filter_empty_conv)
  moreover have "filter (\<lambda>(path, vh). \<not> bitAt path d) ys = []" "filter (\<lambda>(path, vh). bitAt path d) ys = ys"
    using fy by (auto simp: filter_id_conv filter_empty_conv)
  ultimately have "smt d (xs @ ys) = internalHash l r"
    using smt_split [of "xs @ ys" d] represents_multi [OF rep] assms(3,4) x(2) y(2) by simp
  then show ?thesis
    using rep unfolding is_smt_def by metis
qed

section \<open>The reference prover\<close>

function smt_prove :: "nat \<Rightarrow> hash \<Rightarrow> entry list \<Rightarrow> ProofLeaf option \<times> hash list" where
  "smt_prove d path xs =
     (case xs of
        [] \<Rightarrow> (None, [])
      | [(p, vh)] \<Rightarrow> (Some \<lparr>pl_path = p, pl_vh = vh\<rparr>, [])
      | _ \<Rightarrow>
          if 256 \<le> d then (None, [])
          else let ours = filter (\<lambda>(p, vh). bitAt p d = bitAt path d) xs;
                   other = filter (\<lambda>(p, vh). bitAt p d \<noteq> bitAt path d) xs;
                   (t, ss) = smt_prove (Suc d) path ours
               in (t, smt (Suc d) other # ss))"
  by auto
termination by (relation "measure (\<lambda>(d, path, xs). 256 - d)") auto

declare smt_prove.simps [simp del]

lemma smt_prove_Nil [simp]: "smt_prove d path [] = (None, [])"
  by (simp add: smt_prove.simps)

lemma smt_prove_single [simp]:
  "smt_prove d path [(p, vh)] = (Some \<lparr>pl_path = p, pl_vh = vh\<rparr>, [])"
  by (simp add: smt_prove.simps)

lemma smt_prove_split:
  "2 \<le> length xs \<Longrightarrow> d < 256 \<Longrightarrow>
     smt_prove d path xs =
       (let (t, ss) = smt_prove (Suc d) path (filter (\<lambda>(p, vh). bitAt p d = bitAt path d) xs)
        in (t, smt (Suc d) (filter (\<lambda>(p, vh). bitAt p d \<noteq> bitAt path d) xs) # ss))"
  by (subst smt_prove.simps) (auto simp: Let_def split: list.split)

text \<open>Paths that agree on their first \<open>d\<close> bits.\<close>

definition agree :: "nat \<Rightarrow> hash \<Rightarrow> hash \<Rightarrow> bool" where
  "agree d p q \<longleftrightarrow> (\<forall>k < d. bitAt p k = bitAt q k)"

definition wf_entries :: "nat \<Rightarrow> hash \<Rightarrow> entry list \<Rightarrow> bool" where
  "wf_entries d path xs \<longleftrightarrow> is_hash path \<and> distinct (map fst xs) \<and>
     (\<forall>(p, vh) \<in> set xs. is_hash p \<and> is_hash vh \<and> agree d p path)"

lemma agree_256:
  assumes "is_hash p" "is_hash q" "agree 256 p q"
  shows "p = q"
proof (rule nth_equalityI)
  fix i assume i: "i < length p"
  show "p ! i = q ! i"
  proof (rule bit_word_eqI)
    fix j assume "j < LENGTH(8)"
    then have j: "j < 8" by simp
    have "bitAt p (8 * i + (7 - j)) = bitAt q (8 * i + (7 - j))"
      using assms(1,3) i j by (simp add: agree_def is_hash_def)
    moreover have "(8 * i + r) div 8 = i \<and> (8 * i + r) mod 8 = r" if "r < 8" for r using that by auto
    note this [of "7 - j"]
    moreover have "7 - (7 - j) = j" using j by simp
    ultimately show "bit (p ! i) j = bit (q ! i) j" unfolding bitAt_bit by simp
  qed
qed (use assms in \<open>simp add: is_hash_def\<close>)

lemma wf_entries_len: "wf_entries 256 path xs \<Longrightarrow> length xs < 2"
  by (cases xs rule: remdups_adj.cases) (auto simp: wf_entries_def dest: agree_256)

lemma wf_entries_ours:
  "wf_entries d path xs \<Longrightarrow> wf_entries (Suc d) path (filter (\<lambda>(p, vh). bitAt p d = bitAt path d) xs)"
  by (auto simp: wf_entries_def agree_def less_Suc_eq distinct_map_filter)

lemma smt_prove_sound:
  assumes "wf_entries d path xs" "d \<le> 256" "smt_prove d path xs = (t, ss)"
  shows "foldDown path d ss t = smt d xs \<and> d + length ss \<le> 256 \<and> wf_term t \<and>
     (\<forall>s \<in> set ss. is_hash s) \<and> (\<forall>l. t = Some l \<longrightarrow> (pl_path l, pl_vh l) \<in> set xs \<and> agree (d + length ss) (pl_path l) path) \<and>
     ((\<exists>vh. (path, vh) \<in> set xs) \<longrightarrow> (\<exists>l. t = Some l \<and> pl_path l = path))"
  using assms
proof (induction "256 - d" arbitrary: d xs t ss)
  case 0
  then have "length xs < 2" using wf_entries_len by simp
  with 0 show ?case
    by (cases xs rule: list_cases2)
       (auto simp: termHash_pre [symmetric] termHash_def wf_term_def wf_entries_def)
next
  case (Suc n)
  show ?case
  proof (cases xs rule: list_cases2)
    case 3
    let ?ours = "filter (\<lambda>(p, vh). bitAt p d = bitAt path d) xs"
    let ?other = "filter (\<lambda>(p, vh). bitAt p d \<noteq> bitAt path d) xs"
    have d: "d < 256" "n = 256 - Suc d" using Suc by auto
    obtain ts where ts: "smt_prove (Suc d) path ?ours = (t, ts)" "ss = smt (Suc d) ?other # ts"
      using Suc.prems(3) 3 d by (auto simp: smt_prove_split split: prod.splits)
    note IH = Suc.hyps(1) [OF d(2) wf_entries_ours [OF Suc.prems(1)] _ ts(1)]
    have len: "is_hash (smt (Suc d) ys)" for ys
      by (subst smt.simps) (auto simp: is_hash_def split: list.split)
    have "foldDown path d ss t = smt d xs"
      using IH d(1) 3 by (cases "bitAt path d") (simp_all add: ts(2) nodePre_def smt_split internalHash_def sha256Parts_def)
    then show ?thesis
      using IH d(1) len by (auto simp: ts(2))
  qed (use Suc in \<open>auto simp: termHash_pre [symmetric] termHash_def wf_term_def wf_entries_def\<close>)
qed

text \<open>The reference prover as a proof value, siblings bottom-up.\<close>

definition proofOf :: "hash \<Rightarrow> entry list \<Rightarrow> Proof" where
  "proofOf path xs = (case smt_prove 0 path xs of (t, ss) \<Rightarrow> \<lparr>p_leaf = t, p_siblings = rev ss\<rparr>)"

lemma Verify_proofOf:
  assumes "is_hash path" "distinct (map fst xs)" "\<forall>(p, vh) \<in> set xs. is_hash p \<and> is_hash vh"
  shows "wf_proof (proofOf path xs) \<and> Verify (smt 0 xs) path (proofOf path xs) =
     Inr (case map_of xs path of None \<Rightarrow> absentVerified | Some vh \<Rightarrow> \<lparr>v_present = True, v_vh = vh\<rparr>)"
proof -
  obtain t ss where p: "smt_prove 0 path xs = (t, ss)" by fastforce
  have wf: "wf_entries 0 path xs" using assms by (auto simp: wf_entries_def agree_def)
  have S: "foldDown path 0 ss t = smt 0 xs" "length ss \<le> 256" "wf_term t" "\<forall>s \<in> set ss. is_hash s"
    "\<And>l. t = Some l \<Longrightarrow> (pl_path l, pl_vh l) \<in> set xs \<and> agree (length ss) (pl_path l) path"
    "\<And>vh. (path, vh) \<in> set xs \<Longrightarrow> \<exists>l. t = Some l \<and> pl_path l = path"
    using smt_prove_sound [OF wf _ p] by auto
  have cov: "covers t path (length ss)"
  proof (cases t)
    case (Some l)
    with S(3) have "length (pl_path l) = 32" by (simp add: wf_term_def is_hash_def)
    then show ?thesis
      using S(2) S(5) [OF Some] assms(1) by (simp add: Some covers_def commonPrefixBits_ge is_hash_def agree_def)
  qed (simp add: covers_def)
  have "statementOf path t = (case map_of xs path of None \<Rightarrow> absentVerified | Some vh \<Rightarrow> \<lparr>v_present = True, v_vh = vh\<rparr>)"
  proof (cases "map_of xs path")
    case None
    then have "(path, v) \<notin> set xs" for v by (force simp: map_of_eq_None_iff)
    with S(5) have "pl_path l \<noteq> path" if "t = Some l" for l using that by metis
    with None show ?thesis by (auto simp: statementOf_def split: option.split)
  next
    case (Some vh)
    then have "(path, vh) \<in> set xs" by (rule map_of_SomeD)
    with S(6) obtain l where l: "t = Some l" "pl_path l = path" by auto
    with S(5) [of l] have "(path, pl_vh l) \<in> set xs" by simp
    then have "pl_vh l = vh" using Some assms(2) by simp
    with l Some show ?thesis by (simp add: statementOf_def)
  qed
  then show ?thesis
    using S(1-4) cov by (simp add: proofOf_def p wf_proof_def Verify_Inr wf_term_def)
qed
section \<open>Properties\<close>

text \<open>The root is a function of the logical content alone: two lists with the same entries in any
  order have the same root.\<close>

theorem smt_order_independent: "mset xs = mset ys \<Longrightarrow> smt d xs = smt d ys"
  by (rule smt_perm)

theorem smt_order_independent_witness:
  "smt 0 [(replicate 32 0, [1]), (replicate 32 1, [2])] = smt 0 [(replicate 32 1, [2]), (replicate 32 0, [1])]"
  by (rule smt_order_independent) simp

text \<open>Completeness of the verifier: for every set of entries and every path, present or absent,
  \<^verbatim>\<open>Verify\<close> accepts the reference proof against the reference root and establishes exactly what the
  entries hold at that path.\<close>

theorem Verify_complete:
  assumes "is_hash path" "distinct (map fst xs)" "\<forall>(p, vh) \<in> set xs. is_hash p \<and> is_hash vh"
  shows "Verify (smt 0 xs) path (proofOf path xs) =
     Inr (case map_of xs path of None \<Rightarrow> absentVerified | Some vh \<Rightarrow> \<lparr>v_present = True, v_vh = vh\<rparr>)"
  using Verify_proofOf [OF assms] by simp

theorem Verify_complete_witness:
  "let xs = [(replicate 32 0, replicate 32 5), (replicate 32 1, replicate 32 6)]
   in Verify (smt 0 xs) (replicate 32 1) (proofOf (replicate 32 1) xs) =
        Inr \<lparr>v_present = True, v_vh = replicate 32 6\<rparr>"
proof -
  have "replicate 32 (0 :: byte) \<noteq> replicate 32 1" by (simp add: replicate_eq_replicate)
  then show ?thesis
    using Verify_complete [of "replicate 32 1" "[(replicate 32 0, replicate 32 5), (replicate 32 1, replicate 32 6)]"]
    by (simp add: is_hash_def)
qed

end
