(* ===== verification/Store.thy ===== *)
theory Store
  imports Backend Cache Aead Smt_Spec
begin

text \<open>
  The state of the authenticated store (\<^verbatim>\<open>ledger/store.go\<close>): record keys, the \<^verbatim>\<open>Store\<close> struct,
  construction, value records and the checkpoint, the verified loads and the read path. Operations are functions of the store that return an error
  or a result and the store they leave behind (reads move the node cache and the backend).
\<close>

section \<open>Record keys\<close>

abbreviation (input) recNode :: byte where "recNode \<equiv> 0x6E"
abbreviation (input) recValue :: byte where "recValue \<equiv> 0x76"
abbreviation (input) recStale :: byte where "recStale \<equiv> 0x73"
abbreviation (input) recRoot :: byte where "recRoot \<equiv> 0x72"
abbreviation (input) recCheckpoint :: byte where "recCheckpoint \<equiv> 0x63"

definition hmacTagPath :: bytes where "hmacTagPath = ascii ''p''"
definition hmacTagValue :: bytes where "hmacTagValue = ascii ''v''"
definition valueAADTag :: bytes where "valueAADTag = ascii ''enclave_os_merkle_val''"
definition checkpointAAD :: bytes where "checkpointAAD = ascii ''enclave_os_merkle_ckpt''"
definition ckptMACLabel :: bytes where "ckptMACLabel = ascii ''immutable-ledger:ckpt-mac:v1''"
definition reservedKeyPrefix :: bytes where "reservedKeyPrefix = 0 # ascii ''immutable-ledger:''"

abbreviation (input) ckptFlagHistory :: byte where "ckptFlagHistory \<equiv> 1"

definition nodeRecordKey :: "nodeKey \<Rightarrow> bytes" where
  "nodeRecordKey nk = recNode # encodeKey nk"

definition valueRecordKey :: "hash \<Rightarrow> u64 \<Rightarrow> bytes" where
  "valueRecordKey vh valueVersion = recValue # vh @ putUint64 valueVersion"

definition staleRecordKey :: "u64 \<Rightarrow> bytes \<Rightarrow> bytes" where
  "staleRecordKey staleSince targetRecordKey = recStale # putUint64 staleSince @ targetRecordKey"

definition rootRecordKey :: "u64 \<Rightarrow> bytes" where
  "rootRecordKey version = recRoot # putUint64 version"

definition checkpointRecordKey :: bytes where
  "checkpointRecordKey = [recCheckpoint]"

definition valueAAD :: "hash \<Rightarrow> bytes" where
  "valueAAD path = valueAADTag @ path"

section \<open>The store\<close>

abbreviation (input) defaultCacheCapacity :: int where "defaultCacheCapacity \<equiv> 1024"

record 'b Store =
  st_backend :: "'b Backend"
  st_ck :: bytes
  st_cipher :: "aeadCipher option"
  st_ckptMAC :: bytes
  st_root :: hash
  st_version :: u64
  st_rootChild :: "child option"
  st_cache :: nodeCache
  st_snapshotPin :: "u64 option"
  st_history :: bool
  st_wantHistory :: bool
  st_historyHead :: hash

record storeOptions =
  so_sk :: "bytes option"
  so_history :: bool

definition WithStorageKey :: "bytes \<Rightarrow> storeOptions \<Rightarrow> storeOptions" where
  "WithStorageKey sk opt = opt\<lparr>so_sk := Some sk\<rparr>"

definition WithHistoryChain :: "storeOptions \<Rightarrow> storeOptions" where
  "WithHistoryChain opt = opt\<lparr>so_history := True\<rparr>"

definition newStore :: "'b Backend \<Rightarrow> bytes \<Rightarrow> (storeOptions \<Rightarrow> storeOptions) list \<Rightarrow> goerr + 'b Store" where
  "newStore backend commitmentKey opts =
     (let so = foldl (\<lambda>so opt. opt so) \<lparr>so_sk = None, so_history = False\<rparr> opts;
          s = \<lparr>st_backend = backend, st_ck = commitmentKey, st_cipher = None, st_ckptMAC = [],
               st_root = placeholderHash, st_version = 0, st_rootChild = None,
               st_cache = newNodeCache defaultCacheCapacity, st_snapshotPin = None,
               st_history = False, st_wantHistory = so_history so,
               st_historyHead = replicate HashSize 0\<rparr>
      in case so_sk so of
           Some sk \<Rightarrow>
             (case newAEAD sk of
                Inl e \<Rightarrow> Inl e
              | Inr cipher \<Rightarrow> Inr (s\<lparr>st_cipher := Some cipher\<rparr>))
         | None \<Rightarrow> Inr (s\<lparr>st_ckptMAC := hmac256 (st_ck s) ckptMACLabel\<rparr>))"

section \<open>Value records and commitments\<close>

definition sealValue :: "'b Store \<Rightarrow> bytes option \<Rightarrow> hash \<Rightarrow> bytes \<Rightarrow> goerr + bytes" where
  "sealValue s rnd path plaintext =
     (case st_cipher s of
        Some cipher \<Rightarrow> encrypt cipher rnd plaintext (valueAAD path)
      | None \<Rightarrow> Inr plaintext)"

definition openValue :: "'b Store \<Rightarrow> hash \<Rightarrow> bytes \<Rightarrow> goerr + bytes" where
  "openValue s path rec =
     (case st_cipher s of
        Some cipher \<Rightarrow>
          (case decrypt cipher rec (valueAAD path) of
             Inl e \<Rightarrow> Inl (errCorrupted ''value decrypt: %v'')
           | Inr pt \<Rightarrow> Inr pt)
      | None \<Rightarrow> Inr rec)"

definition pathOf :: "'b Store \<Rightarrow> bytes \<Rightarrow> hash" where
  "pathOf s key = hmac256 (st_ck s) (hmacTagPath @ key)"

definition vhOf :: "'b Store \<Rightarrow> hash \<Rightarrow> bytes \<Rightarrow> hash" where
  "vhOf s path plaintext = hmac256 (st_ck s) (hmacTagValue @ path @ plaintext)"

section \<open>The checkpoint\<close>

definition sealCheckpoint :: "'b Store \<Rightarrow> bytes option \<Rightarrow> hash \<Rightarrow> u64 \<Rightarrow> goerr + bytes" where
  "sealCheckpoint s rnd root version =
     (let flags = (if st_history s then ckptFlagHistory else 0);
          payload = root @ putUint64 version @ [flags]
      in case st_cipher s of
           Some cipher \<Rightarrow> encrypt cipher rnd payload checkpointAAD
         | None \<Rightarrow> Inr (payload @ hmac256 (st_ckptMAC s) payload))"

text \<open>The last part of \<^verbatim>\<open>openCheckpoint\<close>: the authenticated payload taken apart.\<close>

definition checkpointPayload :: "bytes \<Rightarrow> goerr + hash \<times> u64 \<times> byte" where
  "checkpointPayload payload =
     (if length payload = HashSize + 8 then
        Inr (take HashSize payload, uint64 (take 8 (drop HashSize payload)), 0)
      else if length payload = HashSize + 9 then
        Inr (take HashSize payload, uint64 (take 8 (drop HashSize payload)), payload ! (HashSize + 8))
      else Inl (errCorrupted ''checkpoint bad length''))"

definition openCheckpoint :: "'b Store \<Rightarrow> bytes \<Rightarrow> goerr + hash \<times> u64 \<times> byte" where
  "openCheckpoint s rec =
     (case st_cipher s of
        Some cipher \<Rightarrow>
          (case decrypt cipher rec checkpointAAD of
             Inl e \<Rightarrow> Inl (errCorrupted ''checkpoint decrypt: %v'')
           | Inr pt \<Rightarrow> checkpointPayload pt)
      | None \<Rightarrow>
          if length rec \<noteq> HashSize + 8 + 32 \<and> length rec \<noteq> HashSize + 9 + 32
          then Inl (errCorrupted ''checkpoint bad length'')
          else let body = length rec - 32; payload = take body rec
               in if hmac256 (st_ckptMAC s) payload \<noteq> drop body rec
                  then Inl (errCorrupted ''checkpoint authentication failed'')
                  else checkpointPayload payload)"

section \<open>Backend calls\<close>

text \<open>A method call on the store's backend with its state change; \<open>backendGet\<close> wraps the error as
  \<^verbatim>\<open>errBackend\<close> does at every call site.\<close>

definition setBackendState :: "'b Store \<Rightarrow> 'b \<Rightarrow> 'b Store" where
  "setBackendState s b = s\<lparr>st_backend := (st_backend s)\<lparr>be_state := b\<rparr>\<rparr>"

definition callGet :: "bytes \<Rightarrow> 'b Store \<Rightarrow> (string + bytes option) \<times> 'b Store" where
  "callGet key s =
     (case be_Get (st_backend s) key (be_state (st_backend s)) of (r, b) \<Rightarrow> (r, setBackendState s b))"

definition callWriteBatch :: "BatchOp list \<Rightarrow> 'b Store \<Rightarrow> (string + unit) \<times> 'b Store" where
  "callWriteBatch ops s =
     (case be_WriteBatch (st_backend s) ops (be_state (st_backend s)) of (r, b) \<Rightarrow> (r, setBackendState s b))"

definition callScan :: "bytes \<Rightarrow> bytes \<Rightarrow> u32 \<Rightarrow> 'b Store \<Rightarrow> (string + KV list) \<times> 'b Store" where
  "callScan start end limit s =
     (case be_Scan (st_backend s) start end limit (be_state (st_backend s)) of (r, b) \<Rightarrow> (r, setBackendState s b))"

definition wrapBackend :: "('s \<Rightarrow> (string + 'a) \<times> 's) \<Rightarrow> ('s, 'a) io" where
  "wrapBackend call s = (case call s of (Inl e, s') \<Rightarrow> (Inl (errBackend e), s') | (Inr x, s') \<Rightarrow> (Inr x, s'))"

section \<open>Verified loads\<close>

definition checkHash :: "node \<Rightarrow> hash \<Rightarrow> ('s, node) io" where
  "checkHash n expectedHash =
     (if hashNode n \<noteq> expectedHash then throw (errCorrupted ''node %v hash mismatch'') else ret n)"

definition loadNode :: "nodeKey \<Rightarrow> hash \<Rightarrow> ('b Store, node) io" where
  "loadNode nk expectedHash s =
     (case cacheGet nk (st_cache s) of
        (Some n, cache) \<Rightarrow> checkHash n expectedHash (s\<lparr>st_cache := cache\<rparr>)
      | (None, cache) \<Rightarrow>
          andThen (wrapBackend (callGet (nodeRecordKey nk))) (\<lambda>r.
            case r of
              None \<Rightarrow> throw (errMissing ''node %v'')
            | Some rec \<Rightarrow>
                andThen (liftE (decodeNode rec)) (\<lambda>n.
                andThen (checkHash n expectedHash) (\<lambda>n.
                andThen (setState (\<lambda>s. s\<lparr>st_cache := cachePut nk n (st_cache s)\<rparr>)) (\<lambda>_.
                ret n)))) (s\<lparr>st_cache := cache\<rparr>))"

definition loadRootRecord :: "u64 \<Rightarrow> ('b Store, hash) io" where
  "loadRootRecord version =
     andThen (wrapBackend (callGet (rootRecordKey version))) (\<lambda>r.
       case r of
         None \<Rightarrow> throw (errMissing ''root record v%d'')
       | Some rec \<Rightarrow>
           if length rec \<noteq> HashSize then throw (errCorrupted ''root record v%d bad length'')
           else ret rec)"

definition loadRootChild :: "hash \<Rightarrow> u64 \<Rightarrow> ('b Store, child option) io" where
  "loadRootChild root version =
     (if root = placeholderHash then ret None
      else andThen (loadNode (rootNodeKey version) root) (\<lambda>n.
             ret (Some \<lparr>c_version = version, c_hash = root, c_isLeaf = isLeaf n\<rparr>)))"

definition readValue :: "hash \<Rightarrow> hash \<Rightarrow> u64 \<Rightarrow> ('b Store, bytes) io" where
  "readValue path vh valueVersion =
     andThen (wrapBackend (callGet (valueRecordKey vh valueVersion))) (\<lambda>r.
       case r of
         None \<Rightarrow> throw (errMissing ''value record'')
       | Some ct \<Rightarrow>
           andThen (getState (\<lambda>s. s)) (\<lambda>s.
           andThen (liftE (openValue s path ct)) (\<lambda>pt.
           if vhOf s path pt \<noteq> vh then throw (errCorrupted ''value commitment mismatch'')
           else ret pt)))"

definition Root :: "'b Store \<Rightarrow> hash \<times> u64" where
  "Root s = (st_root s, st_version s)"

definition SetCacheCapacity :: "int \<Rightarrow> 'b Store \<Rightarrow> 'b Store" where
  "SetCacheCapacity capacity s = s\<lparr>st_cache := cacheSetCapacity capacity (st_cache s)\<rparr>"

section \<open>Reads\<close>

text \<open>The loop of \<^verbatim>\<open>walk\<close> from a child reference; \<^verbatim>\<open>nibble\<close> indexes out of the path at depth 64.\<close>

definition indexPanic :: goerr where
  "indexPanic = Panic ''index out of range''"

function walkFrom :: "hash \<Rightarrow> nat list \<Rightarrow> child \<Rightarrow> ('b Store, bytes option) io" where
  "walkFrom path prefix c s =
     andThen (loadNode \<lparr>nk_version = c_version c, nk_prefix = prefix\<rparr> (c_hash c)) (\<lambda>n.
       if isLeaf n \<noteq> c_isLeaf c then throw (errCorrupted ''node %v kind mismatch'')
       else case n of
         Leaf l \<Rightarrow>
           if l_path l = path then
             andThen (readValue path (l_vh l) (l_valueVersion l)) (\<lambda>v. ret (Some v))
           else ret None
       | Internal children \<Rightarrow>
           if nibbles \<le> length prefix then throw indexPanic
           else let nib = nibble path (length prefix)
                in case children ! nib of
                     None \<Rightarrow> ret None
                   | Some next \<Rightarrow> walkFrom path (prefix @ [nib]) next) s"
  by pat_completeness auto
termination by (relation "measure (\<lambda>(path, prefix, c, s). 64 - length prefix)") auto

declare walkFrom.simps [simp del]

definition walk :: "child option \<Rightarrow> hash \<Rightarrow> ('b Store, bytes option) io" where
  "walk rootChild path = (case rootChild of None \<Rightarrow> ret None | Some c \<Rightarrow> walkFrom path [] c)"

definition Get :: "bytes \<Rightarrow> ('b Store, bytes option) io" where
  "Get key s = walk (st_rootChild s) (pathOf s key) s"

definition RootAt :: "u64 \<Rightarrow> ('b Store, hash) io" where
  "RootAt version s =
     (if version > st_version s
      then throw (errInvalid ''version %d is in the future (current %d)'') s
      else loadRootRecord version s)"

definition GetAt :: "u64 \<Rightarrow> bytes \<Rightarrow> ('b Store, bytes option) io" where
  "GetAt version key s =
     (if version > st_version s
      then throw (errInvalid ''version %d is in the future (current %d)'') s
      else andThen (loadRootRecord version) (\<lambda>root.
           andThen (loadRootChild root version) (\<lambda>rootChild.
           walk rootChild (pathOf s key))) s)"

end
