(* ===== verification/Commit.thy ===== *)
theory Commit
  imports Store
begin

text \<open>
  The write path of \<^verbatim>\<open>ledger/store.go\<close>: batches folded into the tree by \<^verbatim>\<open>applySubtree\<close>, the history
  link of \<^verbatim>\<open>ledger/audit.go\<close>, and the atomic commit. The accumulator that the Go code reaches
  through a pointer is the second part of the state, beside the store.
\<close>

section \<open>Operations and the accumulator\<close>

record Op =
  op_Key :: bytes
  op_Value :: bytes
  op_Delete :: bool

definition Put :: "bytes \<Rightarrow> bytes \<Rightarrow> Op" where
  "Put key value = \<lparr>op_Key = key, op_Value = value, op_Delete = False\<rparr>"

definition Del :: "bytes \<Rightarrow> Op" where
  "Del key = \<lparr>op_Key = key, op_Value = [], op_Delete = True\<rparr>"

record update =
  u_path :: hash
  u_vh :: "hash option"

record commitAcc =
  a_newVersion :: u64
  a_pending :: "(bytes \<times> nodeKey \<times> node) list"
  a_stale :: "bytes list"
  a_insertCTs :: "(hash \<times> bytes) list"
  a_values :: "(hash \<times> bytes) list"
  a_newHead :: "hash option"

definition emptyAcc :: "u64 \<Rightarrow> commitAcc" where
  "emptyAcc newVersion =
     \<lparr>a_newVersion = newVersion, a_pending = [], a_stale = [], a_insertCTs = [], a_values = [],
      a_newHead = None\<rparr>"

definition putPending :: "nodeKey \<Rightarrow> node \<Rightarrow> commitAcc \<Rightarrow> commitAcc" where
  "putPending nk n acc = acc\<lparr>a_pending := AList.update (encodeKey nk) (nk, n) (a_pending acc)\<rparr>"

definition delPending :: "nodeKey \<Rightarrow> commitAcc \<Rightarrow> commitAcc" where
  "delPending nk acc = acc\<lparr>a_pending := AList.delete (encodeKey nk) (a_pending acc)\<rparr>"

definition addStale :: "bytes \<Rightarrow> commitAcc \<Rightarrow> commitAcc" where
  "addStale key acc = acc\<lparr>a_stale := a_stale acc @ [key]\<rparr>"

definition staleNode :: "nodeKey \<Rightarrow> commitAcc \<Rightarrow> commitAcc" where
  "staleNode nk acc =
     (if nk_version nk = a_newVersion acc then delPending nk acc
      else addStale (nodeRecordKey nk) acc)"

text \<open>The working state of a batch: the store and the accumulator.\<close>

type_synonym 'b work = "'b Store \<times> commitAcc"

definition onStore :: "('b Store, 'a) io \<Rightarrow> ('b work, 'a) io" where
  "onStore m w = (case m (fst w) of (r, s) \<Rightarrow> (r, (s, snd w)))"

definition onAcc :: "(commitAcc, 'a) io \<Rightarrow> ('b work, 'a) io" where
  "onAcc m w = (case m (snd w) of (r, acc) \<Rightarrow> (r, (fst w, acc)))"

section \<open>Building subtrees\<close>

definition putLeaf :: "nat list \<Rightarrow> leafNode \<Rightarrow> (commitAcc, child option) io" where
  "putLeaf prefix leaf acc =
     andThen (\<lambda>acc.
       if l_valueVersion leaf = a_newVersion acc \<and> map_of (a_values acc) (l_vh leaf) = None
       then (case map_of (a_insertCTs acc) (l_path leaf) of
               None \<Rightarrow> throw (errCorrupted ''internal: landed insert without ciphertext'') acc
             | Some ct \<Rightarrow> ret () (acc\<lparr>a_values := AList.update (l_vh leaf) ct (a_values acc)\<rparr>))
       else ret () acc) (\<lambda>_ acc.
     let n = Leaf leaf; h = hashNode n; nk = \<lparr>nk_version = a_newVersion acc, nk_prefix = prefix\<rparr>
     in ret (Some \<lparr>c_version = a_newVersion acc, c_hash = h, c_isLeaf = True\<rparr>) (putPending nk n acc)) acc"

text \<open>
  The loop of \<^verbatim>\<open>buildFromPairs\<close> over contiguous nibble groups; \<open>build\<close> is the recursive call on
  the group of a slot.
\<close>

function (sequential) buildGroups ::
  "(nat \<Rightarrow> leafNode list \<Rightarrow> (commitAcc, child option) io) \<Rightarrow> nat \<Rightarrow> leafNode list \<Rightarrow>
   child option list \<Rightarrow> (commitAcc, child option list) io"
where
  "buildGroups build depth [] children acc = ret children acc"
| "buildGroups build depth (p # ps) children acc =
     (let nib = nibble (l_path p) depth
      in andThen (build nib (p # takeWhile (\<lambda>q. nibble (l_path q) depth = nib) ps)) (\<lambda>c acc.
           buildGroups build depth (dropWhile (\<lambda>q. nibble (l_path q) depth = nib) ps)
             (children[nib := c]) acc) acc)"
  by pat_completeness auto
termination
  by (relation "measure (\<lambda>(build, depth, ps, children, acc). length ps)")
     (auto simp: le_imp_less_Suc length_dropWhile_le)

lemma buildGroups_cong [fundef_cong]:
  assumes "depth = depth'" "ps = ps'" "children = children'" "acc = acc'"
    "\<And>nib qs acc. build nib qs acc = build' nib qs acc"
  shows "buildGroups build depth ps children acc = buildGroups build' depth' ps' children' acc'"
proof -
  have "build = build'" using assms(5) by (intro ext)
  with assms show ?thesis by simp
qed

function buildFromPairs :: "nat list \<Rightarrow> leafNode list \<Rightarrow> (commitAcc, child option) io" where
  "buildFromPairs prefix pairs acc =
     (case pairs of
        [] \<Rightarrow> ret None acc
      | [p] \<Rightarrow> putLeaf prefix p acc
      | _ \<Rightarrow>
          if nibbles \<le> length prefix then throw indexPanic acc
          else andThen (buildGroups (\<lambda>nib. buildFromPairs (prefix @ [nib])) (length prefix) pairs
                          (replicate 16 None)) (\<lambda>children acc.
               let n = Internal children; h = hashNode n;
                   nk = \<lparr>nk_version = a_newVersion acc, nk_prefix = prefix\<rparr>
               in ret (Some \<lparr>c_version = a_newVersion acc, c_hash = h, c_isLeaf = False\<rparr>)
                    (putPending nk n acc)) acc)"
  by pat_completeness auto
termination by (relation "measure (\<lambda>(prefix, pairs, acc). 64 - length prefix)") auto

declare buildFromPairs.simps [simp del]

section \<open>Applying updates\<close>

definition childEq :: "child option \<Rightarrow> child option \<Rightarrow> bool" where
  "childEq a b =
     (case a of
        None \<Rightarrow> b = None
      | Some ca \<Rightarrow>
          (case b of
             None \<Rightarrow> False
           | Some cb \<Rightarrow>
               c_version ca = c_version cb \<and> c_hash ca = c_hash cb \<and> c_isLeaf ca = c_isLeaf cb))"

definition takeLeaf :: "child \<Rightarrow> nat list \<Rightarrow> ('b work, leafNode) io" where
  "takeLeaf c prefix w =
     (let nk = \<lparr>nk_version = c_version c, nk_prefix = prefix\<rparr>
      in if c_version c = a_newVersion (snd w) then
           (case map_of (a_pending (snd w)) (encodeKey nk) of
              Some (_, Leaf l) \<Rightarrow> ret l (fst w, delPending nk (snd w))
            | _ \<Rightarrow> throw (errCorrupted ''pending leaf %v missing or wrong kind'') w)
         else andThen (onStore (loadNode nk (c_hash c))) (\<lambda>n.
                case n of
                  Internal _ \<Rightarrow> throw (errCorrupted ''node %v kind mismatch'')
                | Leaf l \<Rightarrow> (\<lambda>(s, acc). ret l (s, addStale (nodeRecordKey nk) acc))) w)"

text \<open>The \<^verbatim>\<open>merged\<close> map of a resident leaf and the updates: path to (vh, valueVersion).\<close>

definition mergeUpdate ::
  "u64 \<Rightarrow> leafNode \<Rightarrow> (hash \<times> hash \<times> u64) list \<Rightarrow> update \<Rightarrow> (hash \<times> hash \<times> u64) list"
where
  "mergeUpdate newVersion leaf merged u =
     (case u_vh u of
        Some vh \<Rightarrow>
          let vv = (if u_path u = l_path leaf \<and> vh = l_vh leaf then l_valueVersion leaf else newVersion)
          in AList.update (u_path u) (vh, vv) merged
      | None \<Rightarrow> AList.delete (u_path u) merged)"

definition mergeLeaf :: "u64 \<Rightarrow> leafNode \<Rightarrow> update list \<Rightarrow> (hash \<times> hash \<times> u64) list" where
  "mergeLeaf newVersion leaf updates =
     foldl (mergeUpdate newVersion leaf) [(l_path leaf, l_vh leaf, l_valueVersion leaf)] updates"

definition applyToLeaf ::
  "child option \<Rightarrow> nodeKey \<Rightarrow> leafNode \<Rightarrow> nat list \<Rightarrow> update list \<Rightarrow> (commitAcc, child option) io"
where
  "applyToLeaf old nk leaf prefix updates acc =
     (let merged = mergeLeaf (a_newVersion acc) leaf updates
      in if length merged = 1 \<and> map_of merged (l_path leaf) = Some (l_vh leaf, l_valueVersion leaf)
         then ret old acc
         else let acc1 = staleNode nk acc;
                  acc2 = (if (case map_of merged (l_path leaf) of None \<Rightarrow> True | Some e \<Rightarrow> fst e \<noteq> l_vh leaf)
                          then if l_valueVersion leaf = a_newVersion acc1
                               then acc1\<lparr>a_values := AList.delete (l_vh leaf) (a_values acc1)\<rparr>
                               else addStale (valueRecordKey (l_vh leaf) (l_valueVersion leaf)) acc1
                          else acc1);
                  pairs = map (\<lambda>(p, vh, vv). \<lparr>l_path = p, l_vh = vh, l_valueVersion = vv\<rparr>) merged
              in buildFromPairs prefix (sort_key l_path pairs) acc2)"

text \<open>The loop of \<^verbatim>\<open>applySubtree\<close> over contiguous nibble groups; \<open>apply\<close> is the recursive call on
  a slot's child.\<close>

function (sequential) applyGroups ::
  "(nat \<Rightarrow> child option \<Rightarrow> update list \<Rightarrow> ('b work, child option) io) \<Rightarrow> nat \<Rightarrow> update list \<Rightarrow>
   child option list \<Rightarrow> bool \<Rightarrow> ('b work, child option list \<times> bool) io"
where
  "applyGroups ap depth [] children changed w = ret (children, changed) w"
| "applyGroups ap depth (u # us) children changed w =
     (let nib = nibble (u_path u) depth
      in andThen (ap nib (children ! nib) (u # takeWhile (\<lambda>v. nibble (u_path v) depth = nib) us))
           (\<lambda>newChild w.
              let rest = dropWhile (\<lambda>v. nibble (u_path v) depth = nib) us
              in if \<not> childEq newChild (children ! nib)
                 then applyGroups ap depth rest (children[nib := newChild]) True w
                 else applyGroups ap depth rest children changed w) w)"
  by pat_completeness auto
termination
  by (relation "measure (\<lambda>(ap, depth, us, children, changed, w). length us)")
     (auto simp: le_imp_less_Suc length_dropWhile_le)

lemma applyGroups_cong [fundef_cong]:
  assumes "depth = depth'" "us = us'" "children = children'" "changed = changed'" "w = w'"
    "\<And>nib c vs w. ap nib c vs w = ap' nib c vs w"
  shows "applyGroups ap depth us children changed w = applyGroups ap' depth' us' children' changed' w'"
proof -
  have "ap = ap'" using assms(6) by (intro ext)
  with assms show ?thesis by simp
qed

text \<open>The part of \<^verbatim>\<open>applySubtree\<close> after the loop: the node is rebuilt, emptied or collapsed to its
  only leaf.\<close>

definition presentSlots :: "child option list \<Rightarrow> nat list" where
  "presentSlots children = filter (\<lambda>i. children ! i \<noteq> None) slots"

definition finishInternal :: "nat list \<Rightarrow> child option list \<Rightarrow> ('b work, child option) io" where
  "finishInternal prefix children w =
     (let ps = presentSlots children; only = children ! hd ps
      in if ps = [] then ret None w
         else if length ps = 1 \<and> c_isLeaf (the only) then
           andThen (takeLeaf (the only) (prefix @ [hd ps])) (\<lambda>leaf. onAcc (putLeaf prefix leaf)) w
         else let n = Internal children; h = hashNode n;
                  nk = \<lparr>nk_version = a_newVersion (snd w), nk_prefix = prefix\<rparr>
              in ret (Some \<lparr>c_version = a_newVersion (snd w), c_hash = h, c_isLeaf = False\<rparr>)
                   (fst w, putPending nk n (snd w)))"

text \<open>The node that a child reference stands for: pending in this commit, or stored.\<close>

definition resolveNode :: "nodeKey \<Rightarrow> hash \<Rightarrow> ('b work, node) io" where
  "resolveNode nk h w =
     (if nk_version nk = a_newVersion (snd w)
      then (case map_of (a_pending (snd w)) (encodeKey nk) of
              None \<Rightarrow> throw (errCorrupted ''pending node %v missing'') w
            | Some (_, n) \<Rightarrow> ret n w)
      else onStore (loadNode nk h) w)"

function applySubtree :: "child option \<Rightarrow> nat list \<Rightarrow> update list \<Rightarrow> ('b work, child option) io" where
  "applySubtree old prefix updates w =
     (if updates = [] then ret old w
      else case old of
        None \<Rightarrow>
          let pairs = List.map_filter (\<lambda>u. map_option (\<lambda>vh.
                \<lparr>l_path = u_path u, l_vh = vh, l_valueVersion = a_newVersion (snd w)\<rparr>) (u_vh u)) updates
          in onAcc (buildFromPairs prefix pairs) w
      | Some c \<Rightarrow>
          let nk = \<lparr>nk_version = c_version c, nk_prefix = prefix\<rparr>
          in andThen (resolveNode nk (c_hash c)) (\<lambda>n.
               if isLeaf n \<noteq> c_isLeaf c then throw (errCorrupted ''node %v kind mismatch'')
               else case n of
                 Leaf leaf \<Rightarrow> onAcc (applyToLeaf old nk leaf prefix updates)
               | Internal children \<Rightarrow>
                   if nibbles \<le> length prefix then throw indexPanic
                   else andThen
                     (applyGroups (\<lambda>nib child us. applySubtree child (prefix @ [nib]) us)
                        (length prefix) updates children False)
                     (\<lambda>(children', changed).
                        if \<not> changed then ret old
                        else andThen (setState (\<lambda>(s, acc). (s, staleNode nk acc)))
                               (\<lambda>_. finishInternal prefix children'))) w)"
  by pat_completeness auto
termination by (relation "measure (\<lambda>(old, prefix, updates, w). 64 - length prefix)") auto

declare applySubtree.simps [simp del]

section \<open>Batches\<close>

text \<open>
  The random source: one answer per call of \<^verbatim>\<open>rand.Read\<close>, named by the record the nonce is for (the
  iteration order of a Go map must not matter); \<open>None\<close> is a failure of the source.
\<close>

datatype rand_call = NonceValue hash | NonceHead | NonceCkpt

definition HistoryKey :: bytes where
  "HistoryKey = 0 # ascii ''immutable-ledger:history-head''"

definition historyChainTag :: bytes where
  "historyChainTag = ascii ''immutable-ledger:history:v1''"

definition HistoryLink :: "hash \<Rightarrow> hash \<Rightarrow> u64 \<Rightarrow> hash" where
  "HistoryLink prevHead prevRoot version =
     sha256 (historyChainTag @ prevHead @ prevRoot @ putUint64 version)"

definition hasPrefix :: "bytes \<Rightarrow> bytes \<Rightarrow> bool" where
  "hasPrefix b pre \<longleftrightarrow> length pre \<le> length b \<and> take (length pre) b = pre"

text \<open>The deduplication loop of \<^verbatim>\<open>computeBatch\<close>, a Go map from paths to values (\<open>None\<close> a delete).\<close>

fun dedupe :: "'b Store \<Rightarrow> Op list \<Rightarrow> (hash \<times> bytes option) list \<Rightarrow> goerr + (hash \<times> bytes option) list" where
  "dedupe s [] m = Inr m"
| "dedupe s (op # ops) m =
     (if hasPrefix (op_Key op) reservedKeyPrefix
      then Inl (errInvalid ''key %q uses the reserved system prefix'')
      else dedupe s ops
        (AList.update (pathOf s (op_Key op)) (if op_Delete op then None else Some (op_Value op)) m))"

text \<open>The loop over the deduplicated map: commitments, stored forms and updates.\<close>

fun sealUpdates ::
  "(rand_call \<Rightarrow> bytes option) \<Rightarrow> 'b Store \<Rightarrow> (hash \<times> bytes option) list \<Rightarrow>
   update list \<Rightarrow> (hash \<times> bytes) list \<Rightarrow> goerr + update list \<times> (hash \<times> bytes) list"
where
  "sealUpdates rd s [] updates cts = Inr (updates, cts)"
| "sealUpdates rd s ((path, None) # m) updates cts =
     sealUpdates rd s m (updates @ [\<lparr>u_path = path, u_vh = None\<rparr>]) cts"
| "sealUpdates rd s ((path, Some value) # m) updates cts =
     (let vh = vhOf s path value
      in case sealValue s (rd (NonceValue path)) path value of
           Inl e \<Rightarrow> Inl e
         | Inr ct \<Rightarrow>
             sealUpdates rd s m (updates @ [\<lparr>u_path = path, u_vh = Some vh\<rparr>]) (AList.update path ct cts))"

definition appendHistoryLink ::
  "(rand_call \<Rightarrow> bytes option) \<Rightarrow> child option \<Rightarrow> ('b work, child option) io"
where
  "appendHistoryLink rd rootChild w =
     (let s = fst w; acc = snd w;
          head = HistoryLink (st_historyHead s) (st_root s) (a_newVersion acc);
          path = pathOf s HistoryKey;
          vh = vhOf s path head
      in andThen (liftE (sealValue s (rd NonceHead) path head)) (\<lambda>ct (s, acc).
           applySubtree rootChild [] [\<lparr>u_path = path, u_vh = Some vh\<rparr>]
             (s, acc\<lparr>a_insertCTs := AList.update path ct (a_insertCTs acc), a_newHead := Some head\<rparr>)) w)"

definition rootHashOf :: "child option \<Rightarrow> hash" where
  "rootHashOf c = (case c of None \<Rightarrow> placeholderHash | Some c \<Rightarrow> c_hash c)"

text \<open>The tree part of \<^verbatim>\<open>computeBatch\<close>, on the working state; \<open>None\<close> is a no-op batch.\<close>

definition applyBatchTree ::
  "(rand_call \<Rightarrow> bytes option) \<Rightarrow> update list \<Rightarrow> ('b work, child option option) io"
where
  "applyBatchTree rd updates w =
     (let rootChild = st_rootChild (fst w)
      in andThen (applySubtree rootChild [] updates) (\<lambda>newRootChild w.
           if childEq newRootChild rootChild then ret None w
           else if st_history (fst w)
           then andThen (appendHistoryLink rd newRootChild) (\<lambda>c. ret (Some c)) w
           else ret (Some newRootChild) w) w)"

definition computeBatch ::
  "(rand_call \<Rightarrow> bytes option) \<Rightarrow> Op list \<Rightarrow> ('b Store, (commitAcc \<times> child option \<times> hash) option) io"
where
  "computeBatch rd ops s =
     andThen (liftE (dedupe s ops [])) (\<lambda>deduped s.
       if deduped = [] then ret None s
       else andThen (liftE (sealUpdates rd s deduped [] [])) (\<lambda>(updates, cts) s.
         let acc = (emptyAcc (st_version s + 1))\<lparr>a_insertCTs := cts\<rparr>
         in case applyBatchTree rd (sort_key u_path updates) (s, acc) of
              (Inl e, (s', acc')) \<Rightarrow> (Inl e, s')
            | (Inr None, (s', acc')) \<Rightarrow> (Inr None, s')
            | (Inr (Some newRootChild), (s', acc')) \<Rightarrow>
                (Inr (Some (acc', newRootChild, rootHashOf newRootChild)), s')) s) s"

definition PreviewBatch :: "(rand_call \<Rightarrow> bytes option) \<Rightarrow> Op list \<Rightarrow> ('b Store, hash \<times> u64) io" where
  "PreviewBatch rd ops =
     andThen (computeBatch rd ops) (\<lambda>r s.
       case r of
         None \<Rightarrow> ret (st_root s, st_version s) s
       | Some (acc, newRootChild, newRoot) \<Rightarrow> ret (newRoot, st_version s + 1) s)"

section \<open>The atomic commit\<close>

definition commitOps :: "commitAcc \<Rightarrow> hash \<Rightarrow> bytes \<Rightarrow> BatchOp list" where
  "commitOps acc newRoot ckpt =
     map (\<lambda>(k, nk, n). \<lparr>bo_key = nodeRecordKey nk, bo_value = encodeNode n, bo_delete = False\<rparr>) (a_pending acc) @
     map (\<lambda>(vh, ct). \<lparr>bo_key = valueRecordKey vh (a_newVersion acc), bo_value = ct, bo_delete = False\<rparr>) (a_values acc) @
     map (\<lambda>target. \<lparr>bo_key = staleRecordKey (a_newVersion acc) target, bo_value = [], bo_delete = False\<rparr>) (a_stale acc) @
     [\<lparr>bo_key = rootRecordKey (a_newVersion acc), bo_value = newRoot, bo_delete = False\<rparr>,
      \<lparr>bo_key = checkpointRecordKey, bo_value = ckpt, bo_delete = False\<rparr>]"

definition warmCache :: "(bytes \<times> nodeKey \<times> node) list \<Rightarrow> nodeCache \<Rightarrow> nodeCache" where
  "warmCache pending cache = foldl (\<lambda>c (k, nk, n). cachePut nk n c) cache pending"

definition commit ::
  "(rand_call \<Rightarrow> bytes option) \<Rightarrow> commitAcc \<Rightarrow> child option \<Rightarrow> hash \<Rightarrow> ('b Store, hash \<times> u64) io"
where
  "commit rd acc newRootChild newRoot s =
     andThen (liftE (sealCheckpoint s (rd NonceCkpt) newRoot (a_newVersion acc))) (\<lambda>ckpt.
     andThen (wrapBackend (callWriteBatch (commitOps acc newRoot ckpt))) (\<lambda>_ s.
       let s' = s\<lparr>st_cache := warmCache (a_pending acc) (st_cache s),
                  st_root := newRoot, st_version := a_newVersion acc, st_rootChild := newRootChild\<rparr>;
           s'' = (case a_newHead acc of None \<Rightarrow> s' | Some head \<Rightarrow> s'\<lparr>st_historyHead := head\<rparr>)
       in ret (st_root s'', st_version s'') s'')) s"

definition PutBatch :: "(rand_call \<Rightarrow> bytes option) \<Rightarrow> Op list \<Rightarrow> ('b Store, hash \<times> u64) io" where
  "PutBatch rd ops =
     andThen (computeBatch rd ops) (\<lambda>r s.
       case r of
         None \<Rightarrow> ret (st_root s, st_version s) s
       | Some (acc, newRootChild, newRoot) \<Rightarrow> commit rd acc newRootChild newRoot s)"

section \<open>Create and open\<close>

definition Create ::
  "(rand_call \<Rightarrow> bytes option) \<Rightarrow> 'b Backend \<Rightarrow> bytes \<Rightarrow> (storeOptions \<Rightarrow> storeOptions) list \<Rightarrow> goerr + 'b Store"
where
  "Create rd backend commitmentKey opts =
     (case newStore backend commitmentKey opts of
        Inl e \<Rightarrow> Inl e
      | Inr s \<Rightarrow>
          let s = s\<lparr>st_history := st_wantHistory s\<rparr>
          in case sealCheckpoint s (rd NonceCkpt) placeholderHash 0 of
               Inl e \<Rightarrow> Inl e
             | Inr ckpt \<Rightarrow>
                 (case callWriteBatch
                         [\<lparr>bo_key = rootRecordKey 0, bo_value = placeholderHash, bo_delete = False\<rparr>,
                          \<lparr>bo_key = checkpointRecordKey, bo_value = ckpt, bo_delete = False\<rparr>] s of
                    (Inl e, s') \<Rightarrow> Inl (BackendErr e)
                  | (Inr _, s') \<Rightarrow> Inr s'))"

definition initHistory :: "bool \<Rightarrow> bool \<Rightarrow> ('b Store, unit) io" where
  "initHistory flagKnown flag =
     andThen (Get HistoryKey) (\<lambda>val s.
       let on = (if flagKnown then flag else val \<noteq> None)
       in andThen
            (\<lambda>s. if on then
                   (if st_version s > 0 \<and> val = None
                    then throw (errCorrupted ''history chain enabled but the head leaf is missing'') s
                    else case val of
                      None \<Rightarrow> ret () s
                    | Some v \<Rightarrow>
                        if length v \<noteq> HashSize then throw (errCorrupted ''history head leaf malformed'') s
                        else ret () (s\<lparr>st_historyHead := v\<rparr>))
                 else if val \<noteq> None
                 then throw (errCorrupted ''history head leaf present but the chain flag is off'') s
                 else ret () s) (\<lambda>_ s.
          if st_wantHistory s \<and> \<not> on
          then throw (errInvalid ''store was not created with the history chain (WithHistoryChain is a Create-time choice)'') s
          else ret () (s\<lparr>st_history := on\<rparr>)) s)"

text \<open>The store after \<open>m\<close>, dropped with its error.\<close>

definition built :: "(goerr + 'a) \<times> 's \<Rightarrow> goerr + 's" where
  "built r = (case r of (Inl e, s) \<Rightarrow> Inl e | (Inr x, s) \<Rightarrow> Inr s)"

definition Open ::
  "'b Backend \<Rightarrow> bytes \<Rightarrow> hash \<Rightarrow> u64 \<Rightarrow> (storeOptions \<Rightarrow> storeOptions) list \<Rightarrow> goerr + 'b Store"
where
  "Open backend commitmentKey root version opts =
     (case newStore backend commitmentKey opts of
        Inl e \<Rightarrow> Inl e
      | Inr s \<Rightarrow>
          built (andThen (loadRootChild root version) (\<lambda>rootChild s.
            let s = s\<lparr>st_rootChild := rootChild\<rparr>
            in case callGet checkpointRecordKey s of
                 (r, s1) \<Rightarrow>
                   (case r of
                      Inr (Some rec) \<Rightarrow>
                        (case openCheckpoint s1 rec of
                           Inr (_, _, f) \<Rightarrow> initHistory True (f AND ckptFlagHistory \<noteq> 0) s1
                         | Inl _ \<Rightarrow> initHistory False False s1)
                    | _ \<Rightarrow> initHistory False False s1))
            (s\<lparr>st_root := root, st_version := version\<rparr>)))"

definition OpenLatest ::
  "'b Backend \<Rightarrow> bytes \<Rightarrow> (storeOptions \<Rightarrow> storeOptions) list \<Rightarrow> goerr + 'b Store"
where
  "OpenLatest backend commitmentKey opts =
     (case newStore backend commitmentKey opts of
        Inl e \<Rightarrow> Inl e
      | Inr s \<Rightarrow>
          built (andThen (wrapBackend (callGet checkpointRecordKey)) (\<lambda>r.
            case r of
              None \<Rightarrow> throw (errMissing ''checkpoint record'')
            | Some rec \<Rightarrow> (\<lambda>s.
                andThen (liftE (openCheckpoint s rec)) (\<lambda>(root, version, flags) s.
                andThen (loadRootChild root version) (\<lambda>rootChild s.
                  initHistory True (flags AND ckptFlagHistory \<noteq> 0) (s\<lparr>st_rootChild := rootChild\<rparr>))
                  (s\<lparr>st_root := root, st_version := version\<rparr>)) s)) s))"

text \<open>\<^verbatim>\<open>OpenOrCreate\<close> reads the checkpoint first; the backend it goes on with is the one that read
  left behind.\<close>

definition OpenOrCreate ::
  "(rand_call \<Rightarrow> bytes option) \<Rightarrow> 'b Backend \<Rightarrow> bytes \<Rightarrow> (storeOptions \<Rightarrow> storeOptions) list \<Rightarrow> goerr + 'b Store"
where
  "OpenOrCreate rd backend commitmentKey opts =
     (case be_Get backend checkpointRecordKey (be_state backend) of
        (Inl e, b) \<Rightarrow> Inl (errBackend e)
      | (Inr (Some _), b) \<Rightarrow> OpenLatest (backend\<lparr>be_state := b\<rparr>) commitmentKey opts
      | (Inr None, b) \<Rightarrow> Create rd (backend\<lparr>be_state := b\<rparr>) commitmentKey opts)"

end
