(* ===== verification/Tree_Inv.thy ===== *)
theory Tree_Inv
  imports Commit
begin

text \<open>
  The representation invariant of the stored tree and its reading as a map. \<open>tree_at\<close> is the shape that
  \<^verbatim>\<open>ledger/node.go\<close> and the comments of \<^verbatim>\<open>applySubtree\<close> describe: nodes sit at their nibble prefix, a
  subtree with one leaf is that leaf, every reference carries the hash of its node. The first result is
  that the hash of such a subtree is the reference root \<open>smt\<close> of its leaves, whatever the 16-ary layout
  or the versions of its records.
\<close>

section \<open>Stored subtrees\<close>

text \<open>The paths below a prefix of nibbles.\<close>

definition under :: "nat list \<Rightarrow> hash \<Rightarrow> bool" where
  "under pre p \<longleftrightarrow> is_hash p \<and> length pre \<le> 64 \<and> (\<forall>i < length pre. nibble p i = pre ! i)"

text \<open>What the tree stores for a path: the value commitment and the version of the value record.\<close>

type_synonym leafMap = "hash \<rightharpoonup> hash \<times> u64"

definition slotMap :: "(hash \<rightharpoonup> 'v) \<Rightarrow> nat \<Rightarrow> nat \<Rightarrow> hash \<rightharpoonup> 'v" where
  "slotMap M depth i = M |` {p. nibble p depth = i}"

definition commits :: "leafMap \<Rightarrow> hash \<rightharpoonup> hash" where
  "commits M = map_option fst \<circ> M"

text \<open>
  The subtree under prefix \<open>pre\<close> that a child reference stands for, with nodes looked up in \<open>L\<close>: it
  holds the leaves \<open>M\<close>, consists of the node records \<open>N\<close>, and no version in it is above \<open>m\<close>. Children
  sit in the slot of their nibble, a node with one leaf is a leaf, and every hash is the node hash.
\<close>

inductive tree_at ::
  "(nodeKey \<Rightarrow> node option) \<Rightarrow> u64 \<Rightarrow> nat list \<Rightarrow> child option \<Rightarrow> leafMap \<Rightarrow> nodeKey set \<Rightarrow> bool"
  for L m
where
  tree_empty: "tree_at L m pre None Map.empty {}"
| tree_leaf:
    "L \<lparr>nk_version = v, nk_prefix = pre\<rparr> = Some (Leaf l) \<Longrightarrow> under pre (l_path l) \<Longrightarrow> is_hash (l_vh l) \<Longrightarrow>
     l_valueVersion l \<le> m \<Longrightarrow> v \<le> m \<Longrightarrow>
     tree_at L m pre (Some \<lparr>c_version = v, c_hash = hashNode (Leaf l), c_isLeaf = True\<rparr>)
       [l_path l \<mapsto> (l_vh l, l_valueVersion l)] {\<lparr>nk_version = v, nk_prefix = pre\<rparr>}"
| tree_node:
    "L \<lparr>nk_version = v, nk_prefix = pre\<rparr> = Some (Internal cs) \<Longrightarrow> length cs = 16 \<Longrightarrow> multi M \<Longrightarrow> v \<le> m \<Longrightarrow>
     length pre < 64 \<Longrightarrow> (\<And>i. i < 16 \<Longrightarrow> tree_at L m (pre @ [i]) (cs ! i) (slotMap M (length pre) i) (T i)) \<Longrightarrow>
     N = insert \<lparr>nk_version = v, nk_prefix = pre\<rparr> (\<Union>i < 16. T i) \<Longrightarrow>
     tree_at L m pre (Some \<lparr>c_version = v, c_hash = hashNode (Internal cs), c_isLeaf = False\<rparr>) M N"

inductive_cases tree_at_NoneE: "tree_at L m pre None M N"
inductive_cases tree_at_SomeE: "tree_at L m pre (Some c) M N"

lemma under_step: "under (pre @ [i]) p \<longleftrightarrow> under pre p \<and> length pre < 64 \<and> nibble p (length pre) = i"
  by (auto simp: under_def nth_append less_Suc_eq)

lemma slotMap_eq: "slotMap M depth i p = (if nibble p depth = i then M p else None)"
  by (simp add: slotMap_def restrict_map_def)

lemma tree_at_under: "tree_at L m pre c M N \<Longrightarrow> p \<in> dom M \<Longrightarrow> under pre p"
proof (induction arbitrary: p rule: tree_at.induct)
  case (tree_node v pre cs M T N)
  have "p \<in> dom (slotMap M (length pre) (nibble p (length pre)))"
    using tree_node.prems by (auto simp: slotMap_eq split: if_splits)
  from tree_node.IH [OF nibble_less this] show ?case by (simp add: under_step)
qed (auto split: if_splits)

lemma tree_at_keys: "tree_at L m pre c M N \<Longrightarrow> nk \<in> N \<Longrightarrow> (\<exists>q. nk_prefix nk = pre @ q) \<and> nk_version nk \<le> m \<and> L nk \<noteq> None"
proof (induction arbitrary: nk rule: tree_at.induct)
  case (tree_node v pre cs M T N)
  then show ?case by (auto, metis append.assoc)
qed auto

text \<open>The reference distinguishes the empty, single-leaf and larger subtrees.\<close>

lemma tree_at_kind:
  "tree_at L m pre c M N \<Longrightarrow>
     (case c of None \<Rightarrow> M = Map.empty | Some c \<Rightarrow> if c_isLeaf c then \<exists>p v. M = [p \<mapsto> v] else multi M)"
  by (erule tree_at.cases) auto

lemma tree_at_cong:
  "tree_at L m pre c M N \<Longrightarrow> (\<And>nk q. nk_prefix nk = pre @ q \<Longrightarrow> nk \<in> N \<Longrightarrow> L' nk = L nk) \<Longrightarrow> m \<le> m' \<Longrightarrow>
     tree_at L' m' pre c M N"
proof (induction rule: tree_at.induct)
  case (tree_leaf v pre l)
  then show ?case by (intro tree_at.tree_leaf) (auto intro: order_trans)
next
  case (tree_node v pre cs M T N)
  show ?case
  proof (rule tree_at.tree_node [where T = T])
    show "tree_at L' m' (pre @ [i]) (cs ! i) (slotMap M (length pre) i) (T i)" if "i < 16" for i
      using that tree_node.prems by (intro tree_node.IH) (auto simp: tree_node.hyps)
  qed (use tree_node in \<open>auto intro: order_trans\<close>)
qed (rule tree_empty)

section \<open>The hash of a stored subtree is the reference root\<close>

lemma present_Nil: "present cs start w = [] \<longleftrightarrow> (\<forall>i \<in> {start..<start + w}. cs ! i = None)"
  by (auto simp: present_def List.map_filter_def filter_empty_conv)

lemma present_single:
  assumes "present cs start w = [c]"
  obtains i where "start \<le> i" "i < start + w" "cs ! i = Some c"
    "\<And>j. start \<le> j \<Longrightarrow> j < start + w \<Longrightarrow> j \<noteq> i \<Longrightarrow> cs ! j = None"
proof -
  define F where "F = filter (\<lambda>i. cs ! i \<noteq> None) [start..<start + w]"
  have "map (the \<circ> (\<lambda>i. cs ! i)) F = [c]" using assms by (simp add: present_def List.map_filter_def F_def)
  then obtain i where i: "F = [i]" "the (cs ! i) = c" by (cases F) auto
  then have s: "{j \<in> {start..<start + w}. cs ! j \<noteq> None} = {i}"
    by (metis F_def list.set(1) list.simps(15) set_filter set_upt)
  then have "start \<le> i" "i < start + w" "cs ! i \<noteq> None" by auto
  moreover have "cs ! j = None" if "start \<le> j" "j < start + w" "j \<noteq> i" for j
    using s that by fastforce
  ultimately show thesis using i(2) by (intro that [of i]) auto
qed

lemma present_many:
  assumes "2 \<le> length (present cs start w)"
  obtains i j where "start \<le> i" "i < j" "j < start + w" "cs ! i \<noteq> None" "cs ! j \<noteq> None"
proof -
  define F where "F = filter (\<lambda>i. cs ! i \<noteq> None) [start..<start + w]"
  have "2 \<le> length F" using assms by (simp add: present_def List.map_filter_def F_def)
  then obtain i j F' where F: "F = i # j # F'" by (cases F rule: remdups_adj.cases) auto
  have "sorted_wrt (<) F" unfolding F_def by (intro sorted_wrt_filter) simp
  moreover have "set F = {i \<in> {start..<start + w}. cs ! i \<noteq> None}" by (simp add: F_def)
  ultimately show thesis unfolding F by (intro that [of i j]) auto
qed

lemma slot_range_bit:
  fixes n :: nat
  assumes "w = 2 ^ k" "start = 2 * w * q" "start \<le> n" "n < start + 2 * w"
  shows "bit n k \<longleftrightarrow> start + w \<le> n"
proof -
  have "bit n k \<longleftrightarrow> odd (n div w)" by (simp add: bit_iff_odd assms(1))
  moreover have "n div w = 2 * q + 1" if "start + w \<le> n"
    using that assms by (intro div_nat_eqI) (simp_all add: algebra_simps)
  moreover have "n div w = 2 * q" if "\<not> start + w \<le> n"
    using that assms by (intro div_nat_eqI) (simp_all add: algebra_simps)
  ultimately show ?thesis by (cases "start + w \<le> n") simp_all
qed

text \<open>The leaves in the slots \<open>[start, start + w)\<close>.\<close>

definition rangeMap :: "(hash \<rightharpoonup> hash) \<Rightarrow> nat \<Rightarrow> nat \<Rightarrow> nat \<Rightarrow> hash \<rightharpoonup> hash" where
  "rangeMap C depth start w = C |` {p. start \<le> nibble p depth \<and> nibble p depth < start + w}"

lemma rangeMap_bit:
  assumes "w = 2 ^ k" "k < 4" "start = 2 * w * q"
  shows "rangeMap C D start (2 * w) |` {p. \<not> bitAt p (4 * D + (3 - k))} = rangeMap C D start w"
    and "rangeMap C D start (2 * w) |` {p. bitAt p (4 * D + (3 - k))} = rangeMap C D (start + w) w"
proof -
  have "bitAt p (4 * D + (3 - k)) \<longleftrightarrow> start + w \<le> nibble p D"
    if "start \<le> nibble p D" "nibble p D < start + 2 * w" for p
    using nibble_bit [of "3 - k" p D] slot_range_bit [OF assms(1,3) that] assms(2) by simp
  then show "rangeMap C D start (2 * w) |` {p. \<not> bitAt p (4 * D + (3 - k))} = rangeMap C D start w"
    and "rangeMap C D start (2 * w) |` {p. bitAt p (4 * D + (3 - k))} = rangeMap C D (start + w) w"
    by (auto simp: rangeMap_def restrict_map_def fun_eq_iff)
qed

lemma rangeMap_eq: "rangeMap C D start w p = (if start \<le> nibble p D \<and> nibble p D < start + w then slotMap C D (nibble p D) p else None)"
  by (auto simp: rangeMap_def restrict_map_def slotMap_eq)

lemma rangeMap_one_slot: "rangeMap C D i (Suc 0) = slotMap C D i"
  by (auto simp: rangeMap_def restrict_map_def slotMap_def fun_eq_iff)

lemma rangeMap_empty: "\<forall>i \<in> {start..<start + w}. slotMap C D i = Map.empty \<Longrightarrow> rangeMap C D start w = Map.empty"
  by (auto simp: fun_eq_iff rangeMap_eq [of C D start w])

lemma rangeMap_one:
  assumes "start \<le> i" "i < start + w" "\<And>j. start \<le> j \<Longrightarrow> j < start + w \<Longrightarrow> j \<noteq> i \<Longrightarrow> slotMap C D j = Map.empty"
  shows "rangeMap C D start w = slotMap C D i"
proof
  fix p show "rangeMap C D start w p = slotMap C D i p"
    using assms(1,2) assms(3) [of "nibble p D"]
    by (cases "nibble p D = i") (auto simp: rangeMap_eq [of C D start w] slotMap_eq)
qed

lemma multi_mono: "multi M \<Longrightarrow> dom M \<subseteq> dom M' \<Longrightarrow> multi M'"
  unfolding multi_def by blast

lemma rangeMap_mono: "start \<le> i \<Longrightarrow> i < start + w \<Longrightarrow> dom (slotMap C D i) \<subseteq> dom (rangeMap C D start w)"
  by (auto simp: rangeMap_def restrict_map_def slotMap_eq split: if_splits)

lemma rangeMap_multi2:
  assumes "start \<le> i" "i < j" "j < start + w" "slotMap C D i \<noteq> Map.empty" "slotMap C D j \<noteq> Map.empty"
  shows "multi (rangeMap C D start w)"
proof -
  obtain p q where "p \<in> dom (slotMap C D i)" "q \<in> dom (slotMap C D j)" using assms(4,5) by fastforce
  moreover from this have "p \<noteq> q" using assms(2) by (auto simp: slotMap_eq split: if_splits)
  ultimately show ?thesis
    using rangeMap_mono [of start i w C D] rangeMap_mono [of start j w C D] assms(1-3)
    unfolding multi_def by (meson less_trans less_imp_le order_trans subsetD)
qed

text \<open>What the proof needs of the children of a node at depth \<open>D\<close>.\<close>

definition slots_ok :: "(hash \<rightharpoonup> hash) \<Rightarrow> nat \<Rightarrow> child option list \<Rightarrow> bool" where
  "slots_ok C D cs \<longleftrightarrow> (\<forall>i < 16. is_smt (4 * Suc D) (slotMap C D i) (rootHashOf (cs ! i)) \<and>
     (case cs ! i of None \<Rightarrow> slotMap C D i = Map.empty
      | Some c \<Rightarrow> if c_isLeaf c then \<exists>p v. slotMap C D i = [p \<mapsto> v] else multi (slotMap C D i)))"

lemma slots_okD:
  assumes "slots_ok C D cs" "i < 16"
  shows "is_smt (4 * Suc D) (slotMap C D i) (rootHashOf (cs ! i))"
    "cs ! i = None \<longleftrightarrow> slotMap C D i = Map.empty"
    "cs ! i = Some c \<Longrightarrow> c_isLeaf c \<Longrightarrow> \<exists>p v. slotMap C D i = [p \<mapsto> v]"
    "cs ! i = Some c \<Longrightarrow> \<not> c_isLeaf c \<Longrightarrow> multi (slotMap C D i)"
  using assms by (auto simp: slots_ok_def split: option.splits if_splits) (metis multi_simps(1) option.exhaust map_upd_nonempty)+

lemma subtreeHash_is_smt:
  assumes ok: "slots_ok C D cs" and D: "D < 64"
  shows "k \<le> 4 \<Longrightarrow> start = 2 ^ k * q \<Longrightarrow> start + 2 ^ k \<le> 16 \<Longrightarrow>
     is_smt (4 * D + (4 - k)) (rangeMap C D start (2 ^ k)) (subtreeHash cs start (2 ^ k))"
proof (induction k arbitrary: start q)
  case 0
  then have "start < 16" by simp
  note S = slots_okD [OF ok this]
  have "present cs start 1 = (case cs ! start of None \<Rightarrow> [] | Some c \<Rightarrow> [c])"
    by (simp add: present_def List.map_filter_def split: option.split)
  then have "subtreeHash cs start 1 = rootHashOf (cs ! start)"
    by (subst subtreeHash.simps) (simp add: rootHashOf_def Let_def split: option.split)
  then show ?case using S(1) by (simp add: rangeMap_one_slot add.commute)
next
  case (Suc k)
  define w where "w = (2::nat) ^ k"
  have w: "2 ^ Suc k = 2 * w" "0 < w" by (simp_all add: w_def)
  note le = Suc.prems(3) [unfolded w(1)]
  let ?ps = "present cs start (2 * w)"
  have split: ?case if m: "multi (rangeMap C D start (2 * w))"
    and h: "subtreeHash cs start (2 * w) = internalHash (subtreeHash cs start w) (subtreeHash cs (start + w) w)"
  proof -
    have d: "Suc (4 * D + (3 - k)) = 4 * D + (4 - k)" "4 * D + (4 - Suc k) = 4 * D + (3 - k)" "4 * D + (3 - k) < 256"
      using Suc.prems(1) D by auto
    have st: "start = 2 * w * q" using Suc.prems(2) by (simp add: w_def)
    have l: "is_smt (4 * D + (4 - k)) (rangeMap C D start w) (subtreeHash cs start w)"
      unfolding w_def using Suc.prems by (intro Suc.IH [of start "2 * q"]) auto
    have r: "is_smt (4 * D + (4 - k)) (rangeMap C D (start + w) w) (subtreeHash cs (start + w) w)"
      unfolding w_def using Suc.prems by (intro Suc.IH [of "start + 2 ^ k" "2 * q + 1"]) (auto simp: algebra_simps)
    have "k < 4" using Suc.prems(1) by simp
    note rm = rangeMap_bit [OF w_def this st, of C D]
    show ?thesis
      unfolding w(1) d(2) h using l r m d(3)
      by (intro is_smt_split) (simp_all only: rm d(1))
  qed
  consider (empty) "?ps = []" | (one) c where "?ps = [c]" | (many) "2 \<le> length ?ps"
    by (cases ?ps rule: remdups_adj.cases) auto
  then show ?case
  proof cases
    case empty
    then have "rangeMap C D start (2 * w) = Map.empty"
      using slots_okD(2) [OF ok] le by (intro rangeMap_empty) (auto simp: present_Nil)
    moreover have "subtreeHash cs start (2 * w) = placeholderHash"
      by (subst subtreeHash.simps) (simp add: empty)
    ultimately show ?thesis unfolding w(1) by simp
  next
    case (one c)
    from present_single [OF one] obtain i where i: "start \<le> i" "i < start + 2 * w" "cs ! i = Some c"
      "\<And>j. start \<le> j \<Longrightarrow> j < start + 2 * w \<Longrightarrow> j \<noteq> i \<Longrightarrow> cs ! j = None" by blast
    then have i16: "i < 16" using le by simp
    have r: "rangeMap C D start (2 * w) = slotMap C D i"
      using i slots_okD(2) [OF ok] le by (intro rangeMap_one) auto
    show ?thesis
    proof (cases "c_isLeaf c")
      case True
      then obtain p v where pv: "slotMap C D i = [p \<mapsto> v]" using slots_okD(3) [OF ok i16 i(3)] by blast
      moreover have "c_hash c = leafHash p v"
        using slots_okD(1) [OF ok i16] i(3) by (simp only: pv is_smt_single) (simp add: rootHashOf_def)
      moreover have "subtreeHash cs start (2 * w) = c_hash c"
        by (subst subtreeHash.simps) (simp add: one True)
      ultimately show ?thesis unfolding w(1) r by (simp only: is_smt_single)
    next
      case False
      have "subtreeHash cs start (2 * w) = internalHash (subtreeHash cs start w) (subtreeHash cs (start + w) w)"
        using w(2) by (subst subtreeHash.simps) (simp add: one False Let_def)
      then show ?thesis using slots_okD(4) [OF ok i16 i(3) False] by (intro split) (simp_all add: r)
    qed
  next
    case many
    from present_many [OF this] obtain i j where "start \<le> i" "i < j" "j < start + 2 * w" "cs ! i \<noteq> None" "cs ! j \<noteq> None" by blast
    then have "multi (rangeMap C D start (2 * w))"
      using slots_okD(2) [OF ok] le by (intro rangeMap_multi2 [of start i j]) auto
    moreover have "subtreeHash cs start (2 * w) = internalHash (subtreeHash cs start w) (subtreeHash cs (start + w) w)"
      using many by (subst subtreeHash.simps) (auto simp: Let_def)
    ultimately show ?thesis by (rule split)
  qed
qed

lemma commits_simps [simp]: "commits Map.empty = Map.empty" "commits [p \<mapsto> (vh, vv)] = [p \<mapsto> vh]" "dom (commits M) = dom M"
  by (auto simp: commits_def fun_eq_iff)

lemma commits_slot: "commits (slotMap M D i) = slotMap (commits M) D i"
  by (auto simp: commits_def slotMap_eq rangeMap_def restrict_map_def fun_eq_iff)

lemma multi_commits [simp]: "multi (commits M) = multi M"
  by (simp add: multi_def)

lemma slots_okI:
  assumes "\<And>i. i < 16 \<Longrightarrow> tree_at L m (pre @ [i]) (cs ! i) (slotMap M (length pre) i) (T i)"
    "\<And>i. i < 16 \<Longrightarrow> is_smt (4 * Suc (length pre)) (commits (slotMap M (length pre) i)) (rootHashOf (cs ! i))"
  shows "slots_ok (commits M) (length pre) cs"
  unfolding slots_ok_def
proof (intro allI impI conjI)
  fix i :: nat assume i: "i < 16"
  show "is_smt (4 * Suc (length pre)) (slotMap (commits M) (length pre) i) (rootHashOf (cs ! i))"
    using assms(2) [OF i] by (simp add: commits_slot)
  show "case cs ! i of None \<Rightarrow> slotMap (commits M) (length pre) i = Map.empty
    | Some c \<Rightarrow> if c_isLeaf c then \<exists>p v. slotMap (commits M) (length pre) i = [p \<mapsto> v]
                else multi (slotMap (commits M) (length pre) i)"
    using tree_at_kind [OF assms(1) [OF i]]
    by (auto simp: commits_slot [symmetric] split: option.splits if_splits) blast
qed

theorem tree_at_smt: "tree_at L m pre c M N \<Longrightarrow> is_smt (4 * length pre) (commits M) (rootHashOf c)"
proof (induction rule: tree_at.induct)
  case (tree_node v pre cs M T N)
  have "slots_ok (commits M) (length pre) cs"
    using tree_node.hyps(6) tree_node.IH by (intro slots_okI) simp_all
  from subtreeHash_is_smt [OF this tree_node.hyps(5), of 4 0 0]
  have "is_smt (4 * length pre) (rangeMap (commits M) (length pre) 0 16) (subtreeHash cs 0 16)" by simp
  moreover have "rangeMap (commits M) (length pre) 0 16 = commits M"
    by (auto simp: rangeMap_def restrict_map_def)
  ultimately show ?case by (simp add: rootHashOf_def)
next
  case (tree_leaf v pre l)
  show ?case by (simp only: commits_simps is_smt_single) (simp add: rootHashOf_def)
qed (simp add: rootHashOf_def)

lemma tree_at_slots_ok:
  assumes "\<And>i. i < 16 \<Longrightarrow> tree_at L m (pre @ [i]) (cs ! i) (slotMap M (length pre) i) (T i)"
  shows "slots_ok (commits M) (length pre) cs"
  using assms tree_at_smt [OF assms] by (intro slots_okI) simp_all

end
