(* ===== verification/Commit_Inv.thy ===== *)
theory Commit_Inv
  imports Tree_Inv
begin

text \<open>
  Invariants of the commit accumulator and the correctness of \<^verbatim>\<open>putLeaf\<close> and \<^verbatim>\<open>buildFromPairs\<close>
  (\<^verbatim>\<open>ledger/store.go\<close>). \<open>delta\<close> says what a part of a commit changes inside a region of the
  tree: which nodes it leaves pending, which records it marks stale and which values it must write; steps
  in disjoint regions compose.
\<close>

section \<open>Sorted paths visit the slots in order\<close>

lemma unat_byte_nibbles: "unat (b :: byte) = 16 * unat (drop_bit 4 b) + unat (b AND 15)"
proof -
  have lt: "unat b < 256" using unsigned_less [of b, where ?'a = nat] by simp
  have tb: "take_bit 8 (unat b) = unat b" using lt by (simp add: take_bit_nat_eq_self_iff)
  have "unat (drop_bit 4 b) = drop_bit 4 (unat b)" using tb by (simp add: unsigned_drop_bit_eq)
  also have "\<dots> = unat b div 16" by (simp add: drop_bit_eq_div)
  finally have hi: "unat (drop_bit 4 b) = unat b div 16" .
  have "b AND 15 = take_bit 4 b" by (simp add: take_bit_eq_mask mask_numeral)
  then have "unat (b AND 15) = take_bit 4 (unat b)" by (simp add: unsigned_take_bit_eq)
  also have "\<dots> = unat b mod 16" by (simp add: take_bit_eq_mod)
  finally show ?thesis using hi by simp
qed

lemma nibble_mono:
  assumes "is_hash p" "is_hash q" "p \<le> q" "D < 64" "\<And>i. i < D \<Longrightarrow> nibble p i = nibble q i"
  shows "nibble p D \<le> nibble q D"
proof (rule ccontr)
  assume lt: "\<not> nibble p D \<le> nibble q D"
  define b where "b = D div 2"
  have len: "b < length p" "length p = length q" using assms(1,2,4) by (auto simp: b_def is_hash_def)
  have "take b p = take b q"
  proof (rule nth_equalityI)
    fix k assume "k < length (take b p)"
    then have k: "k < b" by simp
    then have "2 * k < D" "2 * k + 1 < D" by (auto simp: b_def)
    then have "nibble p (2 * k) = nibble q (2 * k)" "nibble p (2 * k + 1) = nibble q (2 * k + 1)"
      using assms(5) by blast+
    then have "p ! k = q ! k" by (intro byte_nibbles_eqI) (simp_all add: nibble_def)
    then show "take b p ! k = take b q ! k" using k by simp
  qed (use len in simp)
  moreover have "q ! b < p ! b"
  proof (cases "even D")
    case True
    then have "unat (drop_bit 4 (q ! b)) < unat (drop_bit 4 (p ! b))"
      using lt by (simp add: nibble_def b_def)
    moreover have "unat (q ! b AND 15) < 16" using word_and_le1 [of "q ! b" 15] by (simp add: word_le_nat_alt)
    ultimately show ?thesis
      using unat_byte_nibbles [of "q ! b"] unat_byte_nibbles [of "p ! b"] by (simp add: word_less_nat_alt)
  next
    case False
    then have D: "D = 2 * b + 1" by (simp add: b_def)
    then have "nibble p (2 * b) = nibble q (2 * b)" by (intro assms(5)) simp
    then have "unat (drop_bit 4 (q ! b)) = unat (drop_bit 4 (p ! b))" by (simp add: nibble_def)
    moreover have "unat (q ! b AND 15) < unat (p ! b AND 15)" using lt by (simp add: nibble_def D)
    ultimately show ?thesis
      using unat_byte_nibbles [of "q ! b"] unat_byte_nibbles [of "p ! b"] by (simp add: word_less_nat_alt)
  qed
  ultimately have "take b q @ drop b q < take b p @ drop b p"
    using len by (simp add: append_less_same_length Cons_nth_drop_Suc [symmetric])
  then show False using assms(3) by simp
qed

text \<open>Two different paths below a common prefix leave room for another nibble.\<close>

lemma under_eq64:
  assumes "under pre p" "under pre q" "64 \<le> length pre"
  shows "p = q"
  using assms by (intro path_eq_nibbles) (auto simp: under_def is_hash_def)

lemma sorted_nibbles:
  assumes "sorted ps" "\<forall>p \<in> set ps. under pre p" "length pre < 64"
  shows "sorted (map (\<lambda>p. nibble p (length pre)) ps)"
  using assms
proof (induction ps)
  case (Cons p ps)
  then have "nibble p (length pre) \<le> nibble q (length pre)" if "q \<in> set ps" for q
    using that by (intro nibble_mono) (auto simp: under_def)
  with Cons show ?case by auto
qed simp

text \<open>On a list sorted by slot, the group of the first slot is everything in that slot.\<close>

lemma takeWhile_group:
  assumes "sorted (map f (x # xs))"
  shows "x # takeWhile (\<lambda>y. f y = f x) xs = filter (\<lambda>y. f y = f x) (x # xs)"
    and "dropWhile (\<lambda>y. f y = f x) xs = filter (\<lambda>y. f y \<noteq> f x) (x # xs)"
proof -
  have "takeWhile (\<lambda>y. f y = f x) xs = filter (\<lambda>y. f y = f x) xs \<and>
     dropWhile (\<lambda>y. f y = f x) xs = filter (\<lambda>y. f y \<noteq> f x) xs"
    using assms
  proof (induction xs)
    case (Cons y ys)
    show ?case
    proof (cases "f y = f x")
      case True
      with Cons show ?thesis by simp
    next
      case False
      then have "\<forall>z \<in> set (y # ys). f z \<noteq> f x" using Cons.prems by fastforce
      then show ?thesis using False by (auto simp: filter_empty_conv filter_id_conv)
    qed
  qed simp
  then show "x # takeWhile (\<lambda>y. f y = f x) xs = filter (\<lambda>y. f y = f x) (x # xs)"
    and "dropWhile (\<lambda>y. f y = f x) xs = filter (\<lambda>y. f y \<noteq> f x) (x # xs)" by simp_all
qed

section \<open>Looking nodes up during a commit\<close>

text \<open>A node record of a backend that stands for the map \<open>V\<close>.\<close>

definition nodeAt :: "(bytes \<rightharpoonup> bytes) \<Rightarrow> nodeKey \<Rightarrow> node option" where
  "nodeAt V nk =
     (if wf_nodeKey nk
      then (case V (nodeRecordKey nk) of
              None \<Rightarrow> None
            | Some rec \<Rightarrow> (case decodeNode rec of Inl _ \<Rightarrow> None | Inr n \<Rightarrow> Some n))
      else None)"

text \<open>Where \<open>resolveNode\<close> finds a node: pending at the new version, stored otherwise.\<close>

definition lookupNode :: "(bytes \<rightharpoonup> bytes) \<Rightarrow> commitAcc \<Rightarrow> nodeKey \<Rightarrow> node option" where
  "lookupNode V acc nk =
     (if nk_version nk = a_newVersion acc
      then (if wf_nodeKey nk then map_option snd (map_of (a_pending acc) (encodeKey nk)) else None)
      else nodeAt V nk)"

text \<open>
  The accumulator of a commit that inserts the (path, commitment) pairs \<open>X\<close>: pending nodes are
  well-formed and keyed by their encoded key, a value record is the stored form of an insert with that
  commitment, and no two paths share a commitment.
\<close>

definition acc_ok :: "(hash \<times> hash) set \<Rightarrow> commitAcc \<Rightarrow> bool" where
  "acc_ok X acc \<longleftrightarrow>
     distinct (map fst (a_pending acc)) \<and>
     (\<forall>(k, nk, n) \<in> set (a_pending acc).
        k = encodeKey nk \<and> wf_nodeKey nk \<and> nk_version nk = a_newVersion acc \<and> wf_node n) \<and>
     distinct (map fst (a_values acc)) \<and>
     (\<forall>vh ct. map_of (a_values acc) vh = Some ct \<longrightarrow>
        (\<exists>p. (p, vh) \<in> X \<and> map_of (a_insertCTs acc) p = Some ct)) \<and>
     (\<forall>(p, vh) \<in> X. p \<in> dom (map_of (a_insertCTs acc))) \<and>
     (\<forall>p q vh. (p, vh) \<in> X \<longrightarrow> (q, vh) \<in> X \<longrightarrow> p = q)"

definition below :: "nat list set \<Rightarrow> nodeKey \<Rightarrow> bool" where
  "below B nk \<longleftrightarrow> (\<exists>pre \<in> B. \<exists>q. nk_prefix nk = pre @ q)"

definition underAny :: "nat list set \<Rightarrow> hash \<Rightarrow> bool" where
  "underAny B p \<longleftrightarrow> (\<exists>pre \<in> B. under pre p)"

lemma lookup_putPending:
  assumes "acc_ok X acc" "wf_nodeKey nk" "nk_version nk = a_newVersion acc"
  shows "lookupNode V (putPending nk n acc) = (lookupNode V acc)(nk \<mapsto> n)"
  using assms encodeKey_inject by (auto simp: lookupNode_def putPending_def update_conv' fun_eq_iff)

lemma lookup_delPending:
  assumes "acc_ok X acc" "wf_nodeKey nk" "nk_version nk = a_newVersion acc"
  shows "lookupNode V (delPending nk acc) = (lookupNode V acc)(nk := None)"
  using assms encodeKey_inject by (auto simp: lookupNode_def delPending_def delete_conv' fun_eq_iff)

lemma set_alist_update: "distinct (map fst m) \<Longrightarrow> set (AList.update k v m) = insert (k, v) {(k', v') \<in> set m. k' \<noteq> k}"
  by (induction m) force+

lemma set_alist_delete: "set (AList.delete k m) = {(k', v') \<in> set m. k' \<noteq> k}"
  by (induction m) auto

lemma acc_ok_putPending:
  assumes "acc_ok X acc" "wf_nodeKey nk" "nk_version nk = a_newVersion acc" "wf_node n"
  shows "acc_ok X (putPending nk n acc)"
  using assms by (auto simp: acc_ok_def putPending_def distinct_update set_alist_update)

lemma acc_ok_delPending: "acc_ok X acc \<Longrightarrow> acc_ok X (delPending nk acc)"
  by (auto simp: acc_ok_def delPending_def distinct_delete set_alist_delete)

lemma acc_ok_addStale: "acc_ok X acc \<Longrightarrow> acc_ok X (addStale k acc)"
  by (auto simp: acc_ok_def addStale_def)

lemma lookup_addStale [simp]: "lookupNode V (addStale k acc) = lookupNode V acc"
  by (auto simp: lookupNode_def addStale_def fun_eq_iff)

lemma acc_fields [simp]:
  "a_newVersion (putPending nk n acc) = a_newVersion acc" "a_newVersion (delPending nk acc) = a_newVersion acc"
  "a_newVersion (addStale k acc) = a_newVersion acc"
  "a_stale (putPending nk n acc) = a_stale acc" "a_stale (delPending nk acc) = a_stale acc"
  "a_stale (addStale k acc) = a_stale acc @ [k]"
  "a_insertCTs (putPending nk n acc) = a_insertCTs acc" "a_insertCTs (delPending nk acc) = a_insertCTs acc"
  "a_insertCTs (addStale k acc) = a_insertCTs acc"
  "a_values (putPending nk n acc) = a_values acc" "a_values (delPending nk acc) = a_values acc"
  "a_values (addStale k acc) = a_values acc"
  "a_newHead (putPending nk n acc) = a_newHead acc" "a_newHead (delPending nk acc) = a_newHead acc"
  "a_newHead (addStale k acc) = a_newHead acc"
  by (simp_all add: putPending_def delPending_def addStale_def)

section \<open>What a part of a commit changes\<close>

text \<open>The records that a step from (\<open>N\<close>, \<open>M\<close>) to (\<open>N'\<close>, \<open>M'\<close>) leaves behind: nodes and values of
  older versions no longer in use.\<close>

definition staleSet :: "u64 \<Rightarrow> nodeKey set \<Rightarrow> leafMap \<Rightarrow> nodeKey set \<Rightarrow> leafMap \<Rightarrow> bytes set" where
  "staleSet nv N M N' M' =
     nodeRecordKey ` {nk \<in> N. nk \<notin> N' \<and> nk_version nk \<noteq> nv} \<union>
     {valueRecordKey vh vv |vh vv. (vh, vv) \<in> ran M \<and> (vh, vv) \<notin> ran M' \<and> vv \<noteq> nv}"

text \<open>
  A step inside the region \<open>B\<close> (a set of prefixes): it touches no pending node and no value outside the
  region, every pending node of the region is in use, new nodes are at the new version, exactly the
  records no longer in use are marked stale, and every value written this commit is at hand.
\<close>

definition delta ::
  "(bytes \<rightharpoonup> bytes) \<Rightarrow> (hash \<times> hash) set \<Rightarrow> nat list set \<Rightarrow> nodeKey set \<Rightarrow> leafMap \<Rightarrow> nodeKey set \<Rightarrow> leafMap \<Rightarrow>
   commitAcc \<Rightarrow> commitAcc \<Rightarrow> bool"
where
  "delta V X B N M N' M' acc acc' \<longleftrightarrow>
     acc_ok X acc' \<and> a_newVersion acc' = a_newVersion acc \<and> a_insertCTs acc' = a_insertCTs acc \<and>
     a_newHead acc' = a_newHead acc \<and>
     (\<forall>nk. \<not> below B nk \<longrightarrow> lookupNode V acc' nk = lookupNode V acc nk) \<and>
     (\<forall>nk \<in> N'. nk_version nk = a_newVersion acc \<or> nk \<in> N) \<and>
     (\<forall>nk. below B nk \<and> nk_version nk = a_newVersion acc \<and> lookupNode V acc' nk \<noteq> None \<longrightarrow> nk \<in> N') \<and>
     (\<exists>T. a_stale acc' = a_stale acc @ T \<and> set T = staleSet (a_newVersion acc) N M N' M') \<and>
     (\<forall>p vh vv. M' p = Some (vh, vv) \<longrightarrow>
        (if vv = a_newVersion acc then vh \<in> dom (map_of (a_values acc')) \<and> (p, vh) \<in> X
         else M p = Some (vh, vv))) \<and>
     (\<forall>vh. (\<forall>p. (p, vh) \<in> X \<longrightarrow> \<not> underAny B p) \<longrightarrow> map_of (a_values acc') vh = map_of (a_values acc) vh)"

lemma deltaD:
  assumes "delta V X B N M N' M' acc acc'"
  shows "acc_ok X acc'" "a_newVersion acc' = a_newVersion acc" "a_insertCTs acc' = a_insertCTs acc"
    "a_newHead acc' = a_newHead acc"
    "\<not> below B nk \<Longrightarrow> lookupNode V acc' nk = lookupNode V acc nk"
    "nk \<in> N' \<Longrightarrow> nk_version nk = a_newVersion acc \<or> nk \<in> N"
    "below B nk \<Longrightarrow> nk_version nk = a_newVersion acc \<Longrightarrow> lookupNode V acc' nk \<noteq> None \<Longrightarrow> nk \<in> N'"
    "\<exists>T. a_stale acc' = a_stale acc @ T \<and> set T = staleSet (a_newVersion acc) N M N' M'"
    "M' p = Some (vh, a_newVersion acc) \<Longrightarrow> vh \<in> dom (map_of (a_values acc')) \<and> (p, vh) \<in> X"
    "M' p = Some (vh, vv) \<Longrightarrow> vv \<noteq> a_newVersion acc \<Longrightarrow> M p = Some (vh, vv)"
    "(\<And>p. (p, vh) \<in> X \<Longrightarrow> \<not> underAny B p) \<Longrightarrow> map_of (a_values acc') vh = map_of (a_values acc) vh"
proof -
  note D = assms [unfolded delta_def]
  show "M' p = Some (vh, a_newVersion acc) \<Longrightarrow> vh \<in> dom (map_of (a_values acc')) \<and> (p, vh) \<in> X"
    "M' p = Some (vh, vv) \<Longrightarrow> vv \<noteq> a_newVersion acc \<Longrightarrow> M p = Some (vh, vv)"
    using D by presburger+
qed (use assms in \<open>unfold delta_def, blast+\<close>)

text \<open>No record is shared between two paths.\<close>

definition own_vals :: "leafMap \<Rightarrow> bool" where
  "own_vals M \<longleftrightarrow> (\<forall>p q e. M p = Some e \<longrightarrow> M q = Some e \<longrightarrow> p = q)"

lemma staleSet_union:
  assumes "\<forall>nk \<in> N1 \<union> N1'. below B1 nk" "\<forall>nk \<in> N2 \<union> N2'. below B2 nk" "\<And>nk. below B1 nk \<Longrightarrow> \<not> below B2 nk"
    "M1 = M |` P1" "M2 = M |` P2" "M1' = M' |` P1" "M2' = M' |` P2" "P1 \<inter> P2 = {}" "own_vals M"
    "\<And>p vh vv. M' p = Some (vh, vv) \<Longrightarrow> p \<in> P1 \<union> P2 \<Longrightarrow> vv \<noteq> nv \<Longrightarrow> M p = Some (vh, vv)"
  shows "staleSet nv N1 M1 N1' M1' \<union> staleSet nv N2 M2 N2' M2' =
         staleSet nv (N1 \<union> N2) (M |` (P1 \<union> P2)) (N1' \<union> N2') (M' |` (P1 \<union> P2))"
proof -
  have n: "{nk \<in> N1. nk \<notin> N1' \<and> nk_version nk \<noteq> nv} \<union> {nk \<in> N2. nk \<notin> N2' \<and> nk_version nk \<noteq> nv} =
      {nk \<in> N1 \<union> N2. nk \<notin> N1' \<union> N2' \<and> nk_version nk \<noteq> nv}"
    using assms(1-3) by blast
  have r: "e \<in> ran (K |` (P1 \<union> P2)) \<longleftrightarrow> e \<in> ran (K |` P1) \<or> e \<in> ran (K |` P2)" for e :: "hash \<times> u64" and K
    by (auto simp: ran_def restrict_map_def)
  have bk: "\<exists>p \<in> P. M p = Some (vh, vv)" if "(vh, vv) \<in> ran (M' |` P)" "vv \<noteq> nv" "P = P1 \<or> P = P2" for vh vv P
    using that assms(10) by (fastforce simp: ran_def restrict_map_def split: if_splits)
  have x: "(vh, vv) \<notin> ran (M' |` P2)" if "(vh, vv) \<in> ran (M |` P1)" "vv \<noteq> nv" for vh vv
    using that bk [of vh vv P2] assms(8,9) by (fastforce simp: ran_def restrict_map_def own_vals_def split: if_splits)
  have y: "(vh, vv) \<notin> ran (M' |` P1)" if "(vh, vv) \<in> ran (M |` P2)" "vv \<noteq> nv" for vh vv
    using that bk [of vh vv P1] assms(8,9) by (fastforce simp: ran_def restrict_map_def own_vals_def split: if_splits)
  have v: "{valueRecordKey vh vv |vh vv. (vh, vv) \<in> ran M1 \<and> (vh, vv) \<notin> ran M1' \<and> vv \<noteq> nv} \<union>
      {valueRecordKey vh vv |vh vv. (vh, vv) \<in> ran M2 \<and> (vh, vv) \<notin> ran M2' \<and> vv \<noteq> nv} =
      {valueRecordKey vh vv |vh vv. (vh, vv) \<in> ran (M |` (P1 \<union> P2)) \<and> (vh, vv) \<notin> ran (M' |` (P1 \<union> P2)) \<and> vv \<noteq> nv}"
    unfolding assms(4-7) r using x y by blast
  show ?thesis unfolding staleSet_def n [symmetric] v [symmetric] image_Un by blast
qed

text \<open>Two steps in disjoint regions, one after the other.\<close>

lemma delta_compose:
  assumes d1: "delta V X B1 N1 (M |` P1) N1' (M' |` P1) acc acc1"
    and d2: "delta V X B2 N2 (M |` P2) N2' (M' |` P2) acc1 acc2"
    and ns: "\<forall>nk \<in> N1 \<union> N1'. below B1 nk" "\<forall>nk \<in> N2 \<union> N2'. below B2 nk"
    and dis: "\<And>nk. below B1 nk \<Longrightarrow> \<not> below B2 nk" "\<And>p. underAny B1 p \<Longrightarrow> \<not> underAny B2 p" "P1 \<inter> P2 = {}"
    and ps: "\<And>p. p \<in> dom M' \<Longrightarrow> p \<in> P1 \<Longrightarrow> underAny B1 p" and own: "own_vals M"
  shows "delta V X (B1 \<union> B2) (N1 \<union> N2) (M |` (P1 \<union> P2)) (N1' \<union> N2') (M' |` (P1 \<union> P2)) acc acc2"
proof -
  have bel: "below (B1 \<union> B2) nk \<longleftrightarrow> below B1 nk \<or> below B2 nk" for nk by (auto simp: below_def)
  have und: "underAny (B1 \<union> B2) p \<longleftrightarrow> underAny B1 p \<or> underAny B2 p" for p by (auto simp: underAny_def)
  note D1 = deltaD [OF d1] and D2 = deltaD [OF d2]
  have nv: "a_newVersion acc1 = a_newVersion acc" by (rule D1(2))
  have old: "M p = Some (vh, vv)" if "M' p = Some (vh, vv)" "p \<in> P1 \<union> P2" "vv \<noteq> a_newVersion acc" for p vh vv
  proof (cases "p \<in> P1")
    case True
    then show ?thesis using D1(10) [of p vh vv] that by simp
  next
    case False
    then show ?thesis using D2(10) [of p vh vv] that nv by simp
  qed
  obtain T1 where T1: "a_stale acc1 = a_stale acc @ T1"
    "set T1 = staleSet (a_newVersion acc) N1 (M |` P1) N1' (M' |` P1)" using D1(8) by blast
  obtain T2 where T2: "a_stale acc2 = a_stale acc1 @ T2"
    "set T2 = staleSet (a_newVersion acc) N2 (M |` P2) N2' (M' |` P2)" using D2(8) nv by auto
  have st: "set (T1 @ T2) = staleSet (a_newVersion acc) (N1 \<union> N2) (M |` (P1 \<union> P2)) (N1' \<union> N2') (M' |` (P1 \<union> P2))"
    unfolding set_append T1(2) T2(2)
    by (rule staleSet_union [OF ns dis(1) refl refl refl refl dis(3) own old])
  have X: "\<And>p q vh. (p, vh) \<in> X \<Longrightarrow> (q, vh) \<in> X \<Longrightarrow> p = q"
    using D1(1) unfolding acc_ok_def by blast
  have keep: "map_of (a_values acc2) vh = map_of (a_values acc1) vh" if "(p, vh) \<in> X" "underAny B1 p" for p vh
    using that X dis(2) by (intro D2(11)) blast
  have vals: "if vv = a_newVersion acc then vh \<in> dom (map_of (a_values acc2)) \<and> (p, vh) \<in> X
         else (M |` (P1 \<union> P2)) p = Some (vh, vv)" if m: "(M' |` (P1 \<union> P2)) p = Some (vh, vv)" for p vh vv
  proof -
    have p: "p \<in> P1 \<union> P2" "M' p = Some (vh, vv)" using m by (auto simp: restrict_map_def split: if_splits)
    show ?thesis
    proof (cases "vv = a_newVersion acc")
      case vv: True
      show ?thesis
      proof (cases "p \<in> P1")
        case True
        with p have "underAny B1 p" by (intro ps) auto
        with D1(9) [of p vh] p True vv keep [of p vh] show ?thesis by (simp add: dom_def)
      next
        case False
        with D2(9) [of p vh] p vv nv show ?thesis by simp
      qed
    next
      case False
      with old [OF p(2,1)] p(1) show ?thesis by simp
    qed
  qed
  have pend: "nk \<in> N1' \<union> N2'" if "below (B1 \<union> B2) nk" "nk_version nk = a_newVersion acc" "lookupNode V acc2 nk \<noteq> None" for nk
  proof (cases "below B2 nk")
    case True
    then show ?thesis using D2(7) that nv by simp
  next
    case False
    then have "lookupNode V acc1 nk \<noteq> None" "below B1 nk" using D2(5) that bel by auto
    then show ?thesis using that D1(7) by blast
  qed
  have ver: "nk_version nk = a_newVersion acc \<or> nk \<in> N1 \<union> N2" if "nk \<in> N1' \<union> N2'" for nk
    using that D1(6) [of nk] D2(6) [of nk] nv by auto
  show ?thesis
    unfolding delta_def
  proof (intro conjI allI ballI impI)
    show "\<exists>T. a_stale acc2 = a_stale acc @ T \<and> set T = staleSet (a_newVersion acc) (N1 \<union> N2) (M |` (P1 \<union> P2)) (N1' \<union> N2') (M' |` (P1 \<union> P2))"
      using T1(1) T2(1) st by (intro exI [of _ "T1 @ T2"]) simp
    show "lookupNode V acc2 nk = lookupNode V acc nk" if "\<not> below (B1 \<union> B2) nk" for nk
      using that D1(5) [of nk] D2(5) [of nk] bel by simp
    show "map_of (a_values acc2) vh = map_of (a_values acc) vh" if "\<forall>p. (p, vh) \<in> X \<longrightarrow> \<not> underAny (B1 \<union> B2) p" for vh
      using that D1(11) [of vh] D2(11) [of vh] und by simp
  qed (use D1(1-4) D2(1-4) vals pend ver in auto)
qed

section \<open>Building a subtree from leaves\<close>

definition leafMapOf :: "leafNode list \<Rightarrow> leafMap" where
  "leafMapOf ps = map_of (map (\<lambda>l. (l_path l, l_vh l, l_valueVersion l)) ps)"

text \<open>The entries of a map that an older version wrote.\<close>

definition oldPart :: "u64 \<Rightarrow> leafMap \<Rightarrow> leafMap" where
  "oldPart nv M p = (case M p of Some (vh, vv) \<Rightarrow> if vv = nv then None else Some (vh, vv) | None \<Rightarrow> None)"

definition pairs_ok :: "u64 \<Rightarrow> (hash \<times> hash) set \<Rightarrow> nat list \<Rightarrow> leafNode list \<Rightarrow> bool" where
  "pairs_ok nv X pre ps \<longleftrightarrow>
     distinct (map l_path ps) \<and> sorted (map l_path ps) \<and> own_vals (oldPart nv (leafMapOf ps)) \<and>
     (\<forall>l \<in> set ps. under pre (l_path l) \<and> is_hash (l_vh l) \<and> l_valueVersion l \<le> nv \<and>
        (l_valueVersion l = nv \<longrightarrow> (l_path l, l_vh l) \<in> X))"

definition wf_prefix :: "nat list \<Rightarrow> bool" where
  "wf_prefix pre \<longleftrightarrow> length pre \<le> 64 \<and> (\<forall>n \<in> set pre. n < 16)"

text \<open>No pending node in a region.\<close>

definition fresh :: "(bytes \<rightharpoonup> bytes) \<Rightarrow> nat list set \<Rightarrow> commitAcc \<Rightarrow> bool" where
  "fresh V B acc \<longleftrightarrow> (\<forall>nk. below B nk \<longrightarrow> nk_version nk = a_newVersion acc \<longrightarrow> lookupNode V acc nk = None)"

lemma wf_prefix_nodeKey [simp]: "wf_nodeKey \<lparr>nk_version = v, nk_prefix = pre\<rparr> \<longleftrightarrow> wf_prefix pre"
  by (simp add: wf_nodeKey_def wf_prefix_def)

lemma is_smt_hash: "is_smt d M h \<Longrightarrow> is_hash h"
proof -
  have "is_hash (smt d xs)" for xs by (subst smt.simps) (auto simp: is_hash_def split: list.split)
  then show "is_smt d M h \<Longrightarrow> is_hash h" by (auto simp: is_smt_def)
qed

lemma tree_at_hash: "tree_at L m pre (Some c) M N \<Longrightarrow> is_hash (c_hash c)"
  using is_smt_hash [OF tree_at_smt] by (fastforce simp: rootHashOf_def)

lemma below_self [simp]: "below {nk_prefix nk} nk"
  by (simp add: below_def)

lemma below_one: "below {pre} nk \<longleftrightarrow> (\<exists>q. nk_prefix nk = pre @ q)"
  by (simp add: below_def)

lemma below_slots: "below ((\<lambda>i. pre @ [i]) ` S) nk \<longleftrightarrow> (\<exists>i \<in> S. \<exists>q. nk_prefix nk = pre @ i # q)"
  by (auto simp: below_def)

lemma underAny_one [simp]: "underAny {pre} p = under pre p"
  by (simp add: underAny_def)

lemma underAny_slots:
  "underAny ((\<lambda>i. pre @ [i]) ` S) p \<longleftrightarrow> under pre p \<and> length pre < 64 \<and> nibble p (length pre) \<in> S"
  by (auto simp: underAny_def under_step)

lemma putLeaf_spec:
  assumes ok: "acc_ok X acc" and f: "fresh V {pre} acc" and wf: "wf_prefix pre"
    and l: "under pre (l_path l)" "is_hash (l_vh l)" "l_valueVersion l \<le> a_newVersion acc"
      "l_valueVersion l = a_newVersion acc \<Longrightarrow> (l_path l, l_vh l) \<in> X"
  shows "\<exists>c acc' N'. putLeaf pre l acc = (Inr c, acc') \<and>
     tree_at (lookupNode V acc') (a_newVersion acc) pre c [l_path l \<mapsto> (l_vh l, l_valueVersion l)] N' \<and>
     delta V X {pre} {} (oldPart (a_newVersion acc) [l_path l \<mapsto> (l_vh l, l_valueVersion l)]) N'
       [l_path l \<mapsto> (l_vh l, l_valueVersion l)] acc acc'"
proof -
  let ?nv = "a_newVersion acc" and ?nk = "\<lparr>nk_version = a_newVersion acc, nk_prefix = pre\<rparr>"
  let ?M = "[l_path l \<mapsto> (l_vh l, l_valueVersion l)]"
  define acc1 where "acc1 = (if l_valueVersion l = ?nv \<and> map_of (a_values acc) (l_vh l) = None
      then acc\<lparr>a_values := AList.update (l_vh l) (the (map_of (a_insertCTs acc) (l_path l))) (a_values acc)\<rparr> else acc)"
  have ct: "\<exists>ct. map_of (a_insertCTs acc) (l_path l) = Some ct" if "l_valueVersion l = ?nv"
    using l(4) [OF that] ok by (fastforce simp: acc_ok_def)
  have run: "putLeaf pre l acc = (Inr (Some \<lparr>c_version = ?nv, c_hash = hashNode (Leaf l), c_isLeaf = True\<rparr>),
      putPending ?nk (Leaf l) acc1)"
    using ct by (auto simp: putLeaf_def andThen_def ret_def acc1_def Let_def)
  have same: "a_newVersion acc1 = ?nv" "a_insertCTs acc1 = a_insertCTs acc" "a_newHead acc1 = a_newHead acc"
    "a_stale acc1 = a_stale acc" "a_pending acc1 = a_pending acc"
    by (simp_all add: acc1_def)
  have ok1: "acc_ok X acc1"
    using ok ct l(4) by (auto simp: acc1_def acc_ok_def set_alist_update distinct_update split: if_splits)
  have look1: "lookupNode V acc1 = lookupNode V acc"
    by (simp add: lookupNode_def same fun_eq_iff)
  let ?acc' = "putPending ?nk (Leaf l) acc1"
  have look: "lookupNode V ?acc' = (lookupNode V acc)(?nk \<mapsto> Leaf l)"
    using lookup_putPending [OF ok1] wf same(1) by (simp add: look1)
  have ok': "acc_ok X ?acc'"
    using l wf same(1) by (intro acc_ok_putPending ok1) (auto simp: wf_leaf_def under_def)
  have vals: "map_of (a_values acc1) vh = (if vh = l_vh l \<and> l_valueVersion l = ?nv \<and> map_of (a_values acc) vh = None
      then map_of (a_insertCTs acc) (l_path l) else map_of (a_values acc) vh)" for vh
    using ct by (auto simp: acc1_def update_conv')
  have t: "tree_at (lookupNode V ?acc') ?nv pre (Some \<lparr>c_version = ?nv, c_hash = hashNode (Leaf l), c_isLeaf = True\<rparr>) ?M {?nk}"
    using l by (intro tree_leaf) (simp_all add: look)
  have st: "staleSet ?nv {} (oldPart ?nv ?M) {?nk} ?M = {}"
    by (auto simp: staleSet_def oldPart_def ran_def split: if_splits)
  have "delta V X {pre} {} (oldPart ?nv ?M) {?nk} ?M acc ?acc'"
    unfolding delta_def st
  proof (intro conjI allI impI)
    show "if vv = ?nv then vh \<in> dom (map_of (a_values ?acc')) \<and> (p, vh) \<in> X else oldPart ?nv ?M p = Some (vh, vv)"
      if "?M p = Some (vh, vv)" for p vh vv
      using that l(4) ct by (auto simp: vals oldPart_def split: if_splits)
    show "map_of (a_values ?acc') vh = map_of (a_values acc) vh"
      if "\<forall>p. (p, vh) \<in> X \<longrightarrow> \<not> underAny {pre} p" for vh
      using that l(1,4) by (auto simp: vals)
    show "nk \<in> {?nk}" if "below {pre} nk \<and> nk_version nk = ?nv \<and> lookupNode V ?acc' nk \<noteq> None" for nk
      using that f by (auto simp: look fresh_def split: if_splits)
  qed (use ok' look in \<open>auto simp: same below_def\<close>)
  with run t show ?thesis by blast
qed

abbreviation slotPrefixes :: "nat list \<Rightarrow> nat set \<Rightarrow> nat list set" where
  "slotPrefixes pre S \<equiv> (\<lambda>i. pre @ [i]) ` S"

abbreviation inSlots :: "nat \<Rightarrow> nat set \<Rightarrow> hash set" where
  "inSlots D S \<equiv> {p. nibble p D \<in> S}"

lemma delta_refl_empty: "acc_ok X acc \<Longrightarrow> delta V X {} {} Map.empty {} Map.empty acc acc"
  by (auto simp: delta_def below_def staleSet_def)

lemma delta_slots_compose:
  assumes "delta V X (slotPrefixes pre S1) N1 (M |` inSlots (length pre) S1) N1' (M' |` inSlots (length pre) S1) acc acc1"
    "delta V X (slotPrefixes pre S2) N2 (M |` inSlots (length pre) S2) N2' (M' |` inSlots (length pre) S2) acc1 acc2"
    "\<forall>nk \<in> N1 \<union> N1'. below (slotPrefixes pre S1) nk" "\<forall>nk \<in> N2 \<union> N2'. below (slotPrefixes pre S2) nk"
    "S1 \<inter> S2 = {}" "\<forall>p \<in> dom M'. under pre p" "length pre < 64" "own_vals M"
  shows "delta V X (slotPrefixes pre (S1 \<union> S2)) (N1 \<union> N2) (M |` inSlots (length pre) (S1 \<union> S2))
           (N1' \<union> N2') (M' |` inSlots (length pre) (S1 \<union> S2)) acc acc2"
proof -
  have "inSlots (length pre) (S1 \<union> S2) = inSlots (length pre) S1 \<union> inSlots (length pre) S2" by auto
  then show ?thesis
    unfolding image_Un
    using assms by (simp only:) (rule delta_compose; auto simp: below_slots underAny_slots)
qed

lemma leafMapOf_filter: "leafMapOf (filter (\<lambda>l. P (l_path l)) ps) = leafMapOf ps |` {p. P p}"
  by (induction ps) (auto simp: leafMapOf_def restrict_map_def fun_eq_iff)

lemma oldPart_restrict: "oldPart nv (M |` A) = oldPart nv M |` A"
  by (auto simp: oldPart_def restrict_map_def fun_eq_iff)

lemma own_vals_restrict: "own_vals M \<Longrightarrow> own_vals (M |` A)"
  by (auto simp: own_vals_def restrict_map_def split: if_splits)

lemma dom_leafMapOf: "dom (leafMapOf ps) = l_path ` set ps"
  by (simp add: leafMapOf_def dom_map_of_conv_image_fst image_image)

lemma pairs_ok_filter:
  assumes "pairs_ok nv X pre ps"
  shows "pairs_ok nv X pre (filter (\<lambda>l. P (l_path l)) ps)"
  using assms
  by (auto simp: pairs_ok_def leafMapOf_filter oldPart_restrict own_vals_restrict distinct_map_filter
        sorted_filter)

lemma pairs_ok_slot:
  assumes "pairs_ok nv X pre ps" "length pre < 64"
  shows "pairs_ok nv X (pre @ [i]) (filter (\<lambda>l. nibble (l_path l) (length pre) = i) ps)"
  using pairs_ok_filter [OF assms(1), of "\<lambda>p. nibble p (length pre) = i"] assms(2)
  by (auto simp: pairs_ok_def under_step)

definition build_post ::
  "(bytes \<rightharpoonup> bytes) \<Rightarrow> (hash \<times> hash) set \<Rightarrow> nat list \<Rightarrow> leafNode list \<Rightarrow> commitAcc \<Rightarrow>
   (goerr + child option) \<times> commitAcc \<Rightarrow> bool"
where
  "build_post V X pre ps acc r \<longleftrightarrow> (\<exists>c acc' N'. r = (Inr c, acc') \<and>
     tree_at (lookupNode V acc') (a_newVersion acc) pre c (leafMapOf ps) N' \<and>
     delta V X {pre} {} (oldPart (a_newVersion acc) (leafMapOf ps)) N' (leafMapOf ps) acc acc')"

definition slotsIn :: "nat \<Rightarrow> leafNode list \<Rightarrow> nat set" where
  "slotsIn D ps = (\<lambda>l. nibble (l_path l) D) ` set ps"

lemma slotMap_restrict: "slotMap M D i = M |` inSlots D {i}"
  by (simp add: slotMap_def)

lemma restrict_all_slots: "dom M \<subseteq> inSlots D S \<Longrightarrow> M |` inSlots D S = M"
  by (auto simp: restrict_map_def fun_eq_iff) (metis domIff subsetD mem_Collect_eq)

lemma dom_oldPart: "dom (oldPart nv M) \<subseteq> dom M"
  by (auto simp: oldPart_def split: option.splits)

lemma buildGroups_spec:
  assumes IH: "\<And>nib qs acc. nib < 16 \<Longrightarrow> qs \<noteq> [] \<Longrightarrow> pairs_ok nv X (pre @ [nib]) qs \<Longrightarrow> acc_ok X acc \<Longrightarrow>
      a_newVersion acc = nv \<Longrightarrow> fresh V {pre @ [nib]} acc \<Longrightarrow> build_post V X (pre @ [nib]) qs acc (build nib qs acc)"
    and pre: "length pre < 64"
  shows "pairs_ok nv X pre ps \<Longrightarrow> acc_ok X acc \<Longrightarrow> a_newVersion acc = nv \<Longrightarrow>
    fresh V (slotPrefixes pre (slotsIn (length pre) ps)) acc \<Longrightarrow> length cs = 16 \<Longrightarrow>
    \<exists>cs' acc' T. buildGroups build (length pre) ps cs acc = (Inr cs', acc') \<and> length cs' = 16 \<and>
      (\<forall>i. i \<notin> slotsIn (length pre) ps \<longrightarrow> cs' ! i = cs ! i) \<and>
      (\<forall>i \<in> slotsIn (length pre) ps.
         tree_at (lookupNode V acc') nv (pre @ [i]) (cs' ! i) (slotMap (leafMapOf ps) (length pre) i) (T i)) \<and>
      delta V X (slotPrefixes pre (slotsIn (length pre) ps)) {} (oldPart nv (leafMapOf ps))
        (\<Union>i \<in> slotsIn (length pre) ps. T i) (leafMapOf ps) acc acc'"
proof (induction "length ps" arbitrary: ps cs acc rule: less_induct)
  case less
  let ?D = "length pre"
  show ?case
  proof (cases ps)
    case Nil
    then show ?thesis
      using less.prems delta_refl_empty [of X acc V]
      by (auto simp: slotsIn_def leafMapOf_def ret_def oldPart_def [abs_def])
  next
    case (Cons p ps')
    define nib where "nib = nibble (l_path p) ?D"
    define g where "g = filter (\<lambda>l. nibble (l_path l) ?D = nib) ps"
    define r where "r = filter (\<lambda>l. nibble (l_path l) ?D \<noteq> nib) ps"
    have "\<forall>p \<in> set (map l_path ps). under pre p" "sorted (map l_path ps)"
      using less.prems(1) by (auto simp: pairs_ok_def)
    then have "sorted (map (\<lambda>l. nibble (l_path l) ?D) ps)"
      using sorted_nibbles [of "map l_path ps" pre] pre by (simp add: comp_def)
    then have grp: "p # takeWhile (\<lambda>q. nibble (l_path q) ?D = nib) ps' = g"
      "dropWhile (\<lambda>q. nibble (l_path q) ?D = nib) ps' = r"
      using takeWhile_group [of "\<lambda>l. nibble (l_path l) ?D" p ps'] by (simp_all add: Cons g_def r_def nib_def)
    have S: "slotsIn ?D ps = insert nib (slotsIn ?D r)" "nib \<notin> slotsIn ?D r" "slotsIn ?D g = {nib}"
      by (auto simp: slotsIn_def r_def g_def nib_def Cons)
    have gne: "g \<noteq> []" and rlen: "length r < length ps"
      by (simp_all add: g_def r_def Cons nib_def le_imp_less_Suc)
    have gm: "leafMapOf g = slotMap (leafMapOf ps) ?D nib"
      by (simp add: g_def leafMapOf_filter [of "\<lambda>p. nibble p ?D = nib"] slotMap_def)
    have rm: "leafMapOf r = leafMapOf ps |` inSlots ?D (slotsIn ?D r)"
    proof -
      have "leafMapOf r = leafMapOf ps |` {p. nibble p ?D \<noteq> nib}"
        by (simp add: r_def leafMapOf_filter [of "\<lambda>p. nibble p ?D \<noteq> nib"])
      moreover have "nibble q ?D \<noteq> nib \<longleftrightarrow> nibble q ?D \<in> slotsIn ?D r" if "q \<in> dom (leafMapOf ps)" for q
        using that by (auto simp: dom_leafMapOf slotsIn_def r_def)
      ultimately show ?thesis
        by (intro ext) (metis (mono_tags, lifting) domIff mem_Collect_eq restrict_map_def)
    qed
    from IH [of nib g acc] obtain c acc1 N1 where
      b: "build nib g acc = (Inr c, acc1)" and
      t1: "tree_at (lookupNode V acc1) nv (pre @ [nib]) c (leafMapOf g) N1" and
      d1: "delta V X {pre @ [nib]} {} (oldPart nv (leafMapOf g)) N1 (leafMapOf g) acc acc1"
      using less.prems pairs_ok_slot [OF less.prems(1) pre, of nib] gne S(1)
      by (auto simp: build_post_def g_def nib_def fresh_def below_def)
    note D1 = deltaD [OF d1]
    have dj: "\<not> below {pre @ [nib]} nk" if "below (slotPrefixes pre (slotsIn ?D r)) nk" for nk
      using that S(2) by (auto simp: below_slots below_one)
    have fr: "fresh V (slotPrefixes pre (slotsIn ?D r)) acc1"
      unfolding fresh_def
    proof (intro allI impI)
      fix nk assume nk: "below (slotPrefixes pre (slotsIn ?D r)) nk" "nk_version nk = a_newVersion acc1"
      then have "below (slotPrefixes pre (slotsIn ?D ps)) nk" unfolding S(1) by (auto simp: below_def)
      then show "lookupNode V acc1 nk = None"
        using less.prems(4) nk(2) D1(2) D1(5) [OF dj [OF nk(1)]] by (simp add: fresh_def)
    qed
    from less.hyps [OF rlen pairs_ok_filter [OF less.prems(1), of "\<lambda>p. nibble p ?D \<noteq> nib", folded r_def] D1(1) _ fr, of "cs[nib := c]"]
    obtain cs' acc' T where
      run: "buildGroups build ?D r (cs[nib := c]) acc1 = (Inr cs', acc')" "length cs' = 16" and
      same: "\<forall>i. i \<notin> slotsIn ?D r \<longrightarrow> cs' ! i = cs[nib := c] ! i" and
      t2: "\<forall>i \<in> slotsIn ?D r. tree_at (lookupNode V acc') nv (pre @ [i]) (cs' ! i) (slotMap (leafMapOf r) ?D i) (T i)" and
      d2: "delta V X (slotPrefixes pre (slotsIn ?D r)) {} (oldPart nv (leafMapOf r)) (\<Union>i \<in> slotsIn ?D r. T i) (leafMapOf r) acc1 acc'"
      using less.prems(3,5) D1(2) by auto
    note D2 = deltaD [OF d2]
    define T' where "T' = T(nib := N1)"
    have c': "cs' ! nib = c" using same S(2) less.prems(5) by (simp add: nib_def)
    have t1': "tree_at (lookupNode V acc') nv (pre @ [nib]) c (leafMapOf g) N1"
      using D2(5) dj by (intro tree_at_cong [OF t1]) (auto simp: below_one)
    have keys: "\<forall>nk \<in> {} \<union> N1. below (slotPrefixes pre {nib}) nk"
      using tree_at_keys [OF t1] by (auto simp: below_one)
    have keys2: "\<forall>nk \<in> {} \<union> (\<Union>i \<in> slotsIn ?D r. T i). below (slotPrefixes pre (slotsIn ?D r)) nk"
      using tree_at_keys t2 by (fastforce simp: below_slots)
    have "delta V X (slotPrefixes pre ({nib} \<union> slotsIn ?D r)) ({} \<union> {})
        (oldPart nv (leafMapOf ps) |` inSlots ?D ({nib} \<union> slotsIn ?D r)) (N1 \<union> (\<Union>i \<in> slotsIn ?D r. T i))
        (leafMapOf ps |` inSlots ?D ({nib} \<union> slotsIn ?D r)) acc acc'"
    proof (rule delta_slots_compose [OF _ _ keys keys2])
      show "delta V X (slotPrefixes pre {nib}) {} (oldPart nv (leafMapOf ps) |` inSlots ?D {nib}) N1
          (leafMapOf ps |` inSlots ?D {nib}) acc acc1"
        using d1 by (simp add: gm slotMap_restrict oldPart_restrict)
      show "delta V X (slotPrefixes pre (slotsIn ?D r)) {} (oldPart nv (leafMapOf ps) |` inSlots ?D (slotsIn ?D r))
          (\<Union>i \<in> slotsIn ?D r. T i) (leafMapOf ps |` inSlots ?D (slotsIn ?D r)) acc1 acc'"
        using d2 by (simp add: rm oldPart_restrict)
      show "\<forall>p \<in> dom (leafMapOf ps). under pre p" "own_vals (oldPart nv (leafMapOf ps))"
        using less.prems(1) by (auto simp: pairs_ok_def dom_leafMapOf)
    qed (use S(2) pre in auto)
    moreover have all: "leafMapOf ps |` inSlots ?D (slotsIn ?D ps) = leafMapOf ps"
      by (intro restrict_all_slots) (auto simp: dom_leafMapOf slotsIn_def)
    moreover have "oldPart nv (leafMapOf ps) |` inSlots ?D (slotsIn ?D ps) = oldPart nv (leafMapOf ps)"
      using oldPart_restrict [of nv "leafMapOf ps" "inSlots ?D (slotsIn ?D ps)"] by (simp add: all)
    moreover have "(\<Union>i \<in> slotsIn ?D ps. T' i) = N1 \<union> (\<Union>i \<in> slotsIn ?D r. T i)"
      using S(2) by (auto simp: S(1) T'_def)
    ultimately have d: "delta V X (slotPrefixes pre (slotsIn ?D ps)) {} (oldPart nv (leafMapOf ps))
        (\<Union>i \<in> slotsIn ?D ps. T' i) (leafMapOf ps) acc acc'" by (simp add: S(1))
    have t: "tree_at (lookupNode V acc') nv (pre @ [i]) (cs' ! i) (slotMap (leafMapOf ps) ?D i) (T' i)"
      if "i \<in> slotsIn ?D ps" for i
    proof (cases "i = nib")
      case True
      then show ?thesis using t1' by (simp add: c' T'_def gm)
    next
      case False
      then have "i \<in> slotsIn ?D r" using that S(1) by simp
      moreover from this have "slotMap (leafMapOf r) ?D i = slotMap (leafMapOf ps) ?D i"
        by (auto simp: rm slotMap_def restrict_map_def fun_eq_iff)
      ultimately show ?thesis using t2 False by (auto simp: T'_def)
    qed
    have "buildGroups build ?D ps cs acc = (Inr cs', acc')"
      using b run(1) grp by (simp add: Cons Let_def nib_def [symmetric] andThen_def)
    with run(2) same t d S show ?thesis by (intro exI [of _ cs'] exI [of _ acc'] exI [of _ T']) auto
  qed
qed

text \<open>A region left alone: its pending nodes and values are already accounted for.\<close>

definition settled :: "(bytes \<rightharpoonup> bytes) \<Rightarrow> (hash \<times> hash) set \<Rightarrow> nat list set \<Rightarrow> nodeKey set \<Rightarrow> leafMap \<Rightarrow> commitAcc \<Rightarrow> bool" where
  "settled V X B N M acc \<longleftrightarrow>
     acc_ok X acc \<and>
     (\<forall>nk. below B nk \<and> nk_version nk = a_newVersion acc \<and> lookupNode V acc nk \<noteq> None \<longrightarrow> nk \<in> N) \<and>
     (\<forall>p vh. M p = Some (vh, a_newVersion acc) \<longrightarrow> vh \<in> dom (map_of (a_values acc)) \<and> (p, vh) \<in> X)"

lemma delta_refl: "settled V X B N M acc \<Longrightarrow> delta V X B N M N M acc acc"
  by (auto simp: settled_def delta_def staleSet_def)

lemma settled_mono: "settled V X B N M acc \<Longrightarrow> (\<And>nk. below B' nk \<Longrightarrow> nk \<in> N \<Longrightarrow> nk \<in> N') \<Longrightarrow>
     (\<And>nk. below B' nk \<Longrightarrow> below B nk) \<Longrightarrow> settled V X B' N' (M |` A) acc"
  by (auto simp: settled_def restrict_map_def split: if_splits)

lemma settled_delta: "delta V X B N M N' M' acc acc' \<Longrightarrow> settled V X B N' M' acc'"
  using deltaD(1,2,7,9) unfolding settled_def by metis

text \<open>Moving a settled region over a step in another region.\<close>

lemma settled_frame:
  assumes s: "settled V X B N M acc" and d: "delta V X B' N1 M1 N1' M1' acc acc'"
    and dis: "\<And>nk. below B nk \<Longrightarrow> \<not> below B' nk" "\<And>p. underAny B p \<Longrightarrow> \<not> underAny B' p"
    and u: "\<And>p. p \<in> dom M \<Longrightarrow> underAny B p"
  shows "settled V X B N M acc'"
proof -
  note D = deltaD [OF d]
  have "vh \<in> dom (map_of (a_values acc'))" if "M p = Some (vh, a_newVersion acc)" for p vh
  proof -
    have p: "vh \<in> dom (map_of (a_values acc))" "(p, vh) \<in> X" "underAny B p"
      using that s u by (auto simp: settled_def)
    moreover have "q = p" if "(q, vh) \<in> X" for q using that p(2) D(1) unfolding acc_ok_def by blast
    ultimately have "map_of (a_values acc') vh = map_of (a_values acc) vh" using dis(2) by (intro D(11)) blast
    with p(1) show ?thesis by (simp add: dom_def)
  qed
  moreover have "nk \<in> N" if "below B nk" "nk_version nk = a_newVersion acc" "lookupNode V acc' nk \<noteq> None" for nk
    using s that D(5) [OF dis(1) [OF that(1)]] unfolding settled_def by metis
  ultimately show ?thesis using s D(1,2) unfolding settled_def by metis
qed

lemma tree_node_pending:
  assumes "acc_ok X acc" "wf_prefix pre" "length pre < 64" "length cs = 16" "multi M"
    "\<And>i. i < 16 \<Longrightarrow> tree_at (lookupNode V acc) (a_newVersion acc) (pre @ [i]) (cs ! i) (slotMap M (length pre) i) (T i)"
  shows "wf_node (Internal cs)"
    and "tree_at (lookupNode V (putPending \<lparr>nk_version = a_newVersion acc, nk_prefix = pre\<rparr> (Internal cs) acc)) (a_newVersion acc) pre
       (Some \<lparr>c_version = a_newVersion acc, c_hash = hashNode (Internal cs), c_isLeaf = False\<rparr>) M
       (insert \<lparr>nk_version = a_newVersion acc, nk_prefix = pre\<rparr> (\<Union>i < 16. T i))"
proof -
  let ?nk = "\<lparr>nk_version = a_newVersion acc, nk_prefix = pre\<rparr>"
  have look: "lookupNode V (putPending ?nk (Internal cs) acc) = (lookupNode V acc)(?nk \<mapsto> Internal cs)"
    using assms(1,2) by (intro lookup_putPending) auto
  show "tree_at (lookupNode V (putPending ?nk (Internal cs) acc)) (a_newVersion acc) pre
       (Some \<lparr>c_version = a_newVersion acc, c_hash = hashNode (Internal cs), c_isLeaf = False\<rparr>) M (insert ?nk (\<Union>i < 16. T i))"
  proof (rule tree_node [where T = T])
    show "tree_at (lookupNode V (putPending ?nk (Internal cs) acc)) (a_newVersion acc) (pre @ [i]) (cs ! i) (slotMap M (length pre) i) (T i)"
      if "i < 16" for i
      using assms(6) [OF that] by (rule tree_at_cong) (auto simp: look)
  qed (use assms in \<open>simp_all add: look\<close>)
  obtain p where p: "p \<in> dom M" using assms(5) by (auto simp: multi_def)
  then have "slotMap M (length pre) (nibble p (length pre)) p \<noteq> None" by (auto simp: slotMap_eq)
  then have "cs ! nibble p (length pre) \<noteq> None"
    using tree_at_kind [OF assms(6) [OF nibble_less, of p "length pre"]] by (auto split: option.splits)
  moreover have "nibble p (length pre) < length cs" using assms(4) by simp
  ultimately have "\<exists>c. Some c \<in> set cs" by (metis nth_mem option.exhaust)
  moreover have "is_hash (c_hash c)" if c: "Some c \<in> set cs" for c
  proof -
    obtain i where i: "i < 16" "cs ! i = Some c" using c unfolding in_set_conv_nth assms(4) by blast
    from assms(6) [OF i(1)] show ?thesis unfolding i(2) by (rule tree_at_hash)
  qed
  ultimately show "wf_node (Internal cs)" using assms(4) by simp
qed

lemma below_split: "wf_nodeKey nk \<Longrightarrow> below {pre} nk \<longleftrightarrow> nk_prefix nk = pre \<or> below (slotPrefixes pre {..<16}) nk"
  by (cases "nk_prefix nk = pre") (auto simp: below_one below_slots wf_nodeKey_def neq_Nil_conv)

lemma lookup_wf: "lookupNode V acc nk \<noteq> None \<Longrightarrow> wf_nodeKey nk"
  by (auto simp: lookupNode_def nodeAt_def split: if_splits)

text \<open>From the sixteen slots to their node: \<open>R\<close> is the node record at the prefix before, \<open>R'\<close> after.\<close>

lemma delta_up:
  assumes d: "delta V X (slotPrefixes pre {..<16}) N M N' M' acc acc1" and ok: "acc_ok X acc2"
    and same: "a_newVersion acc2 = a_newVersion acc1" "a_insertCTs acc2 = a_insertCTs acc1"
      "a_newHead acc2 = a_newHead acc1" "a_values acc2 = a_values acc1"
    and look: "\<And>nk. nk_prefix nk \<noteq> pre \<Longrightarrow> lookupNode V acc2 nk = lookupNode V acc1 nk"
    and R: "\<And>nk. nk \<in> R \<Longrightarrow> nk_prefix nk = pre" "\<And>nk. nk \<in> R' \<Longrightarrow> nk_prefix nk = pre \<and> (nk_version nk = a_newVersion acc \<or> nk \<in> R)"
      "\<And>nk. nk_prefix nk = pre \<Longrightarrow> nk_version nk = a_newVersion acc \<Longrightarrow> lookupNode V acc2 nk \<noteq> None \<Longrightarrow> nk \<in> R'"
    and st: "a_stale acc2 = a_stale acc1 @ T2" "set T2 = nodeRecordKey ` {nk \<in> R. nk \<notin> R' \<and> nk_version nk \<noteq> a_newVersion acc}"
    and keys: "\<And>nk. nk \<in> N \<union> N' \<Longrightarrow> nk_prefix nk \<noteq> pre" and wf: "wf_prefix pre"
  shows "delta V X {pre} (R \<union> N) M (R' \<union> N') M' acc acc2"
proof -
  note D = deltaD [OF d]
  obtain T1 where T1: "a_stale acc1 = a_stale acc @ T1" "set T1 = staleSet (a_newVersion acc) N M N' M'"
    using D(8) by blast
  have n: "{nk \<in> R \<union> N. nk \<notin> R' \<union> N' \<and> nk_version nk \<noteq> a_newVersion acc} =
      {nk \<in> R. nk \<notin> R' \<and> nk_version nk \<noteq> a_newVersion acc} \<union> {nk \<in> N. nk \<notin> N' \<and> nk_version nk \<noteq> a_newVersion acc}"
    using R(1,2) keys by blast
  have stale: "set (T1 @ T2) = staleSet (a_newVersion acc) (R \<union> N) M (R' \<union> N') M'"
    unfolding set_append T1(2) st(2) staleSet_def n image_Un by blast
  show ?thesis
    unfolding delta_def
  proof (intro conjI allI ballI impI)
    show "\<exists>T. a_stale acc2 = a_stale acc @ T \<and> set T = staleSet (a_newVersion acc) (R \<union> N) M (R' \<union> N') M'"
      using T1(1) st(1) stale by (intro exI [of _ "T1 @ T2"]) simp
    show "lookupNode V acc2 nk = lookupNode V acc nk" if "\<not> below {pre} nk" for nk
    proof -
      have "nk_prefix nk \<noteq> pre" "\<not> below (slotPrefixes pre {..<16}) nk" using that by (auto simp: below_one below_slots)
      then show ?thesis using look D(5) by simp
    qed
    show "nk \<in> R' \<union> N'" if a: "below {pre} nk \<and> nk_version nk = a_newVersion acc \<and> lookupNode V acc2 nk \<noteq> None" for nk
    proof (cases "nk_prefix nk = pre")
      case True
      then show ?thesis using R(3) a by simp
    next
      case False
      then have "below (slotPrefixes pre {..<16}) nk" using a lookup_wf below_split by blast
      then show ?thesis using D(7) a look [OF False] by simp
    qed
    show "if vv = a_newVersion acc then vh \<in> dom (map_of (a_values acc2)) \<and> (p, vh) \<in> X else M p = Some (vh, vv)"
      if "M' p = Some (vh, vv)" for p vh vv
      using D(9) [of p vh] D(10) [of p vh vv] that same(4) by auto
    show "map_of (a_values acc2) vh = map_of (a_values acc) vh"
      if "\<forall>p. (p, vh) \<in> X \<longrightarrow> \<not> underAny {pre} p" for vh
      unfolding same(4) using that by (intro D(11)) (auto simp: underAny_slots)
    show "nk_version nk = a_newVersion acc \<or> nk \<in> R \<union> N" if "nk \<in> R' \<union> N'" for nk
      using that R(2) [of nk] D(6) [of nk] by blast
  qed (use ok same D(2-4) in simp_all)
qed

text \<open>A step in some slots is a step in all sixteen, the others left alone.\<close>

lemma delta_widen:
  assumes d: "delta V X (slotPrefixes pre S) N (M |` inSlots (length pre) S) N' (M' |` inSlots (length pre) S) acc acc1"
    and s: "settled V X (slotPrefixes pre ({..<16} - S)) R (M |` inSlots (length pre) ({..<16} - S)) acc"
    and M: "M' |` inSlots (length pre) ({..<16} - S) = M |` inSlots (length pre) ({..<16} - S)"
    and u: "\<forall>p \<in> dom M \<union> dom M'. under pre p" and pre: "length pre < 64" and own: "own_vals M"
    and N: "\<forall>nk \<in> N \<union> N'. below (slotPrefixes pre S) nk" "\<forall>nk \<in> R. below (slotPrefixes pre ({..<16} - S)) nk"
    and S: "S \<subseteq> {..<16}"
  shows "delta V X (slotPrefixes pre {..<16}) (N \<union> R) M (N' \<union> R) M' acc acc1"
proof -
  have "settled V X (slotPrefixes pre ({..<16} - S)) R (M |` inSlots (length pre) ({..<16} - S)) acc1"
    using s d
  proof (rule settled_frame)
    show "underAny (slotPrefixes pre ({..<16} - S)) p"
      if "p \<in> dom (M |` inSlots (length pre) ({..<16} - S))" for p
      using that u pre by (auto simp: underAny_slots)
  qed (auto simp: below_slots underAny_slots)
  from delta_refl [OF this]
  have r: "delta V X (slotPrefixes pre ({..<16} - S)) R (M |` inSlots (length pre) ({..<16} - S)) R
      (M' |` inSlots (length pre) ({..<16} - S)) acc1 acc1" by (simp only: M)
  have "S \<union> ({..<16} - S) = {..<16}" using S by blast
  moreover have "K |` inSlots (length pre) {..<16} = K" for K :: leafMap
    by (auto simp: restrict_map_def)
  ultimately show ?thesis
    using delta_slots_compose [OF d r _ _ _ _ pre own] N u by simp
qed

lemma buildFromPairs_multi:
  "2 \<le> length ps \<Longrightarrow> buildFromPairs pre ps acc =
     (if 64 \<le> length pre then throw indexPanic acc
      else andThen (buildGroups (\<lambda>nib. buildFromPairs (pre @ [nib])) (length pre) ps (replicate 16 None))
             (\<lambda>children acc.
                let n = Internal children; h = hashNode n;
                    nk = \<lparr>nk_version = a_newVersion acc, nk_prefix = pre\<rparr>
                in ret (Some \<lparr>c_version = a_newVersion acc, c_hash = h, c_isLeaf = False\<rparr>) (putPending nk n acc)) acc)"
  by (subst buildFromPairs.simps) (auto split: list.split)

lemma multi_leafMapOf:
  assumes "distinct (map l_path ps)" "2 \<le> length ps"
  shows "multi (leafMapOf ps)"
proof -
  obtain a b r where "ps = a # b # r" using assms(2) by (cases ps rule: remdups_adj.cases) auto
  with assms(1) show ?thesis unfolding multi_def by (auto simp: dom_leafMapOf)
qed

lemma oldPart_empty [simp]: "oldPart nv (\<lambda>x. None) = (\<lambda>x. None)"
  by (simp add: oldPart_def [abs_def])

lemma leafMapOf_slots:
  "leafMapOf ps |` inSlots D (slotsIn D ps) = leafMapOf ps"
  "leafMapOf ps |` inSlots D (A - slotsIn D ps) = Map.empty"
  "i \<notin> slotsIn D ps \<Longrightarrow> slotMap (leafMapOf ps) D i = Map.empty"
proof -
  have "leafMapOf ps x = None" if "nibble x D \<notin> slotsIn D ps" for x
  proof (rule ccontr)
    assume "leafMapOf ps x \<noteq> None"
    then have "x \<in> l_path ` set ps" using dom_leafMapOf [of ps] by blast
    then show False using that by (auto simp: slotsIn_def)
  qed
  then show "leafMapOf ps |` inSlots D (slotsIn D ps) = leafMapOf ps"
    "leafMapOf ps |` inSlots D (A - slotsIn D ps) = Map.empty"
    "i \<notin> slotsIn D ps \<Longrightarrow> slotMap (leafMapOf ps) D i = Map.empty"
    by (auto simp: restrict_map_def slotMap_eq fun_eq_iff)
qed

lemma buildFromPairs_node:
  assumes IH: "\<And>nib qs a. nib < 16 \<Longrightarrow> qs \<noteq> [] \<Longrightarrow> pairs_ok (a_newVersion acc) X (pre @ [nib]) qs \<Longrightarrow> acc_ok X a \<Longrightarrow>
      a_newVersion a = a_newVersion acc \<Longrightarrow> fresh V {pre @ [nib]} a \<Longrightarrow>
      build_post V X (pre @ [nib]) qs a (buildFromPairs (pre @ [nib]) qs a)"
    and ps: "pairs_ok (a_newVersion acc) X pre ps" "2 \<le> length ps" and acc: "acc_ok X acc" "fresh V {pre} acc"
    and pre: "wf_prefix pre" "length pre < 64"
  shows "build_post V X pre ps acc (buildFromPairs pre ps acc)"
proof -
  let ?D = "length pre" and ?nv = "a_newVersion acc" and ?nk = "\<lparr>nk_version = a_newVersion acc, nk_prefix = pre\<rparr>"
  let ?M = "leafMapOf ps"
  define S where "S = slotsIn ?D ps"
  have S16: "S \<subseteq> {..<16}" by (auto simp: S_def slotsIn_def)
  have fr: "fresh V (slotPrefixes pre S) acc" using acc(2) by (auto simp: fresh_def below_slots below_one)
  obtain cs acc1 T where run: "buildGroups (\<lambda>nib. buildFromPairs (pre @ [nib])) ?D ps (replicate 16 None) acc = (Inr cs, acc1)"
    and cs: "length cs = 16" "\<forall>i. i \<notin> S \<longrightarrow> cs ! i = replicate 16 None ! i"
    and t: "\<forall>i \<in> S. tree_at (lookupNode V acc1) ?nv (pre @ [i]) (cs ! i) (slotMap ?M ?D i) (T i)"
    and d: "delta V X (slotPrefixes pre S) {} (oldPart ?nv ?M) (\<Union>i \<in> S. T i) ?M acc acc1"
    using buildGroups_spec [of ?nv X pre V "\<lambda>nib. buildFromPairs (pre @ [nib])", OF IH pre(2) ps(1) acc(1) refl fr [unfolded S_def], of "replicate 16 None", folded S_def]
    unfolding length_replicate by blast
  note D = deltaD [OF d]
  define T' where "T' = (\<lambda>i. if i \<in> S then T i else {})"
  have t': "tree_at (lookupNode V acc1) ?nv (pre @ [i]) (cs ! i) (slotMap ?M ?D i) (T' i)" if "i < 16" for i
  proof (cases "i \<in> S")
    case False
    then have "cs ! i = replicate 16 None ! i" "T' i = {}" using cs(2) by (blast, simp add: T'_def)
    then have "cs ! i = None" "T' i = {}" using that by simp_all
    then show ?thesis unfolding leafMapOf_slots(3) [OF False [unfolded S_def]] by (simp only: tree_empty)
  qed (use t in \<open>simp add: T'_def\<close>)
  have "(\<Union>i \<in> {..<16}. T' i) = (\<Union>i \<in> {..<16} \<inter> S. T i)" by (auto simp: T'_def)
  also have "{..<16} \<inter> S = S" using S16 by blast
  finally have N': "(\<Union>i < 16. T' i) = (\<Union>i \<in> S. T i)" .
  have keys: "\<forall>nk \<in> (\<Union>i \<in> S. T i). below (slotPrefixes pre S) nk"
    using tree_at_keys t by (fastforce simp: below_slots)
  have "delta V X (slotPrefixes pre {..<16}) ({} \<union> {}) (oldPart ?nv ?M) ((\<Union>i \<in> S. T i) \<union> {}) ?M acc acc1"
  proof (rule delta_widen [OF _ _ _ _ pre(2)])
    show "\<forall>p \<in> dom (oldPart ?nv ?M) \<union> dom ?M. under pre p"
      using dom_oldPart [of ?nv ?M] ps(1) by (auto simp: dom_leafMapOf pairs_ok_def subset_iff)
    show "?M |` inSlots ?D ({..<16} - S) = oldPart ?nv ?M |` inSlots ?D ({..<16} - S)"
      by (simp only: S_def oldPart_restrict [symmetric] leafMapOf_slots(2) oldPart_empty)
    show "settled V X (slotPrefixes pre ({..<16} - S)) {} (oldPart ?nv ?M |` inSlots ?D ({..<16} - S)) acc"
      using acc by (auto simp: settled_def fresh_def below_slots below_one oldPart_def restrict_map_def split: if_splits option.splits)
  qed (use d keys S16 ps(1) in \<open>auto simp: S_def oldPart_restrict [symmetric] leafMapOf_slots pairs_ok_def\<close>)
  then have d16: "delta V X (slotPrefixes pre {..<16}) {} (oldPart ?nv ?M) (\<Union>i < 16. T' i) ?M acc acc1" by (simp add: N')
  have "distinct (map l_path ps)" using ps(1) by (simp add: pairs_ok_def)
  note T = tree_node_pending [OF D(1) pre cs(1) multi_leafMapOf [OF this ps(2)] t' [folded D(2)], unfolded D(2)]
  let ?acc2 = "putPending ?nk (Internal cs) acc1"
  have look: "lookupNode V ?acc2 = (lookupNode V acc1)(?nk \<mapsto> Internal cs)"
    using D(1,2) pre(1) by (intro lookup_putPending) auto
  have "delta V X {pre} ({} \<union> {}) (oldPart ?nv ?M) ({?nk} \<union> (\<Union>i < 16. T' i)) ?M acc ?acc2"
  proof (rule delta_up [OF d16, where ?T2.0 = "[]"])
    show "acc_ok X ?acc2" using D(1,2) pre(1) T(1) by (intro acc_ok_putPending) auto
    show "nk_prefix nk \<noteq> pre" if "nk \<in> {} \<union> (\<Union>i < 16. T' i)" for nk
      using that tree_at_keys [OF t'] by fastforce
    show "nk \<in> {?nk}" if "nk_prefix nk = pre" "nk_version nk = ?nv" for nk using that by (cases nk) auto
  qed (use D(2) pre in \<open>auto simp: look\<close>)
  moreover have "buildFromPairs pre ps acc = (Inr (Some \<lparr>c_version = ?nv, c_hash = hashNode (Internal cs), c_isLeaf = False\<rparr>), ?acc2)"
    using run pre(2) by (simp add: buildFromPairs_multi [OF ps(2)] andThen_def ret_def Let_def D(2))
  ultimately show ?thesis using T(2) unfolding build_post_def by auto
qed

lemma buildFromPairs_spec:
  assumes "pairs_ok (a_newVersion acc) X pre ps" "acc_ok X acc" "fresh V {pre} acc" "wf_prefix pre"
  shows "build_post V X pre ps acc (buildFromPairs pre ps acc)"
  using assms
proof (induction "64 - length pre" arbitrary: pre ps acc rule: less_induct)
  case less
  let ?D = "length pre" and ?nv = "a_newVersion acc"
  show ?case
  proof (cases ps rule: remdups_adj.cases)
    case 1
    then have "leafMapOf ps = Map.empty" "oldPart ?nv Map.empty = Map.empty"
      by (simp_all add: leafMapOf_def oldPart_def [abs_def])
    moreover have "settled V X {pre} {} Map.empty acc" using less.prems(2,3) by (simp add: settled_def fresh_def)
    note delta_refl [OF this] tree_empty [of "lookupNode V acc" ?nv pre]
    ultimately show ?thesis
      unfolding build_post_def by (auto simp: 1 buildFromPairs.simps ret_def)
  next
    case (2 l)
    then have "putLeaf pre l acc = buildFromPairs pre ps acc" by (simp add: buildFromPairs.simps)
    moreover have "leafMapOf ps = [l_path l \<mapsto> (l_vh l, l_valueVersion l)]" by (simp add: 2 leafMapOf_def)
    ultimately show ?thesis
      using putLeaf_spec [OF less.prems(2,3,4), of l] less.prems(1) unfolding build_post_def
      by (auto simp: 2 pairs_ok_def)
  next
    case (3 l1 l2 ps')
    have pre: "?D < 64"
      using less.prems(1) under_eq64 [of pre "l_path l1" "l_path l2"] by (force simp: 3 pairs_ok_def)
    show ?thesis
    proof (rule buildFromPairs_node [OF _ less.prems(1) _ less.prems(2,3,4) pre])
      show "build_post V X (pre @ [nib]) qs a (buildFromPairs (pre @ [nib]) qs a)"
        if "nib < 16" "pairs_ok ?nv X (pre @ [nib]) qs" "acc_ok X a" "a_newVersion a = ?nv" "fresh V {pre @ [nib]} a" for nib qs a
        using that pre less.prems(4) by (intro less.hyps) (auto simp: wf_prefix_def)
    qed (simp add: 3)
  qed
qed

end
