(* ===== verification/Apply_Inv.thy ===== *)
theory Apply_Inv
  imports Commit_Inv
begin

text \<open>
  The correctness of \<^verbatim>\<open>applySubtree\<close> (\<^verbatim>\<open>ledger/store.go\<close>) against the reference meaning of a list of
  updates: on a stored subtree it yields the subtree of the updated leaves, whatever shape that has, marks
  exactly the records no longer in use as stale, and changes nothing when the updates change nothing. The
  store it reads from is known through the locale of record readers only.
\<close>

section \<open>The reference meaning of a list of updates\<close>

definition updMap :: "update list \<Rightarrow> hash \<rightharpoonup> hash option" where
  "updMap us = map_of (map (\<lambda>u. (u_path u, u_vh u)) us)"

text \<open>A put keeps the version of a value record that already holds its commitment.\<close>

definition updEntry :: "u64 \<Rightarrow> (hash \<times> u64) option \<Rightarrow> hash option \<Rightarrow> (hash \<times> u64) option" where
  "updEntry nv old new =
     (case new of
        None \<Rightarrow> None
      | Some vh \<Rightarrow>
          (case old of
             Some (ovh, vv) \<Rightarrow> if ovh = vh then Some (ovh, vv) else Some (vh, nv)
           | None \<Rightarrow> Some (vh, nv)))"

definition updLeaves :: "u64 \<Rightarrow> leafMap \<Rightarrow> update list \<Rightarrow> leafMap" where
  "updLeaves nv M us p = (case updMap us p of None \<Rightarrow> M p | Some new \<Rightarrow> updEntry nv (M p) new)"

definition upd_ok :: "(hash \<times> hash) set \<Rightarrow> nat list \<Rightarrow> update list \<Rightarrow> bool" where
  "upd_ok X pre us \<longleftrightarrow>
     distinct (map u_path us) \<and> sorted (map u_path us) \<and>
     (\<forall>u \<in> set us. under pre (u_path u) \<and> (\<forall>vh. u_vh u = Some vh \<longrightarrow> is_hash vh \<and> (u_path u, vh) \<in> X))"

lemma updMap_filter: "updMap (filter (\<lambda>u. P (u_path u)) us) = updMap us |` {p. P p}"
  by (induction us) (auto simp: updMap_def restrict_map_def fun_eq_iff)

lemma dom_updMap: "dom (updMap us) = u_path ` set us"
  by (simp add: updMap_def dom_map_of_conv_image_fst image_image)

lemma updMap_in: "updMap us p = Some x \<Longrightarrow> \<exists>u \<in> set us. u_path u = p \<and> u_vh u = x"
  by (auto simp: updMap_def dest!: map_of_SomeD)

lemma updLeaves_filter: "updLeaves nv (M |` {p. P p}) (filter (\<lambda>u. P (u_path u)) us) = updLeaves nv M us |` {p. P p}"
  by (auto simp: updLeaves_def updMap_filter restrict_map_def fun_eq_iff)

lemma updLeaves_filter': "updLeaves nv M (filter (\<lambda>u. P (u_path u)) us) |` {p. P p} = updLeaves nv M us |` {p. P p}"
  by (auto simp: updLeaves_def updMap_filter restrict_map_def fun_eq_iff)

lemma updLeaves_old: "updLeaves nv M us p = Some (vh, vv) \<Longrightarrow> vv \<noteq> nv \<Longrightarrow> M p = Some (vh, vv)"
  by (auto simp: updLeaves_def updEntry_def split: option.splits if_splits)

lemma updLeaves_new:
  "updLeaves nv M us p = Some (vh, vv) \<Longrightarrow> M p = Some (vh, vv) \<or> vv = nv \<and> updMap us p = Some (Some vh)"
  by (auto simp: updLeaves_def updEntry_def split: option.splits if_splits)

lemma dom_updLeaves: "dom (updLeaves nv M us) \<subseteq> dom M \<union> u_path ` set us"
  unfolding dom_updMap [symmetric] by (auto simp: updLeaves_def split: option.splits)

lemma upd_ok_filter: "upd_ok X pre us \<Longrightarrow> upd_ok X pre (filter (\<lambda>u. P (u_path u)) us)"
  by (auto simp: upd_ok_def distinct_map_filter sorted_filter)

lemma upd_ok_slot:
  "upd_ok X pre us \<Longrightarrow> length pre < 64 \<Longrightarrow> upd_ok X (pre @ [i]) (filter (\<lambda>u. nibble (u_path u) (length pre) = i) us)"
  using upd_ok_filter [of X pre us "\<lambda>p. nibble p (length pre) = i"] by (auto simp: upd_ok_def under_step)

lemma upd_ok_updMap: "upd_ok X pre us \<Longrightarrow> updMap us p = Some x \<Longrightarrow>
     under pre p \<and> (\<forall>vh. x = Some vh \<longrightarrow> is_hash vh \<and> (p, vh) \<in> X)"
  by (auto simp: upd_ok_def dest!: updMap_in)

section \<open>Steps after one another\<close>

lemma staleSet_trans:
  assumes "\<forall>nk \<in> N1. nk_version nk = nv \<or> nk \<in> N" "\<forall>nk \<in> N2. nk_version nk = nv \<or> nk \<in> N1"
    "\<And>p vh vv. M1 p = Some (vh, vv) \<Longrightarrow> vv \<noteq> nv \<Longrightarrow> M p = Some (vh, vv)"
    "\<And>p vh vv. M2 p = Some (vh, vv) \<Longrightarrow> vv \<noteq> nv \<Longrightarrow> M1 p = Some (vh, vv)"
  shows "staleSet nv N M N1 M1 \<union> staleSet nv N1 M1 N2 M2 = staleSet nv N M N2 M2"
proof -
  have old: "(vh, vv) \<in> ran M" if "(vh, vv) \<in> ran M1" "vv \<noteq> nv" for vh vv
    using that assms(3) by (fastforce simp: ran_def)
  have old2: "(vh, vv) \<in> ran M1" if "(vh, vv) \<in> ran M2" "vv \<noteq> nv" for vh vv
    using that assms(4) by (fastforce simp: ran_def)
  have n: "{nk \<in> N. nk \<notin> N1 \<and> nk_version nk \<noteq> nv} \<union> {nk \<in> N1. nk \<notin> N2 \<and> nk_version nk \<noteq> nv} =
      {nk \<in> N. nk \<notin> N2 \<and> nk_version nk \<noteq> nv}"
    using assms(1,2) by blast
  have v: "{valueRecordKey vh vv |vh vv. (vh, vv) \<in> ran M \<and> (vh, vv) \<notin> ran M1 \<and> vv \<noteq> nv} \<union>
      {valueRecordKey vh vv |vh vv. (vh, vv) \<in> ran M1 \<and> (vh, vv) \<notin> ran M2 \<and> vv \<noteq> nv} =
      {valueRecordKey vh vv |vh vv. (vh, vv) \<in> ran M \<and> (vh, vv) \<notin> ran M2 \<and> vv \<noteq> nv}"
    using old old2 by blast
  show ?thesis unfolding staleSet_def n [symmetric] v [symmetric] image_Un by blast
qed

lemma delta_trans:
  assumes d1: "delta V X B N M N1 M1 acc acc1" and d2: "delta V X B N1 M1 N2 M2 acc1 acc2"
  shows "delta V X B N M N2 M2 acc acc2"
proof -
  note D1 = deltaD [OF d1] and D2 = deltaD [OF d2, unfolded D1(2)]
  let ?nv = "a_newVersion acc"
  obtain T1 where T1: "a_stale acc1 = a_stale acc @ T1" "set T1 = staleSet ?nv N M N1 M1" using D1(8) by blast
  obtain T2 where T2: "a_stale acc2 = a_stale acc1 @ T2" "set T2 = staleSet ?nv N1 M1 N2 M2" using D2(8) by blast
  have st: "set (T1 @ T2) = staleSet ?nv N M N2 M2"
    unfolding set_append T1(2) T2(2) using D1(6,10) D2(6,10) by (intro staleSet_trans) blast+
  show ?thesis
    unfolding delta_def
  proof (intro conjI allI ballI impI)
    show "\<exists>T. a_stale acc2 = a_stale acc @ T \<and> set T = staleSet ?nv N M N2 M2"
      using T1(1) T2(1) st by (intro exI [of _ "T1 @ T2"]) simp
    show "if vv = ?nv then vh \<in> dom (map_of (a_values acc2)) \<and> (p, vh) \<in> X else M p = Some (vh, vv)"
      if "M2 p = Some (vh, vv)" for p vh vv
      using D2(9) [of p vh] D2(10) [of p vh vv] D1(10) [of p vh vv] that by auto
    show "nk_version nk = ?nv \<or> nk \<in> N" if "nk \<in> N2" for nk using that D1(6) D2(6) by blast
    show "map_of (a_values acc2) vh = map_of (a_values acc) vh" if "\<forall>p. (p, vh) \<in> X \<longrightarrow> \<not> underAny B p" for vh
      using that D1(11) [of vh] D2(11) [of vh] by simp
    show "lookupNode V acc2 nk = lookupNode V acc nk" if "\<not> below B nk" for nk
      using that D1(5) [of nk] D2(5) [of nk] by simp
  qed (use D1(2-4) D2(1-4,7) in auto)
qed

section \<open>Replacing a leaf\<close>

lemma staleNode_spec:
  assumes "acc_ok X acc" "wf_nodeKey nk"
  shows "acc_ok X (staleNode nk acc)"
    "lookupNode V (staleNode nk acc) = (if nk_version nk = a_newVersion acc then (lookupNode V acc)(nk := None) else lookupNode V acc)"
    "a_stale (staleNode nk acc) = a_stale acc @ (if nk_version nk = a_newVersion acc then [] else [nodeRecordKey nk])"
    "a_newVersion (staleNode nk acc) = a_newVersion acc" "a_insertCTs (staleNode nk acc) = a_insertCTs acc"
    "a_newHead (staleNode nk acc) = a_newHead acc" "a_values (staleNode nk acc) = a_values acc"
  using assms by (simp_all add: staleNode_def acc_ok_delPending acc_ok_addStale lookup_delPending)

text \<open>The value record of a replaced leaf: dropped when this commit wrote it, stale otherwise.\<close>

definition dropValue :: "bool \<Rightarrow> leafNode \<Rightarrow> commitAcc \<Rightarrow> commitAcc" where
  "dropValue gone l acc =
     (if gone
      then if l_valueVersion l = a_newVersion acc
           then acc\<lparr>a_values := AList.delete (l_vh l) (a_values acc)\<rparr>
           else addStale (valueRecordKey (l_vh l) (l_valueVersion l)) acc
      else acc)"

lemma dropValue_spec:
  assumes "acc_ok X acc"
  shows "acc_ok X (dropValue gone l acc)" "lookupNode V (dropValue gone l acc) = lookupNode V acc"
    "a_stale (dropValue gone l acc) = a_stale acc @
       (if gone \<and> l_valueVersion l \<noteq> a_newVersion acc then [valueRecordKey (l_vh l) (l_valueVersion l)] else [])"
    "a_newVersion (dropValue gone l acc) = a_newVersion acc" "a_insertCTs (dropValue gone l acc) = a_insertCTs acc"
    "a_newHead (dropValue gone l acc) = a_newHead acc"
    "vh \<noteq> l_vh l \<or> \<not> gone \<or> l_valueVersion l \<noteq> a_newVersion acc \<Longrightarrow>
       map_of (a_values (dropValue gone l acc)) vh = map_of (a_values acc) vh"
proof -
  show "acc_ok X (dropValue gone l acc)"
    using assms by (auto simp: dropValue_def acc_ok_addStale)
      (auto simp: acc_ok_def distinct_delete delete_conv' split: if_splits)
  show "lookupNode V (dropValue gone l acc) = lookupNode V acc"
    by (auto simp: dropValue_def lookupNode_def addStale_def fun_eq_iff)
qed (auto simp: dropValue_def delete_conv')

lemma delta_rebuild:
  assumes s: "settled V X {pre} {lk} [l_path l \<mapsto> (l_vh l, l_valueVersion l)] acc"
    and lk: "below {pre} lk" "wf_nodeKey lk" and u: "under pre (l_path l)"
    and gone: "gone \<longleftrightarrow> (l_vh l, l_valueVersion l) \<notin> ran M' \<or> gone \<and> l_valueVersion l = a_newVersion acc"
    and d: "delta V X {pre} {} (oldPart (a_newVersion acc) M') N' M' (dropValue gone l (staleNode lk acc)) acc'"
    and old: "\<And>p e. M' p = Some e \<Longrightarrow> snd e \<noteq> a_newVersion acc \<Longrightarrow> p = l_path l \<and> e = (l_vh l, l_valueVersion l)"
  shows "delta V X {pre} {lk} [l_path l \<mapsto> (l_vh l, l_valueVersion l)] N' M' acc acc'"
proof -
  let ?nv = "a_newVersion acc" and ?M = "[l_path l \<mapsto> (l_vh l, l_valueVersion l)]"
  have ok: "acc_ok X acc" using s by (simp add: settled_def)
  note S = staleNode_spec [OF ok lk(2)]
  note P = dropValue_spec [OF S(1), where gone = gone and l = l]
  note D = deltaD [OF d, unfolded P S]
  have e: "staleSet ?nv {} (oldPart ?nv M') N' M' = {}"
    by (auto simp: staleSet_def oldPart_def ran_def split: option.splits if_splits)
  obtain T where T: "a_stale acc' = (a_stale acc @ (if nk_version lk = ?nv then [] else [nodeRecordKey lk])) @
      (if gone \<and> l_valueVersion l \<noteq> ?nv then [valueRecordKey (l_vh l) (l_valueVersion l)] else []) @ T" "set T = {}"
    using D(8) unfolding e by auto
  have "lk \<notin> N'" if "nk_version lk \<noteq> ?nv" using D(6) that by blast
  then have st: "set ((if nk_version lk = ?nv then [] else [nodeRecordKey lk]) @
      (if gone \<and> l_valueVersion l \<noteq> ?nv then [valueRecordKey (l_vh l) (l_valueVersion l)] else [])) =
      staleSet ?nv {lk} ?M N' M'"
    using gone by (auto simp: staleSet_def)
  show ?thesis
    unfolding delta_def
  proof (intro conjI allI ballI impI)
    show "\<exists>T. a_stale acc' = a_stale acc @ T \<and> set T = staleSet ?nv {lk} ?M N' M'"
      unfolding st [symmetric] using T by auto
    show "if vv = ?nv then vh \<in> dom (map_of (a_values acc')) \<and> (p, vh) \<in> X else ?M p = Some (vh, vv)"
      if "M' p = Some (vh, vv)" for p vh vv
      using D(9) [of p vh] old [of p "(vh, vv)"] that by auto
    show "map_of (a_values acc') vh = map_of (a_values acc) vh" if a: "\<forall>p. (p, vh) \<in> X \<longrightarrow> \<not> underAny {pre} p" for vh
    proof -
      have "vh \<noteq> l_vh l" if "l_valueVersion l = ?nv" using s a u that by (auto simp: settled_def)
      then show ?thesis using D(11) [of vh] P(7) [of vh] a by (auto simp: S)
    qed
    show "lookupNode V acc' nk = lookupNode V acc nk" if "\<not> below {pre} nk" for nk
      using D(5) [OF that] lk(1) that by auto
    show "nk \<in> N'" if "below {pre} nk \<and> nk_version nk = ?nv \<and> lookupNode V acc' nk \<noteq> None" for nk
      using D(7) that by blast
    show "nk_version nk = ?nv \<or> nk \<in> {lk}" if "nk \<in> N'" for nk using D(6) that by blast
  qed (use D(1-4) in simp_all)
qed

lemma fresh_after_stale:
  assumes "settled V X {pre} {lk} M acc" "wf_nodeKey lk"
  shows "fresh V {pre} (dropValue gone l (staleNode lk acc))"
proof -
  have ok: "acc_ok X acc" using assms by (simp add: settled_def)
  note S = staleNode_spec [OF ok assms(2)]
  show ?thesis
    using assms(1) unfolding fresh_def dropValue_spec [OF S(1)] S settled_def by auto
qed

section \<open>Updates that meet a leaf or an empty slot\<close>

lemma mergeLeaf_fold:
  assumes "distinct (map u_path us)" "distinct (map fst m)"
  shows "map_of (foldl (mergeUpdate nv leaf) m us) p =
      (case updMap us p of
         None \<Rightarrow> map_of m p
       | Some new \<Rightarrow> updEntry nv ([l_path leaf \<mapsto> (l_vh leaf, l_valueVersion leaf)] p) new) \<and>
    distinct (map fst (foldl (mergeUpdate nv leaf) m us))"
  using assms
proof (induction us arbitrary: m)
  case (Cons u us)
  have "updMap us (u_path u) = None" using Cons.prems(1) dom_updMap [of us] by force
  moreover have "distinct (map fst (mergeUpdate nv leaf m u))"
    using Cons.prems(2) by (auto simp: mergeUpdate_def distinct_update distinct_delete Let_def split: option.split)
  moreover have "updMap (u # us) p = (if p = u_path u then Some (u_vh u) else updMap us p)"
    by (simp add: updMap_def)
  moreover have "map_of (mergeUpdate nv leaf m u) p =
      (if p = u_path u then updEntry nv ([l_path leaf \<mapsto> (l_vh leaf, l_valueVersion leaf)] p) (u_vh u) else map_of m p)"
    by (auto simp: mergeUpdate_def updEntry_def update_conv' delete_conv' Let_def split: option.split)
  ultimately show ?case using Cons.IH [of "mergeUpdate nv leaf m u"] Cons.prems(1) by (auto split: option.split)
qed (simp add: updMap_def)

lemma mergeLeaf_spec:
  assumes "distinct (map u_path us)"
  shows "map_of (mergeLeaf nv leaf us) = updLeaves nv [l_path leaf \<mapsto> (l_vh leaf, l_valueVersion leaf)] us"
    "distinct (map fst (mergeLeaf nv leaf us))"
  using mergeLeaf_fold [OF assms, of "[(l_path leaf, l_vh leaf, l_valueVersion leaf)]" nv leaf]
  by (auto simp: mergeLeaf_def updLeaves_def fun_eq_iff split: option.split)

abbreviation entryLeaf :: "hash \<times> hash \<times> u64 \<Rightarrow> leafNode" where
  "entryLeaf \<equiv> \<lambda>(p, vh, vv). \<lparr>l_path = p, l_vh = vh, l_valueVersion = vv\<rparr>"

lemma leafMapOf_entries: "leafMapOf (map entryLeaf m) = map_of m"
proof -
  have "(\<lambda>l. (l_path l, l_vh l, l_valueVersion l)) \<circ> entryLeaf = id" by (auto simp: fun_eq_iff)
  then show ?thesis by (simp add: leafMapOf_def)
qed

lemma leafMapOf_sort: "distinct (map l_path ps) \<Longrightarrow> leafMapOf (sort_key l_path ps) = leafMapOf ps"
  unfolding leafMapOf_def
  by (subst map_of_inject_set) (simp_all add: comp_def distinct_map)

lemma map_path_entries: "map l_path (map entryLeaf m) = map fst m"
  by (induction m) auto

lemma distinct_sort_paths: "distinct (map l_path ps) \<Longrightarrow> distinct (map l_path (sort_key l_path ps))"
  by (simp add: distinct_map)

lemma leafNode_eqI: "l_path l = l_path x \<Longrightarrow> l_vh l = l_vh x \<Longrightarrow> l_valueVersion l = l_valueVersion x \<Longrightarrow> l = (x :: leafNode)"
  by (cases l, cases x) simp

lemma oldPart_Some: "oldPart nv M p = Some (vh, vv) \<longleftrightarrow> M p = Some (vh, vv) \<and> vv \<noteq> nv"
  by (auto simp: oldPart_def split: option.splits)

lemma in_leafMapOf: "distinct (map l_path ps) \<Longrightarrow> l \<in> set ps \<longleftrightarrow> leafMapOf ps (l_path l) = Some (l_vh l, l_valueVersion l)"
proof -
  assume d: "distinct (map l_path ps)"
  have "leafMapOf ps (l_path l) = Some (l_vh l, l_valueVersion l) \<longleftrightarrow>
      (l_path l, l_vh l, l_valueVersion l) \<in> (\<lambda>l. (l_path l, l_vh l, l_valueVersion l)) ` set ps"
    using d unfolding leafMapOf_def by (subst map_of_eq_Some_iff) (simp_all add: comp_def)
  also have "\<dots> \<longleftrightarrow> l \<in> set ps" by (auto simp: image_iff) (metis leafNode_eqI)
  finally show ?thesis by simp
qed

text \<open>Any sorted list of leaves is fit for \<open>buildFromPairs\<close> if its map is.\<close>

lemma pairs_okI:
  assumes "distinct (map l_path ps)" "sorted (map l_path ps)" "own_vals (oldPart nv (leafMapOf ps))"
    "\<And>p vh vv. leafMapOf ps p = Some (vh, vv) \<Longrightarrow>
       under pre p \<and> is_hash vh \<and> vv \<le> nv \<and> (vv = nv \<longrightarrow> (p, vh) \<in> X)"
  shows "pairs_ok nv X pre ps"
  using assms in_leafMapOf [OF assms(1)] by (auto simp: pairs_ok_def)

text \<open>What a subtree operation is to establish: \<open>upd\<close> is the new content.\<close>

definition step_post ::
  "(bytes \<rightharpoonup> bytes) \<Rightarrow> (hash \<times> hash) set \<Rightarrow> nat list \<Rightarrow> child option \<Rightarrow> leafMap \<Rightarrow> nodeKey set \<Rightarrow> leafMap \<Rightarrow>
   commitAcc \<Rightarrow> child option \<Rightarrow> commitAcc \<Rightarrow> bool"
where
  "step_post V X pre c M N M' acc c' acc' \<longleftrightarrow>
     (\<exists>N'. tree_at (lookupNode V acc') (a_newVersion acc) pre c' M' N' \<and> delta V X {pre} N M N' M' acc acc') \<and>
     (M' = M \<longrightarrow> c' = c \<and> acc' = acc)"

lemma applyToLeaf_unfold:
  "applyToLeaf old nk leaf prefix us acc =
     (let merged = mergeLeaf (a_newVersion acc) leaf us
      in if length merged = 1 \<and> map_of merged (l_path leaf) = Some (l_vh leaf, l_valueVersion leaf) then ret old acc
         else buildFromPairs prefix (sort_key l_path (map entryLeaf merged))
                (dropValue (case map_of merged (l_path leaf) of None \<Rightarrow> True | Some e \<Rightarrow> fst e \<noteq> l_vh leaf) leaf
                   (staleNode nk acc)))"
  by (simp add: applyToLeaf_def dropValue_def Let_def)

lemma applyToLeaf_spec:
  assumes s: "settled V X {pre} {nk} [l_path l \<mapsto> (l_vh l, l_valueVersion l)] acc"
    and t: "tree_at (lookupNode V acc) (a_newVersion acc) pre c [l_path l \<mapsto> (l_vh l, l_valueVersion l)] {nk}"
    and nk: "wf_nodeKey nk" "nk_prefix nk = pre" and l: "under pre (l_path l)" "is_hash (l_vh l)" "l_valueVersion l \<le> a_newVersion acc"
    and us: "upd_ok X pre us"
  shows "\<exists>c' acc'. applyToLeaf c nk l pre us acc = (Inr c', acc') \<and>
     step_post V X pre c [l_path l \<mapsto> (l_vh l, l_valueVersion l)] {nk}
       (updLeaves (a_newVersion acc) [l_path l \<mapsto> (l_vh l, l_valueVersion l)] us) acc c' acc'"
proof -
  let ?nv = "a_newVersion acc" and ?M = "[l_path l \<mapsto> (l_vh l, l_valueVersion l)]"
  define merged where "merged = mergeLeaf ?nv l us"
  define M' where "M' = updLeaves ?nv ?M us"
  have m: "map_of merged = M'" "distinct (map fst merged)"
    using mergeLeaf_spec us by (auto simp: merged_def M'_def upd_ok_def)
  have one: "length merged = 1 \<and> M' (l_path l) = Some (l_vh l, l_valueVersion l) \<longleftrightarrow> M' = ?M"
  proof
    assume a: "M' = ?M"
    have "length merged = card (dom (map_of merged))" using m(2) by (metis card_length dom_map_of_conv_image_fst distinct_card length_map list.set_map)
    with a m(1) show "length merged = 1 \<and> M' (l_path l) = Some (l_vh l, l_valueVersion l)" by simp
  next
    assume a: "length merged = 1 \<and> M' (l_path l) = Some (l_vh l, l_valueVersion l)"
    then obtain e where "merged = [e]" by (auto simp: length_Suc_conv)
    with a m(1) show "M' = ?M" by (cases e) (auto split: if_splits)
  qed
  show ?thesis
  proof (cases "M' = ?M")
    case True
    then have "applyToLeaf c nk l pre us acc = (Inr c, acc)"
      using one m(1) by (simp add: applyToLeaf_unfold merged_def [symmetric] ret_def)
    then show ?thesis
      using t delta_refl [OF s] True unfolding M'_def [symmetric] step_post_def by auto
  next
    case False
    let ?gone = "case M' (l_path l) of None \<Rightarrow> True | Some e \<Rightarrow> fst e \<noteq> l_vh l"
    define ps where "ps = sort_key l_path (map entryLeaf merged)"
    have dp: "distinct (map l_path (map entryLeaf merged))" using m(2) by (simp only: map_path_entries)
    then have ps: "leafMapOf ps = M'" "distinct (map l_path ps)"
      by (simp_all only: ps_def leafMapOf_sort leafMapOf_entries m(1) distinct_sort_paths)
    have new: "p = l_path l \<and> vh = l_vh l \<and> vv = l_valueVersion l \<or> vv = ?nv \<and> updMap us p = Some (Some vh)"
      if "M' p = Some (vh, vv)" for p vh vv
      using updLeaves_new [OF that [unfolded M'_def]] by (auto split: if_splits)
    have ok: "acc_ok X acc" using s by (simp add: settled_def)
    note S = staleNode_spec [OF ok nk(1)]
    note P = dropValue_spec [OF S(1), where gone = ?gone and l = l]
    have pok: "pairs_ok ?nv X pre ps"
    proof (rule pairs_okI)
      show "under pre p \<and> is_hash vh \<and> vv \<le> ?nv \<and> (vv = ?nv \<longrightarrow> (p, vh) \<in> X)" if "leafMapOf ps p = Some (vh, vv)" for p vh vv
        using new [OF that [unfolded ps]] l upd_ok_updMap [OF us, of p] s by (auto simp: settled_def)
      show "own_vals (oldPart ?nv (leafMapOf ps))"
        unfolding ps own_vals_def
      proof (intro allI impI)
        fix p q e assume "oldPart ?nv M' p = Some e" "oldPart ?nv M' q = Some e"
        then show "p = q" using new [of p "fst e" "snd e"] new [of q "fst e" "snd e"] by (cases e) (auto simp: oldPart_Some)
      qed
    qed (use ps(2) in \<open>simp_all add: ps_def\<close>)
    have "build_post V X pre ps (dropValue ?gone l (staleNode nk acc)) (buildFromPairs pre ps (dropValue ?gone l (staleNode nk acc)))"
      using nk
      by (intro buildFromPairs_spec P(1) fresh_after_stale [OF s nk(1)]) (auto simp: P(4) S(4) pok wf_nodeKey_def wf_prefix_def)
    then obtain c' acc' N' where b: "buildFromPairs pre ps (dropValue ?gone l (staleNode nk acc)) = (Inr c', acc')"
      "tree_at (lookupNode V acc') ?nv pre c' M' N'"
      "delta V X {pre} {} (oldPart ?nv M') N' M' (dropValue ?gone l (staleNode nk acc)) acc'"
      unfolding build_post_def P(4) S(4) ps(1) by blast
    have r: "applyToLeaf c nk l pre us acc = (Inr c', acc')"
      using b(1) False one by (auto simp: applyToLeaf_unfold merged_def [symmetric] m(1) ps_def)
    have g: "?gone \<longleftrightarrow> (l_vh l, l_valueVersion l) \<notin> ran M' \<or> ?gone \<and> l_valueVersion l = ?nv"
    proof -
      have q: "\<forall>q. M' q = Some (l_vh l, l_valueVersion l) \<longrightarrow> l_valueVersion l \<noteq> ?nv \<longrightarrow> q = l_path l"
        using new by blast
      have same: "\<forall>vv. M' (l_path l) = Some (l_vh l, vv) \<longrightarrow> vv = l_valueVersion l"
        by (auto simp: M'_def updLeaves_def updEntry_def split: option.splits if_splits)
      show ?thesis
      proof (cases "M' (l_path l)")
        case (Some e)
        then show ?thesis using q same by (cases e) (auto simp: ran_def)
      qed (use q in \<open>auto simp: ran_def\<close>)
    qed
    have "delta V X {pre} {nk} ?M N' M' acc acc'"
    proof (rule delta_rebuild [OF s _ nk(1) l(1) g b(3)])
      show "p = l_path l \<and> e = (l_vh l, l_valueVersion l)" if "M' p = Some e" "snd e \<noteq> ?nv" for p e
        using new [of p "fst e" "snd e"] that by (cases e) auto
    qed (simp add: below_one nk(2))
    with b(2) r False show ?thesis unfolding M'_def [symmetric] step_post_def by blast
  qed
qed

definition insertPairs :: "u64 \<Rightarrow> update list \<Rightarrow> leafNode list" where
  "insertPairs nv us = List.map_filter (\<lambda>u. map_option (\<lambda>vh.
     \<lparr>l_path = u_path u, l_vh = vh, l_valueVersion = nv\<rparr>) (u_vh u)) us"

lemma insertPairs_spec:
  "distinct (map u_path us) \<Longrightarrow> leafMapOf (insertPairs nv us) = updLeaves nv Map.empty us"
  "distinct (map u_path us) \<Longrightarrow> distinct (map l_path (insertPairs nv us))"
  "sorted (map u_path us) \<Longrightarrow> sorted (map l_path (insertPairs nv us))"
proof -
  have sub: "map l_path (insertPairs nv us) = map u_path (filter (\<lambda>u. u_vh u \<noteq> None) us)"
    by (auto simp: insertPairs_def List.map_filter_def)
  show "distinct (map u_path us) \<Longrightarrow> distinct (map l_path (insertPairs nv us))"
    "sorted (map u_path us) \<Longrightarrow> sorted (map l_path (insertPairs nv us))"
    by (simp_all add: sub distinct_map_filter sorted_filter)
  show "distinct (map u_path us) \<Longrightarrow> leafMapOf (insertPairs nv us) = updLeaves nv Map.empty us"
  proof (induction us)
    case (Cons u us)
    have "leafMapOf (insertPairs nv us) (u_path u) = None"
      using Cons dom_updMap [of us] by (force simp: updLeaves_def split: option.split)
    with Cons show ?case
      by (auto simp: insertPairs_def List.map_filter_simps leafMapOf_def updLeaves_def updMap_def updEntry_def fun_eq_iff
            split: option.split)
  qed (simp add: insertPairs_def leafMapOf_def updLeaves_def updMap_def List.map_filter_simps fun_eq_iff)
qed

lemma applyToEmpty_spec:
  assumes s: "settled V X {pre} {} Map.empty acc" and pre: "wf_prefix pre" and us: "upd_ok X pre us"
  shows "\<exists>c' acc'. buildFromPairs pre (insertPairs (a_newVersion acc) us) acc = (Inr c', acc') \<and>
     step_post V X pre None Map.empty {} (updLeaves (a_newVersion acc) Map.empty us) acc c' acc'"
proof -
  let ?nv = "a_newVersion acc" and ?ps = "insertPairs (a_newVersion acc) us"
  have d: "distinct (map u_path us)" "sorted (map u_path us)" using us by (simp_all add: upd_ok_def)
  note I = insertPairs_spec(1) [OF d(1), of ?nv] insertPairs_spec(2) [OF d(1), of ?nv] insertPairs_spec(3) [OF d(2), of ?nv]
  have new: "vv = ?nv \<and> updMap us p = Some (Some vh)" if "leafMapOf ?ps p = Some (vh, vv)" for p vh vv
    using that updLeaves_new [of ?nv Map.empty us p vh vv] by (simp add: I(1))
  have o: "oldPart ?nv (leafMapOf ?ps) = Map.empty"
    using new by (fastforce simp: oldPart_def fun_eq_iff split: option.split)
  have "pairs_ok ?nv X pre ?ps"
  proof (rule pairs_okI)
    show "under pre p \<and> is_hash vh \<and> vv \<le> ?nv \<and> (vv = ?nv \<longrightarrow> (p, vh) \<in> X)" if "leafMapOf ?ps p = Some (vh, vv)" for p vh vv
      using new [OF that] upd_ok_updMap [OF us, of p "Some vh"] by simp
  qed (use I(2,3) in \<open>simp_all add: o own_vals_def\<close>)
  then have "build_post V X pre ?ps acc (buildFromPairs pre ?ps acc)"
    using s pre by (intro buildFromPairs_spec) (auto simp: settled_def fresh_def)
  moreover have "?ps = []" if "updLeaves ?nv Map.empty us = Map.empty"
    using that I(1) dom_leafMapOf [of ?ps] by simp
  moreover have "buildFromPairs pre [] acc = (Inr None, acc)" by (simp add: buildFromPairs.simps ret_def)
  ultimately show ?thesis
    unfolding build_post_def step_post_def o unfolding I(1) by force
qed

section \<open>Reading records\<close>

text \<open>Two stores that differ by reads at most: in the node cache and the backend's own state.\<close>

definition read_eq :: "'b Store \<Rightarrow> 'b Store \<Rightarrow> bool" where
  "read_eq s0 s \<longleftrightarrow> s\<lparr>st_cache := st_cache s0, st_backend := st_backend s0\<rparr> = s0"

lemma read_eq_fields:
  assumes "read_eq s0 s"
  shows "st_ck s = st_ck s0" "st_cipher s = st_cipher s0" "st_ckptMAC s = st_ckptMAC s0" "st_root s = st_root s0"
    "st_version s = st_version s0" "st_rootChild s = st_rootChild s0" "st_snapshotPin s = st_snapshotPin s0"
    "st_history s = st_history s0" "st_wantHistory s = st_wantHistory s0" "st_historyHead s = st_historyHead s0"
  using assms by (cases s, cases s0, simp add: read_eq_def)+

text \<open>
  What the tree algorithms need of the store they read: \<open>ok\<close> are the states reads may reach from \<open>s0\<close>,
  \<open>V\<close> is the content of the backend, and the verified loads return the records of \<open>V\<close>, or fail when the
  backend \<open>may\<close>.
\<close>

locale record_reader =
  fixes ok :: "'b Store \<Rightarrow> bool" and V :: "bytes \<rightharpoonup> bytes" and s0 :: "'b Store" and may :: bool
  assumes ok_read_eq: "ok s \<Longrightarrow> read_eq s0 s"
    and loadNode_law: "ok s \<Longrightarrow> nodeAt V nk = Some n \<Longrightarrow> hashNode n = h \<Longrightarrow>
      runs may ok (\<lambda>n' s'. n' = n \<and> ok s') (loadNode nk h s)"
    and readValue_law: "ok s \<Longrightarrow> V (valueRecordKey vh vv) = Some ct \<Longrightarrow> openValue s0 path ct = Inr pt \<Longrightarrow>
      vhOf s0 path pt = vh \<Longrightarrow> runs may ok (\<lambda>pt' s'. pt' = pt \<and> ok s') (readValue path vh vv s)"
    and loadRootRecord_law: "ok s \<Longrightarrow> V (rootRecordKey v) = Some r \<Longrightarrow> is_hash r \<Longrightarrow>
      runs may ok (\<lambda>r' s'. r' = r \<and> ok s') (loadRootRecord v s)"

definition slotsOf :: "nat \<Rightarrow> update list \<Rightarrow> nat set" where
  "slotsOf D us = (\<lambda>u. nibble (u_path u) D) ` set us"

lemma childEq_iff [simp]: "childEq a b \<longleftrightarrow> a = b"
  by (auto simp: childEq_def split: option.split)

lemma runs_onStore:
  "runs may E Q (m s) \<Longrightarrow> runs may (\<lambda>w. E (fst w)) (\<lambda>x w. Q x (fst w) \<and> snd w = acc) (onStore m (s, acc))"
  by (auto simp: runs_def onStore_def split: prod.splits sum.splits)

lemma slotMap_updLeaves:
  "slotMap (updLeaves nv M us) D i = updLeaves nv (slotMap M D i) (filter (\<lambda>u. nibble (u_path u) D = i) us)"
  using updLeaves_filter [of nv M "\<lambda>p. nibble p D = i" us] by (simp add: slotMap_def)

lemma updLeaves_rest:
  "updLeaves nv M (filter (\<lambda>u. nibble (u_path u) D \<noteq> i) us) |` inSlots D S = updLeaves nv M us |` inSlots D S" if "i \<notin> S"
  using that by (auto simp: updLeaves_def updMap_filter [of "\<lambda>p. nibble p D \<noteq> i"] restrict_map_def fun_eq_iff)

context record_reader
begin

lemma resolve_spec:
  assumes "ok s" "lookupNode V acc nk = Some n" "hashNode n = h"
  shows "runs may (\<lambda>w. ok (fst w)) (\<lambda>n' w. n' = n \<and> ok (fst w) \<and> snd w = acc) (resolveNode nk h (s, acc))"
proof (cases "nk_version nk = a_newVersion acc")
  case True
  then show ?thesis using assms by (auto simp: resolveNode_def lookupNode_def split: if_splits)
next
  case False
  then have "nodeAt V nk = Some n" using assms(2) by (simp add: lookupNode_def)
  from runs_onStore [where m = "loadNode nk h" and s = s and acc = acc, OF loadNode_law [OF assms(1) this assms(3)]] False
  show ?thesis by (simp add: resolveNode_def conj_assoc)
qed

lemma takeLeaf_spec:
  assumes "ok s" "lookupNode V acc \<lparr>nk_version = c_version c, nk_prefix = pre\<rparr> = Some (Leaf l)" "hashNode (Leaf l) = c_hash c"
  shows "runs may (\<lambda>w. ok (fst w))
     (\<lambda>l' w. l' = l \<and> ok (fst w) \<and> snd w = staleNode \<lparr>nk_version = c_version c, nk_prefix = pre\<rparr> acc)
     (takeLeaf c pre (s, acc))"
proof (cases "c_version c = a_newVersion acc")
  case True
  then show ?thesis using assms by (auto simp: takeLeaf_def lookupNode_def staleNode_def Let_def split: if_splits)
next
  case False
  let ?nk = "\<lparr>nk_version = c_version c, nk_prefix = pre\<rparr>"
  have n: "nodeAt V ?nk = Some (Leaf l)" using assms(2) False by (simp add: lookupNode_def)
  have "takeLeaf c pre (s, acc) = andThen (onStore (loadNode ?nk (c_hash c))) (\<lambda>n.
      case n of Internal _ \<Rightarrow> throw (errCorrupted ''node %v kind mismatch'')
      | Leaf l \<Rightarrow> (\<lambda>(s, acc). ret l (s, addStale (nodeRecordKey ?nk) acc))) (s, acc)"
    using False by (simp add: takeLeaf_def Let_def)
  moreover have "runs may (\<lambda>w. ok (fst w)) (\<lambda>l' w. l' = l \<and> ok (fst w) \<and> snd w = staleNode ?nk acc) \<dots>"
    using runs_onStore [where m = "loadNode ?nk (c_hash c)" and s = s and acc = acc, OF loadNode_law [OF assms(1) n assms(3)]]
    by (rule runs_andThen) (use False in \<open>auto simp: staleNode_def\<close>)
  ultimately show ?thesis by simp
qed

end

text \<open>Stored subtrees in the slots \<open>S\<close> of a node.\<close>

definition slots_at ::
  "(bytes \<rightharpoonup> bytes) \<Rightarrow> (hash \<times> hash) set \<Rightarrow> nat list \<Rightarrow> nat set \<Rightarrow> child option list \<Rightarrow> leafMap \<Rightarrow>
   (nat \<Rightarrow> nodeKey set) \<Rightarrow> commitAcc \<Rightarrow> bool"
where
  "slots_at V X pre S cs M T acc \<longleftrightarrow>
     (\<forall>i \<in> S. tree_at (lookupNode V acc) (a_newVersion acc) (pre @ [i]) (cs ! i) (slotMap M (length pre) i) (T i) \<and>
        settled V X {pre @ [i]} (T i) (slotMap M (length pre) i) acc)"

text \<open>A step in one slot leaves the subtrees of the others as they are.\<close>

lemma slots_at_frame:
  assumes at: "slots_at V X pre S cs M T acc" and d: "delta V X {pre @ [nib]} N1 M1 N1' M1' acc acc1" and nib: "nib \<notin> S"
    and same: "\<And>i. i \<in> S \<Longrightarrow> cs' ! i = cs ! i"
  shows "slots_at V X pre S cs' M T acc1"
  unfolding slots_at_def
proof
  fix i assume i: "i \<in> S"
  note D = deltaD [OF d]
  have dj: "\<not> below {pre @ [nib]} nk" if "below {pre @ [i]} nk" for nk using that i nib by (auto simp: below_one)
  have t: "tree_at (lookupNode V acc) (a_newVersion acc) (pre @ [i]) (cs ! i) (slotMap M (length pre) i) (T i)"
    and s: "settled V X {pre @ [i]} (T i) (slotMap M (length pre) i) acc" using at i by (auto simp: slots_at_def)
  have "tree_at (lookupNode V acc1) (a_newVersion acc1) (pre @ [i]) (cs' ! i) (slotMap M (length pre) i) (T i)"
    unfolding same [OF i] using D(2,5) dj by (intro tree_at_cong [OF t]) (auto simp: below_one)
  moreover have "settled V X {pre @ [i]} (T i) (slotMap M (length pre) i) acc1"
  proof (rule settled_frame [OF s d dj])
    show "\<not> underAny {pre @ [nib]} p" if "underAny {pre @ [i]} p" for p using that i nib by (auto simp: under_step)
    show "underAny {pre @ [i]} p" if "p \<in> dom (slotMap M (length pre) i)" for p using tree_at_under [OF t that] by simp
  qed
  ultimately show "tree_at (lookupNode V acc1) (a_newVersion acc1) (pre @ [i]) (cs' ! i) (slotMap M (length pre) i) (T i) \<and>
      settled V X {pre @ [i]} (T i) (slotMap M (length pre) i) acc1" ..
qed

text \<open>What the loop over the slots establishes.\<close>

definition groups_post ::
  "(bytes \<rightharpoonup> bytes) \<Rightarrow> (hash \<times> hash) set \<Rightarrow> nat list \<Rightarrow> nat set \<Rightarrow> child option list \<Rightarrow> leafMap \<Rightarrow>
   (nat \<Rightarrow> nodeKey set) \<Rightarrow> leafMap \<Rightarrow> commitAcc \<Rightarrow> child option list \<Rightarrow> commitAcc \<Rightarrow> bool"
where
  "groups_post V X pre S cs M T M' acc cs' acc' \<longleftrightarrow>
     length cs' = 16 \<and> (\<forall>i. i \<notin> S \<longrightarrow> cs' ! i = cs ! i) \<and>
     (\<exists>T'. (\<forall>i \<in> S. tree_at (lookupNode V acc') (a_newVersion acc) (pre @ [i]) (cs' ! i) (slotMap M' (length pre) i) (T' i)) \<and>
        delta V X (slotPrefixes pre S) (\<Union>i \<in> S. T i) (M |` inSlots (length pre) S)
          (\<Union>i \<in> S. T' i) (M' |` inSlots (length pre) S) acc acc') \<and>
     (M' = M \<longrightarrow> cs' = cs \<and> acc' = acc)"

lemma groups_post_step:
  assumes p1: "step_post V X (pre @ [nib]) (cs ! nib) (slotMap M (length pre) nib) (T nib) (slotMap M' (length pre) nib) acc c acc1"
    and p2: "groups_post V X pre S (cs[nib := c]) M T M2 acc1 cs' acc'"
    and M2: "M2 |` inSlots (length pre) S = M' |` inSlots (length pre) S" "M' = M \<Longrightarrow> M2 = M"
    and at: "slots_at V X pre (insert nib S) cs M T acc"
    and nib: "nib \<notin> S" "nib < 16" and cs: "length cs = 16"
    and M: "\<forall>p \<in> dom M'. under pre p" "own_vals M" and pre: "length pre < 64"
  shows "groups_post V X pre (insert nib S) cs M T M' acc cs' acc' \<and> cs' ! nib = c"
proof -
  let ?D = "length pre"
  obtain N1 where t1: "tree_at (lookupNode V acc1) (a_newVersion acc) (pre @ [nib]) c (slotMap M' ?D nib) N1"
    and d1: "delta V X {pre @ [nib]} (T nib) (slotMap M ?D nib) N1 (slotMap M' ?D nib) acc acc1"
    using p1 by (auto simp: step_post_def)
  note D1 = deltaD [OF d1]
  obtain T' where t2: "\<forall>i \<in> S. tree_at (lookupNode V acc') (a_newVersion acc) (pre @ [i]) (cs' ! i) (slotMap M2 ?D i) (T' i)"
    and d2: "delta V X (slotPrefixes pre S) (\<Union>i \<in> S. T i) (M |` inSlots ?D S) (\<Union>i \<in> S. T' i) (M' |` inSlots ?D S) acc1 acc'"
    and len: "length cs' = 16" and same: "\<forall>i. i \<notin> S \<longrightarrow> cs' ! i = cs[nib := c] ! i"
    using p2 unfolding groups_post_def D1(2) M2(1) by blast
  note D2 = deltaD [OF d2]
  have slot2: "slotMap M2 ?D i = slotMap M' ?D i" if "i \<in> S" for i
  proof
    fix p
    show "slotMap M2 ?D i p = slotMap M' ?D i p"
      using fun_cong [OF M2(1), of p] that by (auto simp: slotMap_eq restrict_map_def split: if_splits)
  qed
  have c': "cs' ! nib = c" using same nib cs by simp
  have dj: "\<not> below (slotPrefixes pre S) nk" if "below {pre @ [nib]} nk" for nk
    using that nib by (auto simp: below_slots below_one)
  define T2 where "T2 = T'(nib := N1)"
  have N: "(\<Union>i \<in> insert nib S. T2 i) = N1 \<union> (\<Union>i \<in> S. T' i)" using nib(1) by (auto simp: T2_def)
  have t1': "tree_at (lookupNode V acc') (a_newVersion acc) (pre @ [nib]) c (slotMap M' ?D nib) N1"
    using D2(5) dj by (intro tree_at_cong [OF t1]) (auto simp: below_one)
  have t: "tree_at (lookupNode V acc') (a_newVersion acc) (pre @ [i]) (cs' ! i) (slotMap M' ?D i) (T2 i)" if "i \<in> insert nib S" for i
    using that t1' t2 slot2 by (cases "i = nib") (auto simp: T2_def c')
  have k1: "\<forall>nk \<in> T nib \<union> N1. below (slotPrefixes pre {nib}) nk"
    using tree_at_keys [OF t1] at tree_at_keys unfolding slots_at_def by (fastforce simp: below_one)
  have k2: "\<forall>nk \<in> (\<Union>i \<in> S. T i) \<union> (\<Union>i \<in> S. T' i). below (slotPrefixes pre S) nk"
    using at t2 tree_at_keys unfolding slots_at_def by (fastforce simp: below_slots)
  have "delta V X (slotPrefixes pre ({nib} \<union> S)) (T nib \<union> (\<Union>i \<in> S. T i)) (M |` inSlots ?D ({nib} \<union> S))
      (N1 \<union> (\<Union>i \<in> S. T' i)) (M' |` inSlots ?D ({nib} \<union> S)) acc acc'"
    using d1 d2 nib(1) M pre by (intro delta_slots_compose [OF _ _ k1 k2]) (auto simp: slotMap_restrict)
  then have d: "delta V X (slotPrefixes pre (insert nib S)) (\<Union>i \<in> insert nib S. T i) (M |` inSlots ?D (insert nib S))
      (\<Union>i \<in> insert nib S. T2 i) (M' |` inSlots ?D (insert nib S)) acc acc'"
    unfolding N by simp
  have noop: "cs' = cs \<and> acc' = acc" if "M' = M"
    using that p1 p2 M2(2) by (auto simp: step_post_def groups_post_def)
  show ?thesis
    unfolding groups_post_def using len same c' t d noop by (intro conjI exI [of _ T2]) auto
qed

context record_reader
begin

lemma applyGroups_spec:
  assumes IH: "\<And>nib us s acc c M N. nib < 16 \<Longrightarrow> us \<noteq> [] \<Longrightarrow> upd_ok X (pre @ [nib]) us \<Longrightarrow> ok s \<Longrightarrow> a_newVersion acc = nv \<Longrightarrow>
      tree_at (lookupNode V acc) nv (pre @ [nib]) c M N \<Longrightarrow> settled V X {pre @ [nib]} N M acc \<Longrightarrow> own_vals M \<Longrightarrow>
      runs may (\<lambda>w. ok (fst w))
        (\<lambda>c' w. ok (fst w) \<and> step_post V X (pre @ [nib]) c M N (updLeaves nv M us) acc c' (snd w)) (ap nib c us (s, acc))"
    and pre: "length pre < 64" and own: "own_vals M" and u: "\<forall>p \<in> dom M. under pre p"
  shows "upd_ok X pre us \<Longrightarrow> ok s \<Longrightarrow> a_newVersion acc = nv \<Longrightarrow> length cs = 16 \<Longrightarrow> acc_ok X acc \<Longrightarrow>
    slots_at V X pre (slotsOf (length pre) us) cs M T acc \<Longrightarrow>
    runs may (\<lambda>w. ok (fst w))
      (\<lambda>r w. ok (fst w) \<and> snd r = (changed \<or> fst r \<noteq> cs) \<and>
         groups_post V X pre (slotsOf (length pre) us) cs M T (updLeaves nv M us) acc (fst r) (snd w))
      (applyGroups ap (length pre) us cs changed (s, acc))"
proof (induction "length us" arbitrary: us cs changed s acc rule: less_induct)
  case less
  let ?D = "length pre"
  show ?case
  proof (cases us)
    case Nil
    then show ?thesis
      using less.prems(2,4) delta_refl_empty [OF less.prems(5), of V]
      by (auto simp: groups_post_def slotsOf_def updLeaves_def updMap_def fun_eq_iff)
  next
    case (Cons v us')
    define nib where "nib = nibble (u_path v) ?D"
    define g where "g = filter (\<lambda>x. nibble (u_path x) ?D = nib) us"
    define r where "r = filter (\<lambda>x. nibble (u_path x) ?D \<noteq> nib) us"
    have "\<forall>p \<in> set (map u_path us). under pre p" "sorted (map u_path us)"
      using less.prems(1) by (auto simp: upd_ok_def)
    then have "sorted (map (\<lambda>x. nibble (u_path x) ?D) us)"
      using sorted_nibbles [of "map u_path us" pre] pre by (simp add: comp_def)
    then have grp: "v # takeWhile (\<lambda>x. nibble (u_path x) ?D = nib) us' = g"
      "dropWhile (\<lambda>x. nibble (u_path x) ?D = nib) us' = r"
      using takeWhile_group [of "\<lambda>x. nibble (u_path x) ?D" v us'] by (simp_all add: Cons g_def r_def nib_def)
    have S: "slotsOf ?D us = insert nib (slotsOf ?D r)" "nib \<notin> slotsOf ?D r"
      by (auto simp: slotsOf_def r_def nib_def Cons)
    have gne: "g \<noteq> []" and rlen: "length r < length us" and n16: "nib < 16"
      by (simp_all add: g_def r_def Cons nib_def le_imp_less_Suc)
    note at = less.prems(6) [unfolded S(1)]
    have slot: "runs may (\<lambda>w. ok (fst w)) (\<lambda>c' w. ok (fst w) \<and>
        step_post V X (pre @ [nib]) (cs ! nib) (slotMap M ?D nib) (T nib) (slotMap (updLeaves nv M us) ?D nib) acc c' (snd w))
        (ap nib (cs ! nib) g (s, acc))"
      unfolding slotMap_updLeaves g_def [symmetric]
      using upd_ok_slot [OF less.prems(1) pre, of nib] at less.prems(3)
      by (intro IH [OF n16 gne _ less.prems(2,3)]) (auto simp: g_def slots_at_def slotMap_def own_vals_restrict own)
    have rest: "runs may (\<lambda>w. ok (fst w))
       (\<lambda>r w. ok (fst w) \<and> snd r = (changed \<or> fst r \<noteq> cs) \<and>
         groups_post V X pre (slotsOf ?D us) cs M T (updLeaves nv M us) acc (fst r) (snd w))
       (applyGroups ap ?D r (cs[nib := c]) (changed \<or> c \<noteq> cs ! nib) (s1, acc1))"
      if s1: "ok s1" and p1: "step_post V X (pre @ [nib]) (cs ! nib) (slotMap M ?D nib) (T nib) (slotMap (updLeaves nv M us) ?D nib) acc c acc1"
      for c s1 acc1
    proof -
      obtain N1 where d1: "delta V X {pre @ [nib]} (T nib) (slotMap M ?D nib) N1 (slotMap (updLeaves nv M us) ?D nib) acc acc1"
        using p1 by (auto simp: step_post_def)
      note D1 = deltaD [OF d1]
      have at1: "slots_at V X pre (slotsOf ?D r) (cs[nib := c]) M T acc1"
      proof (rule slots_at_frame [OF _ d1 S(2)])
        show "slots_at V X pre (slotsOf ?D r) cs M T acc" using at by (simp add: slots_at_def)
        show "cs[nib := c] ! i = cs ! i" if "i \<in> slotsOf ?D r" for i using that S(2) by (metis nth_list_update_neq)
      qed
      note less.hyps [OF rlen upd_ok_filter [OF less.prems(1), of "\<lambda>p. nibble p ?D \<noteq> nib", folded r_def] s1 _ _ D1(1) at1,
          of "changed \<or> c \<noteq> cs ! nib"]
      then have "runs may (\<lambda>w. ok (fst w))
         (\<lambda>x w. ok (fst w) \<and> snd x = ((changed \<or> c \<noteq> cs ! nib) \<or> fst x \<noteq> cs[nib := c]) \<and>
           groups_post V X pre (slotsOf ?D r) (cs[nib := c]) M T (updLeaves nv M r) acc1 (fst x) (snd w))
         (applyGroups ap ?D r (cs[nib := c]) (changed \<or> c \<noteq> cs ! nib) (s1, acc1))"
        using D1(2) less.prems(3,4) by simp
      then show ?thesis
      proof (rule runs_mono)
        fix x w assume a: "ok (fst w) \<and> snd x = ((changed \<or> c \<noteq> cs ! nib) \<or> fst x \<noteq> cs[nib := c]) \<and>
           groups_post V X pre (slotsOf ?D r) (cs[nib := c]) M T (updLeaves nv M r) acc1 (fst x) (snd w)"
        have noop: "updLeaves nv M r = M" if "updLeaves nv M us = M"
        proof
          fix p show "updLeaves nv M r p = M p"
            using fun_cong [OF that, of p] unfolding r_def
            by (auto simp: updLeaves_def updMap_filter [of "\<lambda>p. nibble p ?D \<noteq> nib"] restrict_map_def)
        qed
        have dom: "\<forall>p \<in> dom (updLeaves nv M us). under pre p"
          using dom_updLeaves [of nv M us] u less.prems(1) by (auto simp: upd_ok_def)
        from groups_post_step [OF p1 _ _ noop at S(2) n16 less.prems(4) dom own pre, of "fst x" "snd w"]
        have "groups_post V X pre (slotsOf ?D us) cs M T (updLeaves nv M us) acc (fst x) (snd w) \<and> fst x ! nib = c"
          using a updLeaves_rest [OF S(2), where nv = nv and M = M and us = us and D = ?D] unfolding S(1) r_def by blast
        then show "ok (fst w) \<and> snd x = (changed \<or> fst x \<noteq> cs) \<and>
           groups_post V X pre (slotsOf ?D us) cs M T (updLeaves nv M us) acc (fst x) (snd w)"
          using a less.prems(4) n16 by (auto simp: list_update_id)
      qed simp
    qed
    have run: "applyGroups ap ?D us cs changed (s, acc) = andThen (ap nib (cs ! nib) g)
        (\<lambda>c w. applyGroups ap ?D r (cs[nib := c]) (changed \<or> c \<noteq> cs ! nib) w) (s, acc)"
      unfolding Cons applyGroups.simps Let_def nib_def [symmetric] grp
      by (intro arg_cong [where f = "\<lambda>f. andThen _ f _"] ext) (auto simp: list_update_id)
    show ?thesis
      unfolding run
    proof (rule runs_andThen, rule slot)
      fix c w
      assume "ok (fst w) \<and> step_post V X (pre @ [nib]) (cs ! nib) (slotMap M ?D nib) (T nib) (slotMap (updLeaves nv M us) ?D nib) acc c (snd w)"
      then show "runs may (\<lambda>w. ok (fst w))
         (\<lambda>r w. ok (fst w) \<and> snd r = (changed \<or> fst r \<noteq> cs) \<and>
           groups_post V X pre (slotsOf ?D us) cs M T (updLeaves nv M us) acc (fst r) (snd w))
         (applyGroups ap ?D r (cs[nib := c]) (changed \<or> c \<noteq> cs ! nib) w)"
        using rest [of "fst w" c "snd w"] by simp
    qed
  qed
qed

end

section \<open>Closing a node\<close>

lemma slotMap_other: "i \<noteq> nibble p D \<Longrightarrow> slotMap M D i p = None"
  by (simp add: slotMap_eq)

lemma presentSlots_iff: "i \<in> set (presentSlots cs) \<longleftrightarrow> i < 16 \<and> cs ! i \<noteq> None"
  by (auto simp: presentSlots_def)

lemma distinct_presentSlots: "distinct (presentSlots cs)"
  by (simp add: presentSlots_def)

text \<open>The content of a node read off its occupied slots.\<close>

lemma slots_kind:
  assumes all: "\<forall>i < 16. tree_at L m (pre @ [i]) (cs ! i) (slotMap M (length pre) i) (T i)"
  shows "presentSlots cs = [] \<Longrightarrow> M = Map.empty \<and> (\<Union>i < 16. T i) = {}"
    and "presentSlots cs = [i] \<Longrightarrow> M = slotMap M (length pre) i \<and> (\<Union>i < 16. T i) = T i"
    and "presentSlots cs \<noteq> [] \<Longrightarrow> \<not> (length (presentSlots cs) = 1 \<and> c_isLeaf (the (cs ! hd (presentSlots cs)))) \<Longrightarrow> multi M"
proof -
  note t = all [rule_format]
  have emp: "slotMap M (length pre) i = Map.empty \<and> T i = {}" if "i < 16" "cs ! i = None" for i
    using t [OF that(1)] unfolding that(2) by (auto elim: tree_at_NoneE)
  have cell: "cs ! nibble p (length pre) \<noteq> None" if "M p \<noteq> None" for p
  proof
    assume "cs ! nibble p (length pre) = None"
    then have "slotMap M (length pre) (nibble p (length pre)) p = None" using emp [OF nibble_less] by simp
    with that show False by (simp add: slotMap_eq)
  qed
  have full: "\<exists>p. M p \<noteq> None \<and> nibble p (length pre) = i" if "i < 16" "cs ! i \<noteq> None" for i
  proof -
    have "\<exists>p. slotMap M (length pre) i p \<noteq> None"
      using tree_at_kind [OF t [OF that(1)]] that(2) by (fastforce simp: multi_def split: if_splits)
    then show ?thesis by (auto simp: slotMap_eq split: if_splits)
  qed
  show "M = Map.empty \<and> (\<Union>i < 16. T i) = {}" if "presentSlots cs = []"
  proof -
    have n: "cs ! i = None" if "i < 16" for i using presentSlots_iff [of i cs] \<open>presentSlots cs = []\<close> that by simp
    have "M p = None" for p using cell n nibble_less by blast
    moreover have "T i = {}" if "i < 16" for i using emp n that by blast
    ultimately show ?thesis by auto
  qed
  show "M = slotMap M (length pre) i \<and> (\<Union>i < 16. T i) = T i" if ps: "presentSlots cs = [i]"
  proof -
    have n: "cs ! j = None" if "j < 16" "j \<noteq> i" for j using presentSlots_iff [of j cs] ps that by simp
    have i: "i < 16" using presentSlots_iff [of i cs] ps by simp
    have "M p = slotMap M (length pre) i p" for p
    proof (cases "nibble p (length pre) = i")
      case False
      then have "M p = None" using cell [of p] n [OF nibble_less False] by blast
      then show ?thesis by (simp add: slotMap_eq)
    qed (simp add: slotMap_eq)
    moreover have "T j \<subseteq> T i" if "j < 16" for j using emp n that by (cases "j = i") auto
    then have "(\<Union>i < 16. T i) = T i" using i by blast
    ultimately show ?thesis by blast
  qed
  show "multi M" if ne: "presentSlots cs \<noteq> []" and nl: "\<not> (length (presentSlots cs) = 1 \<and> c_isLeaf (the (cs ! hd (presentSlots cs))))"
  proof (cases "length (presentSlots cs) = 1")
    case True
    then obtain i where ps: "presentSlots cs = [i]" by (auto simp: length_Suc_conv)
    then have i: "i < 16" "cs ! i \<noteq> None" using presentSlots_iff [of i cs] by auto
    then have "multi (slotMap M (length pre) i)"
      using tree_at_kind [OF t [OF i(1)]] nl ps by (auto split: option.splits)
    then show ?thesis unfolding multi_def slotMap_def by auto
  next
    case False
    then obtain i j r where ps: "presentSlots cs = i # j # r"
      using ne by (cases "presentSlots cs" rule: remdups_adj.cases) auto
    then have "i \<noteq> j" using distinct_presentSlots [of cs] by simp
    moreover obtain p q where "M p \<noteq> None" "nibble p (length pre) = i" "M q \<noteq> None" "nibble q (length pre) = j"
      using full [of i] full [of j] presentSlots_iff [of i cs] presentSlots_iff [of j cs] ps by auto
    ultimately have "p \<in> dom M" "q \<in> dom M" "p \<noteq> q" by auto
    then show ?thesis unfolding multi_def by metis
  qed
qed

lemma settled_slot:
  assumes "settled V X {pre} (insert nk (\<Union>i < 16. T i)) M acc" "nk_prefix nk = pre"
    "\<And>i nk. i < 16 \<Longrightarrow> nk \<in> T i \<Longrightarrow> below {pre @ [i]} nk" "i < 16"
  shows "settled V X {pre @ [i]} (T i) (slotMap M (length pre) i) acc"
  unfolding slotMap_def
proof (rule settled_mono [OF assms(1)])
  show "nk' \<in> T i" if "below {pre @ [i]} nk'" "nk' \<in> insert nk (\<Union>i < 16. T i)" for nk'
    using that assms(2,3) by (fastforce simp: below_one)
qed (auto simp: below_one)

text \<open>The loop, seen from the node: all sixteen slots.\<close>

lemma groups_all_slots:
  assumes g: "groups_post V X pre S cs M T M' acc cs' acc1" and at: "slots_at V X pre {..<16} cs M T acc"
    and S: "S \<subseteq> {..<16}" and M: "\<And>p. nibble p (length pre) \<notin> S \<Longrightarrow> M' p = M p"
    and u: "\<forall>p \<in> dom M \<union> dom M'. under pre p" and pre: "length pre < 64" and own: "own_vals M"
    and ok: "acc_ok X acc"
  obtains T' where "\<And>i. i < 16 \<Longrightarrow> tree_at (lookupNode V acc1) (a_newVersion acc) (pre @ [i]) (cs' ! i) (slotMap M' (length pre) i) (T' i)"
    "delta V X (slotPrefixes pre {..<16}) (\<Union>i < 16. T i) M (\<Union>i < 16. T' i) M' acc acc1"
proof -
  let ?D = "length pre"
  obtain T1 where t1: "\<And>i. i \<in> S \<Longrightarrow> tree_at (lookupNode V acc1) (a_newVersion acc) (pre @ [i]) (cs' ! i) (slotMap M' ?D i) (T1 i)"
    and d: "delta V X (slotPrefixes pre S) (\<Union>i \<in> S. T i) (M |` inSlots ?D S) (\<Union>i \<in> S. T1 i) (M' |` inSlots ?D S) acc acc1"
    and same: "\<And>i. i \<notin> S \<Longrightarrow> cs' ! i = cs ! i"
    using g unfolding groups_post_def by blast
  note D = deltaD [OF d]
  define T' where "T' i = (if i \<in> S then T1 i else T i)" for i
  have t0: "tree_at (lookupNode V acc) (a_newVersion acc) (pre @ [i]) (cs ! i) (slotMap M ?D i) (T i)"
    and s0: "settled V X {pre @ [i]} (T i) (slotMap M ?D i) acc" if "i < 16" for i
    using at that by (auto simp: slots_at_def)
  have out: "slotMap M' ?D i = slotMap M ?D i" if "i \<notin> S" for i
    using that M by (auto simp: slotMap_eq fun_eq_iff)
  have t: "tree_at (lookupNode V acc1) (a_newVersion acc) (pre @ [i]) (cs' ! i) (slotMap M' ?D i) (T' i)" if i: "i < 16" for i
  proof (cases "i \<in> S")
    case False
    have "tree_at (lookupNode V acc1) (a_newVersion acc) (pre @ [i]) (cs ! i) (slotMap M ?D i) (T i)"
    proof (rule tree_at_cong [OF t0 [OF i]])
      show "lookupNode V acc1 nk = lookupNode V acc nk" if "nk_prefix nk = (pre @ [i]) @ q" for nk q
        using that False by (intro D(5)) (auto simp: below_slots)
    qed simp
    then show ?thesis using False same out by (simp add: T'_def)
  qed (use t1 in \<open>simp add: T'_def\<close>)
  let ?R = "\<Union>i \<in> {..<16} - S. T i"
  have k: "\<forall>nk \<in> (\<Union>i \<in> S. T i) \<union> (\<Union>i \<in> S. T1 i). below (slotPrefixes pre S) nk"
  proof -
    have "below (slotPrefixes pre S) nk" if "i \<in> S" "nk \<in> T i \<union> T1 i" for i nk
      using that S tree_at_keys [OF t0, of i nk] tree_at_keys [OF t1, of i nk] by (auto simp: below_slots subset_iff)
    then show ?thesis by blast
  qed
  have kR: "\<forall>nk \<in> ?R. below (slotPrefixes pre ({..<16} - S)) nk"
  proof -
    have "below (slotPrefixes pre ({..<16} - S)) nk" if "i \<in> {..<16} - S" "nk \<in> T i" for i nk
      using that tree_at_keys [OF t0, of i nk] by (auto simp: below_slots)
    then show ?thesis by blast
  qed
  have "M' |` inSlots ?D ({..<16} - S) = M |` inSlots ?D ({..<16} - S)"
    using M by (auto simp: restrict_map_def fun_eq_iff)
  moreover have "settled V X (slotPrefixes pre ({..<16} - S)) ?R (M |` inSlots ?D ({..<16} - S)) acc"
    unfolding settled_def
  proof (intro conjI allI impI ok)
    show "nk \<in> ?R" if a: "below (slotPrefixes pre ({..<16} - S)) nk \<and> nk_version nk = a_newVersion acc \<and> lookupNode V acc nk \<noteq> None" for nk
    proof -
      obtain i where i: "i \<in> {..<16} - S" "below {pre @ [i]} nk" using a by (auto simp: below_slots below_one)
      then have "nk \<in> T i" using s0 [of i] a by (auto simp: settled_def)
      with i show ?thesis by blast
    qed
    fix p vh assume "(M |` inSlots ?D ({..<16} - S)) p = Some (vh, a_newVersion acc)"
    then have "slotMap M ?D (nibble p ?D) p = Some (vh, a_newVersion acc)"
      by (auto simp: slotMap_eq restrict_map_def split: if_splits)
    then show "vh \<in> dom (map_of (a_values acc))" "(p, vh) \<in> X"
      using s0 [OF nibble_less, of p ?D] unfolding settled_def by blast+
  qed
  ultimately have "delta V X (slotPrefixes pre {..<16}) ((\<Union>i \<in> S. T i) \<union> ?R) M ((\<Union>i \<in> S. T1 i) \<union> ?R) M' acc acc1"
    using delta_widen [OF d _ _ u pre own k kR S] by blast
  moreover have "(\<Union>i \<in> S. T i) \<union> ?R = (\<Union>i < 16. T i)" "(\<Union>i \<in> S. T1 i) \<union> ?R = (\<Union>i < 16. T' i)"
    using S by (auto simp: T'_def split: if_splits)
  ultimately show thesis using t by (intro that [of T']) auto
qed

text \<open>The old node record retired, before anything takes its place.\<close>

lemma delta_retire:
  assumes d: "delta V X (slotPrefixes pre {..<16}) (\<Union>i < 16. T i) M (\<Union>i < 16. T' i) M' acc acc1"
    and t: "\<And>i. i < 16 \<Longrightarrow> tree_at (lookupNode V acc1) (a_newVersion acc) (pre @ [i]) (cs' ! i) (slotMap M' (length pre) i) (T' i)"
    and t0: "\<And>i nk. i < 16 \<Longrightarrow> nk \<in> T i \<Longrightarrow> below {pre @ [i]} nk"
    and nk: "nk_prefix nk = pre" "\<And>nk'. nk_prefix nk' = pre \<Longrightarrow> nk_version nk' = a_newVersion acc \<Longrightarrow> lookupNode V acc1 nk' \<noteq> None \<Longrightarrow> nk' = nk"
    and wf: "wf_prefix pre"
  shows "delta V X {pre} (insert nk (\<Union>i < 16. T i)) M (\<Union>i < 16. T' i) M' acc (staleNode nk acc1)"
    and "\<And>i. i < 16 \<Longrightarrow> tree_at (lookupNode V (staleNode nk acc1)) (a_newVersion acc) (pre @ [i]) (cs' ! i) (slotMap M' (length pre) i) (T' i)"
proof -
  note D = deltaD [OF d]
  have "wf_nodeKey nk" using nk(1) wf by (simp add: wf_nodeKey_def wf_prefix_def)
  note S = staleNode_spec [OF D(1) this, unfolded D(2)]
  have keys: "nk_prefix nk' \<noteq> pre" if "nk' \<in> (\<Union>i < 16. T i) \<union> (\<Union>i < 16. T' i)" for nk'
    using that t0 tree_at_keys [OF t] by (fastforce simp: below_one)
  have "delta V X {pre} ({nk} \<union> (\<Union>i < 16. T i)) M ({} \<union> (\<Union>i < 16. T' i)) M' acc (staleNode nk acc1)"
  proof (rule delta_up [OF d S(1) _ _ _ _ _ _ _ _ _ _ keys wf])
    show "nk' \<in> {}" if "nk_prefix nk' = pre" "nk_version nk' = a_newVersion acc" "lookupNode V (staleNode nk acc1) nk' \<noteq> None" for nk'
      using nk(2) [OF that(1,2)] that by (auto simp: S split: if_splits)
    show "a_stale (staleNode nk acc1) = a_stale acc1 @ (if nk_version nk = a_newVersion acc then [] else [nodeRecordKey nk])"
      by (rule S(3))
  qed (use nk(1) D(2) in \<open>auto simp: S\<close>)
  then show "delta V X {pre} (insert nk (\<Union>i < 16. T i)) M (\<Union>i < 16. T' i) M' acc (staleNode nk acc1)" by simp
  show "tree_at (lookupNode V (staleNode nk acc1)) (a_newVersion acc) (pre @ [i]) (cs' ! i) (slotMap M' (length pre) i) (T' i)" if "i < 16" for i
    using t [OF that] by (rule tree_at_cong) (use nk(1) in \<open>auto simp: S\<close>)
qed

text \<open>A new node over the sixteen slots.\<close>

lemma delta_new_node:
  assumes d: "delta V X {pre} N M (\<Union>i < 16. T' i) M' acc acc2"
    and all: "\<forall>i < 16. tree_at (lookupNode V acc2) (a_newVersion acc) (pre @ [i]) (cs' ! i) (slotMap M' (length pre) i) (T' i)"
    and cs: "length cs' = 16" "multi M'" and pre: "wf_prefix pre" "length pre < 64"
  shows "\<exists>N'. tree_at (lookupNode V (putPending \<lparr>nk_version = a_newVersion acc, nk_prefix = pre\<rparr> (Internal cs') acc2)) (a_newVersion acc) pre
       (Some \<lparr>c_version = a_newVersion acc, c_hash = hashNode (Internal cs'), c_isLeaf = False\<rparr>) M' N' \<and>
     delta V X {pre} N M N' M' acc (putPending \<lparr>nk_version = a_newVersion acc, nk_prefix = pre\<rparr> (Internal cs') acc2)"
proof -
  let ?nk = "\<lparr>nk_version = a_newVersion acc, nk_prefix = pre\<rparr>" and ?acc3 = "putPending \<lparr>nk_version = a_newVersion acc, nk_prefix = pre\<rparr> (Internal cs') acc2"
  note D = deltaD [OF d]
  note P = tree_node_pending [OF D(1) pre cs all [rule_format, folded D(2)], unfolded D(2)]
  have look: "lookupNode V ?acc3 = (lookupNode V acc2)(?nk \<mapsto> Internal cs')"
    using D(1,2) pre(1) by (intro lookup_putPending) auto
  obtain Z where Z: "a_stale acc2 = a_stale acc @ Z" "set Z = staleSet (a_newVersion acc) N M (\<Union>i < 16. T' i) M'" using D(8) by blast
  have st: "staleSet (a_newVersion acc) N M (\<Union>i < 16. T' i) M' = staleSet (a_newVersion acc) N M (insert ?nk (\<Union>i < 16. T' i)) M'"
    by (auto simp: staleSet_def)
  have "delta V X {pre} N M (insert ?nk (\<Union>i < 16. T' i)) M' acc ?acc3"
    unfolding delta_def
  proof (intro conjI allI ballI impI)
    show "acc_ok X ?acc3" using D(1,2) pre(1) P(1) by (intro acc_ok_putPending) auto
    show "\<exists>T. a_stale ?acc3 = a_stale acc @ T \<and> set T = staleSet (a_newVersion acc) N M (insert ?nk (\<Union>i < 16. T' i)) M'"
      using Z st by auto
    show "if vv = a_newVersion acc then vh \<in> dom (map_of (a_values ?acc3)) \<and> (p, vh) \<in> X else M p = Some (vh, vv)"
      if "M' p = Some (vh, vv)" for p vh vv
      using D(9) [of p vh] D(10) [of p vh vv] that by auto
    show "map_of (a_values ?acc3) vh = map_of (a_values acc) vh" if "\<forall>p. (p, vh) \<in> X \<longrightarrow> \<not> underAny {pre} p" for vh
      using that D(11) [of vh] by simp
    show "lookupNode V ?acc3 nk = lookupNode V acc nk" if "\<not> below {pre} nk" for nk
      using that D(5) [of nk] by (auto simp: look below_one)
    show "nk \<in> insert ?nk (\<Union>i < 16. T' i)"
      if a: "below {pre} nk \<and> nk_version nk = a_newVersion acc \<and> lookupNode V ?acc3 nk \<noteq> None" for nk
      using a D(7) [of nk] by (cases "nk = ?nk") (auto simp: look)
    show "nk_version nk = a_newVersion acc \<or> nk \<in> N" if "nk \<in> insert ?nk (\<Union>i < 16. T' i)" for nk
      using that D(6) [of nk] by auto
  qed (use D(2-4) in simp_all)
  with P(2) show ?thesis by blast
qed

context record_reader
begin

text \<open>The only leaf of a node moves up into its place.\<close>

lemma collapse_spec:
  assumes d: "delta V X {pre} N M {lk} M' acc acc2" and M': "M' = [l_path l \<mapsto> (l_vh l, l_valueVersion l)]"
    and lk: "lk = \<lparr>nk_version = c_version c, nk_prefix = pre @ [i]\<rparr>" "lookupNode V acc2 lk = Some (Leaf l)" "hashNode (Leaf l) = c_hash c"
    and l: "under (pre @ [i]) (l_path l)" "is_hash (l_vh l)" "l_valueVersion l \<le> a_newVersion acc"
    and pre: "wf_prefix pre" and s: "ok s"
  shows "runs may (\<lambda>w. ok (fst w))
     (\<lambda>c' w. ok (fst w) \<and> (\<exists>N'. tree_at (lookupNode V (snd w)) (a_newVersion acc) pre c' M' N' \<and> delta V X {pre} N M N' M' acc (snd w)))
     (andThen (takeLeaf c (pre @ [i])) (\<lambda>leaf. onAcc (putLeaf pre leaf)) (s, acc2))"
proof (rule runs_andThen, rule takeLeaf_spec [OF s, of acc2 c "pre @ [i]" l])
  note D = deltaD [OF d]
  let ?nv = "a_newVersion acc"
  have u: "under pre (l_path l)" using l(1) by (simp add: under_step)
  have wf: "wf_nodeKey lk" using lookup_wf lk(2) by blast
  have st: "settled V X {pre} {lk} [l_path l \<mapsto> (l_vh l, l_valueVersion l)] acc2"
    using settled_delta [OF d] by (simp add: M')
  note S = staleNode_spec [OF D(1) wf, unfolded D(2)]
  have drop: "dropValue False l (staleNode lk acc2) = staleNode lk acc2" by (simp add: dropValue_def)
  have fr: "fresh V {pre} (staleNode lk acc2)" using fresh_after_stale [OF st wf, of False l] by (simp add: drop)
  have X: "(l_path l, l_vh l) \<in> X" if "l_valueVersion l = ?nv" using D(9) [of "l_path l" "l_vh l"] that by (simp add: M')
  obtain c' acc4 N4 where p: "putLeaf pre l (staleNode lk acc2) = (Inr c', acc4)"
    "tree_at (lookupNode V acc4) ?nv pre c' M' N4"
    "delta V X {pre} {} (oldPart ?nv M') N4 M' (staleNode lk acc2) acc4"
    using putLeaf_spec [OF S(1) fr pre u l(2)] l(3) X unfolding S(4) M' by blast
  have "delta V X {pre} {lk} M' N4 M' acc2 acc4"
    unfolding M'
  proof (rule delta_rebuild [OF st _ wf u, where gone = False])
    show "delta V X {pre} {} (oldPart (a_newVersion acc2) [l_path l \<mapsto> (l_vh l, l_valueVersion l)]) N4
        [l_path l \<mapsto> (l_vh l, l_valueVersion l)] (dropValue False l (staleNode lk acc2)) acc4"
      using p(3) by (simp only: drop D(2) M')
  qed (auto simp: below_one lk(1) split: if_splits)
  then have "delta V X {pre} N M N4 M' acc acc4" by (rule delta_trans [OF d])
  then show "runs may (\<lambda>w. ok (fst w))
     (\<lambda>c' w. ok (fst w) \<and> (\<exists>N'. tree_at (lookupNode V (snd w)) ?nv pre c' M' N' \<and> delta V X {pre} N M N' M' acc (snd w)))
     (onAcc (putLeaf pre leaf) w)"
    if "leaf = l \<and> ok (fst w) \<and> snd w = staleNode \<lparr>nk_version = c_version c, nk_prefix = pre @ [i]\<rparr> acc2" for leaf w
    using that p(1,2) by (auto simp: onAcc_def lk(1) [symmetric])
qed (use lk in simp_all)

lemma finishInternal_spec:
  assumes d: "delta V X (slotPrefixes pre {..<16}) (\<Union>i < 16. T i) M (\<Union>i < 16. T' i) M' acc acc1"
    and t: "\<And>i. i < 16 \<Longrightarrow> tree_at (lookupNode V acc1) (a_newVersion acc) (pre @ [i]) (cs' ! i) (slotMap M' (length pre) i) (T' i)"
    and t0: "\<And>i nk. i < 16 \<Longrightarrow> nk \<in> T i \<Longrightarrow> below {pre @ [i]} nk"
    and nk: "nk_prefix nk = pre" "\<And>nk'. nk_prefix nk' = pre \<Longrightarrow> nk_version nk' = a_newVersion acc \<Longrightarrow> lookupNode V acc1 nk' \<noteq> None \<Longrightarrow> nk' = nk"
    and pre: "wf_prefix pre" "length pre < 64" and cs: "length cs' = 16" and s: "ok s"
  shows "runs may (\<lambda>w. ok (fst w))
     (\<lambda>c' w. ok (fst w) \<and> (\<exists>N'. tree_at (lookupNode V (snd w)) (a_newVersion acc) pre c' M' N' \<and>
        delta V X {pre} (insert nk (\<Union>i < 16. T i)) M N' M' acc (snd w)))
     (finishInternal pre cs' (s, staleNode nk acc1))"
proof -
  have R1: "delta V X {pre} (insert nk (\<Union>i < 16. T i)) M (\<Union>i < 16. T' i) M' acc (staleNode nk acc1)"
    by (rule delta_retire(1) [OF d]) (fact assms)+
  have R2: "\<forall>i < 16. tree_at (lookupNode V (staleNode nk acc1)) (a_newVersion acc) (pre @ [i]) (cs' ! i) (slotMap M' (length pre) i) (T' i)"
  proof (intro allI impI)
    show "tree_at (lookupNode V (staleNode nk acc1)) (a_newVersion acc) (pre @ [i]) (cs' ! i) (slotMap M' (length pre) i) (T' i)"
      if "i < 16" for i
      by (rule delta_retire(2) [OF d]) (fact assms that)+
  qed
  note K = slots_kind [OF R2]
  show ?thesis
  proof (cases "presentSlots cs' = []")
    case True
    then have r: "finishInternal pre cs' (s, staleNode nk acc1) = ret None (s, staleNode nk acc1)"
      by (simp add: finishInternal_def Let_def)
    have e: "M' = Map.empty" "(\<Union>i < 16. T' i) = {}" using K(1) [OF True] by auto
    show ?thesis
      using s tree_empty [of "lookupNode V (staleNode nk acc1)" "a_newVersion acc" pre] R1 [unfolded e]
      unfolding r e runs_ret' fst_conv snd_conv by blast
  next
    case ne: False
    show ?thesis
    proof (cases "length (presentSlots cs') = 1 \<and> c_isLeaf (the (cs' ! hd (presentSlots cs')))")
      case True
      then obtain i where ps: "presentSlots cs' = [i]" by (auto simp: length_Suc_conv)
      have i: "i < 16" "cs' ! i \<noteq> None" using presentSlots_iff [of i cs'] unfolding ps by simp_all
      then obtain c where c: "cs' ! i = Some c" by blast
      then have lf: "c_isLeaf c" using True unfolding ps by simp
      from R2 [rule_format, OF i(1)] obtain l where lk: "T' i = {\<lparr>nk_version = c_version c, nk_prefix = pre @ [i]\<rparr>}"
        "slotMap M' (length pre) i = [l_path l \<mapsto> (l_vh l, l_valueVersion l)]" "hashNode (Leaf l) = c_hash c"
        "lookupNode V (staleNode nk acc1) \<lparr>nk_version = c_version c, nk_prefix = pre @ [i]\<rparr> = Some (Leaf l)"
        "under (pre @ [i]) (l_path l)" "is_hash (l_vh l)" "l_valueVersion l \<le> a_newVersion acc"
        unfolding c using lf by (auto elim!: tree_at_SomeE)
      have "delta V X {pre} (insert nk (\<Union>i < 16. T i)) M {\<lparr>nk_version = c_version c, nk_prefix = pre @ [i]\<rparr>} M' acc (staleNode nk acc1)"
        using R1 K(2) [OF ps] lk(1) by simp
      from collapse_spec [OF this _ refl lk(4,3,5,6,7) pre(1) s] conjunct1 [OF K(2) [OF ps]] lk(2)
      have "runs may (\<lambda>w. ok (fst w))
        (\<lambda>c' w. ok (fst w) \<and> (\<exists>N'. tree_at (lookupNode V (snd w)) (a_newVersion acc) pre c' M' N' \<and>
           delta V X {pre} (insert nk (\<Union>i < 16. T i)) M N' M' acc (snd w)))
        (andThen (takeLeaf c (pre @ [i])) (\<lambda>leaf. onAcc (putLeaf pre leaf)) (s, staleNode nk acc1))" by simp
      moreover have "finishInternal pre cs' (s, staleNode nk acc1) =
          andThen (takeLeaf c (pre @ [i])) (\<lambda>leaf. onAcc (putLeaf pre leaf)) (s, staleNode nk acc1)"
        by (simp add: finishInternal_def Let_def ps c lf)
      ultimately show ?thesis by simp
    next
      case False
      then have r: "finishInternal pre cs' (s, staleNode nk acc1) =
          ret (Some \<lparr>c_version = a_newVersion acc, c_hash = hashNode (Internal cs'), c_isLeaf = False\<rparr>)
            (s, putPending \<lparr>nk_version = a_newVersion acc, nk_prefix = pre\<rparr> (Internal cs') (staleNode nk acc1))"
        using ne deltaD(2) [OF R1] by (auto simp: finishInternal_def Let_def)
      show ?thesis
        using s delta_new_node [OF R1 R2 cs K(3) [OF ne False] pre] unfolding r runs_ret' fst_conv snd_conv by blast
    qed
  qed
qed

end

section \<open>The whole update\<close>

lemma applySubtree_unfold:
  "us \<noteq> [] \<Longrightarrow> applySubtree None pre us (s, acc) = onAcc (buildFromPairs pre (insertPairs (a_newVersion acc) us)) (s, acc)"
  "us \<noteq> [] \<Longrightarrow> applySubtree (Some c) pre us (s, acc) =
     andThen (resolveNode \<lparr>nk_version = c_version c, nk_prefix = pre\<rparr> (c_hash c)) (\<lambda>n.
       if isLeaf n \<noteq> c_isLeaf c then throw (errCorrupted ''node %v kind mismatch'')
       else case n of
         Leaf leaf \<Rightarrow> onAcc (applyToLeaf (Some c) \<lparr>nk_version = c_version c, nk_prefix = pre\<rparr> leaf pre us)
       | Internal children \<Rightarrow>
           if 64 \<le> length pre then throw indexPanic
           else andThen (applyGroups (\<lambda>nib child us. applySubtree child (pre @ [nib]) us) (length pre) us children False)
             (\<lambda>(children', changed).
                if \<not> changed then ret (Some c)
                else andThen (setState (\<lambda>(s, acc). (s, staleNode \<lparr>nk_version = c_version c, nk_prefix = pre\<rparr> acc)))
                       (\<lambda>_. finishInternal pre children'))) (s, acc)"
  by (subst applySubtree.simps, simp add: insertPairs_def Let_def)+

lemma updLeaves_Nil [simp]: "updLeaves nv M [] = M"
  by (simp add: updLeaves_def updMap_def fun_eq_iff)

text \<open>A node none of whose slots changed its reference still stands for its (possibly new) content.\<close>

lemma unchanged_node:
  assumes d: "delta V X (slotPrefixes pre {..<16}) (\<Union>i < 16. T i) M (\<Union>i < 16. T' i) M' acc acc1"
    and t: "\<forall>i < 16. tree_at (lookupNode V acc1) (a_newVersion acc) (pre @ [i]) (cs ! i) (slotMap M' (length pre) i) (T' i)"
    and t0: "\<forall>i < 16. tree_at (lookupNode V acc) (a_newVersion acc) (pre @ [i]) (cs ! i) (slotMap M (length pre) i) (T i)"
    and nk: "nk = \<lparr>nk_version = v, nk_prefix = pre\<rparr>" "lookupNode V acc nk = Some (Internal cs)" "v \<le> a_newVersion acc"
      "\<And>nk'. nk_prefix nk' = pre \<Longrightarrow> nk_version nk' = a_newVersion acc \<Longrightarrow> lookupNode V acc1 nk' \<noteq> None \<Longrightarrow> nk' = nk"
    and cs: "length cs = 16" "multi M" and pre: "wf_prefix pre" "length pre < 64"
  shows "\<exists>N'. tree_at (lookupNode V acc1) (a_newVersion acc) pre (Some \<lparr>c_version = v, c_hash = hashNode (Internal cs), c_isLeaf = False\<rparr>) M' N' \<and>
    delta V X {pre} (insert nk (\<Union>i < 16. T i)) M N' M' acc acc1"
proof -
  note D = deltaD [OF d]
  have "\<not> (presentSlots cs = [])" using slots_kind(1) [OF t0] cs(2) by auto
  moreover have "\<not> (length (presentSlots cs) = 1 \<and> c_isLeaf (the (cs ! hd (presentSlots cs))))"
  proof
    assume a: "length (presentSlots cs) = 1 \<and> c_isLeaf (the (cs ! hd (presentSlots cs)))"
    then obtain i where ps: "presentSlots cs = [i]" by (auto simp: length_Suc_conv)
    then have i: "i < 16" "cs ! i \<noteq> None" using presentSlots_iff [of i cs] by auto
    then obtain p e where "slotMap M (length pre) i = [p \<mapsto> e]"
      using tree_at_kind [OF t0 [rule_format, OF i(1)]] a ps by (auto split: option.splits)
    then have "M = [p \<mapsto> e]" using slots_kind(2) [OF t0 ps] by simp
    then show False using cs(2) by simp
  qed
  ultimately have m: "multi M'" using slots_kind(3) [OF t] by blast
  have look: "lookupNode V acc1 nk = Some (Internal cs)" using D(5) [of nk] nk(1,2) by (auto simp: below_slots)
  have "tree_at (lookupNode V acc1) (a_newVersion acc) pre (Some \<lparr>c_version = v, c_hash = hashNode (Internal cs), c_isLeaf = False\<rparr>) M' (insert nk (\<Union>i < 16. T' i))"
    using look t nk(1,3) cs(1) m pre(2) by (intro tree_node [where T = T']) auto
  moreover have "delta V X {pre} ({nk} \<union> (\<Union>i < 16. T i)) M ({nk} \<union> (\<Union>i < 16. T' i)) M' acc acc1"
  proof (rule delta_up [OF d D(1), where ?T2.0 = "[]"])
    show "nk_prefix nk' \<noteq> pre" if "nk' \<in> (\<Union>i < 16. T i) \<union> (\<Union>i < 16. T' i)" for nk'
      using that tree_at_keys [OF t0 [rule_format]] tree_at_keys [OF t [rule_format]] by fastforce
    show "nk' \<in> {nk}" if "nk_prefix nk' = pre" "nk_version nk' = a_newVersion acc" "lookupNode V acc1 nk' \<noteq> None" for nk'
      using nk(4) [OF that] by simp
  qed (use nk(1) pre(1) in auto)
  ultimately show ?thesis by auto
qed

context record_reader
begin

lemma applyNode_spec:
  assumes IH: "\<And>nib us s acc c M N. nib < 16 \<Longrightarrow> us \<noteq> [] \<Longrightarrow> upd_ok X (pre @ [nib]) us \<Longrightarrow> ok s \<Longrightarrow>
      tree_at (lookupNode V acc) (a_newVersion acc) (pre @ [nib]) c M N \<Longrightarrow> settled V X {pre @ [nib]} N M acc \<Longrightarrow> own_vals M \<Longrightarrow>
      runs may (\<lambda>w. ok (fst w))
        (\<lambda>c' w. ok (fst w) \<and> step_post V X (pre @ [nib]) c M N (updLeaves (a_newVersion acc) M us) acc c' (snd w)) (ap nib c us (s, acc))"
    and us: "upd_ok X pre us" and s: "ok s" and st: "settled V X {pre} (insert nk (\<Union>i < 16. T i)) M acc" and own: "own_vals M"
    and pre: "wf_prefix pre" "length pre < 64" and cs: "length cs = 16" "multi M"
    and nk: "nk = \<lparr>nk_version = v, nk_prefix = pre\<rparr>" "lookupNode V acc nk = Some (Internal cs)" "v \<le> a_newVersion acc"
    and t0: "\<forall>i < 16. tree_at (lookupNode V acc) (a_newVersion acc) (pre @ [i]) (cs ! i) (slotMap M (length pre) i) (T i)"
    and u: "\<forall>p \<in> dom M. under pre p" and c: "c = \<lparr>c_version = v, c_hash = hashNode (Internal cs), c_isLeaf = False\<rparr>"
  shows "runs may (\<lambda>w. ok (fst w))
     (\<lambda>c' w. ok (fst w) \<and> step_post V X pre (Some c) M (insert nk (\<Union>i < 16. T i)) (updLeaves (a_newVersion acc) M us) acc c' (snd w))
     (andThen (applyGroups ap (length pre) us cs False)
        (\<lambda>(cs', changed). if \<not> changed then ret (Some c)
           else andThen (setState (\<lambda>(s, acc). (s, staleNode nk acc))) (\<lambda>_. finishInternal pre cs')) (s, acc))"
proof (rule runs_andThen)
  let ?D = "length pre" and ?S = "slotsOf (length pre) us" and ?M = "updLeaves (a_newVersion acc) M us"
  have t0': "\<And>i nk. i < 16 \<Longrightarrow> nk \<in> T i \<Longrightarrow> below {pre @ [i]} nk"
    using tree_at_keys [OF t0 [rule_format]] by (auto simp: below_one)
  have at: "slots_at V X pre {..<16} cs M T acc"
    unfolding slots_at_def using t0 settled_slot [OF st _ t0'] nk(1) by auto
  have S16: "?S \<subseteq> {..<16}" by (auto simp: slotsOf_def)
  have ok: "acc_ok X acc" using st by (simp add: settled_def)
  show "runs may (\<lambda>w. ok (fst w))
      (\<lambda>r w. ok (fst w) \<and> snd r = (False \<or> fst r \<noteq> cs) \<and> groups_post V X pre ?S cs M T ?M acc (fst r) (snd w))
      (applyGroups ap ?D us cs False (s, acc))"
  proof (rule applyGroups_spec [OF _ pre(2) own u us s refl cs(1) ok])
    show "runs may (\<lambda>w. ok (fst w))
        (\<lambda>c' w. ok (fst w) \<and> step_post V X (pre @ [nib]) c M N (updLeaves (a_newVersion acc) M us) acc' c' (snd w)) (ap nib c us (s, acc'))"
      if "nib < 16" "us \<noteq> []" "upd_ok X (pre @ [nib]) us" "ok s" "a_newVersion acc' = a_newVersion acc"
        "tree_at (lookupNode V acc') (a_newVersion acc) (pre @ [nib]) c M N" "settled V X {pre @ [nib]} N M acc'" "own_vals M"
      for nib us s acc' c M N
      using IH [OF that(1-4), of acc' c M N] that(5-) by simp
  qed (use at S16 in \<open>auto simp: slots_at_def\<close>)
  fix r w
  assume a: "ok (fst w) \<and> snd r = (False \<or> fst r \<noteq> cs) \<and> groups_post V X pre ?S cs M T ?M acc (fst r) (snd w)"
  obtain cs' changed where r: "r = (cs', changed)" by (cases r)
  obtain s1 acc1 where w: "w = (s1, acc1)" by (cases w)
  have g: "groups_post V X pre ?S cs M T ?M acc cs' acc1" and ch: "changed \<longleftrightarrow> cs' \<noteq> cs" and s1: "ok s1"
    using a by (auto simp: r w)
  have uM: "\<forall>p \<in> dom M \<union> dom ?M. under pre p"
  proof -
    have "\<forall>p \<in> u_path ` set us. under pre p" using us by (auto simp: upd_ok_def)
    then have all: "\<forall>p \<in> dom M \<union> u_path ` set us. under pre p" using u by (metis UnE)
    have sub: "dom M \<union> dom ?M \<subseteq> dom M \<union> u_path ` set us" using dom_updLeaves by (simp add: le_sup_iff)
    show ?thesis by (rule ballI, rule bspec [OF all], erule subsetD [OF sub])
  qed
  have out: "?M p = M p" if "nibble p ?D \<notin> ?S" for p
  proof -
    have "p \<notin> dom (updMap us)" unfolding dom_updMap using that by (auto simp: slotsOf_def)
    then show ?thesis by (simp add: updLeaves_def domIff)
  qed
  obtain T' where t: "\<And>i. i < 16 \<Longrightarrow> tree_at (lookupNode V acc1) (a_newVersion acc) (pre @ [i]) (cs' ! i) (slotMap ?M ?D i) (T' i)"
    and d: "delta V X (slotPrefixes pre {..<16}) (\<Union>i < 16. T i) M (\<Union>i < 16. T' i) ?M acc acc1"
    using groups_all_slots [OF g at S16 out uM pre(2) own ok] by blast
  have nk': "nk' = nk" if "nk_prefix nk' = pre" "nk_version nk' = a_newVersion acc" "lookupNode V acc1 nk' \<noteq> None" for nk'
  proof -
    have "lookupNode V acc nk' \<noteq> None" using deltaD(5) [OF d, of nk'] that by (auto simp: below_slots)
    then have "nk' \<in> insert nk (\<Union>i < 16. T i)" using st that by (auto simp: settled_def below_one)
    then show ?thesis using t0' that(1) by (fastforce simp: below_one)
  qed
  have noop: "cs' = cs \<and> acc1 = acc" if "?M = M" using g that by (simp add: groups_post_def)
  show "runs may (\<lambda>w. ok (fst w))
     (\<lambda>c' w. ok (fst w) \<and> step_post V X pre (Some c) M (insert nk (\<Union>i < 16. T i)) ?M acc c' (snd w))
     ((case r of (cs', changed) \<Rightarrow> if \<not> changed then ret (Some c)
           else andThen (setState (\<lambda>(s, acc). (s, staleNode nk acc))) (\<lambda>_. finishInternal pre cs')) w)"
  proof (cases changed)
    case False
    then have "\<exists>N'. tree_at (lookupNode V acc1) (a_newVersion acc) pre (Some c) ?M N' \<and> delta V X {pre} (insert nk (\<Union>i < 16. T i)) M N' ?M acc acc1"
      unfolding c using t ch by (intro unchanged_node [OF d _ t0 nk nk' cs pre]) auto
    then show ?thesis using False s1 noop by (auto simp: r w step_post_def)
  next
    case True
    then have ne: "?M \<noteq> M" using noop ch by blast
    have "runs may (\<lambda>w. ok (fst w))
     (\<lambda>c' w. ok (fst w) \<and> (\<exists>N'. tree_at (lookupNode V (snd w)) (a_newVersion acc) pre c' ?M N' \<and>
        delta V X {pre} (insert nk (\<Union>i < 16. T i)) M N' ?M acc (snd w))) (finishInternal pre cs' (s1, staleNode nk acc1))"
      by (rule finishInternal_spec [OF d]) (use t t0' nk' nk(1) pre g s1 in \<open>auto simp: groups_post_def\<close>)
    then show ?thesis
      using True ne by (simp add: r w step_post_def)
  qed
qed

lemma applySubtree_spec:
  assumes "upd_ok X pre us" "ok s" "tree_at (lookupNode V acc) (a_newVersion acc) pre c M N" "settled V X {pre} N M acc" "own_vals M" "wf_prefix pre"
  shows "runs may (\<lambda>w. ok (fst w))
     (\<lambda>c' w. ok (fst w) \<and> step_post V X pre c M N (updLeaves (a_newVersion acc) M us) acc c' (snd w)) (applySubtree c pre us (s, acc))"
  using assms
proof (induction "64 - length pre" arbitrary: pre us s acc c M N rule: less_induct)
  case less
  show ?case
  proof (cases "us = []")
    case True
    then show ?thesis
      using less.prems(2,3) delta_refl [OF less.prems(4)] by (subst applySubtree.simps) (auto simp: step_post_def)
  next
    case us: False
    from less.prems(3) show ?thesis
    proof (cases rule: tree_at.cases)
      case tree_empty
      then show ?thesis
        using applyToEmpty_spec [of V X pre acc us] less.prems us
        by (auto simp: applySubtree_unfold(1) onAcc_def)
    next
      case (tree_leaf v l)
      let ?nk = "\<lparr>nk_version = v, nk_prefix = pre\<rparr>" and ?M = "[l_path l \<mapsto> (l_vh l, l_valueVersion l)]"
      have wf: "wf_nodeKey ?nk" using less.prems(6) by simp
      obtain c' acc' where a: "applyToLeaf c ?nk l pre us acc = (Inr c', acc')"
        "step_post V X pre c ?M {?nk} (updLeaves (a_newVersion acc) ?M us) acc c' acc'"
        using applyToLeaf_spec [OF less.prems(4,3) [unfolded tree_leaf(2,3)] wf _ tree_leaf(5,6,7) less.prems(1)] by auto
      show ?thesis
        unfolding tree_leaf(1) applySubtree_unfold(2) [OF us]
        by (rule runs_andThen, rule resolve_spec [OF less.prems(2), where n = "Leaf l"])
           (use a tree_leaf in \<open>auto simp: onAcc_def\<close>)
    next
      case (tree_node v cs T)
      let ?nk = "\<lparr>nk_version = v, nk_prefix = pre\<rparr>"
      have u: "\<forall>p \<in> dom M. under pre p" using tree_at_under [OF less.prems(3)] by blast
      have t0: "\<forall>i < 16. tree_at (lookupNode V acc) (a_newVersion acc) (pre @ [i]) (cs ! i) (slotMap M (length pre) i) (T i)"
        using tree_node(7) by blast
      have IH: "runs may (\<lambda>w. ok (fst w))
          (\<lambda>c' w. ok (fst w) \<and> step_post V X (pre @ [nib]) c M N (updLeaves (a_newVersion acc) M us) acc c' (snd w))
          (applySubtree c (pre @ [nib]) us (s, acc))"
        if "nib < 16" "upd_ok X (pre @ [nib]) us" "ok s" "tree_at (lookupNode V acc) (a_newVersion acc) (pre @ [nib]) c M N"
          "settled V X {pre @ [nib]} N M acc" "own_vals M" for nib us s acc c M N
        using that tree_node(6) less.prems(6) by (intro less.hyps) (auto simp: wf_prefix_def)
      define c0 where "c0 = \<lparr>c_version = v, c_hash = hashNode (Internal cs), c_isLeaf = False\<rparr>"
      have c0: "c = Some c0" "c_version c0 = v" "c_hash c0 = hashNode (Internal cs)" "\<not> c_isLeaf c0"
        unfolding tree_node(1) c0_def by simp_all
      show ?thesis
        unfolding c0(1) tree_node(8) applySubtree_unfold(2) [OF us] c0(2,3)
      proof (rule runs_andThen, rule resolve_spec [OF less.prems(2), where n = "Internal cs"])
        fix n w assume n: "n = Internal cs \<and> ok (fst w) \<and> snd w = acc"
        then have w: "w = (fst w, acc)" by (metis prod.collapse)
        have "runs may (\<lambda>w. ok (fst w))
           (\<lambda>c' w. ok (fst w) \<and> step_post V X pre (Some c0) M (insert ?nk (\<Union>i < 16. T i)) (updLeaves (a_newVersion acc) M us) acc c' (snd w))
           (andThen (applyGroups (\<lambda>nib child us. applySubtree child (pre @ [nib]) us) (length pre) us cs False)
              (\<lambda>(cs', changed). if \<not> changed then ret (Some c0)
                 else andThen (setState (\<lambda>(s, acc). (s, staleNode ?nk acc))) (\<lambda>_. finishInternal pre cs')) (fst w, acc))"
          by (rule applyNode_spec [OF IH]) (use n less.prems tree_node t0 u c0_def in auto)
        then show "runs may (\<lambda>w. ok (fst w))
           (\<lambda>c' w. ok (fst w) \<and> step_post V X pre (Some c0) M (insert ?nk (\<Union>i < 16. T i)) (updLeaves (a_newVersion acc) M us) acc c' (snd w))
           ((if isLeaf n \<noteq> c_isLeaf c0 then throw (errCorrupted ''node %v kind mismatch'')
             else case n of
               Leaf leaf \<Rightarrow> onAcc (applyToLeaf (Some c0) ?nk leaf pre us)
             | Internal children \<Rightarrow>
                 if 64 \<le> length pre then throw indexPanic
                 else andThen (applyGroups (\<lambda>nib child us. applySubtree child (pre @ [nib]) us) (length pre) us children False)
                   (\<lambda>(children', changed).
                      if \<not> changed then ret (Some c0)
                      else andThen (setState (\<lambda>(s, acc). (s, staleNode ?nk acc))) (\<lambda>_. finishInternal pre children'))) w)"
          using n tree_node(6) w c0(4) by simp
      qed (use tree_node in auto)
    qed
  qed
qed

end

end
