(* ===== verification/Proving.thy ===== *)
theory Proving
  imports Store
begin

text \<open>
  The store side of \<^verbatim>\<open>ledger/proof.go\<close>: the descent that collects sibling hashes, proofs at the
  current and at a recorded version, and the keyed checks of a proof against a value or an absence.
\<close>

section \<open>The descent inside a node\<close>

definition presentIn :: "child option list \<Rightarrow> nat \<Rightarrow> nat \<Rightarrow> nat list" where
  "presentIn children start width = filter (\<lambda>i. children ! i \<noteq> None) [start..<start + width]"

lemma length_presentIn: "length (presentIn children start width) \<le> width"
  using length_filter_le [of "\<lambda>i. children ! i \<noteq> None" "[start..<start + width]"] by (simp add: presentIn_def)

text \<open>How the inner loop of \<^verbatim>\<open>provePath\<close> leaves: on an empty range, on a leaf that stands for its
  range, or towards the internal child of the slot.\<close>

datatype rangeEnd = RangeEmpty | RangeLeaf nat | RangeDown nat

function rangeDescent ::
  "child option list \<Rightarrow> nat \<Rightarrow> nat \<Rightarrow> nat \<Rightarrow> hash list \<Rightarrow> rangeEnd \<times> hash list"
where
  "rangeDescent children slot start width siblings =
     (let ps = presentIn children start width
      in if ps = [] then (RangeEmpty, siblings)
         else if length ps = 1 \<and> c_isLeaf (the (children ! hd ps)) then (RangeLeaf (hd ps), siblings)
         else if length ps = 1 \<and> width = 1 then (RangeDown (hd ps), siblings)
         else let half = width div 2
              in if slot < start + half
                 then rangeDescent children slot start half (siblings @ [subtreeHash children (start + half) half])
                 else rangeDescent children slot (start + half) half (siblings @ [subtreeHash children start half]))"
  by pat_completeness auto
termination
proof (relation "measure (\<lambda>(children, slot, start, width, siblings). width)", goal_cases)
  case (2 children slot start width siblings ps half)
  then show ?case using length_presentIn [of children start width] by (cases width) auto
next
  case (3 children slot start width siblings ps half)
  then show ?case using length_presentIn [of children start width] by (cases width) auto
qed simp

declare rangeDescent.simps [simp del]

section \<open>Proofs\<close>

function proveFrom :: "hash \<Rightarrow> nat list \<Rightarrow> child \<Rightarrow> hash list \<Rightarrow> ('b Store, leafNode option \<times> hash list) io" where
  "proveFrom path prefix c siblings s =
     andThen (loadNode \<lparr>nk_version = c_version c, nk_prefix = prefix\<rparr> (c_hash c)) (\<lambda>n.
       if isLeaf n \<noteq> c_isLeaf c then throw (errCorrupted ''node %v kind mismatch'')
       else case n of
         Leaf l \<Rightarrow> ret (Some l, siblings)
       | Internal children \<Rightarrow>
           if nibbles \<le> length prefix then throw indexPanic
           else let slot = nibble path (length prefix)
                in case rangeDescent children slot 0 16 siblings of
                     (RangeEmpty, siblings') \<Rightarrow> ret (None, siblings')
                   | (RangeLeaf idx, siblings') \<Rightarrow>
                       andThen (loadNode \<lparr>nk_version = c_version (the (children ! idx)), nk_prefix = prefix @ [idx]\<rparr>
                                  (c_hash (the (children ! idx)))) (\<lambda>ln.
                         case ln of
                           Leaf l \<Rightarrow> ret (Some l, siblings')
                         | Internal _ \<Rightarrow> throw (errCorrupted ''node %v kind mismatch''))
                   | (RangeDown idx, siblings') \<Rightarrow>
                       proveFrom path (prefix @ [slot]) (the (children ! idx)) siblings') s"
  by pat_completeness auto
termination by (relation "measure (\<lambda>(path, prefix, c, siblings, s). 64 - length prefix)") auto

declare proveFrom.simps [simp del]

definition provePath :: "child option \<Rightarrow> hash \<Rightarrow> ('b Store, Proof) io" where
  "provePath rootChild path =
     (case rootChild of
        None \<Rightarrow> ret \<lparr>p_leaf = None, p_siblings = []\<rparr>
      | Some c \<Rightarrow>
          andThen (proveFrom path [] c []) (\<lambda>(terminal, siblings).
            ret \<lparr>p_leaf = map_option (\<lambda>l. \<lparr>pl_path = l_path l, pl_vh = l_vh l\<rparr>) terminal,
                 p_siblings = rev siblings\<rparr>))"

definition Prove :: "bytes \<Rightarrow> ('b Store, Proof) io" where
  "Prove key s = provePath (st_rootChild s) (pathOf s key) s"

definition ProveAt :: "u64 \<Rightarrow> bytes \<Rightarrow> ('b Store, Proof) io" where
  "ProveAt version key s =
     (if version > st_version s
      then throw (errInvalid ''version %d is in the future (current %d)'') s
      else andThen (loadRootRecord version) (\<lambda>root.
           andThen (loadRootChild root version) (\<lambda>rootChild.
           provePath rootChild (pathOf s key))) s)"

definition VerifyValue :: "'b Store \<Rightarrow> hash \<Rightarrow> bytes \<Rightarrow> bytes \<Rightarrow> Proof \<Rightarrow> goerr + bool" where
  "VerifyValue s root key val prf =
     (let path = pathOf s key
      in case Verify root path prf of
           Inl e \<Rightarrow> Inl e
         | Inr v \<Rightarrow> Inr (v_present v \<and> v_vh v = vhOf s path val))"

definition VerifyAbsent :: "'b Store \<Rightarrow> hash \<Rightarrow> bytes \<Rightarrow> Proof \<Rightarrow> goerr + bool" where
  "VerifyAbsent s root key prf =
     (let path = pathOf s key
      in case Verify root path prf of
           Inl e \<Rightarrow> Inl e
         | Inr v \<Rightarrow> Inr (\<not> v_present v))"

end
