(* ===== verification/Read_Inv.thy ===== *)
theory Read_Inv
  imports Apply_Inv Proving
begin

text \<open>
  Reads and proofs on a store whose backend keeps its contract (the locale of \<^verbatim>\<open>Backend\<close>). The
  verified loads return the stored records, so the contract gives the one of record readers; on a stored tree
  the walk returns the value of the path, and the proof it collects is the one the reference prover makes.
\<close>

section \<open>A store over an honest backend\<close>

text \<open>Cached nodes are the stored ones.\<close>

definition coherent :: "(bytes \<rightharpoonup> bytes) \<Rightarrow> nodeCache \<Rightarrow> bool" where
  "coherent V c \<longleftrightarrow> (\<forall>k n. cached c k = Some n \<longrightarrow> (\<exists>nk. wf_nodeKey nk \<and> k = encodeKey nk \<and> nodeAt V nk = Some n))"

lemma coherent_hit: "coherent V c \<Longrightarrow> nodeAt V nk = Some n \<Longrightarrow> cached c (encodeKey nk) = Some n' \<Longrightarrow> n' = n"
proof -
  assume a: "coherent V c" "nodeAt V nk = Some n" "cached c (encodeKey nk) = Some n'"
  then obtain nk' where nk': "wf_nodeKey nk'" "encodeKey nk = encodeKey nk'" "nodeAt V nk' = Some n'"
    by (auto simp: coherent_def)
  moreover have "wf_nodeKey nk" using a(2) by (auto simp: nodeAt_def split: if_splits)
  ultimately have "nk = nk'" using encodeKey_inject by blast
  with nk' a(2) show "n' = n" by simp
qed

lemma coherent_put: "coherent V c \<Longrightarrow> cache_ok c \<Longrightarrow> nodeAt V nk = Some n \<Longrightarrow> coherent V (cachePut nk n c)"
  unfolding coherent_def
proof (intro allI impI)
  fix k n' assume a: "\<forall>k n. cached c k = Some n \<longrightarrow> (\<exists>nk. wf_nodeKey nk \<and> k = encodeKey nk \<and> nodeAt V nk = Some n)"
    "cache_ok c" "nodeAt V nk = Some n" "cached (cachePut nk n c) k = Some n'"
  have "if k = encodeKey nk \<and> nc_capacity c \<noteq> 0 then n' = n else cached c k = Some n'"
    using cachePut_spec [OF a(2), of nk n] a(4) by blast
  moreover have "wf_nodeKey nk" using a(3) by (auto simp: nodeAt_def split: if_splits)
  ultimately show "\<exists>nk. wf_nodeKey nk \<and> k = encodeKey nk \<and> nodeAt V nk = Some n'"
    using a(1,3) by (auto split: if_splits)
qed

lemma nodeAt_record: "nodeAt V nk = Some n \<Longrightarrow> \<exists>rec. V (nodeRecordKey nk) = Some rec \<and> decodeNode rec = Inr n"
  by (auto simp: nodeAt_def split: if_splits option.splits sum.splits)

lemma read_eq_refl [simp]: "read_eq s s"
  by (simp add: read_eq_def)

lemma read_eq_upd [simp]:
  "read_eq s0 (s\<lparr>st_cache := c\<rparr>) = read_eq s0 s" "read_eq s0 (setBackendState s b) = read_eq s0 s"
  by (simp_all add: read_eq_def setBackendState_def)

lemma setBackendState_fields [simp]:
  "st_ck (setBackendState s b) = st_ck s" "st_cipher (setBackendState s b) = st_cipher s"
  "st_cache (setBackendState s b) = st_cache s" "be_state (st_backend (setBackendState s b)) = b"
  "be_Get (st_backend (setBackendState s b)) = be_Get (st_backend s)"
  "be_WriteBatch (st_backend (setBackendState s b)) = be_WriteBatch (st_backend s)"
  "be_Scan (st_backend (setBackendState s b)) = be_Scan (st_backend s)"
  "st_version (setBackendState s b) = st_version s" "st_rootChild (setBackendState s b) = st_rootChild s"
  "st_root (setBackendState s b) = st_root s"
  by (simp_all add: setBackendState_def)

lemma commitments_cong:
  assumes "st_ck s = st_ck s0" "st_cipher s = st_cipher s0"
  shows "pathOf s = pathOf s0" "vhOf s = vhOf s0" "openValue s = openValue s0" "sealValue s = sealValue s0"
  using assms by (auto simp: pathOf_def vhOf_def openValue_def sealValue_def fun_eq_iff)

context kv_backend
begin

text \<open>The store \<open>s\<close> reads the map \<open>V\<close> and differs from \<open>s0\<close> by reads only.\<close>

definition honest :: "(bytes \<rightharpoonup> bytes) \<Rightarrow> 'b Store \<Rightarrow> 'b Store \<Rightarrow> bool" where
  "honest V s0 s \<longleftrightarrow>
     read_eq s0 s \<and> be_Get (st_backend s) = getB \<and> be_WriteBatch (st_backend s) = writeB \<and> be_Scan (st_backend s) = scanB \<and>
     live (be_state (st_backend s)) \<and> view (be_state (st_backend s)) = V \<and>
     cache_ok (st_cache s) \<and> coherent V (st_cache s)"

lemma callGet_runs:
  assumes "honest V s0 s"
  shows "runs may_fail (honest V s0) (\<lambda>r s'. r = V k \<and> honest V s0 s' \<and> st_cache s' = st_cache s) (wrapBackend (callGet k) s)"
proof -
  obtain r b where g: "getB k (be_state (st_backend s)) = (r, b)" by fastforce
  have "live (be_state (st_backend s))" "view (be_state (st_backend s)) = V" using assms by (simp_all add: honest_def)
  then have L: "live b \<and> view b = V \<and> (case r of Inl e \<Rightarrow> may_fail | Inr v \<Rightarrow> v = V k)"
    using get_law [OF _ g] by (auto split: sum.splits)
  have h: "honest V s0 (setBackendState s b)" using L assms by (simp add: honest_def)
  have "callGet k s = (r, setBackendState s b)" using g assms by (simp add: callGet_def honest_def)
  then show ?thesis
    using L h by (cases r) (auto simp: wrapBackend_def runs_def)
qed

lemma loadNode_runs:
  assumes s: "honest V s0 s" and n: "nodeAt V nk = Some n" "hashNode n = h"
  shows "runs may_fail (honest V s0) (\<lambda>n' s'. n' = n \<and> honest V s0 s') (loadNode nk h s)"
proof -
  obtain r c where g: "cacheGet nk (st_cache s) = (r, c)" by fastforce
  note C = cacheGet_spec [OF _ g]
  have h: "honest V s0 (s\<lparr>st_cache := c\<rparr>)" using s C by (auto simp: honest_def coherent_def)
  show ?thesis
  proof (cases r)
    case (Some n')
    then have "n' = n" using C coherent_hit [of V "st_cache s" nk n n'] s n by (auto simp: honest_def)
    with Some h n show ?thesis by (simp add: loadNode_def g checkHash_def)
  next
    case None
    obtain rec where rec: "V (nodeRecordKey nk) = Some rec" "decodeNode rec = Inr n" using nodeAt_record [OF n(1)] by blast
    show ?thesis
      unfolding loadNode_def g None prod.case option.case
    proof (rule runs_andThen, rule callGet_runs [OF h])
      fix r s1 assume a: "r = V (nodeRecordKey nk) \<and> honest V s0 s1 \<and> st_cache s1 = st_cache (s\<lparr>st_cache := c\<rparr>)"
      then have "honest V s0 (s1\<lparr>st_cache := cachePut nk n (st_cache s1)\<rparr>)"
        using coherent_put [of V "st_cache s1" nk n] cachePut_spec [of "st_cache s1" nk n] n(1) by (auto simp: honest_def)
      then show "runs may_fail (honest V s0) (\<lambda>n' s'. n' = n \<and> honest V s0 s')
         ((case r of None \<Rightarrow> throw (errMissing ''node %v'')
           | Some rec \<Rightarrow> andThen (liftE (decodeNode rec)) (\<lambda>n. andThen (checkHash n h)
               (\<lambda>n. andThen (setState (\<lambda>s. s\<lparr>st_cache := cachePut nk n (st_cache s)\<rparr>)) (\<lambda>_. ret n)))) s1)"
        using a rec n(2) by (simp add: andThen_def liftE_def checkHash_def ret_def setState_def)
    qed
  qed
qed

lemma readValue_runs:
  assumes s: "honest V s0 s" and "V (valueRecordKey vh vv) = Some ct" "openValue s0 path ct = Inr pt" "vhOf s0 path pt = vh"
  shows "runs may_fail (honest V s0) (\<lambda>pt' s'. pt' = pt \<and> honest V s0 s') (readValue path vh vv s)"
  unfolding readValue_def
proof (rule runs_andThen, rule callGet_runs [OF s])
  fix r s1 assume a: "r = V (valueRecordKey vh vv) \<and> honest V s0 s1 \<and> st_cache s1 = st_cache s"
  then have "read_eq s0 s1" by (simp add: honest_def)
  note C = commitments_cong [OF read_eq_fields(1,2) [OF this]]
  show "runs may_fail (honest V s0) (\<lambda>pt' s'. pt' = pt \<and> honest V s0 s')
     ((case r of None \<Rightarrow> throw (errMissing ''value record'')
       | Some ct \<Rightarrow> andThen (getState (\<lambda>s. s)) (\<lambda>s. andThen (liftE (openValue s path ct))
           (\<lambda>pt. if vhOf s path pt \<noteq> vh then throw (errCorrupted ''value commitment mismatch'') else ret pt))) s1)"
    using a assms(2-4) by (simp add: C io_defs)
qed

lemma loadRootRecord_runs:
  assumes s: "honest V s0 s" and r: "V (rootRecordKey v) = Some r" "is_hash r"
  shows "runs may_fail (honest V s0) (\<lambda>r' s'. r' = r \<and> honest V s0 s') (loadRootRecord v s)"
  unfolding loadRootRecord_def
proof (rule runs_andThen, rule callGet_runs [OF s])
  fix x s1 assume "x = V (rootRecordKey v) \<and> honest V s0 s1 \<and> st_cache s1 = st_cache s"
  then show "runs may_fail (honest V s0) (\<lambda>r' s'. r' = r \<and> honest V s0 s')
     ((case x of None \<Rightarrow> throw (errMissing ''root record v%d'')
       | Some rec \<Rightarrow> if length rec \<noteq> 32 then throw (errCorrupted ''root record v%d bad length'') else ret rec) s1)"
    using r by (simp add: is_hash_def)
qed

end

sublocale kv_backend \<subseteq> reader: record_reader "honest V s0" V s0 may_fail for V s0
proof
  show "read_eq s0 s" if "honest V s0 s" for s using that by (simp add: honest_def)
qed (rule loadNode_runs readValue_runs loadRootRecord_runs; assumption)+

interpretation mem_reader: record_reader "mem.honest V s0" V s0 False for V s0
  by (rule mem.reader.record_reader_axioms)

section \<open>Reading a path\<close>

text \<open>The value records of the leaves \<open>M\<close> open to the plaintexts \<open>D\<close>, under the store's keys.\<close>

definition vals_open :: "'b Store \<Rightarrow> (bytes \<rightharpoonup> bytes) \<Rightarrow> leafMap \<Rightarrow> (hash \<rightharpoonup> bytes) \<Rightarrow> bool" where
  "vals_open s V M D \<longleftrightarrow> dom D = dom M \<and>
     (\<forall>p vh vv. M p = Some (vh, vv) \<longrightarrow>
        (\<exists>ct pt. V (valueRecordKey vh vv) = Some ct \<and> openValue s p ct = Inr pt \<and> vhOf s p pt = vh \<and> D p = Some pt))"

lemma dom_slotMap: "dom (slotMap M d i) = dom M \<inter> {p. nibble p d = i}"
  by (simp add: slotMap_def)

lemma vals_open_slot: "vals_open s V M D \<Longrightarrow> vals_open s V (slotMap M d i) (slotMap D d i)"
  unfolding vals_open_def dom_slotMap by (auto simp: slotMap_eq)

lemma is_hash_pathOf [simp]: "is_hash (pathOf s k)" "is_hash (vhOf s p v)"
  by (simp_all add: pathOf_def vhOf_def is_hash_def)

lemma under_Nil [simp]: "under [] p \<longleftrightarrow> is_hash p"
  by (simp add: under_def)

context record_reader
begin

lemma walkFrom_spec:
  "tree_at (nodeAt V) m pre c M N \<Longrightarrow> vals_open s0 V M D \<Longrightarrow> under pre path \<Longrightarrow> ok s \<Longrightarrow>
     (case c of None \<Rightarrow> D path = None | Some c \<Rightarrow> runs may ok (\<lambda>r s'. r = D path \<and> ok s') (walkFrom path pre c s))"
proof (induction arbitrary: D s rule: tree_at.induct)
  case (tree_empty pre)
  then show ?case by (auto simp: vals_open_def)
next
  case (tree_leaf v pre l)
  let ?c = "\<lparr>c_version = v, c_hash = hashNode (Leaf l), c_isLeaf = True\<rparr>"
  obtain ct pt where v: "V (valueRecordKey (l_vh l) (l_valueVersion l)) = Some ct" "openValue s0 (l_path l) ct = Inr pt"
    "vhOf s0 (l_path l) pt = l_vh l" "D (l_path l) = Some pt"
    using tree_leaf.prems(1) [unfolded vals_open_def, THEN conjunct2, rule_format, of "l_path l" "l_vh l" "l_valueVersion l"] by auto
  have d: "dom D = {l_path l}" using tree_leaf.prems(1) by (simp only: vals_open_def dom_fun_upd) simp
  have "runs may ok (\<lambda>r s'. r = D path \<and> ok s') (walkFrom path pre ?c s)"
    unfolding walkFrom.simps [of path pre ?c s]
  proof (rule runs_andThen, rule loadNode_law [where n = "Leaf l", OF tree_leaf.prems(3)])
    fix n s1 assume a: "n = Leaf l \<and> ok s1"
    have "runs may ok (\<lambda>r s'. r = D path \<and> ok s') (andThen (readValue path (l_vh l) (l_valueVersion l)) (\<lambda>v. ret (Some v)) s1)"
      if "path = l_path l"
      by (rule runs_andThen, rule readValue_law [OF _ v(1)]) (use a v that in auto)
    moreover have "D path = None" if "path \<noteq> l_path l" using that d domIff [of path D] by simp
    ultimately show "runs may ok (\<lambda>r s'. r = D path \<and> ok s')
       ((if isLeaf n \<noteq> c_isLeaf ?c then throw (errCorrupted ''node %v kind mismatch'')
         else case n of
           Leaf l \<Rightarrow> if l_path l = path then andThen (readValue path (l_vh l) (l_valueVersion l)) (\<lambda>v. ret (Some v)) else ret None
         | Internal children \<Rightarrow>
             if 64 \<le> length pre then throw indexPanic
             else let nib = nibble path (length pre)
                  in case children ! nib of None \<Rightarrow> ret None | Some next \<Rightarrow> walkFrom path (pre @ [nib]) next) s1)"
      using a by auto
  qed (use tree_leaf.hyps in simp_all)
  then show ?case by simp
next
  case (tree_node v pre cs M T N)
  let ?c = "\<lparr>c_version = v, c_hash = hashNode (Internal cs), c_isLeaf = False\<rparr>" and ?i = "nibble path (length pre)"
  have u: "under (pre @ [?i]) path" using tree_node.prems(2) tree_node.hyps(5) by (simp add: under_step)
  have D: "slotMap D (length pre) ?i path = D path" by (simp add: slotMap_eq)
  note IH = tree_node.IH [OF nibble_less vals_open_slot [OF tree_node.prems(1)] u, unfolded D]
  have "runs may ok (\<lambda>r s'. r = D path \<and> ok s') (walkFrom path pre ?c s)"
    unfolding walkFrom.simps [of path pre ?c s]
  proof (rule runs_andThen, rule loadNode_law [where n = "Internal cs", OF tree_node.prems(3)])
    fix n s1 assume a: "n = Internal cs \<and> ok s1"
    then show "runs may ok (\<lambda>r s'. r = D path \<and> ok s')
       ((if isLeaf n \<noteq> c_isLeaf ?c then throw (errCorrupted ''node %v kind mismatch'')
         else case n of
           Leaf l \<Rightarrow> if l_path l = path then andThen (readValue path (l_vh l) (l_valueVersion l)) (\<lambda>v. ret (Some v)) else ret None
         | Internal children \<Rightarrow>
             if 64 \<le> length pre then throw indexPanic
             else let nib = nibble path (length pre)
                  in case children ! nib of None \<Rightarrow> ret None | Some next \<Rightarrow> walkFrom path (pre @ [nib]) next) s1)"
      using IH [of s1] tree_node.hyps(5) by (auto simp: Let_def split: option.split option.splits)
  qed (use tree_node.hyps in simp_all)
  then show ?case by simp
qed

lemma walk_spec:
  assumes "tree_at (nodeAt V) m [] c M N" "vals_open s0 V M D" "is_hash path" "ok s"
  shows "runs may ok (\<lambda>r s'. r = D path \<and> ok s') (walk c path s)"
  using walkFrom_spec [OF assms(1,2) _ assms(4), of path] assms(3,4) by (auto simp: walk_def split: option.splits)

lemma loadRootChild_spec:
  assumes t: "tree_at (nodeAt V) m [] c M N" and c: "\<And>c'. c = Some c' \<Longrightarrow> c_version c' = w \<and> c_hash c' \<noteq> placeholderHash" and s: "ok s"
  shows "runs may ok (\<lambda>r s'. r = c \<and> ok s') (loadRootChild (rootHashOf c) w s)"
proof (cases c)
  case None
  then show ?thesis using s by (simp add: loadRootChild_def rootHashOf_def)
next
  case (Some c')
  obtain n where n: "nodeAt V (rootNodeKey w) = Some n" "hashNode n = c_hash c'" "isLeaf n = c_isLeaf c'"
    using t c [OF Some] unfolding Some by (auto elim!: tree_at_SomeE simp: rootNodeKey_def)
  have "runs may ok (\<lambda>r s'. r = c \<and> ok s') (andThen (loadNode (rootNodeKey w) (c_hash c'))
      (\<lambda>n. ret (Some \<lparr>c_version = w, c_hash = c_hash c', c_isLeaf = isLeaf n\<rparr>)) s)"
    by (rule runs_andThen, rule loadNode_law [OF s n(1,2)]) (use n(3) c [OF Some] Some in auto)
  then show ?thesis using c [OF Some] by (simp add: loadRootChild_def rootHashOf_def Some)
qed

end

section \<open>Proving a path\<close>

text \<open>A terminal and siblings that the reference prover yields for some list of the entries.\<close>

definition is_proved :: "nat \<Rightarrow> hash \<Rightarrow> (hash \<rightharpoonup> hash) \<Rightarrow> ProofLeaf option \<Rightarrow> hash list \<Rightarrow> bool" where
  "is_proved d path C t ss \<longleftrightarrow> (\<exists>xs. represents xs C \<and> smt_prove d path xs = (t, ss))"

lemma is_proved_empty: "is_proved d path Map.empty None []"
  unfolding is_proved_def by (intro exI [of _ "[]"]) (simp add: represents_def)

lemma is_proved_single: "is_proved d path [p \<mapsto> v] (Some \<lparr>pl_path = p, pl_vh = v\<rparr>) []"
  unfolding is_proved_def by (intro exI [of _ "[(p, v)]"]) (simp add: represents_def)

lemma is_proved_split:
  assumes "is_proved (Suc d) path (C |` {p. bitAt p d = bitAt path d}) t ss"
    "is_smt (Suc d) (C |` {p. bitAt p d \<noteq> bitAt path d}) h" "multi C" "d < 256"
  shows "is_proved d path C t (h # ss)"
proof -
  obtain xs where x: "represents xs (C |` {p. bitAt p d = bitAt path d})" "smt_prove (Suc d) path xs = (t, ss)"
    using assms(1) unfolding is_proved_def by blast
  obtain ys where y: "represents ys (C |` {p. bitAt p d \<noteq> bitAt path d})" "h = smt (Suc d) ys"
    using assms(2) unfolding is_smt_def by blast
  have fx: "bitAt p d = bitAt path d" if "(p, v) \<in> set xs" for p v
    using that represents_set [OF x(1)] by (auto simp: restrict_map_def split: if_splits)
  have fy: "bitAt p d \<noteq> bitAt path d" if "(p, v) \<in> set ys" for p v
    using that represents_set [OF y(1)] by (auto simp: restrict_map_def split: if_splits)
  have rep: "represents (xs @ ys) C"
    using x(1) y(1) fx fy unfolding represents_def
    by (auto simp: restrict_map_def map_add_def fun_eq_iff split: option.split) (metis option.distinct(1))+
  have "filter (\<lambda>(p, vh). bitAt p d = bitAt path d) xs = xs" "filter (\<lambda>(p, vh). bitAt p d \<noteq> bitAt path d) xs = []"
    using fx by (auto simp: filter_id_conv filter_empty_conv)
  moreover have "filter (\<lambda>(p, vh). bitAt p d = bitAt path d) ys = []" "filter (\<lambda>(p, vh). bitAt p d \<noteq> bitAt path d) ys = ys"
    using fy by (auto simp: filter_id_conv filter_empty_conv)
  ultimately have "smt_prove d path (xs @ ys) = (t, h # ss)"
    using smt_prove_split [of "xs @ ys" d path] represents_multi [OF rep] assms(3,4) x(2) y(2) by simp
  then show ?thesis using rep unfolding is_proved_def by blast
qed

lemma presentIn_iff: "i \<in> set (presentIn cs start w) \<longleftrightarrow> start \<le> i \<and> i < start + w \<and> cs ! i \<noteq> None"
  by (auto simp: presentIn_def)

text \<open>What the descent inside a node means for the leaves of its range.\<close>

definition range_ok ::
  "(hash \<rightharpoonup> hash) \<Rightarrow> nat \<Rightarrow> child option list \<Rightarrow> hash \<Rightarrow> nat \<Rightarrow> (hash \<rightharpoonup> hash) \<Rightarrow> rangeEnd \<Rightarrow> hash list \<Rightarrow> bool"
where
  "range_ok C D cs path d R e ss \<longleftrightarrow>
     (case e of
        RangeEmpty \<Rightarrow> is_proved d path R None ss
      | RangeLeaf i \<Rightarrow> i < 16 \<and> (\<exists>c p v. cs ! i = Some c \<and> c_isLeaf c \<and> slotMap C D i = [p \<mapsto> v] \<and>
          is_proved d path R (Some \<lparr>pl_path = p, pl_vh = v\<rparr>) ss)
      | RangeDown i \<Rightarrow> i = nibble path D \<and> (\<exists>c. cs ! i = Some c \<and> \<not> c_isLeaf c) \<and>
          (\<forall>t ts. is_proved (4 * Suc D) path (slotMap C D i) t ts \<longrightarrow> is_proved d path R t (ss @ ts)))"

lemma range_ok_split:
  assumes "range_ok C D cs path (Suc d) (R |` {p. bitAt p d = bitAt path d}) e ss"
    "is_smt (Suc d) (R |` {p. bitAt p d \<noteq> bitAt path d}) h" "multi R" "d < 256"
  shows "range_ok C D cs path d R e (h # ss)"
  using assms(1) is_proved_split [OF _ assms(2-4)] by (auto simp: range_ok_def split: rangeEnd.splits) blast

lemma rangeDescent_stop:
  assumes ok: "slots_ok C D cs" and st: "start \<le> nibble path D" "nibble path D < start + w" "start + w \<le> 16"
    and ps: "presentIn cs start w = [] \<or> length (presentIn cs start w) = 1 \<and> (c_isLeaf (the (cs ! hd (presentIn cs start w))) \<or> w = 1)"
    and d: "w = 1 \<Longrightarrow> d = 4 * Suc D"
  shows "\<exists>e. rangeDescent cs (nibble path D) start w sibs = (e, sibs) \<and> range_ok C D cs path d (rangeMap C D start w) e []"
proof (cases "presentIn cs start w = []")
  case True
  have "cs ! i = None" if "start \<le> i" "i < start + w" for i
    using presentIn_iff [of i cs start w] True that by simp
  then have "rangeMap C D start w = Map.empty"
    using slots_okD(2) [OF ok] st(3) by (intro rangeMap_empty) auto
  then show ?thesis using True is_proved_empty by (subst rangeDescent.simps) (simp add: range_ok_def)
next
  case False
  then obtain i where i: "presentIn cs start w = [i]" using ps by (auto simp: length_Suc_conv)
  then have r: "start \<le> i" "i < start + w" "cs ! i \<noteq> None" "i < 16" using presentIn_iff [of i cs start w] st(3) by auto
  have none: "cs ! j = None" if "start \<le> j" "j < start + w" "j \<noteq> i" for j
    using presentIn_iff [of j cs start w] i that by simp
  have rm: "rangeMap C D start w = slotMap C D i"
    using slots_okD(2) [OF ok] none st(3) r by (intro rangeMap_one) auto
  obtain c where c: "cs ! i = Some c" using r by blast
  show ?thesis
  proof (cases "c_isLeaf c")
    case True
    obtain p v where "slotMap C D i = [p \<mapsto> v]" using slots_okD(3) [OF ok r(4) c True] by blast
    then have "range_ok C D cs path d (rangeMap C D start w) (RangeLeaf i) []"
      unfolding rm range_ok_def using c True r(4) is_proved_single [of d path p v] by auto
    moreover have "rangeDescent cs (nibble path D) start w sibs = (RangeLeaf i, sibs)"
      using i c True by (subst rangeDescent.simps) (simp add: Let_def)
    ultimately show ?thesis by blast
  next
    case False
    then have w: "w = 1" using ps i c by auto
    then have "i = nibble path D" using r st by simp
    then have "range_ok C D cs path d (rangeMap C D start w) (RangeDown i) []"
      unfolding rm range_ok_def using c False d [OF w] by auto
    moreover have "rangeDescent cs (nibble path D) start w sibs = (RangeDown i, sibs)"
      using i c False w by (subst rangeDescent.simps) (simp add: Let_def)
    ultimately show ?thesis by blast
  qed
qed

lemma presentIn_many:
  assumes "presentIn cs start w \<noteq> []" "length (presentIn cs start w) \<noteq> 1"
  obtains i j where "start \<le> i" "i < j" "j < start + w" "cs ! i \<noteq> None" "cs ! j \<noteq> None"
proof -
  obtain i j r where ps: "presentIn cs start w = i # j # r"
    using assms by (cases "presentIn cs start w" rule: remdups_adj.cases) auto
  have "sorted_wrt (<) (presentIn cs start w)" unfolding presentIn_def by (intro sorted_wrt_filter) simp
  then show thesis
    using presentIn_iff [of i cs start w] presentIn_iff [of j cs start w] by (intro that [of i j]) (auto simp: ps)
qed

lemma range_multi:
  assumes ok: "slots_ok C D cs" and le: "start + w \<le> 16"
    and ps: "\<not> (presentIn cs start w = [] \<or> length (presentIn cs start w) = 1 \<and> (c_isLeaf (the (cs ! hd (presentIn cs start w))) \<or> w = 1))"
  shows "multi (rangeMap C D start w)"
proof (cases "length (presentIn cs start w) = 1")
  case True
  then obtain i where i: "presentIn cs start w = [i]" by (auto simp: length_Suc_conv)
  then have r: "start \<le> i" "i < start + w" "cs ! i \<noteq> None" "i < 16" using presentIn_iff [of i cs start w] le by auto
  then obtain c where c: "cs ! i = Some c" by blast
  then have "multi (slotMap C D i)" using ps i by (intro slots_okD(4) [OF ok r(4) c]) simp
  then show ?thesis by (rule multi_mono) (rule rangeMap_mono [OF r(1,2)])
next
  case False
  then obtain i j where "start \<le> i" "i < j" "j < start + w" "cs ! i \<noteq> None" "cs ! j \<noteq> None"
    using ps presentIn_many by metis
  then show ?thesis using slots_okD(2) [OF ok] le by (intro rangeMap_multi2 [of start i j]) auto
qed

lemma rangeDescent_halve:
  assumes "\<not> (presentIn cs start w = [] \<or> length (presentIn cs start w) = 1 \<and> (c_isLeaf (the (cs ! hd (presentIn cs start w))) \<or> w = 1))"
  shows "rangeDescent cs slot start w sibs =
     (if slot < start + w div 2
      then rangeDescent cs slot start (w div 2) (sibs @ [subtreeHash cs (start + w div 2) (w div 2)])
      else rangeDescent cs slot (start + w div 2) (w div 2) (sibs @ [subtreeHash cs start (w div 2)]))"
  using assms by (subst rangeDescent.simps) (auto simp: Let_def)

lemma rangeDescent_spec:
  assumes ok: "slots_ok C D cs" and D: "D < 64"
  shows "k \<le> 4 \<Longrightarrow> start = 2 ^ k * q \<Longrightarrow> start + 2 ^ k \<le> 16 \<Longrightarrow> start \<le> nibble path D \<Longrightarrow> nibble path D < start + 2 ^ k \<Longrightarrow>
     \<exists>e ss. rangeDescent cs (nibble path D) start (2 ^ k) sibs = (e, sibs @ ss) \<and>
       range_ok C D cs path (4 * D + (4 - k)) (rangeMap C D start (2 ^ k)) e ss"
proof (induction k arbitrary: start q sibs)
  case 0
  have "length (presentIn cs start 1) \<le> 1" by (rule length_presentIn)
  then have "presentIn cs start 1 = [] \<or> length (presentIn cs start 1) = 1 \<and> (c_isLeaf (the (cs ! hd (presentIn cs start 1))) \<or> (1::nat) = 1)"
    by (cases "presentIn cs start 1") auto
  from rangeDescent_stop [OF ok _ _ _ this, of path "4 * D + 4" sibs] 0 show ?case by (auto simp: add.commute)
next
  case (Suc k)
  define w where "w = (2::nat) ^ k"
  have w: "2 ^ Suc k = 2 * w" "0 < w" "2 * w \<noteq> 1" by (simp_all add: w_def)
  note P = Suc.prems [unfolded w(1)]
  show ?case
  proof (cases "presentIn cs start (2 * w) = [] \<or>
      length (presentIn cs start (2 * w)) = 1 \<and> (c_isLeaf (the (cs ! hd (presentIn cs start (2 * w)))) \<or> 2 * w = 1)")
    case True
    from rangeDescent_stop [OF ok P(4,5,3) True, of "4 * D + (4 - Suc k)" sibs] w(3) show ?thesis
      unfolding w(1) by force
  next
    case False
    note m = range_multi [OF ok P(3) False] and H = rangeDescent_halve [OF False, of "nibble path D" sibs]
    have d: "Suc (4 * D + (3 - k)) = 4 * D + (4 - k)" "4 * D + (4 - Suc k) = 4 * D + (3 - k)" "4 * D + (3 - k) < 256"
      using P(1) D by auto
    have st: "start = 2 * w * q" using P(2) by simp
    have k: "k < 4" using P(1) by simp
    note rm = rangeMap_bit [OF w_def k st, of C D]
    have bit: "bitAt path (4 * D + (3 - k)) \<longleftrightarrow> start + w \<le> nibble path D"
      using nibble_bit [of "3 - k" path D] slot_range_bit [OF w_def st P(4,5)] k by simp
    have l: "is_smt (4 * D + (4 - k)) (rangeMap C D start w) (subtreeHash cs start w)"
      unfolding w_def using Suc.prems by (intro subtreeHash_is_smt [OF ok D, of k start "2 * q"]) auto
    have r: "is_smt (4 * D + (4 - k)) (rangeMap C D (start + w) w) (subtreeHash cs (start + w) w)"
      unfolding w_def using Suc.prems by (intro subtreeHash_is_smt [OF ok D, of k "start + 2 ^ k" "2 * q + 1"]) (auto simp: algebra_simps)
    show ?thesis
    proof (cases "nibble path D < start + w")
      case True
      obtain e ss where IH: "rangeDescent cs (nibble path D) start w (sibs @ [subtreeHash cs (start + w) w]) =
          (e, (sibs @ [subtreeHash cs (start + w) w]) @ ss)" "range_ok C D cs path (4 * D + (4 - k)) (rangeMap C D start w) e ss"
        using Suc.IH [folded w_def, of start "2 * q" "sibs @ [subtreeHash cs (start + w) w]"] P True k by auto
      have "range_ok C D cs path (4 * D + (3 - k)) (rangeMap C D start (2 * w)) e (subtreeHash cs (start + w) w # ss)"
        using IH(2) r m d(3) bit True by (intro range_ok_split) (simp_all add: d(1) rm not_less)
      then show ?thesis using IH(1) H True w(2) unfolding w(1) d(2) by (intro exI conjI) auto
    next
      case False
      obtain e ss where IH: "rangeDescent cs (nibble path D) (start + w) w (sibs @ [subtreeHash cs start w]) =
          (e, (sibs @ [subtreeHash cs start w]) @ ss)" "range_ok C D cs path (4 * D + (4 - k)) (rangeMap C D (start + w) w) e ss"
        using Suc.IH [folded w_def, of "start + w" "2 * q + 1" "sibs @ [subtreeHash cs start w]"] P False k by (auto simp: algebra_simps)
      have "range_ok C D cs path (4 * D + (3 - k)) (rangeMap C D start (2 * w)) e (subtreeHash cs start w # ss)"
        using IH(2) l m d(3) bit False by (intro range_ok_split) (simp_all add: d(1) rm not_less)
      then show ?thesis using IH(1) H False w(2) unfolding w(1) d(2) by (intro exI conjI) auto
    qed
  qed
qed

abbreviation (input) termOf :: "leafNode option \<Rightarrow> ProofLeaf option" where
  "termOf \<equiv> map_option (\<lambda>l. \<lparr>pl_path = l_path l, pl_vh = l_vh l\<rparr>)"

context record_reader
begin

text \<open>The descent continues or ends where the range says.\<close>

lemma proveFrom_spec:
  "tree_at (nodeAt V) m pre c M N \<Longrightarrow> under pre path \<Longrightarrow> ok s \<Longrightarrow> c = Some c' \<Longrightarrow>
     runs may ok (\<lambda>r s'. ok s' \<and> (\<exists>ss. snd r = sibs @ ss \<and> is_proved (4 * length pre) path (commits M) (termOf (fst r)) ss))
       (proveFrom path pre c' sibs s)"
proof (induction arbitrary: s c' sibs rule: tree_at.induct)
  case (tree_leaf v pre l)
  define R where "R = commits [l_path l \<mapsto> (l_vh l, l_valueVersion l)]"
  have pr: "is_proved (4 * length pre) path R (termOf (Some l)) []"
    by (simp only: R_def commits_simps option.map is_proved_single)
  show ?case
    unfolding proveFrom.simps [of path pre c' sibs s] R_def [symmetric]
    by (rule runs_andThen, rule loadNode_law [where n = "Leaf l", OF tree_leaf.prems(2)])
       (use tree_leaf pr in auto)
next
  case (tree_node v pre cs M T N)
  let ?D = "length pre" and ?i = "nibble path (length pre)"
  have c': "c' = \<lparr>c_version = v, c_hash = hashNode (Internal cs), c_isLeaf = False\<rparr>" using tree_node.prems(3) by simp
  note ok = tree_at_slots_ok [OF tree_node.hyps(6)]
  obtain e ss where r: "rangeDescent cs ?i 0 16 sibs = (e, sibs @ ss)"
    "range_ok (commits M) ?D cs path (4 * ?D) (rangeMap (commits M) ?D 0 16) e ss"
    using rangeDescent_spec [OF ok tree_node.hyps(5), of 4 0 0 path sibs] nibble_less [of path ?D] by auto
  have all: "rangeMap (commits M) ?D 0 16 = commits M" by (auto simp: rangeMap_def restrict_map_def)
  note e = r(2) [unfolded all]
  have u: "under (pre @ [?i]) path" using tree_node.prems(1) tree_node.hyps(5) by (simp add: under_step)
  let ?Q = "\<lambda>r s'. ok s' \<and> (\<exists>ss. snd r = sibs @ ss \<and> is_proved (4 * ?D) path (commits M) (termOf (fst r)) ss)"
  have rest: "runs may ok ?Q ((case (e, sibs @ ss) of
                     (RangeEmpty, siblings') \<Rightarrow> ret (None, siblings')
                   | (RangeLeaf idx, siblings') \<Rightarrow>
                       andThen (loadNode \<lparr>nk_version = c_version (the (cs ! idx)), nk_prefix = pre @ [idx]\<rparr>
                                  (c_hash (the (cs ! idx)))) (\<lambda>ln.
                         case ln of
                           Leaf l \<Rightarrow> ret (Some l, siblings')
                         | Internal _ \<Rightarrow> throw (errCorrupted ''node %v kind mismatch''))
                   | (RangeDown idx, siblings') \<Rightarrow>
                       proveFrom path (pre @ [?i]) (the (cs ! idx)) siblings') s1)" if s1: "ok s1" for s1
  proof (cases e)
    case RangeEmpty
    then show ?thesis using e s1 by (simp add: range_ok_def)
  next
    case (RangeLeaf i)
    obtain c p v' where c: "i < 16" "cs ! i = Some c" "c_isLeaf c" "slotMap (commits M) ?D i = [p \<mapsto> v']"
      "is_proved (4 * ?D) path (commits M) (Some \<lparr>pl_path = p, pl_vh = v'\<rparr>) ss" using e RangeLeaf by (auto simp: range_ok_def)
    obtain l where l: "nodeAt V \<lparr>nk_version = c_version c, nk_prefix = pre @ [i]\<rparr> = Some (Leaf l)" "hashNode (Leaf l) = c_hash c"
      "slotMap M ?D i = [l_path l \<mapsto> (l_vh l, l_valueVersion l)]"
      using tree_node.hyps(6) [OF c(1)] c(3) unfolding c(2) by (auto elim!: tree_at_SomeE)
    have "[p \<mapsto> v'] = [l_path l \<mapsto> l_vh l]"
      using c(4) by (simp only: commits_slot [symmetric] l(3) commits_simps)
    then have "p = l_path l \<and> v' = l_vh l" by (metis fun_upd_apply option.distinct(1) option.inject)
    then have pr: "is_proved (4 * ?D) path (commits M) (termOf (Some l)) ss" using c(5) by simp
    have "runs may ok ?Q (andThen (loadNode \<lparr>nk_version = c_version c, nk_prefix = pre @ [i]\<rparr> (c_hash c)) (\<lambda>ln.
        case ln of Leaf l \<Rightarrow> ret (Some l, sibs @ ss) | Internal _ \<Rightarrow> throw (errCorrupted ''node %v kind mismatch'')) s1)"
      by (rule runs_andThen, rule loadNode_law [OF s1 l(1,2)]) (use pr in auto)
    then show ?thesis using RangeLeaf c(2) by simp
  next
    case (RangeDown i)
    then obtain c where c: "i = ?i" "cs ! i = Some c" "\<And>t ts. is_proved (4 * Suc ?D) path (slotMap (commits M) ?D ?i) t ts \<Longrightarrow>
        is_proved (4 * ?D) path (commits M) t (ss @ ts)" using e by (auto simp: range_ok_def)
    have "runs may ok (\<lambda>r s'. ok s' \<and> (\<exists>ts. snd r = (sibs @ ss) @ ts \<and>
        is_proved (4 * length (pre @ [?i])) path (commits (slotMap M ?D ?i)) (termOf (fst r)) ts))
        (proveFrom path (pre @ [?i]) c (sibs @ ss) s1)"
      using c(1,2) by (intro tree_node.IH [OF nibble_less u s1]) simp
    then have "runs may ok ?Q (proveFrom path (pre @ [?i]) c (sibs @ ss) s1)"
      by (rule runs_mono) (use c(3) in \<open>auto simp: commits_slot\<close>)
    then show ?thesis using RangeDown c(2) by simp
  qed
  show ?case
    unfolding proveFrom.simps [of path pre c' sibs s]
    by (rule runs_andThen, rule loadNode_law [where n = "Internal cs", OF tree_node.prems(2)])
       (use tree_node.hyps c' r(1) rest in \<open>auto simp: Let_def\<close>)
qed simp

lemma provePath_spec:
  assumes t: "tree_at (nodeAt V) m [] c M N" and path: "is_hash path" and s: "ok s"
  shows "runs may ok (\<lambda>p s'. ok s' \<and> (\<exists>xs. represents xs (commits M) \<and> p = proofOf path xs)) (provePath c path s)"
proof (cases c)
  case None
  then have "M = Map.empty" using tree_at_kind [OF t] by simp
  then have "represents [] (commits M) \<and> \<lparr>p_leaf = None, p_siblings = []\<rparr> = proofOf path []"
    by (simp add: represents_def proofOf_def)
  then show ?thesis using None s by (auto simp: provePath_def)
next
  case (Some c')
  have "runs may ok (\<lambda>p s'. ok s' \<and> (\<exists>xs. represents xs (commits M) \<and> p = proofOf path xs))
    (andThen (proveFrom path [] c' []) (\<lambda>(terminal, siblings).
       ret \<lparr>p_leaf = termOf terminal, p_siblings = rev siblings\<rparr>) s)"
  proof (rule runs_andThen, rule proveFrom_spec [OF t _ s Some, of path "[]"])
    fix r s1
    assume a: "ok s1 \<and> (\<exists>ss. snd r = [] @ ss \<and> is_proved (4 * length []) path (commits M) (termOf (fst r)) ss)"
    then obtain xs where "represents xs (commits M)" "smt_prove 0 path xs = (termOf (fst r), snd r)"
      by (auto simp: is_proved_def)
    then have "represents xs (commits M) \<and> \<lparr>p_leaf = termOf (fst r), p_siblings = rev (snd r)\<rparr> = proofOf path xs"
      by (simp add: proofOf_def)
    then show "runs may ok (\<lambda>p s'. ok s' \<and> (\<exists>xs. represents xs (commits M) \<and> p = proofOf path xs))
        ((case r of (terminal, siblings) \<Rightarrow> ret \<lparr>p_leaf = termOf terminal, p_siblings = rev siblings\<rparr>) s1)"
      using a by (cases r) auto
  qed (use path in simp)
  then show ?thesis by (simp add: provePath_def Some)
qed

end

end
