(* ===== verification/Batch_Inv.thy ===== *)
theory Batch_Inv
  imports Read_Inv
begin

text \<open>
  A batch from its operations to the records it writes (\<^verbatim>\<open>computeBatch\<close> and the batch of
  \<^verbatim>\<open>commitAcc\<close> in \<^verbatim>\<open>ledger/store.go\<close>): deduplication and sealing, the pass over the tree and the
  second pass of a chained store, and the content of the backend after the batch of a commit.
\<close>

section \<open>A reference determines its subtree\<close>

lemma slotMap_all_eqI:
  assumes "\<And>i. i < 16 \<Longrightarrow> slotMap M D i = slotMap M' D i"
  shows "M = M'"
proof
  fix p show "M p = M' p" using fun_cong [OF assms [OF nibble_less, of p D], of p] by (simp add: slotMap_eq)
qed

lemma tree_at_det: "tree_at L m pre c M N \<Longrightarrow> tree_at L m' pre c M' N' \<Longrightarrow> M' = M \<and> N' = N"
proof (induction arbitrary: M' N' rule: tree_at.induct)
  case (tree_node v pre cs M T N)
  from tree_node.prems obtain T' where a: "\<forall>i < 16. tree_at L m' (pre @ [i]) (cs ! i) (slotMap M' (length pre) i) (T' i)"
    and N': "N' = insert \<lparr>nk_version = v, nk_prefix = pre\<rparr> (\<Union>i < 16. T' i)"
    using tree_node.hyps(1) by (auto elim!: tree_at_SomeE)
  note T' = a [rule_format]
  have eq: "slotMap M' (length pre) i = slotMap M (length pre) i \<and> T' i = T i" if "i < 16" for i
    using tree_node.IH [OF that T' [OF that]] .
  have "M' = M" by (rule slotMap_all_eqI [where D = "length pre"]) (rule conjunct1 [OF eq])
  moreover have "(\<Union>i < 16. T' i) = (\<Union>i < 16. T i)" using eq by (intro SUP_cong) auto
  ultimately show ?case using N' tree_node.hyps(7) by simp
qed (auto elim!: tree_at_NoneE tree_at_SomeE)

lemma tree_at_root:
  assumes "tree_at L m pre (Some c) M N"
  shows "\<lparr>nk_version = c_version c, nk_prefix = pre\<rparr> \<in> N"
    "\<exists>n. L \<lparr>nk_version = c_version c, nk_prefix = pre\<rparr> = Some n \<and> hashNode n = c_hash c \<and> isLeaf n = c_isLeaf c"
  using assms by (auto elim!: tree_at_SomeE)

section \<open>Preparing a batch\<close>

text \<open>The reference meaning of a batch: the last operation on a path counts.\<close>

definition opValue :: "Op \<Rightarrow> bytes option" where
  "opValue op = (if op_Delete op then None else Some (op_Value op))"

definition batchMap :: "'b Store \<Rightarrow> Op list \<Rightarrow> hash \<rightharpoonup> bytes option" where
  "batchMap s ops = map_of (rev (map (\<lambda>op. (pathOf s (op_Key op), opValue op)) ops))"

definition putMap :: "(hash \<rightharpoonup> bytes) \<Rightarrow> (hash \<rightharpoonup> bytes option) \<Rightarrow> hash \<rightharpoonup> bytes" where
  "putMap D m p = (case m p of None \<Rightarrow> D p | Some x \<Rightarrow> x)"

definition reserved :: "Op \<Rightarrow> bool" where
  "reserved op \<longleftrightarrow> hasPrefix (op_Key op) reservedKeyPrefix"

lemma dedupe_spec:
  "distinct (map fst m) \<Longrightarrow>
     (case dedupe s ops m of
        Inl e \<Rightarrow> (\<exists>op \<in> set ops. reserved op) \<and> e = errInvalid ''key %q uses the reserved system prefix''
      | Inr m' \<Rightarrow> (\<forall>op \<in> set ops. \<not> reserved op) \<and> distinct (map fst m') \<and> map_of m' = map_of m ++ batchMap s ops)"
proof (induction ops arbitrary: m)
  case (Cons op ops)
  let ?m = "AList.update (pathOf s (op_Key op)) (opValue op) m"
  have "distinct (map fst ?m)" using Cons.prems by (simp add: distinct_update)
  from Cons.IH [OF this] show ?case
    by (auto simp: opValue_def [symmetric] reserved_def [symmetric] batchMap_def update_conv' fun_eq_iff map_add_def
          split: sum.splits option.splits)
qed (simp add: batchMap_def)

text \<open>A random source that always delivers, as \<^verbatim>\<open>crypto/rand\<close> documents.\<close>

definition good_rand :: "(rand_call \<Rightarrow> bytes option) \<Rightarrow> bool" where
  "good_rand rd \<longleftrightarrow> (\<forall>c. \<exists>nonce. rd c = Some nonce \<and> length nonce = 12)"

lemma sealValue_open:
  assumes "good_rand rd"
  shows "\<exists>ct. sealValue s (rd c) path v = Inr ct \<and> openValue s path ct = Inr v"
proof -
  obtain nonce where n: "rd c = Some nonce" "length nonce = 12" using assms by (auto simp: good_rand_def)
  show ?thesis
  proof (cases "st_cipher s")
    case (Some a)
    then obtain ct where "encrypt a (Some nonce) v (valueAAD path) = Inr ct" by (simp add: encrypt_def)
    then show ?thesis using Some n decrypt_encrypt [OF n(2)] by (simp add: sealValue_def openValue_def)
  qed (simp add: sealValue_def openValue_def)
qed

definition updateOf :: "'b Store \<Rightarrow> hash \<times> bytes option \<Rightarrow> update" where
  "updateOf s e = \<lparr>u_path = fst e, u_vh = map_option (vhOf s (fst e)) (snd e)\<rparr>"

text \<open>Every put of the batch has a stored form that opens to its value.\<close>

definition cts_ok :: "'b Store \<Rightarrow> (hash \<rightharpoonup> bytes option) \<Rightarrow> (hash \<rightharpoonup> bytes) \<Rightarrow> bool" where
  "cts_ok s m cts \<longleftrightarrow> (\<forall>p v. m p = Some (Some v) \<longrightarrow> (\<exists>ct. cts p = Some ct \<and> openValue s p ct = Inr v))"

lemma sealUpdates_spec:
  assumes "good_rand rd"
  shows "distinct (map fst m) \<Longrightarrow> \<forall>p \<in> fst ` set m. map_of cts p = None \<Longrightarrow>
     \<exists>cts'. sealUpdates rd s m us cts = Inr (us @ map (updateOf s) m, cts') \<and> cts_ok s (map_of m) (map_of cts') \<and>
       (\<forall>p. p \<notin> fst ` set m \<longrightarrow> map_of cts' p = map_of cts p)"
proof (induction m arbitrary: us cts)
  case (Cons e m)
  obtain p x where e: "e = (p, x)" by (cases e)
  show ?case
  proof (cases x)
    case None
    from Cons.IH [of cts "us @ [\<lparr>u_path = p, u_vh = None\<rparr>]"] Cons.prems
    obtain cts' where "sealUpdates rd s m (us @ [\<lparr>u_path = p, u_vh = None\<rparr>]) cts =
        Inr ((us @ [\<lparr>u_path = p, u_vh = None\<rparr>]) @ map (updateOf s) m, cts')"
      "cts_ok s (map_of m) (map_of cts')" "\<forall>p. p \<notin> fst ` set m \<longrightarrow> map_of cts' p = map_of cts p" by auto
    with Cons.prems show ?thesis by (auto simp: e None updateOf_def cts_ok_def)
  next
    case (Some v)
    obtain ct where ct: "sealValue s (rd (NonceValue p)) p v = Inr ct" "openValue s p ct = Inr v"
      using sealValue_open [OF assms] by blast
    let ?u = "\<lparr>u_path = p, u_vh = Some (vhOf s p v)\<rparr>" and ?cts = "AList.update p ct cts"
    have "distinct (map fst m)" "p \<notin> fst ` set m" "\<forall>q \<in> fst ` set m. map_of ?cts q = None"
      using Cons.prems by (auto simp: e update_conv')
    from Cons.IH [OF this(1,3), of "us @ [?u]"] this(2)
    obtain cts' where c: "sealUpdates rd s m (us @ [?u]) ?cts = Inr ((us @ [?u]) @ map (updateOf s) m, cts')"
      "cts_ok s (map_of m) (map_of cts')" "\<forall>q. q \<notin> fst ` set m \<longrightarrow> map_of cts' q = map_of ?cts q" by auto
    have "map_of cts' p = Some ct" using c(3) \<open>p \<notin> fst ` set m\<close> by (simp add: update_conv')
    with c ct \<open>p \<notin> fst ` set m\<close> show ?thesis by (auto simp: e Some updateOf_def cts_ok_def update_conv' Let_def)
  qed
qed (simp add: cts_ok_def)

text \<open>The inserts of a batch, and no commitment shared where it would matter.\<close>

definition insertsOf :: "'b Store \<Rightarrow> (hash \<rightharpoonup> bytes option) \<Rightarrow> (hash \<times> hash) set" where
  "insertsOf s m = {(p, vhOf s p v) |p v. m p = Some (Some v)}"

definition no_clash :: "'b Store \<Rightarrow> (hash \<rightharpoonup> bytes) \<Rightarrow> (hash \<rightharpoonup> bytes option) \<Rightarrow> bool" where
  "no_clash s D m \<longleftrightarrow>
     (\<forall>p v q w. m p = Some (Some v) \<longrightarrow> m q = Some (Some w) \<longrightarrow> vhOf s p v = vhOf s q w \<longrightarrow> p = q) \<and>
     (\<forall>p v old. m p = Some (Some v) \<longrightarrow> D p = Some old \<longrightarrow> vhOf s p v = vhOf s p old \<longrightarrow> v = old)"

lemma distinct_map_sort: "distinct (map f xs) \<Longrightarrow> distinct (map f (sort_key g xs))"
  by (simp add: distinct_map)

lemma updMap_sort: "distinct (map u_path us) \<Longrightarrow> updMap (sort_key u_path us) = updMap us"
  unfolding updMap_def using distinct_map_sort [of u_path us u_path]
  by (subst map_of_inject_set) (simp_all add: comp_def)

lemma updates_sorted:
  assumes "distinct (map fst m)" "\<forall>p \<in> fst ` set m. is_hash p"
  shows "upd_ok (insertsOf s (map_of m)) [] (sort_key u_path (map (updateOf s) m))"
    "updMap (sort_key u_path (map (updateOf s) m)) = (\<lambda>p. map_option (map_option (vhOf s p)) (map_of m p))"
proof -
  have paths: "map u_path (map (updateOf s) m) = map fst m" by (simp add: updateOf_def)
  have set: "set (sort_key u_path (map (updateOf s) m)) = updateOf s ` set m" by simp
  have du: "distinct (map u_path (map (updateOf s) m))" using assms(1) by (simp only: paths)
  note d = distinct_map_sort [OF du, of u_path]
  have in_m: "map_of m (fst e) = Some (snd e)" if "e \<in> set m" for e using that assms(1) by simp
  show "upd_ok (insertsOf s (map_of m)) [] (sort_key u_path (map (updateOf s) m))"
    unfolding upd_ok_def set using d assms(2) in_m by (force simp: updateOf_def insertsOf_def)
  have "updMap (sort_key u_path (map (updateOf s) m)) = updMap (map (updateOf s) m)" by (rule updMap_sort [OF du])
  also have "\<dots> = (\<lambda>p. map_option (map_option (vhOf s p)) (map_of m p))"
    by (induction m) (auto simp: updMap_def updateOf_def fun_eq_iff)
  finally show "updMap (sort_key u_path (map (updateOf s) m)) = (\<lambda>p. map_option (map_option (vhOf s p)) (map_of m p))" .
qed

lemma tree_at_root_unique:
  assumes "tree_at L m pre c M N" "nk \<in> N" "nk_prefix nk = pre"
  shows "\<exists>c'. c = Some c' \<and> nk = \<lparr>nk_version = c_version c', nk_prefix = pre\<rparr>"
  using assms(1)
proof (cases rule: tree_at.cases)
  case (tree_node v cs T)
  then show ?thesis using assms(2,3) tree_at_keys by (fastforce simp: tree_node)
qed (use assms in auto)

section \<open>One pass over the tree\<close>

text \<open>
  What the accumulator says after the updates of a commit: from the leaves \<open>M\<close> and nodes \<open>N\<close> of the
  current version to \<open>M'\<close>, \<open>N'\<close> of the next; \<open>X\<close> are the inserts so far.
\<close>

definition pass_ok ::
  "(bytes \<rightharpoonup> bytes) \<Rightarrow> (hash \<times> hash) set \<Rightarrow> child option \<Rightarrow> leafMap \<Rightarrow> nodeKey set \<Rightarrow>
   child option \<Rightarrow> leafMap \<Rightarrow> nodeKey set \<Rightarrow> commitAcc \<Rightarrow> bool"
where
  "pass_ok V X c M N c' M' N' acc \<longleftrightarrow>
     tree_at (lookupNode V acc) (a_newVersion acc) [] c' M' N' \<and> settled V X {[]} N' M' acc \<and>
     (\<forall>nk \<in> N'. nk_version nk = a_newVersion acc \<or> nk \<in> N) \<and>
     (\<forall>p vh vv. M' p = Some (vh, vv) \<longrightarrow> vv \<noteq> a_newVersion acc \<longrightarrow> M p = Some (vh, vv)) \<and>
     set (a_stale acc) = staleSet (a_newVersion acc) N M N' M' \<and>
     (c' = c \<or> (\<forall>c''. c' = Some c'' \<longrightarrow> c_version c'' = a_newVersion acc))"

lemma pass_start:
  assumes t: "tree_at (nodeAt V) m [] c M N" and m: "m < a_newVersion acc" and e: "a_pending acc = []" "a_stale acc = []" and ok: "acc_ok X acc"
    and M: "\<And>p vh vv. M p = Some (vh, vv) \<Longrightarrow> vv \<le> m"
  shows "pass_ok V X c M N c M N acc"
proof -
  have "tree_at (lookupNode V acc) (a_newVersion acc) [] c M N"
  proof (rule tree_at_cong [OF t])
    show "lookupNode V acc nk = nodeAt V nk" if "nk \<in> N" for nk
      using tree_at_keys [OF t that] m by (auto simp: lookupNode_def)
  qed (use m in simp)
  moreover have "settled V X {[]} N M acc"
    using ok e m M by (fastforce simp: settled_def lookupNode_def)
  moreover have "staleSet (a_newVersion acc) N M N M = {}" by (auto simp: staleSet_def)
  ultimately show ?thesis using e by (auto simp: pass_ok_def)
qed

lemma pass_step:
  assumes p: "pass_ok V X c M N c1 M1 N1 acc" and s: "step_post V X [] c1 M1 N1 M2 acc c2 acc2"
    and c: "\<And>c'. c = Some c' \<Longrightarrow> c_version c' \<noteq> a_newVersion acc"
  shows "\<exists>N2. pass_ok V X c M N c2 M2 N2 acc2 \<and> a_newVersion acc2 = a_newVersion acc \<and>
    a_insertCTs acc2 = a_insertCTs acc \<and> a_newHead acc2 = a_newHead acc \<and>
    (c1 \<noteq> c \<longrightarrow> (\<forall>c''. c2 = Some c'' \<longrightarrow> c_version c'' = a_newVersion acc))"
proof -
  obtain N2 where t2: "tree_at (lookupNode V acc2) (a_newVersion acc) [] c2 M2 N2" and d: "delta V X {[]} N1 M1 N2 M2 acc acc2"
    using s by (auto simp: step_post_def)
  note D = deltaD [OF d]
  have P: "tree_at (lookupNode V acc) (a_newVersion acc) [] c1 M1 N1" "\<forall>nk \<in> N1. nk_version nk = a_newVersion acc \<or> nk \<in> N"
    "\<And>p vh vv. M1 p = Some (vh, vv) \<Longrightarrow> vv \<noteq> a_newVersion acc \<Longrightarrow> M p = Some (vh, vv)"
    "set (a_stale acc) = staleSet (a_newVersion acc) N M N1 M1"
    "c1 = c \<or> (\<forall>c''. c1 = Some c'' \<longrightarrow> c_version c'' = a_newVersion acc)"
    using p by (auto simp: pass_ok_def)
  have N2: "\<forall>nk \<in> N2. nk_version nk = a_newVersion acc \<or> nk \<in> N1" using D(6) by blast
  have M2: "M1 p = Some (vh, vv)" if "M2 p = Some (vh, vv)" "vv \<noteq> a_newVersion acc" for p vh vv using D(10) that by blast
  have "set (a_stale acc2) = staleSet (a_newVersion acc) N M N2 M2"
    using D(8) P(4) staleSet_trans [OF P(2) N2 P(3) M2] by auto
  moreover have root: "c2 = c \<and> c1 = c \<or> (\<forall>c''. c2 = Some c'' \<longrightarrow> c_version c'' = a_newVersion acc)"
  proof (cases "\<exists>c''. c2 = Some c'' \<and> c_version c'' \<noteq> a_newVersion acc")
    case True
    then obtain c'' where c2: "c2 = Some c''" and v: "c_version c'' \<noteq> a_newVersion acc" by blast
    note R = tree_at_root [OF t2 [unfolded c2]]
    have "\<lparr>nk_version = c_version c'', nk_prefix = []\<rparr> \<in> N1" using R(1) N2 v by fastforce
    then obtain c' where c1: "c1 = Some c'" "c_version c' = c_version c''"
      using tree_at_root_unique [OF P(1)] by fastforce
    then have eq: "c1 = c" using P(5) v by auto
    moreover have "c'' = c'"
    proof -
      have "lookupNode V acc \<lparr>nk_version = c_version c'', nk_prefix = []\<rparr> = lookupNode V acc2 \<lparr>nk_version = c_version c'', nk_prefix = []\<rparr>"
        using v D(2) by (simp add: lookupNode_def)
      then show ?thesis using R(2) tree_at_root(2) [OF P(1) [unfolded c1(1)]] c1(2) by (cases c', cases c'') auto
    qed
    ultimately show ?thesis using c1(1) c2 eq by simp
  qed blast
  moreover have "\<forall>nk \<in> N2. nk_version nk = a_newVersion acc \<or> nk \<in> N" using N2 P(2) by blast
  moreover have "\<forall>p vh vv. M2 p = Some (vh, vv) \<longrightarrow> vv \<noteq> a_newVersion acc \<longrightarrow> M p = Some (vh, vv)" using M2 P(3) by blast
  ultimately have "pass_ok V X c M N c2 M2 N2 acc2"
    unfolding pass_ok_def D(2) using t2 settled_delta [OF d] by blast
  then show ?thesis using D(2-4) root by blast
qed

lemma acc_ok_values:
  assumes "acc_ok X acc" "map_of (a_values acc) vh = Some ct"
  shows "\<exists>p. (p, vh) \<in> X \<and> map_of (a_insertCTs acc) p = Some ct"
  using assms unfolding acc_ok_def by blast

text \<open>The accumulator before the history link: one more insert and the head it stands for.\<close>

lemma pass_insert:
  assumes p: "pass_ok V X c M N c1 M1 N1 acc" and hp: "hp \<notin> fst ` X"
    and inj: "\<And>p. (p, vh) \<in> X \<Longrightarrow> p = hp"
  shows "pass_ok V (insert (hp, vh) X) c M N c1 M1 N1 (acc\<lparr>a_insertCTs := AList.update hp ct (a_insertCTs acc), a_newHead := h\<rparr>)"
proof -
  let ?acc = "acc\<lparr>a_insertCTs := AList.update hp ct (a_insertCTs acc), a_newHead := h\<rparr>"
  have look: "lookupNode V ?acc = lookupNode V acc" by (simp add: lookupNode_def fun_eq_iff)
  have ok: "acc_ok X acc" using p by (simp add: pass_ok_def settled_def)
  have "acc_ok (insert (hp, vh) X) ?acc"
    unfolding acc_ok_def
  proof (intro conjI allI impI)
    show "\<exists>p. (p, vh') \<in> insert (hp, vh) X \<and> map_of (a_insertCTs ?acc) p = Some ct'" if v: "map_of (a_values ?acc) vh' = Some ct'" for vh' ct'
    proof -
      obtain p where "(p, vh') \<in> X" "map_of (a_insertCTs acc) p = Some ct'" using v acc_ok_values [OF ok] by auto
      moreover from this have "p \<noteq> hp" using hp by force
      ultimately show ?thesis by (auto simp: update_conv')
    qed
    show "p = q" if "(p, vh') \<in> insert (hp, vh) X" "(q, vh') \<in> insert (hp, vh) X" for p q vh'
      using that inj ok unfolding acc_ok_def by blast
    show "\<forall>(p, vh') \<in> insert (hp, vh) X. p \<in> dom (map_of (a_insertCTs ?acc))"
      using ok by (auto simp: acc_ok_def update_conv')
  qed (use ok in \<open>auto simp: acc_ok_def\<close>)
  then show ?thesis
    using p unfolding pass_ok_def settled_def look by auto
qed

lemma own_vals_upd:
  assumes own: "own_vals M" and ok: "upd_ok X pre us" and inj: "\<And>p q vh. (p, vh) \<in> X \<Longrightarrow> (q, vh) \<in> X \<Longrightarrow> p = q"
    and M: "\<And>p vh. M p = Some (vh, nv) \<Longrightarrow> (p, vh) \<in> X"
  shows "own_vals (updLeaves nv M us)"
  unfolding own_vals_def
proof (intro allI impI)
  fix p q e assume a: "updLeaves nv M us p = Some e" "updLeaves nv M us q = Some e"
  obtain vh vv where e: "e = (vh, vv)" by (cases e)
  show "p = q"
  proof (cases "vv = nv")
    case True
    have "(r, vh) \<in> X" if "updLeaves nv M us r = Some (vh, nv)" for r
      using updLeaves_new [OF that] M [of r vh] upd_ok_updMap [OF ok, of r "Some vh"] by auto
    then show ?thesis using a inj unfolding e True by blast
  next
    case False
    then have "M p = Some e" "M q = Some e" using updLeaves_old a unfolding e by blast+
    then show ?thesis using own unfolding own_vals_def by blast
  qed
qed

section \<open>The tree of the next version\<close>

definition newLeaves :: "'b Store \<Rightarrow> u64 \<Rightarrow> leafMap \<Rightarrow> (hash \<rightharpoonup> bytes option) \<Rightarrow> leafMap" where
  "newLeaves s nv M m p = (case m p of None \<Rightarrow> M p | Some x \<Rightarrow> updEntry nv (M p) (map_option (vhOf s p) x))"

lemma updLeaves_newLeaves:
  "updMap us = (\<lambda>p. map_option (map_option (vhOf s p)) (m p)) \<Longrightarrow> updLeaves nv M us = newLeaves s nv M m"
  by (auto simp: updLeaves_def newLeaves_def fun_eq_iff split: option.split)

definition commit_ready ::
  "(bytes \<rightharpoonup> bytes) \<Rightarrow> 'b Store \<Rightarrow> child option \<Rightarrow> leafMap \<Rightarrow> nodeKey set \<Rightarrow> (hash \<rightharpoonup> bytes option) \<Rightarrow>
   commitAcc \<Rightarrow> child option \<Rightarrow> nodeKey set \<Rightarrow> bool"
where
  "commit_ready V s c M N m acc c' N' \<longleftrightarrow>
     pass_ok V (insertsOf s m) c M N c' (newLeaves s (a_newVersion acc) M m) N' acc \<and>
     (\<forall>c''. c' = Some c'' \<longrightarrow> c_version c'' = a_newVersion acc) \<and> cts_ok s m (map_of (a_insertCTs acc))"

definition linked :: "'b Store \<Rightarrow> hash \<Rightarrow> (hash \<rightharpoonup> bytes option) \<Rightarrow> hash \<rightharpoonup> bytes option" where
  "linked s head m = (if st_history s then m(pathOf s HistoryKey \<mapsto> Some head) else m)"

definition nextHead :: "'b Store \<Rightarrow> u64 \<Rightarrow> hash" where
  "nextHead s nv = HistoryLink (st_historyHead s) (st_root s) nv"

lemma insertsOf_insert:
  "m p = None \<Longrightarrow> insertsOf s (m(p \<mapsto> Some v)) = insert (p, vhOf s p v) (insertsOf s m)"
proof -
  assume m: "m p = None"
  have "(q, h) \<in> insertsOf s (m(p \<mapsto> Some v)) \<longleftrightarrow> (q, h) \<in> insert (p, vhOf s p v) (insertsOf s m)" for q h
    using m by (cases "q = p") (simp_all add: insertsOf_def)
  then show ?thesis by auto
qed

lemma insertsOf_inj:
  "no_clash s D m \<Longrightarrow> (p, vh) \<in> insertsOf s m \<Longrightarrow> (q, vh) \<in> insertsOf s m \<Longrightarrow> p = q"
  unfolding no_clash_def insertsOf_def by blast

lemma acc_ok_start:
  assumes "cts_ok s m (map_of cts)" "\<And>p q vh. (p, vh) \<in> insertsOf s m \<Longrightarrow> (q, vh) \<in> insertsOf s m \<Longrightarrow> p = q"
  shows "acc_ok (insertsOf s m) ((emptyAcc nv)\<lparr>a_insertCTs := cts\<rparr>)"
proof -
  have "p \<in> dom (map_of cts)" if "(p, vh) \<in> insertsOf s m" for p vh
    using that assms(1) unfolding insertsOf_def cts_ok_def by blast
  then show ?thesis using assms(2) unfolding acc_ok_def emptyAcc_def by auto
qed

lemma tree_at_vv: "tree_at L m pre c M N \<Longrightarrow> M p = Some (vh, vv) \<Longrightarrow> vv \<le> m \<and> is_hash vh"
proof (induction rule: tree_at.induct)
  case (tree_node v pre cs M T N)
  then show ?case using tree_node.IH [OF nibble_less, of p] by (auto simp: slotMap_eq)
qed (auto split: if_splits)

context record_reader
begin

text \<open>The first pass: the updates of the caller.\<close>

lemma batch_pass:
  assumes s: "ok s" and t: "tree_at (nodeAt V) ver [] c M N" and own: "own_vals M" and nv: "ver < nv"
    and cts: "cts_ok s0 m (map_of cts)" and inj: "\<And>p q vh. (p, vh) \<in> insertsOf s0 m \<Longrightarrow> (q, vh) \<in> insertsOf s0 m \<Longrightarrow> p = q"
    and us: "upd_ok (insertsOf s0 m) [] us" "updMap us = (\<lambda>p. map_option (map_option (vhOf s0 p)) (m p))"
  shows "runs may (\<lambda>w. ok (fst w))
    (\<lambda>c' w. ok (fst w) \<and> (c' = c \<longleftrightarrow> newLeaves s0 nv M m = M) \<and>
       (\<exists>N'. pass_ok V (insertsOf s0 m) c M N c' (newLeaves s0 nv M m) N' (snd w)) \<and>
       a_newVersion (snd w) = nv \<and> a_insertCTs (snd w) = cts \<and> a_newHead (snd w) = None)
    (applySubtree c [] us (s, (emptyAcc nv)\<lparr>a_insertCTs := cts\<rparr>))"
proof -
  let ?X = "insertsOf s0 m" and ?acc = "(emptyAcc nv)\<lparr>a_insertCTs := cts\<rparr>" and ?M = "newLeaves s0 nv M m"
  have f: "a_newVersion ?acc = nv" "a_pending ?acc = []" "a_stale ?acc = []" "a_insertCTs ?acc = cts" "a_newHead ?acc = None"
    by (simp_all add: emptyAcc_def)
  have M: "M p = Some (vh, vv) \<Longrightarrow> vv \<le> ver" for p vh vv using tree_at_vv [OF t] by blast
  have p: "pass_ok V ?X c M N c M N ?acc"
    using f nv M by (intro pass_start [OF t] acc_ok_start cts inj) auto
  have c: "c_version c' \<noteq> a_newVersion ?acc" if "c = Some c'" for c'
    using tree_at_keys [OF t] tree_at_root(1) [OF t [unfolded that]] nv unfolding f by fastforce
  note eq = updLeaves_newLeaves [OF us(2), of nv M]
  have "runs may (\<lambda>w. ok (fst w)) (\<lambda>c' w. ok (fst w) \<and> step_post V ?X [] c M N ?M ?acc c' (snd w)) (applySubtree c [] us (s, ?acc))"
    using p applySubtree_spec [OF us(1) s, of ?acc c M N] own unfolding pass_ok_def f(1) eq by (simp add: wf_prefix_def)
  then show ?thesis
  proof (rule runs_mono)
    fix c' w assume a: "ok (fst w) \<and> step_post V ?X [] c M N ?M ?acc c' (snd w)"
    obtain N' where N': "pass_ok V ?X c M N c' ?M N' (snd w)" "a_newVersion (snd w) = nv" "a_insertCTs (snd w) = cts" "a_newHead (snd w) = None"
      using pass_step [OF p _ c] a unfolding f by blast
    have "?M = M" if "c' = c"
    proof -
      have "tree_at (lookupNode V (snd w)) nv [] c M N"
      proof (rule tree_at_cong [OF t])
        show "lookupNode V (snd w) nk = nodeAt V nk" if "nk \<in> N" for nk
          using tree_at_keys [OF t that] nv N'(2) by (auto simp: lookupNode_def)
      qed (use nv in simp)
      then show ?thesis using N'(1,2) tree_at_det that unfolding pass_ok_def by blast
    qed
    moreover have "c' = c" if "?M = M" using a that by (simp add: step_post_def)
    ultimately show "ok (fst w) \<and> (c' = c \<longleftrightarrow> ?M = M) \<and> (\<exists>N'. pass_ok V ?X c M N c' ?M N' (snd w)) \<and>
       a_newVersion (snd w) = nv \<and> a_insertCTs (snd w) = cts \<and> a_newHead (snd w) = None"
      using a N' by blast
  qed simp
qed

text \<open>The second pass of a chained store: the head leaf.\<close>

lemma link_pass:
  assumes s: "ok s" and rd: "good_rand rd" and p: "pass_ok V (insertsOf s0 m) c M N c1 (newLeaves s0 nv M m) N1 acc"
    and acc: "a_newVersion acc = nv" "cts_ok s0 m (map_of (a_insertCTs acc))"
    and c: "\<And>c'. c = Some c' \<Longrightarrow> c_version c' \<noteq> nv" "c1 \<noteq> c" and own: "own_vals (newLeaves s0 nv M m)"
    and hp: "m (pathOf s0 HistoryKey) = None"
    and inj: "\<And>p q vh. (p, vh) \<in> insertsOf s0 (m(pathOf s0 HistoryKey \<mapsto> Some (nextHead s0 nv))) \<Longrightarrow>
      (q, vh) \<in> insertsOf s0 (m(pathOf s0 HistoryKey \<mapsto> Some (nextHead s0 nv))) \<Longrightarrow> p = q"
  shows "runs may (\<lambda>w. ok (fst w))
    (\<lambda>c' w. ok (fst w) \<and> (\<exists>N'. commit_ready V s0 c M N (m(pathOf s0 HistoryKey \<mapsto> Some (nextHead s0 nv))) (snd w) c' N') \<and>
       a_newVersion (snd w) = nv \<and> a_newHead (snd w) = Some (nextHead s0 nv))
    (appendHistoryLink rd c1 (s, acc))"
proof -
  let ?hp = "pathOf s0 HistoryKey" and ?h = "nextHead s0 nv"
  let ?m = "m(pathOf s0 HistoryKey \<mapsto> Some (nextHead s0 nv))" and ?vh = "vhOf s0 (pathOf s0 HistoryKey) (nextHead s0 nv)"
  let ?M1 = "newLeaves s0 nv M m"
  note F = read_eq_fields [OF ok_read_eq [OF s]]
  note C = commitments_cong [OF F(1,2)]
  obtain ct where ct: "sealValue s0 (rd NonceHead) ?hp ?h = Inr ct" "openValue s0 ?hp ct = Inr ?h" using sealValue_open [OF rd] by blast
  note X = insertsOf_insert [where m = m and p = ?hp and s = s0 and v = ?h, OF hp]
  let ?acc = "acc\<lparr>a_insertCTs := AList.update ?hp ct (a_insertCTs acc), a_newHead := Some ?h\<rparr>"
  let ?us = "[\<lparr>u_path = ?hp, u_vh = Some ?vh\<rparr>]"
  have run: "appendHistoryLink rd c1 (s, acc) = applySubtree c1 [] ?us (s, ?acc)"
    using ct(1) by (simp add: appendHistoryLink_def C F acc(1) nextHead_def Let_def liftE_def andThen_def)
  have p': "pass_ok V (insertsOf s0 ?m) c M N c1 ?M1 N1 ?acc"
    unfolding X
  proof (rule pass_insert [OF p])
    show "?hp \<notin> fst ` insertsOf s0 m" using hp by (auto simp: insertsOf_def)
    show "q = ?hp" if "(q, ?vh) \<in> insertsOf s0 m" for q using inj [of q ?vh ?hp] that unfolding X by blast
  qed
  have us: "upd_ok (insertsOf s0 ?m) [] ?us" unfolding X by (simp add: upd_ok_def)
  have f: "a_newVersion ?acc = nv" using acc(1) by simp
  have M2: "updLeaves nv ?M1 ?us = newLeaves s0 nv M ?m"
    using hp by (auto simp: updLeaves_def updMap_def newLeaves_def fun_eq_iff)
  have "runs may (\<lambda>w. ok (fst w)) (\<lambda>c' w. ok (fst w) \<and> step_post V (insertsOf s0 ?m) [] c1 ?M1 N1 (newLeaves s0 nv M ?m) ?acc c' (snd w))
      (applySubtree c1 [] ?us (s, ?acc))"
    using p' applySubtree_spec [OF us s, of ?acc c1 ?M1 N1] own unfolding pass_ok_def f M2 by (simp add: wf_prefix_def)
  then show ?thesis
    unfolding run
  proof (rule runs_mono)
    fix c' w assume a: "ok (fst w) \<and> step_post V (insertsOf s0 ?m) [] c1 ?M1 N1 (newLeaves s0 nv M ?m) ?acc c' (snd w)"
    obtain N' where N': "pass_ok V (insertsOf s0 ?m) c M N c' (newLeaves s0 nv M ?m) N' (snd w)" "a_newVersion (snd w) = nv"
      "a_insertCTs (snd w) = a_insertCTs ?acc" "a_newHead (snd w) = Some ?h"
      "\<forall>c''. c' = Some c'' \<longrightarrow> c_version c'' = nv"
      using pass_step [OF p' conjunct2 [OF a]] c unfolding f by auto
    have "cts_ok s0 ?m (map_of (a_insertCTs ?acc))"
      using acc(2) ct(2) hp by (auto simp: cts_ok_def update_conv')
    moreover have "\<forall>c''. c' = Some c'' \<longrightarrow> c_version c'' = nv"
      using N'(5) by blast
    ultimately show "ok (fst w) \<and> (\<exists>N'. commit_ready V s0 c M N ?m (snd w) c' N') \<and> a_newVersion (snd w) = nv \<and> a_newHead (snd w) = Some ?h"
      using a N' unfolding commit_ready_def by auto
  qed simp
qed

end

lemma own_vals_newLeaves:
  assumes "own_vals M" "tree_at L ver [] c M N" "ver < nv" "upd_ok (insertsOf s m) [] us"
    "updMap us = (\<lambda>p. map_option (map_option (vhOf s p)) (m p))"
    "\<And>p q vh. (p, vh) \<in> insertsOf s m \<Longrightarrow> (q, vh) \<in> insertsOf s m \<Longrightarrow> p = q"
  shows "own_vals (newLeaves s nv M m)"
proof -
  have "M p \<noteq> Some (vh, nv)" for p vh using tree_at_vv [OF assms(2), of p vh nv] assms(3) by auto
  then show ?thesis
    using own_vals_upd [OF assms(1,4,6), where nv = nv] by (simp add: updLeaves_newLeaves [OF assms(5)])
qed

lemma linked_None: "(st_history s \<Longrightarrow> m (pathOf s HistoryKey) = None) \<Longrightarrow> insertsOf s m \<subseteq> insertsOf s (linked s h m)"
  by (cases "st_history s") (simp_all add: linked_def insertsOf_insert subset_insertI)

text \<open>What \<^verbatim>\<open>computeBatch\<close> returns: nothing when the batch changes nothing, else a ready commit.\<close>

definition batch_post ::
  "(bytes \<rightharpoonup> bytes) \<Rightarrow> 'b Store \<Rightarrow> leafMap \<Rightarrow> nodeKey set \<Rightarrow> (hash \<rightharpoonup> bytes option) \<Rightarrow>
   (commitAcc \<times> child option \<times> hash) option \<Rightarrow> bool"
where
  "batch_post V s M N m r \<longleftrightarrow>
     (let nv = st_version s + 1 in
      case r of
        None \<Rightarrow> newLeaves s nv M m = M
      | Some (acc, c', root) \<Rightarrow>
          newLeaves s nv M m \<noteq> M \<and> root = rootHashOf c' \<and> a_newVersion acc = nv \<and>
          a_newHead acc = (if st_history s then Some (nextHead s nv) else None) \<and>
          (\<exists>N'. commit_ready V s (st_rootChild s) M N (linked s (nextHead s nv) m) acc c' N'))"

text \<open>The conditions on a batch: chained stores keep the head leaf to themselves, and no two
  commitments that the commit involves coincide by accident.\<close>

definition batch_ok :: "'b Store \<Rightarrow> (hash \<rightharpoonup> bytes) \<Rightarrow> (hash \<rightharpoonup> bytes option) \<Rightarrow> bool" where
  "batch_ok s D m \<longleftrightarrow>
     (st_history s \<longrightarrow> m (pathOf s HistoryKey) = None) \<and>
     no_clash s D (linked s (nextHead s (st_version s + 1)) m)"

context record_reader
begin

lemma applyBatchTree_spec:
  assumes s: "ok s" and t: "tree_at (nodeAt V) ver [] (st_rootChild s0) M N" and own: "own_vals M" and ver: "ver < st_version s0 + 1"
    and rd: "good_rand rd" and b: "batch_ok s0 D m" and cts: "cts_ok s0 m (map_of cts)"
    and us: "upd_ok (insertsOf s0 m) [] us" "updMap us = (\<lambda>p. map_option (map_option (vhOf s0 p)) (m p))"
  shows "runs may (\<lambda>w. ok (fst w))
     (\<lambda>r w. ok (fst w) \<and> batch_post V s0 M N m (map_option (\<lambda>c'. (snd w, c', rootHashOf c')) r))
     (applyBatchTree rd us (s, (emptyAcc (st_version s0 + 1))\<lparr>a_insertCTs := cts\<rparr>))"
proof -
  let ?c = "st_rootChild s0" and ?nv = "st_version s0 + 1" and ?M = "newLeaves s0 (st_version s0 + 1) M m"
  let ?m = "linked s0 (nextHead s0 ?nv) m"
  have X: "p = q" if "(p, vh) \<in> insertsOf s0 ?m" "(q, vh) \<in> insertsOf s0 ?m" for p q vh
    using that insertsOf_inj b unfolding batch_ok_def by blast
  have sub: "insertsOf s0 m \<subseteq> insertsOf s0 ?m" using b by (intro linked_None) (simp add: batch_ok_def)
  have inj: "p = q" if "(p, vh) \<in> insertsOf s0 m" "(q, vh) \<in> insertsOf s0 m" for p q vh
    by (rule X [OF subsetD [OF sub that(1)] subsetD [OF sub that(2)]])
  have c: "c_version c' \<noteq> ?nv" if "?c = Some c'" for c'
    using tree_at_keys [OF t] tree_at_root(1) [OF t [unfolded that]] ver by fastforce
  have own1: "own_vals ?M" by (rule own_vals_newLeaves [OF own t ver us inj])
  have f: "st_rootChild s' = ?c" "st_history s' = st_history s0" if "ok s'" for s'
    using read_eq_fields [OF ok_read_eq [OF that]] by simp_all
  show ?thesis
    unfolding applyBatchTree_def Let_def fst_conv f(1) [OF s]
  proof (rule runs_andThen, rule batch_pass [OF s t own ver cts inj us])
    fix c' w
    assume a: "ok (fst w) \<and> (c' = ?c \<longleftrightarrow> ?M = M) \<and> (\<exists>N'. pass_ok V (insertsOf s0 m) ?c M N c' ?M N' (snd w)) \<and>
       a_newVersion (snd w) = ?nv \<and> a_insertCTs (snd w) = cts \<and> a_newHead (snd w) = None"
    then obtain N1 where p: "pass_ok V (insertsOf s0 m) ?c M N c' ?M N1 (snd w)" by blast
    note fw = f [of "fst w"]
    show "runs may (\<lambda>w. ok (fst w)) (\<lambda>r w. ok (fst w) \<and> batch_post V s0 M N m (map_option (\<lambda>c'. (snd w, c', rootHashOf c')) r))
       (if childEq c' ?c then ret None w
        else if st_history (fst w) then andThen (appendHistoryLink rd c') (\<lambda>c. ret (Some c)) w else ret (Some c') w)"
    proof (cases "c' = ?c")
      case True
      then show ?thesis using a by (simp add: batch_post_def Let_def)
    next
      case False
      show ?thesis
      proof (cases "st_history s0")
        case True
        then have hp: "m (pathOf s0 HistoryKey) = None" using b by (simp add: batch_ok_def)
        have w: "w = (fst w, snd w)" by simp
        have "runs may (\<lambda>w. ok (fst w))
          (\<lambda>c' w. ok (fst w) \<and> (\<exists>N'. commit_ready V s0 ?c M N (m(pathOf s0 HistoryKey \<mapsto> Some (nextHead s0 ?nv))) (snd w) c' N') \<and>
             a_newVersion (snd w) = ?nv \<and> a_newHead (snd w) = Some (nextHead s0 ?nv)) (appendHistoryLink rd c' (fst w, snd w))"
        proof (rule link_pass [OF _ rd p _ _ c False own1 hp])
          show "p = q" if "(p, vh) \<in> insertsOf s0 (m(pathOf s0 HistoryKey \<mapsto> Some (nextHead s0 ?nv)))"
            "(q, vh) \<in> insertsOf s0 (m(pathOf s0 HistoryKey \<mapsto> Some (nextHead s0 ?nv)))" for p q vh
            using X [of p vh q] that True by (simp only: linked_def if_True)
        qed (use a cts in simp_all)
        then have "runs may (\<lambda>w. ok (fst w)) (\<lambda>r w. ok (fst w) \<and> batch_post V s0 M N m (map_option (\<lambda>c'. (snd w, c', rootHashOf c')) r))
            (andThen (appendHistoryLink rd c') (\<lambda>c. ret (Some c)) (fst w, snd w))"
          by (rule runs_andThen) (use a True False in \<open>auto simp: batch_post_def Let_def linked_def\<close>)
        then show ?thesis using False True fw a by simp
      next
        case nh: False
        have "commit_ready V s0 ?c M N ?m (snd w) c' N1"
          using p a cts False nh unfolding commit_ready_def pass_ok_def by (simp add: linked_def)
        then have "batch_post V s0 M N m (Some (snd w, c', rootHashOf c'))"
          using a False nh unfolding batch_post_def by auto
        then show ?thesis using False nh fw a by simp
      qed
    qed
  qed
qed

lemma computeBatch_spec:
  assumes s: "ok s" and t: "tree_at (nodeAt V) ver [] (st_rootChild s0) M N" and own: "own_vals M" and ver: "ver < st_version s0 + 1"
    and rd: "good_rand rd" and b: "batch_ok s0 D (batchMap s0 ops)" and ops: "\<forall>op \<in> set ops. \<not> reserved op"
  shows "runs may ok (\<lambda>r s'. ok s' \<and> batch_post V s0 M N (batchMap s0 ops) r) (computeBatch rd ops s)"
proof -
  note F = read_eq_fields [OF ok_read_eq [OF s]]
  note C = commitments_cong [OF F(1,2)]
  have B: "batchMap s = batchMap s0" by (simp add: batchMap_def C fun_eq_iff)
  obtain m where m: "dedupe s ops [] = Inr m" "distinct (map fst m)" "map_of m = batchMap s0 ops"
    using dedupe_spec [where m = "[]" and s = s and ops = ops] ops by (auto simp: B split: sum.splits)
  show ?thesis
  proof (cases "m = []")
    case True
    then have e: "batchMap s0 ops = Map.empty" using m(3) by simp
    have "newLeaves s0 nv M Map.empty = M" for nv by (simp add: newLeaves_def fun_eq_iff)
    then show ?thesis
      using m(1) True s by (simp add: computeBatch_def liftE_def andThen_def batch_post_def e ret_def)
  next
    case False
    obtain cts where cts: "sealUpdates rd s m [] [] = Inr (map (updateOf s) m, cts)" "cts_ok s (map_of m) (map_of cts)"
      using sealUpdates_spec [OF rd m(2), of "[]" s "[]"] by auto
    have u: "updateOf s = updateOf s0" by (simp add: updateOf_def C fun_eq_iff)
    have hs: "\<forall>p \<in> fst ` set m. is_hash p"
    proof
      fix p assume "p \<in> fst ` set m"
      then have "batchMap s0 ops p \<noteq> None" using m(3) by (metis map_of_eq_None_iff)
      then show "is_hash p" by (auto simp: batchMap_def dest!: map_of_SomeD)
    qed
    note us = updates_sorted [OF m(2) hs, of s0, unfolded m(3)]
    have "runs may (\<lambda>w. ok (fst w))
        (\<lambda>r w. ok (fst w) \<and> batch_post V s0 M N (batchMap s0 ops) (map_option (\<lambda>c'. (snd w, c', rootHashOf c')) r))
        (applyBatchTree rd (sort_key u_path (map (updateOf s0) m)) (s, (emptyAcc (st_version s0 + 1))\<lparr>a_insertCTs := cts\<rparr>))"
      using cts(2) m(3) by (intro applyBatchTree_spec [OF s t own ver rd b _ us]) (simp add: cts_ok_def C)
    then show ?thesis
      using m(1) False cts(1)
      by (auto simp: computeBatch_def liftE_def andThen_def F Let_def u runs_def split: prod.splits sum.splits option.splits)
  qed
qed

end

section \<open>What a commit writes\<close>

lemma applyBatch_put:
  assumes "\<forall>op \<in> set ops. \<not> bo_delete op" "\<forall>op \<in> set ops. bo_key op = k \<longrightarrow> bo_value op = v" "k \<in> bo_key ` set ops"
  shows "applyBatch ops V k = Some v"
  using assms
proof (induction ops rule: rev_induct)
  case (snoc op ops)
  then show ?case by (cases "k \<in> bo_key ` set ops") (auto simp: applyBatch_snoc applyOp_def)
qed simp

lemma applyBatch_other: "k \<notin> bo_key ` set ops \<Longrightarrow> applyBatch ops V k = V k"
  by (induction ops rule: rev_induct) (auto simp: applyBatch_def applyOp_def)

text \<open>The five families of records keep apart, and each key names one record.\<close>

lemma record_keys [simp]:
  "nodeRecordKey nk \<noteq> valueRecordKey vh vv" "nodeRecordKey nk \<noteq> staleRecordKey v k" "nodeRecordKey nk \<noteq> rootRecordKey v"
  "nodeRecordKey nk \<noteq> checkpointRecordKey" "valueRecordKey vh vv \<noteq> staleRecordKey v k" "valueRecordKey vh vv \<noteq> rootRecordKey v"
  "valueRecordKey vh vv \<noteq> checkpointRecordKey" "staleRecordKey v k \<noteq> rootRecordKey w" "staleRecordKey v k \<noteq> checkpointRecordKey"
  "rootRecordKey v \<noteq> checkpointRecordKey"
  "valueRecordKey vh vv \<noteq> nodeRecordKey nk" "staleRecordKey v k \<noteq> nodeRecordKey nk" "rootRecordKey v \<noteq> nodeRecordKey nk"
  "checkpointRecordKey \<noteq> nodeRecordKey nk" "staleRecordKey v k \<noteq> valueRecordKey vh vv" "rootRecordKey v \<noteq> valueRecordKey vh vv"
  "checkpointRecordKey \<noteq> valueRecordKey vh vv" "rootRecordKey w \<noteq> staleRecordKey v k" "checkpointRecordKey \<noteq> staleRecordKey v k"
  "checkpointRecordKey \<noteq> rootRecordKey v"
  by (simp_all add: nodeRecordKey_def valueRecordKey_def staleRecordKey_def rootRecordKey_def checkpointRecordKey_def)

lemma record_key_inject:
  "wf_nodeKey nk \<Longrightarrow> wf_nodeKey nk' \<Longrightarrow> nodeRecordKey nk = nodeRecordKey nk' \<longleftrightarrow> nk = nk'"
  "is_hash vh \<Longrightarrow> is_hash vh' \<Longrightarrow> valueRecordKey vh vv = valueRecordKey vh' vv' \<longleftrightarrow> vh = vh' \<and> vv = vv'"
  "staleRecordKey v k = staleRecordKey v' k' \<longleftrightarrow> v = v' \<and> k = k'"
  "rootRecordKey v = rootRecordKey v' \<longleftrightarrow> v = v'"
  using encodeKey_inject
  by (auto simp: nodeRecordKey_def valueRecordKey_def staleRecordKey_def rootRecordKey_def is_hash_def)

lemma in_commitOps:
  "op \<in> set (commitOps acc root ckpt) \<longleftrightarrow>
     (\<exists>k nk n. (k, nk, n) \<in> set (a_pending acc) \<and> op = \<lparr>bo_key = nodeRecordKey nk, bo_value = encodeNode n, bo_delete = False\<rparr>) \<or>
     (\<exists>vh ct. (vh, ct) \<in> set (a_values acc) \<and> op = \<lparr>bo_key = valueRecordKey vh (a_newVersion acc), bo_value = ct, bo_delete = False\<rparr>) \<or>
     (\<exists>k \<in> set (a_stale acc). op = \<lparr>bo_key = staleRecordKey (a_newVersion acc) k, bo_value = [], bo_delete = False\<rparr>) \<or>
     op = \<lparr>bo_key = rootRecordKey (a_newVersion acc), bo_value = root, bo_delete = False\<rparr> \<or>
     op = \<lparr>bo_key = checkpointRecordKey, bo_value = ckpt, bo_delete = False\<rparr>"
  unfolding commitOps_def by (simp add: image_iff Bex_def split_paired_Ex) blast

text \<open>The backend after a commit, record by record.\<close>

lemma commitOps_puts: "\<forall>op \<in> set (commitOps acc root ckpt). \<not> bo_delete op"
  by (auto simp: in_commitOps)

lemma acc_ok_pending:
  assumes "acc_ok X acc" "(k, nk, n) \<in> set (a_pending acc)"
  shows "k = encodeKey nk \<and> wf_nodeKey nk \<and> nk_version nk = a_newVersion acc \<and> wf_node n \<and> map_of (a_pending acc) (encodeKey nk) = Some (nk, n)"
  using assms unfolding acc_ok_def by fastforce

lemma commit_view_node:
  assumes ok: "acc_ok X acc" and wf: "wf_nodeKey nk"
  shows "applyBatch (commitOps acc root ckpt) V (nodeRecordKey nk) =
       (if nk_version nk = a_newVersion acc
        then (case map_of (a_pending acc) (encodeKey nk) of Some (_, n) \<Rightarrow> Some (encodeNode n) | None \<Rightarrow> V (nodeRecordKey nk))
        else V (nodeRecordKey nk))"
proof (cases "map_of (a_pending acc) (encodeKey nk)")
  case None
  then have "(k, nk, n) \<notin> set (a_pending acc)" for k n using acc_ok_pending [OF ok, of k nk n] by auto
  then have "nodeRecordKey nk \<notin> bo_key ` set (commitOps acc root ckpt)"
    using record_key_inject(1) [OF wf] acc_ok_pending [OF ok] by (auto simp: in_commitOps) blast
  then show ?thesis using None applyBatch_other by simp
next
  case (Some e)
  obtain nk' n where e: "e = (nk', n)" by (cases e)
  have m: "(encodeKey nk, nk', n) \<in> set (a_pending acc)" using map_of_SomeD [OF Some] by (simp add: e)
  then have nk': "nk' = nk" "nk_version nk = a_newVersion acc"
    using acc_ok_pending [OF ok m] encodeKey_inject [OF wf, of nk'] by auto
  have "applyBatch (commitOps acc root ckpt) V (nodeRecordKey nk) = Some (encodeNode n)"
  proof (rule applyBatch_put [OF commitOps_puts])
    show "nodeRecordKey nk \<in> bo_key ` set (commitOps acc root ckpt)" using m nk' by (force simp: in_commitOps image_iff)
    show "\<forall>op \<in> set (commitOps acc root ckpt). bo_key op = nodeRecordKey nk \<longrightarrow> bo_value op = encodeNode n"
    proof (intro ballI impI)
      fix op assume op: "op \<in> set (commitOps acc root ckpt)" "bo_key op = nodeRecordKey nk"
      then obtain k nk2 n2 where o: "(k, nk2, n2) \<in> set (a_pending acc)" "op = \<lparr>bo_key = nodeRecordKey nk2, bo_value = encodeNode n2, bo_delete = False\<rparr>"
        by (auto simp: in_commitOps)
      note P = acc_ok_pending [OF ok o(1)]
      have "nk2 = nk" using record_key_inject(1) [of nk2 nk] P wf op(2) o(2) by simp
      then show "bo_value op = encodeNode n" using o(2) P Some e by simp
    qed
  qed
  then show ?thesis using Some e nk'(2) by simp
qed

lemma commit_view_value:
  assumes ok: "acc_ok X acc" and X: "\<And>p vh. (p, vh) \<in> X \<Longrightarrow> is_hash vh" and vh: "is_hash vh"
  shows "applyBatch (commitOps acc root ckpt) V (valueRecordKey vh vv) =
       (if vv = a_newVersion acc
        then (case map_of (a_values acc) vh of Some ct \<Rightarrow> Some ct | None \<Rightarrow> V (valueRecordKey vh vv)) else V (valueRecordKey vh vv))"
proof -
  let ?ops = "commitOps acc root ckpt"
  have dv: "distinct (map fst (a_values acc))" using ok by (simp add: acc_ok_def)
  have only: "vh' = vh \<and> a_newVersion acc = vv \<and> map_of (a_values acc) vh = Some ct'"
    if "(vh', ct') \<in> set (a_values acc)" "valueRecordKey vh' (a_newVersion acc) = valueRecordKey vh vv" for vh' ct'
  proof -
    have m: "map_of (a_values acc) vh' = Some ct'" using that(1) dv by simp
    then have "is_hash vh'" using acc_ok_values [OF ok] X by blast
    then show ?thesis using that(2) m record_key_inject(2) [OF _ vh] by auto
  qed
  show ?thesis
  proof (cases "vv = a_newVersion acc \<and> map_of (a_values acc) vh \<noteq> None")
    case True
    then obtain ct where ct: "map_of (a_values acc) vh = Some ct" by blast
    have "applyBatch ?ops V (valueRecordKey vh vv) = Some ct"
    proof (rule applyBatch_put [OF commitOps_puts])
      show "valueRecordKey vh vv \<in> bo_key ` set ?ops" using map_of_SomeD [OF ct] True by (force simp: in_commitOps image_iff)
      show "\<forall>op \<in> set ?ops. bo_key op = valueRecordKey vh vv \<longrightarrow> bo_value op = ct"
      proof (intro ballI impI)
        fix op assume "op \<in> set ?ops" "bo_key op = valueRecordKey vh vv"
        then obtain vh' ct' where "(vh', ct') \<in> set (a_values acc)" "valueRecordKey vh' (a_newVersion acc) = valueRecordKey vh vv" "bo_value op = ct'"
          by (auto simp: in_commitOps)
        then show "bo_value op = ct" using only ct by fastforce
      qed
    qed
    then show ?thesis using True ct by simp
  next
    case False
    have "valueRecordKey vh vv \<notin> bo_key ` set ?ops"
    proof
      assume "valueRecordKey vh vv \<in> bo_key ` set ?ops"
      then obtain vh' ct where "(vh', ct) \<in> set (a_values acc)" "valueRecordKey vh' (a_newVersion acc) = valueRecordKey vh vv"
        by (auto simp: in_commitOps)
      then show False using only False by blast
    qed
    then show ?thesis using False applyBatch_other by auto
  qed
qed

lemma commit_view_rest:
  "applyBatch (commitOps acc root ckpt) V (rootRecordKey w) = (if w = a_newVersion acc then Some root else V (rootRecordKey w))"
  "applyBatch (commitOps acc root ckpt) V (staleRecordKey v k) =
     (if v = a_newVersion acc \<and> k \<in> set (a_stale acc) then Some [] else V (staleRecordKey v k))"
  "applyBatch (commitOps acc root ckpt) V checkpointRecordKey = Some ckpt"
proof -
  let ?ops = "commitOps acc root ckpt"
  have hit: "applyBatch ?ops V k = Some v" if "\<lparr>bo_key = k, bo_value = v, bo_delete = False\<rparr> \<in> set ?ops"
    "\<forall>op \<in> set ?ops. bo_key op = k \<longrightarrow> bo_value op = v" for k v
    using applyBatch_put [OF commitOps_puts that(2)] imageI [OF that(1), of bo_key] by simp
  show "applyBatch ?ops V (rootRecordKey w) = (if w = a_newVersion acc then Some root else V (rootRecordKey w))"
  proof (cases "w = a_newVersion acc")
    case True
    then have "applyBatch ?ops V (rootRecordKey w) = Some root" by (intro hit) (auto simp: in_commitOps)
    then show ?thesis using True by simp
  next
    case False
    then have "rootRecordKey w \<notin> bo_key ` set ?ops" by (auto simp: in_commitOps record_key_inject)
    then show ?thesis using False applyBatch_other by simp
  qed
  show "applyBatch ?ops V (staleRecordKey v k) =
     (if v = a_newVersion acc \<and> k \<in> set (a_stale acc) then Some [] else V (staleRecordKey v k))"
  proof (cases "v = a_newVersion acc \<and> k \<in> set (a_stale acc)")
    case True
    then have "applyBatch ?ops V (staleRecordKey v k) = Some []" by (intro hit) (auto simp: in_commitOps)
    then show ?thesis using True by simp
  next
    case False
    then have "staleRecordKey v k \<notin> bo_key ` set ?ops" by (auto simp: in_commitOps record_key_inject)
    then show ?thesis using False applyBatch_other by auto
  qed
  show "applyBatch ?ops V checkpointRecordKey = Some ckpt" by (intro hit) (auto simp: in_commitOps)
qed

end
