(* ===== verification/Audit_Log.thy ===== *)
theory Audit_Log
  imports Commit
begin

text \<open>
  \<^verbatim>\<open>ledger/audit.go\<close>: the history chain (its head now and at a recorded version, and the walk that
  recomputes it over the root records) and the changes of one commit, extracted by a structural diff of
  two trees. The diff recurses once per level; the number of stack frames it may use is an argument, and
  running out of them is the runtime's stack overflow.
\<close>

section \<open>The history chain\<close>

definition HistoryEnabled :: "'b Store \<Rightarrow> bool" where
  "HistoryEnabled s = st_history s"

definition zeroHash :: hash where
  "zeroHash = replicate HashSize 0"

definition HistoryHead :: "'b Store \<Rightarrow> goerr + hash \<times> u64" where
  "HistoryHead s =
     (if \<not> st_history s then Inl (errInvalid ''history chain is not enabled on this store'')
      else Inr (st_historyHead s, st_version s))"

definition HistoryHeadAt :: "u64 \<Rightarrow> ('b Store, hash) io" where
  "HistoryHeadAt version s =
     (if \<not> st_history s then throw (errInvalid ''history chain is not enabled on this store'') s
      else if version = 0 then ret zeroHash s
      else andThen (GetAt version HistoryKey) (\<lambda>val.
             case val of
               None \<Rightarrow> throw (errCorrupted ''history head leaf missing or malformed at version %d'')
             | Some v \<Rightarrow>
                 if length v \<noteq> HashSize
                 then throw (errCorrupted ''history head leaf missing or malformed at version %d'')
                 else ret v) s)"

text \<open>The loop \<^verbatim>\<open>for v := fromVersion + 1; v <= s.version; v++\<close>; the counter wraps, so at the last
  64-bit version the loop does not end.\<close>

partial_function (option) historyLoop :: "u64 \<Rightarrow> hash \<Rightarrow> 'b Store \<Rightarrow> ((goerr + hash) \<times> 'b Store) option" where
  "historyLoop v head s =
     (if v \<le> st_version s
      then (case loadRootRecord (v - 1) s of
              (Inl e, s1) \<Rightarrow> Some (Inl (WrapErr ''history walk at version %d (pruned?)'' e), s1)
            | (Inr prevRoot, s1) \<Rightarrow> historyLoop (v + 1) (HistoryLink head prevRoot v) s1)
      else Some (Inr head, s))"

definition VerifyHistory :: "u64 \<Rightarrow> hash \<Rightarrow> 'b Store \<Rightarrow> ((goerr + unit) \<times> 'b Store) option" where
  "VerifyHistory fromVersion fromHead s =
     (if \<not> st_history s then Some (Inl (errInvalid ''history chain is not enabled on this store''), s)
      else if fromVersion > st_version s
      then Some (Inl (errInvalid ''version %d is in the future (current %d)''), s)
      else case historyLoop (fromVersion + 1) fromHead s of
             None \<Rightarrow> None
           | Some (Inl e, s1) \<Rightarrow> Some (Inl e, s1)
           | Some (Inr head, s1) \<Rightarrow>
               if head \<noteq> st_historyHead s1
               then Some (Inl (errCorrupted ''history chain mismatch: recorded roots from version %d do not produce the live head''), s1)
               else Some (Inr (), s1))"

section \<open>The changes of a commit\<close>

record Change =
  ch_Path :: hash
  ch_Value :: "bytes option"
  ch_Deleted :: bool

type_synonym leafTable = "(hash \<times> leafNode) list"

definition stackOverflow :: goerr where
  "stackOverflow = Panic ''stack overflow''"

definition diffLoad :: "child option \<Rightarrow> nat list \<Rightarrow> ('b Store, node option) io" where
  "diffLoad c prefix =
     (case c of
        None \<Rightarrow> ret None
      | Some c \<Rightarrow>
          andThen (loadNode \<lparr>nk_version = c_version c, nk_prefix = prefix\<rparr> (c_hash c)) (\<lambda>n. ret (Some n)))"

definition recordLeaf :: "node option \<Rightarrow> leafTable \<Rightarrow> leafTable" where
  "recordLeaf n out =
     (case n of Some (Leaf l) \<Rightarrow> AList.update (l_path l) l out | _ \<Rightarrow> out)"

definition internalOf :: "node option \<Rightarrow> child option list option" where
  "internalOf n = (case n of Some (Internal children) \<Rightarrow> Some children | _ \<Rightarrow> None)"

definition slotOf :: "child option list option \<Rightarrow> nat \<Rightarrow> child option" where
  "slotOf children nib = (case children of None \<Rightarrow> None | Some cs \<Rightarrow> cs ! nib)"

text \<open>The loop over the slots; \<open>diff\<close> is the recursive call on a slot.\<close>

fun diffSlots ::
  "(nat \<Rightarrow> leafTable \<times> leafTable \<Rightarrow> ('b Store, leafTable \<times> leafTable) io) \<Rightarrow> nat list \<Rightarrow>
   leafTable \<times> leafTable \<Rightarrow> ('b Store, leafTable \<times> leafTable) io"
where
  "diffSlots diff [] out = ret out"
| "diffSlots diff (nib # nibs) out = andThen (diff nib out) (\<lambda>out. diffSlots diff nibs out)"

fun diffChildren ::
  "nat \<Rightarrow> child option \<Rightarrow> child option \<Rightarrow> nat list \<Rightarrow> leafTable \<times> leafTable \<Rightarrow>
   ('b Store, leafTable \<times> leafTable) io"
where
  "diffChildren 0 a b prefix out = throw stackOverflow"
| "diffChildren (Suc stack) a b prefix (aOut, bOut) =
     (if a = None \<and> b = None then ret (aOut, bOut)
      else if a \<noteq> None \<and> b \<noteq> None \<and> c_hash (the a) = c_hash (the b) then ret (aOut, bOut)
      else andThen (diffLoad a prefix) (\<lambda>na.
           andThen (diffLoad b prefix) (\<lambda>nb.
             let ca = internalOf na; cb = internalOf nb;
                 out = (recordLeaf na aOut, recordLeaf nb bOut)
             in if ca = None \<and> cb = None then ret out
                else diffSlots (\<lambda>nib out. diffChildren stack (slotOf ca nib) (slotOf cb nib) (prefix @ [nib]) out)
                       slots out)))"

declare diffChildren.simps [simp del]

text \<open>The loop over \<^verbatim>\<open>newLeaves\<close>: unchanged values are skipped, changed ones read.\<close>

fun changedLeaves :: "hash \<Rightarrow> leafTable \<Rightarrow> leafTable \<Rightarrow> Change list \<Rightarrow> ('b Store, Change list) io" where
  "changedLeaves historyPath oldLeaves [] out = ret out"
| "changedLeaves historyPath oldLeaves ((path, leaf) # ls) out =
     (if path = historyPath then changedLeaves historyPath oldLeaves ls out
      else if (case map_of oldLeaves path of None \<Rightarrow> False | Some old \<Rightarrow> l_vh old = l_vh leaf)
      then changedLeaves historyPath oldLeaves ls out
      else andThen (readValue (l_path leaf) (l_vh leaf) (l_valueVersion leaf)) (\<lambda>value.
             changedLeaves historyPath oldLeaves ls
               (out @ [\<lparr>ch_Path = path, ch_Value = Some value, ch_Deleted = False\<rparr>])))"

definition deletedLeaves :: "hash \<Rightarrow> leafTable \<Rightarrow> leafTable \<Rightarrow> Change list" where
  "deletedLeaves historyPath oldLeaves newLeaves =
     map (\<lambda>(path, leaf). \<lparr>ch_Path = path, ch_Value = None, ch_Deleted = True\<rparr>)
       (filter (\<lambda>(path, leaf). path \<noteq> historyPath \<and> map_of newLeaves path = None) oldLeaves)"

definition ChangesAt :: "nat \<Rightarrow> u64 \<Rightarrow> ('b Store, Change list) io" where
  "ChangesAt stack version s =
     (if version = 0 \<or> version > st_version s
      then throw (errInvalid ''version %d out of range (current %d)'') s
      else andThen (loadRootRecord (version - 1)) (\<lambda>oldRoot.
           andThen (loadRootRecord version) (\<lambda>newRoot.
           andThen (loadRootChild oldRoot (version - 1)) (\<lambda>oldChild.
           andThen (loadRootChild newRoot version) (\<lambda>newChild.
           andThen (diffChildren stack oldChild newChild [] ([], [])) (\<lambda>(oldLeaves, newLeaves).
           let historyPath = pathOf s HistoryKey
           in andThen (changedLeaves historyPath oldLeaves newLeaves []) (\<lambda>out.
              ret (sort_key ch_Path (out @ deletedLeaves historyPath oldLeaves newLeaves)))))))) s)"

end
