(* ===== verification/Store_Inv.thy ===== *)
theory Store_Inv
  imports Batch_Inv Audit_Log
begin

text \<open>
  The invariant of a store over an honest backend, across versions: every retained version is a complete
  tree whose value records open to the ledger's content at that version, nothing is newer than the store,
  and no record that the stale index lists is needed by a version at or after its entry. \<open>commit_inv\<close>
  shows that a commit extends it by one version; \<open>PutBatch_spec\<close> that \<^verbatim>\<open>PutBatch\<close> implements the
  abstract history of maps, with backend errors leaving the store as it was.
\<close>

section \<open>The invariant of a store\<close>

text \<open>
  What a retained version consists of: the reference to its root, its leaves and its node records. The
  maps \<open>H\<close> below give the plaintext content of each version by path: the history of the ledger.
\<close>

record version =
  vr_child :: "child option"
  vr_leaves :: leafMap
  vr_nodes :: "nodeKey set"

definition version_ok :: "(bytes \<rightharpoonup> bytes) \<Rightarrow> 'b Store \<Rightarrow> u64 \<Rightarrow> (hash \<rightharpoonup> bytes) \<Rightarrow> version \<Rightarrow> bool" where
  "version_ok V s w D r \<longleftrightarrow>
     V (rootRecordKey w) = Some (rootHashOf (vr_child r)) \<and>
     tree_at (nodeAt V) w [] (vr_child r) (vr_leaves r) (vr_nodes r) \<and>
     (\<forall>c. vr_child r = Some c \<longrightarrow> c_version c = w) \<and>
     vals_open s V (vr_leaves r) D \<and> own_vals (vr_leaves r)"

text \<open>The node and value records that a version needs.\<close>

definition live_keys :: "version \<Rightarrow> bytes set" where
  "live_keys r = nodeRecordKey ` vr_nodes r \<union> {valueRecordKey vh vv |vh vv. (vh, vv) \<in> ran (vr_leaves r)}"

text \<open>A node or value record written before a version.\<close>

definition before :: "u64 \<Rightarrow> bytes \<Rightarrow> bool" where
  "before v k \<longleftrightarrow>
     (\<exists>nk. wf_nodeKey nk \<and> k = nodeRecordKey nk \<and> nk_version nk < v) \<or>
     (\<exists>vh vv. is_hash vh \<and> k = valueRecordKey vh vv \<and> vv < v)"

definition stale_ok :: "(bytes \<rightharpoonup> bytes) \<Rightarrow> u64 \<Rightarrow> u64 \<Rightarrow> (u64 \<Rightarrow> version) \<Rightarrow> bool" where
  "stale_ok V lo ver R \<longleftrightarrow>
     (\<forall>t. V (recStale # t) \<noteq> None \<longrightarrow> 8 \<le> length t) \<and>
     (\<forall>since k. V (staleRecordKey since k) \<noteq> None \<longrightarrow>
        since \<le> ver \<and> before since k \<and> (\<forall>w. since \<le> w \<longrightarrow> lo \<le> w \<longrightarrow> w \<le> ver \<longrightarrow> k \<notin> live_keys (R w)))"

text \<open>
  The store at version \<open>st_version s\<close> with every version from \<open>lo\<close> on intact: no node record is newer
  than the store, and what the stale index lists is not needed by any version at or after its entry.
\<close>

definition store_inv :: "(bytes \<rightharpoonup> bytes) \<Rightarrow> 'b Store \<Rightarrow> (u64 \<Rightarrow> hash \<rightharpoonup> bytes) \<Rightarrow> (u64 \<Rightarrow> version) \<Rightarrow> u64 \<Rightarrow> bool" where
  "store_inv V s H R lo \<longleftrightarrow>
     lo \<le> st_version s \<and>
     (\<forall>w. lo \<le> w \<longrightarrow> w \<le> st_version s \<longrightarrow> version_ok V s w (H w) (R w)) \<and>
     st_rootChild s = vr_child (R (st_version s)) \<and> st_root s = rootHashOf (st_rootChild s) \<and>
     (\<forall>nk. wf_nodeKey nk \<longrightarrow> st_version s < nk_version nk \<longrightarrow> V (nodeRecordKey nk) = None) \<and>
     stale_ok V lo (st_version s) R"

lemma store_invD:
  assumes "store_inv V s H R lo"
  shows "lo \<le> st_version s" "lo \<le> w \<Longrightarrow> w \<le> st_version s \<Longrightarrow> version_ok V s w (H w) (R w)"
    "st_rootChild s = vr_child (R (st_version s))" "st_root s = rootHashOf (st_rootChild s)"
    "wf_nodeKey nk \<Longrightarrow> st_version s < nk_version nk \<Longrightarrow> V (nodeRecordKey nk) = None"
    "stale_ok V lo (st_version s) R"
  using assms unfolding store_inv_def by blast+

lemma version_okD:
  assumes "version_ok V s w D r"
  shows "V (rootRecordKey w) = Some (rootHashOf (vr_child r))"
    "tree_at (nodeAt V) w [] (vr_child r) (vr_leaves r) (vr_nodes r)"
    "vr_child r = Some c \<Longrightarrow> c_version c = w" "vals_open s V (vr_leaves r) D" "own_vals (vr_leaves r)"
  using assms unfolding version_ok_def by blast+

lemma version_nodes:
  assumes "version_ok V s w D r" "nk \<in> vr_nodes r"
  shows "wf_nodeKey nk" "nk_version nk \<le> w"
proof -
  note K = tree_at_keys [OF version_okD(2) [OF assms(1)] assms(2)]
  then show "nk_version nk \<le> w" by blast
  show "wf_nodeKey nk" using K by (auto simp: nodeAt_def split: if_splits)
qed

lemma version_leaves:
  assumes "version_ok V s w D r" "vr_leaves r p = Some (vh, vv)"
  shows "is_hash vh" "vv \<le> w"
  using tree_at_vv [OF version_okD(2) [OF assms(1)] assms(2)] by blast+

text \<open>A version depends on its own records only.\<close>

lemma version_ok_frame:
  assumes v: "version_ok V s w D r" and root: "V' (rootRecordKey w) = V (rootRecordKey w)"
    and live: "\<And>k. k \<in> live_keys r \<Longrightarrow> V' k = V k" and keys: "st_ck s' = st_ck s" "st_cipher s' = st_cipher s"
  shows "version_ok V' s' w D r"
proof -
  note D = version_okD [OF v]
  have "nodeAt V' nk = nodeAt V nk" if "nk \<in> vr_nodes r" for nk
    using live [of "nodeRecordKey nk"] that by (simp add: nodeAt_def live_keys_def)
  then have "tree_at (nodeAt V') w [] (vr_child r) (vr_leaves r) (vr_nodes r)"
    by (intro tree_at_cong [OF D(2)]) auto
  moreover have "vals_open s' V' (vr_leaves r) D"
  proof -
    have "V' (valueRecordKey vh vv) = V (valueRecordKey vh vv)" if "vr_leaves r p = Some (vh, vv)" for p vh vv
      using live [of "valueRecordKey vh vv"] that unfolding live_keys_def by (auto simp: ran_def)
    then show ?thesis using D(4) commitments_cong [OF keys] unfolding vals_open_def by metis
  qed
  ultimately show ?thesis using D root unfolding version_ok_def by auto
qed

lemma is_hash_rootHashOf: "tree_at L m pre c M N \<Longrightarrow> is_hash (rootHashOf c)"
  using is_smt_hash tree_at_smt by blast

lemma nodeAt_commit:
  assumes ok: "acc_ok X acc" and new: "\<forall>nk. wf_nodeKey nk \<longrightarrow> nk_version nk = a_newVersion acc \<longrightarrow> V (nodeRecordKey nk) = None"
  shows "nodeAt (applyBatch (commitOps acc root ckpt) V) = lookupNode V acc"
proof
  fix nk
  show "nodeAt (applyBatch (commitOps acc root ckpt) V) nk = lookupNode V acc nk"
  proof (cases "wf_nodeKey nk \<and> nk_version nk = a_newVersion acc")
    case True
    show ?thesis
    proof (cases "map_of (a_pending acc) (encodeKey nk)")
      case None
      then show ?thesis using True commit_view_node [OF ok, of nk root ckpt V] new by (simp add: nodeAt_def lookupNode_def)
    next
      case (Some e)
      obtain nk' n where e: "e = (nk', n)" by (cases e)
      have "wf_node n" using acc_ok_pending [OF ok map_of_SomeD [OF Some [unfolded e]]] by blast
      then show ?thesis
        using True Some commit_view_node [OF ok, of nk root ckpt V] decodeNode_encodeNode by (simp add: nodeAt_def lookupNode_def e)
    qed
  next
    case False
    then show ?thesis using commit_view_node [OF ok, of nk root ckpt V] by (auto simp: nodeAt_def lookupNode_def)
  qed
qed

section \<open>The version a commit makes\<close>

lemma new_vals_open:
  assumes p: "pass_ok V (insertsOf s m) c M N c' (newLeaves s nv M m) N' acc" and nv: "a_newVersion acc = nv"
    and cts: "cts_ok s m (map_of (a_insertCTs acc))" and nc: "no_clash s D m"
    and D: "vals_open s V M D" and M: "\<And>p vh vv. M p = Some (vh, vv) \<Longrightarrow> is_hash vh \<and> vv \<noteq> nv"
  shows "vals_open s (applyBatch (commitOps acc root ckpt) V) (newLeaves s nv M m) (putMap D m)"
  unfolding vals_open_def
proof (intro conjI allI impI)
  have st: "settled V (insertsOf s m) {[]} N' (newLeaves s nv M m) acc" using p by (simp add: pass_ok_def)
  then have ok: "acc_ok (insertsOf s m) acc" by (simp add: settled_def)
  have X: "is_hash vh" if "(p, vh) \<in> insertsOf s m" for p vh using that by (auto simp: insertsOf_def)
  have view: "applyBatch (commitOps acc root ckpt) V (valueRecordKey vh vv) =
      (if vv = a_newVersion acc
       then (case map_of (a_values acc) vh of Some ct \<Rightarrow> Some ct | None \<Rightarrow> V (valueRecordKey vh vv)) else V (valueRecordKey vh vv))"
    if "is_hash vh" for vh vv by (rule commit_view_value [OF ok _ that]) (rule X)
  have domD: "D p = None \<longleftrightarrow> M p = None" for p using D domIff unfolding vals_open_def by (metis domIff)
  have "putMap D m p = None \<longleftrightarrow> newLeaves s nv M m p = None" for p
    using domD [of p] by (auto simp: putMap_def newLeaves_def updEntry_def split: option.splits)
  then show "dom (putMap D m) = dom (newLeaves s nv M m)" by (intro set_eqI) (simp only: domIff)
  fix p vh vv assume a: "newLeaves s nv M m p = Some (vh, vv)"
  show "\<exists>ct pt. applyBatch (commitOps acc root ckpt) V (valueRecordKey vh vv) = Some ct \<and> openValue s p ct = Inr pt \<and>
      vhOf s p pt = vh \<and> putMap D m p = Some pt"
  proof (cases "vv = nv")
    case True
    then have x: "vh \<in> dom (map_of (a_values acc))" "(p, vh) \<in> insertsOf s m" using st a nv by (auto simp: settled_def)
    then obtain ct where ct: "map_of (a_values acc) vh = Some ct" by blast
    obtain q where q: "(q, vh) \<in> insertsOf s m" "map_of (a_insertCTs acc) q = Some ct" using acc_ok_values [OF ok ct] by blast
    have "q = p" by (rule insertsOf_inj [OF nc q(1) x(2)])
    obtain v where v: "m p = Some (Some v)" "vh = vhOf s p v" using x(2) by (auto simp: insertsOf_def)
    have "openValue s p ct = Inr v" using cts v(1) q(2) \<open>q = p\<close> unfolding cts_ok_def by fastforce
    then show ?thesis using view [OF X [OF x(2)], of vv] ct True nv v by (auto simp: putMap_def)
  next
    case False
    have old: "M p = Some (vh, vv)" using p a False nv by (auto simp: pass_ok_def)
    then obtain ct pt where o: "V (valueRecordKey vh vv) = Some ct" "openValue s p ct = Inr pt" "vhOf s p pt = vh" "D p = Some pt"
      using D unfolding vals_open_def by blast
    have "putMap D m p = Some pt"
    proof (cases "m p")
      case (Some x)
      then obtain v where v: "x = Some v" "vh = vhOf s p v"
        using a old False by (cases x) (auto simp: newLeaves_def updEntry_def split: if_splits)
      then have "v = pt" using nc Some o(3,4) unfolding no_clash_def by metis
      then show ?thesis using Some v by (simp add: putMap_def)
    qed (simp add: putMap_def o)
    then show ?thesis using view [of vh vv] M [OF old] False nv o by auto
  qed
qed

lemma new_own_vals:
  assumes p: "pass_ok V X c M N c' M' N' acc" and own: "own_vals M" and inj: "\<And>p q vh. (p, vh) \<in> X \<Longrightarrow> (q, vh) \<in> X \<Longrightarrow> p = q"
  shows "own_vals M'"
  unfolding own_vals_def
proof (intro allI impI)
  fix p q e assume a: "M' p = Some e" "M' q = Some e"
  obtain vh vv where e: "e = (vh, vv)" by (cases e)
  show "p = q"
  proof (cases "vv = a_newVersion acc")
    case True
    then have "(p, vh) \<in> X" "(q, vh) \<in> X" using p a by (auto simp: pass_ok_def settled_def e)
    then show ?thesis by (rule inj)
  next
    case False
    then have "M p = Some e" "M q = Some e" using p a unfolding pass_ok_def e by blast+
    then show ?thesis using own unfolding own_vals_def by blast
  qed
qed

lemma before_not_live:
  assumes "before v k" "k \<in> live_keys \<lparr>vr_child = c, vr_leaves = M, vr_nodes = N\<rparr>"
    "\<And>nk. nk \<in> N \<Longrightarrow> wf_nodeKey nk" "\<And>p vh vv. M p = Some (vh, vv) \<Longrightarrow> is_hash vh"
  shows "(\<exists>nk \<in> N. k = nodeRecordKey nk \<and> nk_version nk < v) \<or>
    (\<exists>vh vv. (vh, vv) \<in> ran M \<and> k = valueRecordKey vh vv \<and> vv < v)"
proof -
  from assms(2) consider (node) nk where "nk \<in> N" "k = nodeRecordKey nk"
    | (val) vh vv where "(vh, vv) \<in> ran M" "k = valueRecordKey vh vv"
    by (auto simp: live_keys_def)
  then show ?thesis
  proof cases
    case node
    then show ?thesis using assms(1) assms(3) [OF node(1)] record_key_inject(1) by (auto simp: before_def)
  next
    case val
    then have "is_hash vh" using assms(4) by (auto simp: ran_def)
    then have "vv < v" using assms(1) val record_key_inject(2) by (auto simp: before_def)
    then show ?thesis using val by blast
  qed
qed

text \<open>What a commit marks stale is gone from the new version, and nothing marked before comes back.\<close>

lemma stale_ok_commit:
  assumes so: "stale_ok V lo ver R" and nv: "nv = ver + 1" "ver < nv" and lo: "lo \<le> ver"
    and old: "\<And>nk. nk \<in> vr_nodes (R ver) \<Longrightarrow> wf_nodeKey nk \<and> nk_version nk \<le> ver"
      "\<And>p vh vv. vr_leaves (R ver) p = Some (vh, vv) \<Longrightarrow> is_hash vh \<and> vv \<le> ver"
    and new: "\<And>nk. nk \<in> N' \<Longrightarrow> wf_nodeKey nk \<and> (nk_version nk = nv \<or> nk \<in> vr_nodes (R ver))"
      "\<And>p vh vv. M' p = Some (vh, vv) \<Longrightarrow> is_hash vh \<and> (vv \<noteq> nv \<longrightarrow> vr_leaves (R ver) p = Some (vh, vv))"
    and V': "\<And>v k. V' (staleRecordKey v k) =
      (if v = nv \<and> k \<in> staleSet nv (vr_nodes (R ver)) (vr_leaves (R ver)) N' M' then Some [] else V (staleRecordKey v k))"
    and len: "\<forall>t. V' (recStale # t) \<noteq> None \<longrightarrow> 8 \<le> length t"
  shows "stale_ok V' lo nv (R(nv := \<lparr>vr_child = c', vr_leaves = M', vr_nodes = N'\<rparr>))"
  unfolding stale_ok_def
proof (rule conjI [OF len], intro allI impI)
  fix since k assume a: "V' (staleRecordKey since k) \<noteq> None"
  let ?R = "R(nv := \<lparr>vr_child = c', vr_leaves = M', vr_nodes = N'\<rparr>)"
  have wf': "wf_nodeKey nk" if "nk \<in> N'" for nk using new(1) that by blast
  have h': "is_hash vh" if "M' p = Some (vh, vv)" for p vh vv using new(2) that by blast
  show "since \<le> nv \<and> before since k \<and> (\<forall>w. since \<le> w \<longrightarrow> lo \<le> w \<longrightarrow> w \<le> nv \<longrightarrow> k \<notin> live_keys (?R w))"
  proof (cases "since = nv \<and> k \<in> staleSet nv (vr_nodes (R ver)) (vr_leaves (R ver)) N' M'")
    case True
    have b: "before nv k"
      using True old nv(2) unfolding staleSet_def before_def by (fastforce simp: ran_def)
    have "k \<notin> live_keys \<lparr>vr_child = c', vr_leaves = M', vr_nodes = N'\<rparr>"
    proof
      assume l: "k \<in> live_keys \<lparr>vr_child = c', vr_leaves = M', vr_nodes = N'\<rparr>"
      from before_not_live [OF b l wf' h'] show False
      proof
        assume "\<exists>nk \<in> N'. k = nodeRecordKey nk \<and> nk_version nk < nv"
        then show False using True old(1) wf' record_key_inject(1) unfolding staleSet_def by auto
      next
        assume "\<exists>vh vv. (vh, vv) \<in> ran M' \<and> k = valueRecordKey vh vv \<and> vv < nv"
        then obtain vh vv where v: "(vh, vv) \<in> ran M'" "k = valueRecordKey vh vv" by blast
        then obtain vh' vv' where v': "(vh', vv') \<in> ran (vr_leaves (R ver))" "(vh', vv') \<notin> ran M'" "k = valueRecordKey vh' vv'"
          using True unfolding staleSet_def by auto
        have "is_hash vh" "is_hash vh'" using v(1) v'(1) h' old(2) by (auto simp: ran_def)
        then show False using v v' record_key_inject(2) by auto
      qed
    qed
    moreover have "w = nv" if "since \<le> w" "w \<le> nv" for w using True that by simp
    ultimately show ?thesis using True b by auto
  next
    case False
    then have "V (staleRecordKey since k) \<noteq> None" using a V' by (auto split: if_splits)
    then have o: "since \<le> ver" "before since k" "\<And>w. since \<le> w \<Longrightarrow> lo \<le> w \<Longrightarrow> w \<le> ver \<Longrightarrow> k \<notin> live_keys (R w)"
      using so unfolding stale_ok_def by blast+
    have "k \<notin> live_keys \<lparr>vr_child = c', vr_leaves = M', vr_nodes = N'\<rparr>"
    proof
      assume l: "k \<in> live_keys \<lparr>vr_child = c', vr_leaves = M', vr_nodes = N'\<rparr>"
      have "k \<in> live_keys (R ver)"
        using before_not_live [OF o(2) l wf' h']
      proof
        assume "\<exists>nk \<in> N'. k = nodeRecordKey nk \<and> nk_version nk < since"
        then show ?thesis using new(1) o(1) nv(2) by (fastforce simp: live_keys_def)
      next
        assume "\<exists>vh vv. (vh, vv) \<in> ran M' \<and> k = valueRecordKey vh vv \<and> vv < since"
        then obtain vh vv p where "M' p = Some (vh, vv)" "k = valueRecordKey vh vv" "vv < since" by (auto simp: ran_def)
        moreover from this have "vr_leaves (R ver) p = Some (vh, vv)" using new(2) o(1) nv(2) by fastforce
        ultimately show ?thesis by (auto simp: live_keys_def ran_def)
      qed
      then show False using o(1,3) lo by blast
    qed
    moreover have "w \<le> ver" if "w \<le> nv" "w \<noteq> nv" for w
      using that nv by (metis inc_le linorder_not_less order_le_less add.commute)
    ultimately show ?thesis using o nv(2) by (auto intro: order_trans less_imp_le)
  qed
qed

section \<open>The commit keeps the invariant\<close>

lemmas record_key_defs = nodeRecordKey_def valueRecordKey_def staleRecordKey_def rootRecordKey_def checkpointRecordKey_def

lemma word_below_next: "(w :: u64) \<le> ver + 1 \<Longrightarrow> w \<noteq> ver + 1 \<Longrightarrow> ver < ver + 1 \<Longrightarrow> w \<le> ver"
  by (metis inc_le linorder_not_less order_le_less add.commute)

lemma commit_inv:
  assumes inv: "store_inv V s H R lo" and nv: "nv = st_version s + 1" "st_version s < nv"
    and rdy: "commit_ready V s (st_rootChild s) (vr_leaves (R (st_version s))) (vr_nodes (R (st_version s))) m acc c' N'" "a_newVersion acc = nv"
    and nc: "no_clash s (H (st_version s)) m"
    and s': "st_version s' = nv" "st_rootChild s' = c'" "st_root s' = rootHashOf c'" "st_ck s' = st_ck s" "st_cipher s' = st_cipher s"
  shows "store_inv (applyBatch (commitOps acc (rootHashOf c') ckpt) V) s' (H(nv := putMap (H (st_version s)) m))
     (R(nv := \<lparr>vr_child = c', vr_leaves = newLeaves s nv (vr_leaves (R (st_version s))) m, vr_nodes = N'\<rparr>)) lo"
proof -
  let ?ver = "st_version s" and ?V = "applyBatch (commitOps acc (rootHashOf c') ckpt) V"
  let ?M = "vr_leaves (R (st_version s))" and ?N = "vr_nodes (R (st_version s))" and ?M' = "newLeaves s nv (vr_leaves (R (st_version s))) m"
  note I = store_invD [OF inv]
  have v: "version_ok V s ?ver (H ?ver) (R ?ver)" using I(1,2) by simp
  have p: "pass_ok V (insertsOf s m) (st_rootChild s) ?M ?N c' ?M' N' acc" "\<forall>c''. c' = Some c'' \<longrightarrow> c_version c'' = nv"
    "cts_ok s m (map_of (a_insertCTs acc))" using rdy by (auto simp: commit_ready_def)
  have ok: "acc_ok (insertsOf s m) acc" using p(1) by (simp add: pass_ok_def settled_def)
  have X: "is_hash vh" if "(q, vh) \<in> insertsOf s m" for q vh using that by (auto simp: insertsOf_def)
  have at: "nodeAt ?V = lookupNode V acc" using I(5) nv rdy(2) by (intro nodeAt_commit [OF ok]) simp
  have t: "tree_at (nodeAt ?V) nv [] c' ?M' N'" using p(1) rdy(2) by (simp add: at pass_ok_def)
  have new: "version_ok ?V s' nv (putMap (H ?ver) m) \<lparr>vr_child = c', vr_leaves = ?M', vr_nodes = N'\<rparr>"
    unfolding version_ok_def
  proof (intro conjI)
    have "vals_open s ?V ?M' (putMap (H ?ver) m)"
      using version_leaves [OF v] nv(2) by (intro new_vals_open [OF p(1) rdy(2) p(3) nc version_okD(4) [OF v]]) fastforce
    then show "vals_open s' ?V (vr_leaves \<lparr>vr_child = c', vr_leaves = ?M', vr_nodes = N'\<rparr>) (putMap (H ?ver) m)"
      by (simp add: vals_open_def commitments_cong [OF s'(4,5)])
    show "own_vals (vr_leaves \<lparr>vr_child = c', vr_leaves = ?M', vr_nodes = N'\<rparr>)"
      using new_own_vals [OF p(1) version_okD(5) [OF v] insertsOf_inj [OF nc]] by simp
  qed (use t p(2) rdy(2) in \<open>simp_all add: commit_view_rest\<close>)
  have oldv: "version_ok ?V s' w (H w) (R w)" if w: "lo \<le> w" "w \<le> ?ver" for w
  proof (rule version_ok_frame [OF I(2) [OF w]])
    show "?V (rootRecordKey w) = V (rootRecordKey w)" using w nv rdy(2) by (auto simp: commit_view_rest)
    show "?V k = V k" if k: "k \<in> live_keys (R w)" for k
    proof -
      from k consider (node) nk where "nk \<in> vr_nodes (R w)" "k = nodeRecordKey nk"
        | (val) q vh vv where "vr_leaves (R w) q = Some (vh, vv)" "k = valueRecordKey vh vv" by (auto simp: live_keys_def ran_def)
      then show ?thesis
      proof cases
        case node
        then show ?thesis using version_nodes [OF I(2) [OF w] node(1)] w(2) nv rdy(2) by (auto simp: commit_view_node [OF ok])
      next
        case val
        note L = version_leaves [OF I(2) [OF w] val(1)]
        have "vv \<noteq> a_newVersion acc" using L(2) w(2) nv(2) rdy(2) by auto
        then show ?thesis using commit_view_value [OF ok X L(1), where vv = vv and V = V and root = "rootHashOf c'" and ckpt = ckpt] val(2) by simp
      qed
    qed
  qed (use s' in simp_all)
  show ?thesis
    unfolding store_inv_def s'(1)
  proof (intro conjI allI impI)
    show "lo \<le> nv" using I(1) nv(2) by simp
    fix w assume w: "lo \<le> w" "w \<le> nv"
    show "version_ok ?V s' w ((H(nv := putMap (H ?ver) m)) w) ((R(nv := \<lparr>vr_child = c', vr_leaves = ?M', vr_nodes = N'\<rparr>)) w)"
    proof (cases "w = nv")
      case False
      then have "w \<le> ?ver" using w(2) nv word_below_next by blast
      then show ?thesis using oldv w(1) False by simp
    qed (use new in simp)
  next
    fix nk assume "wf_nodeKey nk" "nv < nk_version nk"
    then show "?V (nodeRecordKey nk) = None" using I(5) nv(2) rdy(2) by (auto simp: commit_view_node [OF ok])
  next
    show "stale_ok ?V lo nv (R(nv := \<lparr>vr_child = c', vr_leaves = ?M', vr_nodes = N'\<rparr>))"
    proof (rule stale_ok_commit [OF I(6) nv I(1)])
      show "wf_nodeKey nk \<and> (nk_version nk = nv \<or> nk \<in> ?N)" if "nk \<in> N'" for nk
        using that p(1) rdy(2) version_nodes(1) [OF new, of nk] by (auto simp: pass_ok_def)
      show "is_hash vh \<and> (vv \<noteq> nv \<longrightarrow> ?M q = Some (vh, vv))" if "?M' q = Some (vh, vv)" for q vh vv
        using that p(1) rdy(2) version_leaves(1) [OF new, of q vh vv] by (auto simp: pass_ok_def)
      show "?V (staleRecordKey v k) = (if v = nv \<and> k \<in> staleSet nv ?N ?M N' ?M' then Some [] else V (staleRecordKey v k))" for v k
        using p(1) rdy(2) by (simp add: commit_view_rest pass_ok_def)
      show "\<forall>t. ?V (recStale # t) \<noteq> None \<longrightarrow> 8 \<le> length t"
      proof (intro allI impI)
        fix t assume a: "?V (recStale # t) \<noteq> None"
        show "8 \<le> length t"
        proof (cases "recStale # t \<in> bo_key ` set (commitOps acc (rootHashOf c') ckpt)")
          case True
          then obtain k where "recStale # t = staleRecordKey (a_newVersion acc) k" by (auto simp: in_commitOps record_key_defs)
          then show ?thesis by (simp add: staleRecordKey_def)
        next
          case False
          then show ?thesis using a I(6) by (simp add: applyBatch_other stale_ok_def)
        qed
      qed
    qed (use version_nodes [OF v] version_leaves [OF v] in auto)
  qed (use s' in simp_all)
qed

section \<open>The checkpoint and the cache\<close>

definition ckpt_ok :: "(bytes \<rightharpoonup> bytes) \<Rightarrow> 'b Store \<Rightarrow> bool" where
  "ckpt_ok V s \<longleftrightarrow>
     (\<exists>rec. V checkpointRecordKey = Some rec \<and>
        openCheckpoint s rec = Inr (st_root s, st_version s, if st_history s then ckptFlagHistory else 0))"

lemma checkpointPayload_of: "is_hash root \<Longrightarrow> checkpointPayload (root @ putUint64 v @ [flags]) = Inr (root, v, flags)"
  by (simp add: checkpointPayload_def is_hash_def nth_append)

lemma sealCheckpoint_open:
  assumes "good_rand rd" "is_hash root"
  shows "\<exists>rec. sealCheckpoint s (rd c) root v = Inr rec \<and>
     openCheckpoint s rec = Inr (root, v, if st_history s then ckptFlagHistory else 0)"
proof -
  obtain nonce where n: "rd c = Some nonce" "length nonce = 12" using assms by (auto simp: good_rand_def)
  show ?thesis
  proof (cases "st_cipher s")
    case None
    then show ?thesis
      using assms(2) checkpointPayload_of [OF assms(2)] by (simp add: sealCheckpoint_def openCheckpoint_def Let_def is_hash_def)
  next
    case (Some a)
    let ?p = "root @ putUint64 v @ [if st_history s then ckptFlagHistory else 0]"
    obtain ct where ct: "encrypt a (Some nonce) ?p checkpointAAD = Inr ct" by (simp add: encrypt_def)
    then show ?thesis
      using Some n decrypt_encrypt [OF n(2) ct] checkpointPayload_of [OF assms(2)] by (auto simp: sealCheckpoint_def openCheckpoint_def)
  qed
qed

lemma checkpoint_cong:
  assumes "st_cipher s' = st_cipher s" "st_ckptMAC s' = st_ckptMAC s" "st_history s' = st_history s"
  shows "openCheckpoint s' = openCheckpoint s" "sealCheckpoint s' = sealCheckpoint s"
  unfolding openCheckpoint_def [abs_def] sealCheckpoint_def [abs_def] assms by simp_all

lemma warmCache_ok:
  assumes "cache_ok c" "coherent V c" "\<forall>(k, nk, n) \<in> set pending. nodeAt V nk = Some n"
  shows "cache_ok (warmCache pending c) \<and> coherent V (warmCache pending c)"
  using assms
proof (induction pending arbitrary: c)
  case (Cons e pending)
  obtain k nk n where e: "e = (k, nk, n)" by (cases e)
  have "cache_ok (cachePut nk n c)" using cachePut_spec [OF Cons.prems(1)] by blast
  moreover have "coherent V (cachePut nk n c)" using Cons.prems e by (intro coherent_put) auto
  ultimately show ?case using Cons.IH [of "cachePut nk n c"] Cons.prems(3) by (auto simp: warmCache_def e)
qed (simp add: warmCache_def)

lemma coherent_commit:
  assumes ok: "acc_ok X acc" and c: "coherent V c"
    and new: "\<forall>nk. wf_nodeKey nk \<longrightarrow> nk_version nk = a_newVersion acc \<longrightarrow> V (nodeRecordKey nk) = None"
  shows "coherent (applyBatch (commitOps acc root ckpt) V) c"
  unfolding coherent_def
proof (intro allI impI)
  fix k n assume "cached c k = Some n"
  then obtain nk where nk: "wf_nodeKey nk" "k = encodeKey nk" "nodeAt V nk = Some n" using c unfolding coherent_def by blast
  moreover have "nk_version nk \<noteq> a_newVersion acc" using nk(1,3) new by (auto simp: nodeAt_def)
  ultimately show "\<exists>nk. wf_nodeKey nk \<and> k = encodeKey nk \<and> nodeAt (applyBatch (commitOps acc root ckpt) V) nk = Some n"
    using nodeAt_commit [OF ok new] by (auto simp: lookupNode_def)
qed

lemma pending_commit:
  assumes ok: "acc_ok X acc"
    and new: "\<forall>nk. wf_nodeKey nk \<longrightarrow> nk_version nk = a_newVersion acc \<longrightarrow> V (nodeRecordKey nk) = None"
  shows "\<forall>(k, nk, n) \<in> set (a_pending acc). nodeAt (applyBatch (commitOps acc root ckpt) V) nk = Some n"
proof clarify
  fix k nk n assume "(k, nk, n) \<in> set (a_pending acc)"
  note P = acc_ok_pending [OF ok this]
  then show "nodeAt (applyBatch (commitOps acc root ckpt) V) nk = Some n" by (simp add: nodeAt_commit [OF ok new] lookupNode_def)
qed

section \<open>What a batch does to the content\<close>

text \<open>Up to collisions of commitments, a batch leaves the leaves alone iff it leaves the content alone.\<close>

lemma newLeaves_same:
  assumes D: "vals_open s V M D" and nc: "no_clash s D m" and M: "\<And>p vh vv. M p = Some (vh, vv) \<Longrightarrow> vv \<noteq> nv"
  shows "newLeaves s nv M m = M \<longleftrightarrow> putMap D m = D"
proof -
  have "newLeaves s nv M m p = M p \<longleftrightarrow> putMap D m p = D p" for p
  proof (cases "M p")
    case None
    then have "D p = None" using D domIff unfolding vals_open_def by metis
    then show ?thesis using None by (auto simp: newLeaves_def putMap_def updEntry_def split: option.splits)
  next
    case (Some e)
    obtain vh vv where e: "e = (vh, vv)" by (cases e)
    obtain pt where pt: "vhOf s p pt = vh" "D p = Some pt" using D Some unfolding vals_open_def e by blast
    show ?thesis
    proof (cases "m p")
      case None
      then show ?thesis by (simp add: newLeaves_def putMap_def)
    next
      case m: (Some x)
      show ?thesis
      proof (cases x)
        case None
        then show ?thesis using m Some pt by (simp add: newLeaves_def putMap_def updEntry_def)
      next
        case (Some v)
        have "vhOf s p v = vhOf s p pt \<longrightarrow> v = pt" using nc m Some pt(2) unfolding no_clash_def by blast
        then show ?thesis using m Some pt M \<open>M p = Some e\<close> e by (auto simp: newLeaves_def putMap_def updEntry_def)
      qed
    qed
  qed
  then show ?thesis by (simp add: fun_eq_iff)
qed

lemma no_clash_linked:
  assumes "batch_ok s D m"
  shows "no_clash s D m"
proof (cases "st_history s")
  case True
  have "m p = Some (Some v) \<Longrightarrow> linked s h m p = Some (Some v)" for p v h
    using assms True by (auto simp: batch_ok_def linked_def)
  then show ?thesis using assms unfolding batch_ok_def no_clash_def by blast
qed (use assms in \<open>simp add: batch_ok_def linked_def\<close>)

section \<open>Commit and PutBatch\<close>

definition committed :: "commitAcc \<Rightarrow> child option \<Rightarrow> 'b Store \<Rightarrow> 'b Store" where
  "committed acc c' s =
     s\<lparr>st_cache := warmCache (a_pending acc) (st_cache s), st_root := rootHashOf c', st_version := a_newVersion acc,
       st_rootChild := c', st_historyHead := (case a_newHead acc of None \<Rightarrow> st_historyHead s | Some h \<Rightarrow> h)\<rparr>"

lemma committed_fields [simp]:
  "st_backend (committed acc c' s) = st_backend s" "st_cache (committed acc c' s) = warmCache (a_pending acc) (st_cache s)"
  "st_root (committed acc c' s) = rootHashOf c'" "st_version (committed acc c' s) = a_newVersion acc"
  "st_rootChild (committed acc c' s) = c'" "st_ck (committed acc c' s) = st_ck s" "st_cipher (committed acc c' s) = st_cipher s"
  "st_ckptMAC (committed acc c' s) = st_ckptMAC s" "st_history (committed acc c' s) = st_history s"
  by (simp_all add: committed_def)

lemma commit_unfold:
  assumes "sealCheckpoint s (rd NonceCkpt) (rootHashOf c') (a_newVersion acc) = Inr rec"
  shows "commit rd acc c' (rootHashOf c') s =
     andThen (wrapBackend (callWriteBatch (commitOps acc (rootHashOf c') rec)))
       (\<lambda>_ s1. ret (rootHashOf c', a_newVersion acc) (committed acc c' s1)) s"
  using assms by (auto simp: commit_def liftE_def andThen_def committed_def ret_def split: prod.split sum.split option.split)

text \<open>A commit changes these fields of the store only.\<close>

definition advanced :: "'b Store \<Rightarrow> u64 \<Rightarrow> hash \<Rightarrow> 'b Store \<Rightarrow> bool" where
  "advanced s0 nv head s' \<longleftrightarrow>
     s' = s0\<lparr>st_backend := st_backend s', st_cache := st_cache s', st_root := st_root s', st_version := nv,
            st_rootChild := st_rootChild s', st_historyHead := head\<rparr>"

text \<open>Keys outside the record space of the ledger, which other layers may use in the same backend.\<close>

definition foreign :: "bytes \<Rightarrow> bool" where
  "foreign k \<longleftrightarrow> (case k of [] \<Rightarrow> True | b # _ \<Rightarrow> b \<notin> {recNode, recValue, recStale, recRoot, recCheckpoint})"

lemma not_foreign [simp]:
  "\<not> foreign (nodeRecordKey nk)" "\<not> foreign (valueRecordKey vh vv)" "\<not> foreign (staleRecordKey v t)"
  "\<not> foreign (rootRecordKey v)" "\<not> foreign checkpointRecordKey"
  by (simp_all add: foreign_def record_key_defs)

lemma commitOps_foreign: "foreign k \<Longrightarrow> applyBatch (commitOps acc root ckpt) V k = V k"
  by (rule applyBatch_other) (auto simp: commitOps_def)

context kv_backend
begin

text \<open>The records of the backend under a store.\<close>

definition recordsOf :: "'b Store \<Rightarrow> bytes \<rightharpoonup> bytes" where
  "recordsOf s = view (be_state (st_backend s))"

lemma honest_records: "honest V s0 s \<Longrightarrow> recordsOf s = V"
  by (simp add: honest_def recordsOf_def)

text \<open>The backend's records carry the history \<open>H\<close> of the ledger, every version from \<open>lo\<close> to the
  store's version, and the store is in step with them.\<close>

definition ledger :: "'b Store \<Rightarrow> (u64 \<Rightarrow> hash \<rightharpoonup> bytes) \<Rightarrow> u64 \<Rightarrow> bool" where
  "ledger s H lo \<longleftrightarrow>
     (\<exists>V R. honest V s s \<and> store_inv V s H R lo \<and> ckpt_ok V s)"

lemma honest_self: "honest V s0 s \<Longrightarrow> honest V s s"
  by (simp add: honest_def)

lemma callWriteBatch_runs:
  assumes "honest V s0 s"
  shows "runs may_fail (honest V s0)
     (\<lambda>_ s'. \<exists>b. s' = setBackendState s b \<and> live b \<and> view b = applyBatch ops V) (wrapBackend (callWriteBatch ops) s)"
proof -
  obtain r b where g: "writeB ops (be_state (st_backend s)) = (r, b)" by fastforce
  have "live (be_state (st_backend s))" "view (be_state (st_backend s)) = V" using assms by (simp_all add: honest_def)
  then have L: "live b \<and> (case r of Inl e \<Rightarrow> may_fail \<and> view b = V | Inr u \<Rightarrow> view b = applyBatch ops V)"
    using write_law [OF _ g] by (auto split: sum.splits)
  have "callWriteBatch ops s = (r, setBackendState s b)" using g assms by (simp add: callWriteBatch_def honest_def)
  then show ?thesis using L assms by (cases r) (auto simp: wrapBackend_def runs_def honest_def)
qed

lemma committed_ledger:
  assumes s: "honest V s0 s" and inv: "store_inv V s0 H R lo" and nv: "nv = st_version s0 + 1" "st_version s0 < nv"
    and nc: "no_clash s0 (H (st_version s0)) m" and acc: "a_newVersion acc = nv"
    and rdy: "commit_ready V s0 (st_rootChild s0) (vr_leaves (R (st_version s0))) (vr_nodes (R (st_version s0))) m acc c' N'"
    and rec: "openCheckpoint s rec = Inr (rootHashOf c', nv, if st_history s then ckptFlagHistory else 0)"
    and b: "live b" "view b = applyBatch (commitOps acc (rootHashOf c') rec) V"
  shows "ledger (committed acc c' (setBackendState s b)) (H(nv := putMap (H (st_version s0)) m)) lo"
proof -
  let ?V = "applyBatch (commitOps acc (rootHashOf c') rec) V" and ?s = "committed acc c' (setBackendState s b)"
  note F = read_eq_fields [OF reader.ok_read_eq [OF s]]
  have ok: "acc_ok (insertsOf s0 m) acc" using rdy by (auto simp: commit_ready_def pass_ok_def settled_def)
  have new: "\<forall>nk. wf_nodeKey nk \<longrightarrow> nk_version nk = a_newVersion acc \<longrightarrow> V (nodeRecordKey nk) = None"
    using store_invD(5) [OF inv] nv acc by simp
  have "coherent ?V (st_cache s)" using s by (intro coherent_commit [OF ok _ new]) (simp add: honest_def)
  then have "cache_ok (st_cache ?s) \<and> coherent ?V (st_cache ?s)"
    using warmCache_ok [OF _ _ pending_commit [OF ok new]] s by (simp add: honest_def)
  then have "honest ?V ?s ?s" using s b by (simp add: honest_def)
  moreover have "store_inv ?V ?s (H(nv := putMap (H (st_version s0)) m))
      (R(nv := \<lparr>vr_child = c', vr_leaves = newLeaves s0 nv (vr_leaves (R (st_version s0))) m, vr_nodes = N'\<rparr>)) lo"
    by (rule commit_inv [OF inv nv rdy acc nc]) (simp_all add: acc F)
  moreover have "ckpt_ok ?V ?s"
    using rec checkpoint_cong [of ?s s] by (simp add: ckpt_ok_def commit_view_rest acc setBackendState_def)
  ultimately show ?thesis unfolding ledger_def by blast
qed

lemma commit_spec:
  assumes s: "honest V s0 s" and inv: "store_inv V s0 H R lo" and nv: "nv = st_version s0 + 1" "st_version s0 < nv"
    and rd: "good_rand rd" and nc: "no_clash s0 (H (st_version s0)) m"
    and acc: "a_newVersion acc = nv" "a_newHead acc = head"
    and rdy: "commit_ready V s0 (st_rootChild s0) (vr_leaves (R (st_version s0))) (vr_nodes (R (st_version s0))) m acc c' N'"
  shows "runs may_fail (honest V s0)
     (\<lambda>rv s'. rv = (rootHashOf c', nv) \<and> Root s' = rv \<and> ledger s' (H(nv := putMap (H (st_version s0)) m)) lo \<and>
        advanced s0 nv (case head of None \<Rightarrow> st_historyHead s0 | Some h \<Rightarrow> h) s' \<and> (\<forall>k. foreign k \<longrightarrow> recordsOf s' k = V k))
     (commit rd acc c' (rootHashOf c') s)"
proof -
  have h: "is_hash (rootHashOf c')" using rdy is_hash_rootHashOf by (auto simp: commit_ready_def pass_ok_def)
  note F = read_eq_fields [OF reader.ok_read_eq [OF s]]
  obtain rec where rec: "sealCheckpoint s (rd NonceCkpt) (rootHashOf c') (a_newVersion acc) = Inr rec"
    "openCheckpoint s rec = Inr (rootHashOf c', nv, if st_history s then ckptFlagHistory else 0)"
    using sealCheckpoint_open [OF rd h] acc(1) by blast
  show ?thesis
    unfolding commit_unfold [where rd = rd, OF rec(1)]
  proof (rule runs_andThen, rule callWriteBatch_runs [OF s])
    fix x s1 assume "\<exists>b. s1 = setBackendState s b \<and> live b \<and> view b = applyBatch (commitOps acc (rootHashOf c') rec) V"
    then obtain b where b: "s1 = setBackendState s b" "live b" "view b = applyBatch (commitOps acc (rootHashOf c') rec) V" by blast
    have "advanced s0 nv (case head of None \<Rightarrow> st_historyHead s0 | Some h \<Rightarrow> h) (committed acc c' s1)"
      using F acc by (cases s; cases s0; cases head) (simp_all add: advanced_def b(1) setBackendState_def committed_def)
    then show "runs may_fail (honest V s0)
       (\<lambda>rv s'. rv = (rootHashOf c', nv) \<and> Root s' = rv \<and> ledger s' (H(nv := putMap (H (st_version s0)) m)) lo \<and>
          advanced s0 nv (case head of None \<Rightarrow> st_historyHead s0 | Some h \<Rightarrow> h) s' \<and> (\<forall>k. foreign k \<longrightarrow> recordsOf s' k = V k))
       (ret (rootHashOf c', a_newVersion acc) (committed acc c' s1))"
      using committed_ledger [OF s inv nv nc acc(1) rdy rec(2) b(2,3)] acc(1) b(1,3) commitOps_foreign
      by (simp add: Root_def recordsOf_def setBackendState_def)
  qed
qed

text \<open>
  \<^verbatim>\<open>PutBatch\<close> appends the content after the batch to the history; a batch that changes nothing leaves
  the store where it was; and a backend error leaves everything as it was.
\<close>

definition put_post :: "(bytes \<rightharpoonup> bytes) \<Rightarrow> 'b Store \<Rightarrow> (u64 \<Rightarrow> hash \<rightharpoonup> bytes) \<Rightarrow> u64 \<Rightarrow> Op list \<Rightarrow> hash \<times> u64 \<Rightarrow> 'b Store \<Rightarrow> bool" where
  "put_post V s0 H lo ops rv s' \<longleftrightarrow>
     (let D = H (st_version s0); nv = st_version s0 + 1; m = batchMap s0 ops
      in rv = Root s' \<and>
         (if putMap D m = D then honest V s0 s'
          else ledger s' (H(nv := putMap D (linked s0 (nextHead s0 nv) m))) lo \<and>
               advanced s0 nv (if st_history s0 then nextHead s0 nv else st_historyHead s0) s' \<and>
               (\<forall>k. foreign k \<longrightarrow> recordsOf s' k = V k)))"

lemma PutBatch_spec:
  assumes s: "honest V s0 s" and inv: "store_inv V s0 H R lo" and nv: "st_version s0 < st_version s0 + 1"
    and rd: "good_rand rd" and b: "batch_ok s0 (H (st_version s0)) (batchMap s0 ops)" and ops: "\<forall>op \<in> set ops. \<not> reserved op"
  shows "runs may_fail (honest V s0) (put_post V s0 H lo ops) (PutBatch rd ops s)"
proof -
  have v: "version_ok V s0 (st_version s0) (H (st_version s0)) (R (st_version s0))"
    using store_invD(1,2) [OF inv] by simp
  have t: "tree_at (nodeAt V) (st_version s0) [] (st_rootChild s0) (vr_leaves (R (st_version s0))) (vr_nodes (R (st_version s0)))"
    using version_okD(2) [OF v] store_invD(3) [OF inv] by simp
  have same: "newLeaves s0 (st_version s0 + 1) (vr_leaves (R (st_version s0))) (batchMap s0 ops) = vr_leaves (R (st_version s0)) \<longleftrightarrow>
      putMap (H (st_version s0)) (batchMap s0 ops) = H (st_version s0)"
    using version_leaves(2) [OF v] nv by (intro newLeaves_same [OF version_okD(4) [OF v] no_clash_linked [OF b]]) fastforce
  show ?thesis
    unfolding PutBatch_def
  proof (rule runs_andThen, rule reader.computeBatch_spec [OF s t version_okD(5) [OF v] nv rd b ops])
    fix r s1 assume a: "honest V s0 s1 \<and> batch_post V s0 (vr_leaves (R (st_version s0))) (vr_nodes (R (st_version s0))) (batchMap s0 ops) r"
    then have h: "honest V s0 s1" by blast
    show "runs may_fail (honest V s0) (put_post V s0 H lo ops)
       (case r of None \<Rightarrow> ret (st_root s1, st_version s1) s1
        | Some (acc, newRootChild, newRoot) \<Rightarrow> commit rd acc newRootChild newRoot s1)"
    proof (cases r)
      case None
      then show ?thesis using a same by (simp add: batch_post_def put_post_def Root_def)
    next
      case (Some e)
      obtain acc c' root where e: "e = (acc, c', root)" by (cases e)
      obtain N' where N': "commit_ready V s0 (st_rootChild s0) (vr_leaves (R (st_version s0))) (vr_nodes (R (st_version s0)))
          (linked s0 (nextHead s0 (st_version s0 + 1)) (batchMap s0 ops)) acc c' N'" and f: "root = rootHashOf c'"
          "a_newVersion acc = st_version s0 + 1" "a_newHead acc = (if st_history s0 then Some (nextHead s0 (st_version s0 + 1)) else None)"
          and ch: "putMap (H (st_version s0)) (batchMap s0 ops) \<noteq> H (st_version s0)"
        using a same by (auto simp: Some e batch_post_def Let_def)
      have nc: "no_clash s0 (H (st_version s0)) (linked s0 (nextHead s0 (st_version s0 + 1)) (batchMap s0 ops))"
        using b by (simp add: batch_ok_def)
      show ?thesis
        unfolding Some e f(1) option.case prod.case
        by (rule runs_mono, rule commit_spec [OF h inv refl nv rd nc f(2,3) N']) (auto simp: put_post_def ch Let_def split: if_splits)
    qed
  qed
qed

end

end
