(* ===== verification/Ledger.thy ===== *)
theory Ledger
  imports Store_Inv
begin

text \<open>
  The store as a ledger: a history of contents, one map from paths to values per version. The reads
  (\<^verbatim>\<open>Get\<close>, \<^verbatim>\<open>GetAt\<close>, \<^verbatim>\<open>RootAt\<close>), the proofs (\<^verbatim>\<open>Prove\<close>, \<^verbatim>\<open>ProveAt\<close>) and \<^verbatim>\<open>PutBatch\<close>, stated over that
  history alone; the root of a version is the sparse Merkle root of its content.
\<close>

section \<open>The abstract root of a content\<close>

definition commitmentsOf :: "'b Store \<Rightarrow> (hash \<rightharpoonup> bytes) \<Rightarrow> hash \<rightharpoonup> hash" where
  "commitmentsOf s D p = map_option (vhOf s p) (D p)"

definition contentRoot :: "'b Store \<Rightarrow> (hash \<rightharpoonup> bytes) \<Rightarrow> hash \<Rightarrow> bool" where
  "contentRoot s D r \<longleftrightarrow> is_smt 0 (commitmentsOf s D) r"

lemma contentRoot_unique: "contentRoot s D r \<Longrightarrow> contentRoot s D r' \<Longrightarrow> r = r'"
  unfolding contentRoot_def is_smt_def using smt_represents by blast

lemma contentRoot_cong: "st_ck s' = st_ck s \<Longrightarrow> contentRoot s' = contentRoot s"
  by (simp add: contentRoot_def commitmentsOf_def [abs_def] vhOf_def [abs_def] fun_eq_iff)

lemma commits_open: "vals_open s V M D \<Longrightarrow> commits M = commitmentsOf s D"
proof
  fix p assume a: "vals_open s V M D"
  then have "D p = None \<longleftrightarrow> M p = None" using domIff unfolding vals_open_def by metis
  then show "commits M p = commitmentsOf s D p"
    using a unfolding vals_open_def by (cases "M p") (fastforce simp: commits_def commitmentsOf_def)+
qed

lemma version_root:
  assumes "version_ok V s w D r"
  shows "contentRoot s D (rootHashOf (vr_child r))"
  using tree_at_smt [OF version_okD(2) [OF assms]] commits_open [OF version_okD(4) [OF assms]] by (simp add: contentRoot_def)

lemma version_empty:
  assumes "version_ok V s w D r"
  shows "vr_child r = None \<longleftrightarrow> D = Map.empty"
proof -
  have "vr_child r = None \<longleftrightarrow> vr_leaves r = Map.empty" 
    using tree_at_kind [OF version_okD(2) [OF assms]] by (cases "vr_child r") (auto simp: multi_def fun_eq_iff split: if_splits)
  moreover have "dom D = dom (vr_leaves r)" using version_okD(4) [OF assms] unfolding vals_open_def by blast
  ultimately show ?thesis by (metis dom_eq_empty_conv)
qed

text \<open>No content but the empty one has the placeholder as its root.\<close>

definition root_distinct :: "'b Store \<Rightarrow> (hash \<rightharpoonup> bytes) \<Rightarrow> bool" where
  "root_distinct s D \<longleftrightarrow> (contentRoot s D placeholderHash \<longrightarrow> D = Map.empty)"

section \<open>Reads of the ledger\<close>

lemma store_inv_read_eq: "read_eq s0 s \<Longrightarrow> store_inv V s0 H R lo \<Longrightarrow> store_inv V s H R lo"
proof -
  assume r: "read_eq s0 s" and i: "store_inv V s0 H R lo"
  note F = read_eq_fields [OF r]
  have "version_ok V s w D x = version_ok V s0 w D x" for w D x
    by (simp add: version_ok_def vals_open_def commitments_cong [OF F(1,2)])
  then show ?thesis using i by (simp add: store_inv_def F)
qed

lemma ckpt_ok_read_eq: "read_eq s0 s \<Longrightarrow> ckpt_ok V s0 \<Longrightarrow> ckpt_ok V s"
proof -
  assume r: "read_eq s0 s" and c: "ckpt_ok V s0"
  note F = read_eq_fields [OF r]
  show "ckpt_ok V s" using c unfolding ckpt_ok_def by (simp only: F checkpoint_cong(1) [OF F(2,3,8)])
qed

text \<open>A proof that the store makes verifies against the version's root, and shows the content there.\<close>

definition proves :: "'b Store \<Rightarrow> hash \<Rightarrow> (hash \<rightharpoonup> bytes) \<Rightarrow> hash \<Rightarrow> Proof \<Rightarrow> bool" where
  "proves s root D path p \<longleftrightarrow> wf_proof p \<and>
     Verify root path p = Inr (case D path of None \<Rightarrow> absentVerified | Some v \<Rightarrow> \<lparr>v_present = True, v_vh = vhOf s path v\<rparr>)"

context kv_backend
begin

text \<open>The store after a read: the same but for the cache and the backend's own state, over the same records.\<close>

definition kept :: "'b Store \<Rightarrow> (u64 \<Rightarrow> hash \<rightharpoonup> bytes) \<Rightarrow> u64 \<Rightarrow> 'b Store \<Rightarrow> bool" where
  "kept s H lo s' \<longleftrightarrow> read_eq s s' \<and> ledger s' H lo \<and> recordsOf s' = recordsOf s"

lemma ledgerE:
  assumes "ledger s H lo"
  obtains V R where "honest V s s" "store_inv V s H R lo" "ckpt_ok V s" "\<forall>s'. honest V s s' \<longrightarrow> kept s H lo s'"
proof -
  obtain V R where a: "honest V s s" "store_inv V s H R lo" "ckpt_ok V s" using assms unfolding ledger_def by blast
  have "kept s H lo s'" if "honest V s s'" for s'
  proof -
    have r: "read_eq s s'" using that by (simp add: honest_def)
    then show ?thesis
      unfolding kept_def ledger_def using store_inv_read_eq [OF r a(2)] ckpt_ok_read_eq [OF r a(3)] honest_self [OF that]
        honest_records [OF that] honest_records [OF a(1)] by metis
  qed
  then show ?thesis using a that by blast
qed

lemma Get_ledger:
  assumes "ledger s H lo"
  shows "runs may_fail (kept s H lo) (\<lambda>r s'. r = H (st_version s) (pathOf s key) \<and> kept s H lo s') (Get key s)"
proof -
  obtain V R where a: "honest V s s" "store_inv V s H R lo" "ckpt_ok V s"
    "\<forall>s'. honest V s s' \<longrightarrow> kept s H lo s'" by (rule ledgerE [OF assms])
  have v: "version_ok V s (st_version s) (H (st_version s)) (R (st_version s))" using store_invD(1,2) [OF a(2)] by simp
  have "runs may_fail (honest V s) (\<lambda>r s'. r = H (st_version s) (pathOf s key) \<and> honest V s s') (Get key s)"
    unfolding Get_def store_invD(3) [OF a(2)]
    by (rule reader.walk_spec [OF version_okD(2,4) [OF v] is_hash_pathOf(1) a(1)])
  then show ?thesis by (rule runs_mono) (use a(4) in auto)
qed

lemma RootAt_ledger:
  assumes "ledger s H lo" "lo \<le> w" "w \<le> st_version s"
  shows "runs may_fail (kept s H lo) (\<lambda>r s'. contentRoot s (H w) r \<and> kept s H lo s') (RootAt w s)"
proof -
  obtain V R where a: "honest V s s" "store_inv V s H R lo" "ckpt_ok V s"
    "\<forall>s'. honest V s s' \<longrightarrow> kept s H lo s'" by (rule ledgerE [OF assms(1)])
  note v = store_invD(2) [OF a(2) assms(2,3)]
  have "runs may_fail (honest V s) (\<lambda>r s'. r = rootHashOf (vr_child (R w)) \<and> honest V s s') (RootAt w s)"
    using reader.loadRootRecord_law [OF a(1) version_okD(1) [OF v] is_hash_rootHashOf [OF version_okD(2) [OF v]]] leD [OF assms(3)]
    by (simp add: RootAt_def)
  then show ?thesis by (rule runs_mono) (use a(4) version_root [OF v] in auto)
qed

text \<open>Both reads at a version start with its root record and root node.\<close>

lemma at_version:
  assumes s: "honest V s s" and v: "version_ok V s w D r" and d: "root_distinct s D"
    and k: "\<And>s'. honest V s s' \<Longrightarrow> runs may_fail (honest V s) Q (f (vr_child r) s')"
  shows "runs may_fail (honest V s) Q (andThen (loadRootRecord w) (\<lambda>root. andThen (loadRootChild root w) f) s)"
proof (rule runs_andThen, rule reader.loadRootRecord_law [OF s version_okD(1) [OF v] is_hash_rootHashOf [OF version_okD(2) [OF v]]])
  have ne: "c_version c = w \<and> c_hash c \<noteq> placeholderHash" if "vr_child r = Some c" for c
    using version_okD(3) [OF v that] version_root [OF v] version_empty [OF v] d that by (auto simp: root_distinct_def rootHashOf_def)
  fix root s1 assume a: "root = rootHashOf (vr_child r) \<and> honest V s s1"
  show "runs may_fail (honest V s) Q (andThen (loadRootChild root w) f s1)"
    unfolding conjunct1 [OF a]
    by (rule runs_andThen, rule reader.loadRootChild_spec [OF version_okD(2) [OF v] ne conjunct2 [OF a]]) (auto intro: k)
qed

lemma GetAt_ledger:
  assumes "ledger s H lo" "lo \<le> w" "w \<le> st_version s" "root_distinct s (H w)"
  shows "runs may_fail (kept s H lo) (\<lambda>r s'. r = H w (pathOf s key) \<and> kept s H lo s') (GetAt w key s)"
proof -
  obtain V R where a: "honest V s s" "store_inv V s H R lo" "ckpt_ok V s"
    "\<forall>s'. honest V s s' \<longrightarrow> kept s H lo s'" by (rule ledgerE [OF assms(1)])
  note v = store_invD(2) [OF a(2) assms(2,3)]
  have "runs may_fail (honest V s) (\<lambda>r s'. r = H w (pathOf s key) \<and> honest V s s') (GetAt w key s)"
    unfolding GetAt_def if_not_P [OF leD [OF assms(3)]]
    by (rule at_version [OF a(1) v assms(4)]) (rule reader.walk_spec [OF version_okD(2,4) [OF v] is_hash_pathOf(1)])
  then show ?thesis by (rule runs_mono) (use a(4) in auto)
qed

lemma provePath_ledger:
  assumes s: "honest V s s1" and v: "version_ok V s w D r" and path: "is_hash path"
  shows "runs may_fail (honest V s) (\<lambda>p s'. proves s (rootHashOf (vr_child r)) D path p \<and> honest V s s') (provePath (vr_child r) path s1)"
proof (rule runs_mono, rule reader.provePath_spec [OF version_okD(2) [OF v] path s])
  fix p s' assume "honest V s s' \<and> (\<exists>xs. represents xs (commits (vr_leaves r)) \<and> p = proofOf path xs)"
  then obtain xs where h: "honest V s s'" and xs: "represents xs (commitmentsOf s D)" "p = proofOf path xs"
    using commits_open [OF version_okD(4) [OF v]] by auto
  have root: "rootHashOf (vr_child r) = smt 0 xs"
    using version_root [OF v] is_smt_unique [OF _ xs(1)] by (simp add: contentRoot_def)
  have keys: "\<forall>(q, vh) \<in> set xs. is_hash q \<and> is_hash vh"
  proof clarify
    fix q vh assume "(q, vh) \<in> set xs"
    then have "commits (vr_leaves r) q = Some vh" using represents_set [OF xs(1)] commits_open [OF version_okD(4) [OF v]] by simp
    then obtain vv where "vr_leaves r q = Some (vh, vv)" by (auto simp: commits_def)
    then show "is_hash q \<and> is_hash vh" using version_leaves(1) [OF v] tree_at_under [OF version_okD(2) [OF v], of q] by (simp add: domI)
  qed
  have "map_of xs path = map_option (vhOf s path) (D path)" using xs(1) by (simp add: represents_def commitmentsOf_def)
  then have "proves s (rootHashOf (vr_child r)) D path p"
    using Verify_proofOf [OF path _ keys] xs unfolding root represents_def proves_def by (cases "D path") simp_all
  with h show "proves s (rootHashOf (vr_child r)) D path p \<and> honest V s s'" by blast
qed

lemma Prove_ledger:
  assumes "ledger s H lo"
  shows "runs may_fail (kept s H lo)
     (\<lambda>p s'. proves s (st_root s) (H (st_version s)) (pathOf s key) p \<and> kept s H lo s') (Prove key s)"
proof -
  obtain V R where a: "honest V s s" "store_inv V s H R lo" "ckpt_ok V s"
    "\<forall>s'. honest V s s' \<longrightarrow> kept s H lo s'" by (rule ledgerE [OF assms])
  have v: "version_ok V s (st_version s) (H (st_version s)) (R (st_version s))" using store_invD(1,2) [OF a(2)] by simp
  show ?thesis
    unfolding Prove_def store_invD(3,4) [OF a(2)]
    by (rule runs_mono, rule provePath_ledger [OF a(1) v is_hash_pathOf(1)]) (use a(4) in auto)
qed

lemma ProveAt_ledger:
  assumes "ledger s H lo" "lo \<le> w" "w \<le> st_version s" "root_distinct s (H w)"
  shows "runs may_fail (kept s H lo)
     (\<lambda>p s'. (\<forall>root. contentRoot s (H w) root \<longrightarrow> proves s root (H w) (pathOf s key) p) \<and> kept s H lo s') (ProveAt w key s)"
proof -
  obtain V R where a: "honest V s s" "store_inv V s H R lo" "ckpt_ok V s"
    "\<forall>s'. honest V s s' \<longrightarrow> kept s H lo s'" by (rule ledgerE [OF assms(1)])
  note v = store_invD(2) [OF a(2) assms(2,3)]
  have "runs may_fail (honest V s) (\<lambda>p s'. proves s (rootHashOf (vr_child (R w))) (H w) (pathOf s key) p \<and> honest V s s') (ProveAt w key s)"
    unfolding ProveAt_def if_not_P [OF leD [OF assms(3)]]
    by (rule at_version [OF a(1) v assms(4)]) (rule provePath_ledger [OF _ v is_hash_pathOf(1)])
  then show ?thesis
    by (rule runs_mono) (use a(4) contentRoot_unique [OF version_root [OF v]] in blast)+
qed

lemma Root_ledger: "ledger s H lo \<Longrightarrow> contentRoot s (H (st_version s)) (st_root s) \<and> lo \<le> st_version s"
proof -
  assume "ledger s H lo"
  then obtain V R where i: "store_inv V s H R lo" unfolding ledger_def by blast
  then show ?thesis using version_root [OF store_invD(2) [OF i]] store_invD(1,3,4) [OF i] by simp
qed

lemma PutBatch_ledger:
  assumes l: "ledger s H lo" and nv: "st_version s < st_version s + 1"
    and rd: "good_rand rd" and b: "batch_ok s (H (st_version s)) (batchMap s ops)" and ops: "\<forall>op \<in> set ops. \<not> reserved op"
  shows "runs may_fail (kept s H lo)
     (\<lambda>rv s'. rv = Root s' \<and>
       (if putMap (H (st_version s)) (batchMap s ops) = H (st_version s) then kept s H lo s'
        else let nv = st_version s + 1; D' = putMap (H (st_version s)) (linked s (nextHead s nv) (batchMap s ops))
             in ledger s' (H(nv := D')) lo \<and> advanced s nv (if st_history s then nextHead s nv else st_historyHead s) s' \<and>
                (\<forall>k. foreign k \<longrightarrow> recordsOf s' k = recordsOf s k)))
     (PutBatch rd ops s)"
proof -
  obtain V R where a: "honest V s s" "store_inv V s H R lo" "ckpt_ok V s"
    "\<forall>s'. honest V s s' \<longrightarrow> kept s H lo s'" by (rule ledgerE [OF l])
  show ?thesis
    by (rule runs_mono, rule PutBatch_spec [OF a(1,2) nv rd b ops]) (use a(4) honest_records [OF a(1)] in \<open>auto simp: put_post_def Let_def split: if_splits\<close>)
qed

end

end
