(* ===== verification/Opening.thy ===== *)
theory Opening
  imports Ledger
begin

text \<open>
  \<^verbatim>\<open>Create\<close> starts a ledger with the empty history, and \<^verbatim>\<open>OpenLatest\<close> on the records of a store gives a
  store with the same history, root, version and chain head.
\<close>

section \<open>A new store\<close>

lemma liftE_run: "andThen (liftE (Inr x)) f s = f x s" "andThen (liftE (Inl e)) f s = (Inl e, s)"
  by (simp_all add: andThen_def liftE_def)

lemma newStore_fields:
  assumes "newStore be ck opts = Inr s"
  shows "st_backend s = be" "st_ck s = ck" "st_root s = placeholderHash" "st_version s = 0" "st_rootChild s = None"
    "st_cache s = newNodeCache defaultCacheCapacity" "st_snapshotPin s = None" "st_history s = False"
    "st_historyHead s = zeroHash"
  using assms by (auto simp: newStore_def Let_def zeroHash_def split: option.splits sum.splits)

lemma newNodeCache_ok: "cache_ok (newNodeCache 1024)" "coherent V (newNodeCache n)"
  by (simp_all add: cache_ok_def cacheLen_def newNodeCache_def coherent_def cached_def)

lemma is_hash_placeholder: "is_hash placeholderHash"
  by (simp add: is_hash_def)

definition genesis :: version where
  "genesis = \<lparr>vr_child = None, vr_leaves = Map.empty, vr_nodes = {}\<rparr>"

lemma store_inv_genesis:
  assumes "st_version s = 0" "st_rootChild s = None" "st_root s = placeholderHash"
    "V (rootRecordKey 0) = Some placeholderHash" "\<And>nk. V (nodeRecordKey nk) = None" "\<And>t. V (recStale # t) = None"
  shows "store_inv V s (\<lambda>_. Map.empty) (\<lambda>_. genesis) 0"
proof -
  have "tree_at (nodeAt V) 0 [] None Map.empty {}" by (rule tree_empty)
  then have "version_ok V s 0 Map.empty genesis"
    using assms by (simp add: version_ok_def genesis_def rootHashOf_def vals_open_def own_vals_def)
  then show ?thesis using assms by (auto simp: store_inv_def genesis_def rootHashOf_def stale_ok_def staleRecordKey_def)
qed

context kv_backend
begin

lemma Create_ledger:
  assumes be: "be_Get be = getB" "be_WriteBatch be = writeB" "be_Scan be = scanB" "live (be_state be)" "view (be_state be) = Map.empty"
    and rd: "good_rand rd" and new: "newStore be ck opts = Inr s0"
  shows "case Create rd be ck opts of
      Inl e \<Rightarrow> may_fail \<and> (\<exists>m. e = BackendErr m)
    | Inr s \<Rightarrow> ledger s (\<lambda>_. Map.empty) 0 \<and> Root s = (placeholderHash, 0) \<and> st_ck s = ck \<and> st_cipher s = st_cipher s0 \<and>
        st_ckptMAC s = st_ckptMAC s0 \<and> st_history s = st_wantHistory s0 \<and> st_historyHead s = zeroHash"
proof -
  note F = newStore_fields [OF new]
  define s1 where "s1 = s0\<lparr>st_history := st_wantHistory s0\<rparr>"
  obtain rec where rec: "sealCheckpoint s1 (rd NonceCkpt) placeholderHash 0 = Inr rec"
    "openCheckpoint s1 rec = Inr (placeholderHash, 0, if st_history s1 then ckptFlagHistory else 0)"
    using sealCheckpoint_open [OF rd is_hash_placeholder] by blast
  define ops where "ops = [\<lparr>bo_key = rootRecordKey 0, bo_value = placeholderHash, bo_delete = False\<rparr>,
      \<lparr>bo_key = checkpointRecordKey, bo_value = rec, bo_delete = False\<rparr>]"
  obtain r b where w: "writeB ops (be_state be) = (r, b)" by fastforce
  have L: "live b \<and> (case r of Inl e \<Rightarrow> may_fail | Inr u \<Rightarrow> view b = applyBatch ops Map.empty)"
    using write_law [OF be(4) w] be(5) by (auto split: sum.splits)
  let ?s = "setBackendState s1 b" and ?V = "applyBatch ops Map.empty"
  have c: "Create rd be ck opts = (case r of Inl e \<Rightarrow> Inl (BackendErr e) | Inr _ \<Rightarrow> Inr ?s)"
    using w rec(1) be(2) F(1) by (simp add: Create_def new s1_def Let_def ops_def callWriteBatch_def split: sum.split)
  show ?thesis
  proof (cases r)
    case (Inr u)
    have "store_inv ?V ?s (\<lambda>_. Map.empty) (\<lambda>_. genesis) 0"
      by (rule store_inv_genesis) (simp_all add: F s1_def applyBatch_def ops_def applyOp_def rootRecordKey_def checkpointRecordKey_def nodeRecordKey_def)
    moreover have "honest ?V ?s ?s"
      using L Inr be F newNodeCache_ok by (simp add: honest_def s1_def)
    moreover have "ckpt_ok ?V ?s"
      using rec(2) checkpoint_cong [of ?s s1] F by (simp add: ckpt_ok_def applyBatch_def ops_def applyOp_def s1_def setBackendState_def)
    ultimately show ?thesis using Inr F by (auto simp: c ledger_def Root_def s1_def setBackendState_def)
  qed (use L in \<open>simp add: c\<close>)
qed

end

section \<open>The history chain\<close>

text \<open>The chain head that a version records, and the chain over the retained versions.\<close>

definition headAt :: "'b Store \<Rightarrow> (u64 \<Rightarrow> hash \<rightharpoonup> bytes) \<Rightarrow> u64 \<Rightarrow> hash" where
  "headAt s H w = (if w = 0 then zeroHash else the (H w (pathOf s HistoryKey)))"

definition chain_ok :: "'b Store \<Rightarrow> (u64 \<Rightarrow> hash \<rightharpoonup> bytes) \<Rightarrow> u64 \<Rightarrow> bool" where
  "chain_ok s H lo \<longleftrightarrow>
     (if st_history s
      then st_historyHead s = headAt s H (st_version s) \<and> (st_version s = 0 \<longrightarrow> H 0 (pathOf s HistoryKey) = None) \<and>
        (\<forall>w. lo \<le> w \<longrightarrow> w \<le> st_version s \<longrightarrow> w \<noteq> 0 \<longrightarrow> (\<exists>h. H w (pathOf s HistoryKey) = Some h \<and> is_hash h)) \<and>
        (\<forall>w r. lo \<le> w \<longrightarrow> w < st_version s \<longrightarrow> contentRoot s (H w) r \<longrightarrow>
           headAt s H (w + 1) = HistoryLink (headAt s H w) r (w + 1))
      else H (st_version s) (pathOf s HistoryKey) = None)"

lemma built_runs:
  assumes "runs may E Q r"
  shows "case built r of Inl e \<Rightarrow> may \<and> (\<exists>m. e = errBackend m) | Inr s \<Rightarrow> \<exists>x. Q x s"
  using assms by (auto simp: runs_def built_def split: prod.splits sum.splits)

lemma openCheckpoint_cong:
  assumes "st_cipher s' = st_cipher s" "st_ckptMAC s' = st_ckptMAC s"
  shows "openCheckpoint s' = openCheckpoint s"
  unfolding openCheckpoint_def [abs_def] assms by simp

lemma chain_head:
  assumes "chain_ok s H lo" "lo \<le> st_version s"
  shows "H (st_version s) (pathOf s HistoryKey) = (if st_history s \<and> st_version s \<noteq> 0 then Some (st_historyHead s) else None)"
    "st_history s \<Longrightarrow> st_version s = 0 \<Longrightarrow> st_historyHead s = zeroHash" "st_history s \<Longrightarrow> is_hash (st_historyHead s)"
proof -
  have w: "\<exists>h. H (st_version s) (pathOf s HistoryKey) = Some h \<and> is_hash h" if "st_history s" "st_version s \<noteq> 0"
    using assms that unfolding chain_ok_def by (metis order_refl)
  show "H (st_version s) (pathOf s HistoryKey) = (if st_history s \<and> st_version s \<noteq> 0 then Some (st_historyHead s) else None)"
    "st_history s \<Longrightarrow> st_version s = 0 \<Longrightarrow> st_historyHead s = zeroHash" "st_history s \<Longrightarrow> is_hash (st_historyHead s)"
    using w assms(1) by (auto simp: chain_ok_def headAt_def zeroHash_def is_hash_def split: if_splits)
qed

section \<open>Opening a store\<close>

context kv_backend
begin

lemma honest_upd: "honest V a b \<Longrightarrow> st_backend c = st_backend b \<Longrightarrow> st_cache c = st_cache b \<Longrightarrow> honest V c c"
  by (simp add: honest_def)

lemma Get_inv:
  assumes h: "honest V s s1" and i: "store_inv V s H R lo"
  shows "runs may_fail (honest V s) (\<lambda>r s'. r = H (st_version s) (pathOf s key) \<and> honest V s s') (Get key s1)"
proof -
  note F = read_eq_fields [OF reader.ok_read_eq [OF h]]
  have v: "version_ok V s (st_version s) (H (st_version s)) (R (st_version s))" using store_invD(1,2) [OF i] by simp
  show ?thesis
    unfolding Get_def F(6) store_invD(3) [OF i] commitments_cong(1) [OF F(1,2)]
    by (rule reader.walk_spec [OF version_okD(2,4) [OF v] is_hash_pathOf(1) h])
qed

lemma initHistory_spec:
  assumes h: "honest V n n" and i: "store_inv V n H R lo" and on: "st_wantHistory n \<longrightarrow> on" and z: "st_historyHead n = zeroHash"
    and val: "H (st_version n) (pathOf n HistoryKey) = (if on \<and> st_version n \<noteq> 0 then Some head else None)"
    and hd: "on \<Longrightarrow> st_version n = 0 \<Longrightarrow> head = zeroHash" "on \<Longrightarrow> is_hash head" "\<not> on \<Longrightarrow> head = zeroHash"
  shows "runs may_fail (\<lambda>_. True) (\<lambda>_ s'. \<exists>s1. honest V n s1 \<and> s' = s1\<lparr>st_history := on, st_historyHead := head\<rparr>) (initHistory True on n)"
  unfolding initHistory_def
proof (rule runs_andThen, rule runs_mono, rule Get_inv [OF h i])
  fix v s1 assume a: "v = H (st_version n) (pathOf n HistoryKey) \<and> honest V n s1"
  note F = read_eq_fields [OF reader.ok_read_eq [OF conjunct2 [OF a]]]
  have same: "s1\<lparr>st_historyHead := zeroHash\<rparr> = s1" using z F(10) by (cases s1) simp
  have E: "\<exists>s2. honest V n s2 \<and> s1\<lparr>st_historyHead := head, st_history := on\<rparr> = s2\<lparr>st_history := on, st_historyHead := head\<rparr>"
    using a by (intro exI [of _ s1]) simp
  consider "on" "st_version n \<noteq> 0" "v = Some head" | "on" "st_version n = 0" "v = None" "head = zeroHash" | "\<not> on" "v = None" "head = zeroHash"
    using a val hd(1,3) by (cases "on"; cases "st_version n = 0") auto
  then show "runs may_fail (\<lambda>_. True) (\<lambda>_ s'. \<exists>s1. honest V n s1 \<and> s' = s1\<lparr>st_history := on, st_historyHead := head\<rparr>)
     (let on = (if True then on else v \<noteq> None)
       in andThen
            (\<lambda>s. if on then
                   (if st_version s > 0 \<and> v = None
                    then throw (errCorrupted ''history chain enabled but the head leaf is missing'') s
                    else case v of
                      None \<Rightarrow> ret () s
                    | Some v \<Rightarrow>
                        if length v \<noteq> HashSize then throw (errCorrupted ''history head leaf malformed'') s
                        else ret () (s\<lparr>st_historyHead := v\<rparr>))
                 else if v \<noteq> None
                 then throw (errCorrupted ''history head leaf present but the chain flag is off'') s
                 else ret () s) (\<lambda>_ s.
          if st_wantHistory s \<and> \<not> on
          then throw (errInvalid ''store was not created with the history chain (WithHistoryChain is a Create-time choice)'') s
          else ret () (s\<lparr>st_history := on\<rparr>)) s1)"
  proof cases
    case 1
    then show ?thesis using E hd(2) by (simp add: andThen_def ret_def is_hash_def)
  next
    case 2
    then show ?thesis using E F(5) same by (simp add: andThen_def ret_def)
  next
    case 3
    then show ?thesis using E F(9) on same by (simp add: andThen_def ret_def)
  qed
qed auto

end

text \<open>The fields of a store that its records determine.\<close>

definition same_store :: "'b Store \<Rightarrow> 'b Store \<Rightarrow> bool" where
  "same_store s m \<longleftrightarrow>
     st_ck m = st_ck s \<and> st_cipher m = st_cipher s \<and> st_ckptMAC m = st_ckptMAC s \<and>
     st_root m = st_root s \<and> st_version m = st_version s \<and> st_rootChild m = st_rootChild s"

lemma same_store_inv: "same_store s m \<Longrightarrow> store_inv V s H R lo \<Longrightarrow> store_inv V m H R lo"
proof -
  assume f: "same_store s m" and i: "store_inv V s H R lo"
  then have "version_ok V m w D x = version_ok V s w D x" for w D x
    by (simp add: same_store_def version_ok_def vals_open_def commitments_cong [of m s])
  then show ?thesis using i f by (simp add: store_inv_def same_store_def)
qed

text \<open>Everything that \<open>ledger\<close> and \<open>chain_ok\<close> say of a store carries over to one opened on its records.\<close>

definition reopened :: "'b Store \<Rightarrow> 'b Store \<Rightarrow> bool" where
  "reopened s s' \<longleftrightarrow> same_store s s' \<and> st_history s' = st_history s \<and> (st_history s \<longrightarrow> st_historyHead s' = st_historyHead s)"

lemma reopened_chain: "reopened s s' \<Longrightarrow> chain_ok s H lo \<Longrightarrow> chain_ok s' H lo"
proof -
  assume r: "reopened s s'" and c: "chain_ok s H lo"
  have k: "st_ck s' = st_ck s" "st_cipher s' = st_cipher s" using r by (simp_all add: reopened_def same_store_def)
  have e: "pathOf s' = pathOf s" "contentRoot s' = contentRoot s" "headAt s' H = headAt s H"
    unfolding headAt_def [abs_def] commitments_cong(1) [OF k] contentRoot_cong [OF k(1)] by simp_all
  show ?thesis using r c unfolding chain_ok_def e by (simp add: reopened_def same_store_def)
qed

context kv_backend
begin

lemma reopened_ledger:
  assumes "honest V s' s'" "store_inv V s H R lo" "ckpt_ok V s" "reopened s s'"
  shows "ledger s' H lo"
proof -
  have "ckpt_ok V s'" using assms(3,4) openCheckpoint_cong [of s' s] by (simp add: ckpt_ok_def reopened_def same_store_def)
  moreover have "store_inv V s' H R lo" using assms(2,4) by (auto simp: reopened_def intro: same_store_inv)
  ultimately show ?thesis using assms(1) unfolding ledger_def by blast
qed

text \<open>What both ways to open a store end with: the root child is loaded and the chain head is read.\<close>

lemma open_rest:
  assumes h: "honest V n n" and i: "store_inv V s H R lo" and c: "chain_ok s H lo" and m: "same_store s n"
    and z: "st_historyHead n = zeroHash" and want: "st_wantHistory n \<longrightarrow> st_history s"
  shows "runs may_fail (\<lambda>_. True) (\<lambda>_ s'. honest V s' s' \<and> reopened s s') (initHistory True (st_history s) n)"
proof -
  note I = same_store_inv [OF m i]
  have e: "pathOf n = pathOf s" "st_version n = st_version s" using m by (simp_all add: same_store_def commitments_cong [of n s])
  note C = chain_head [OF c store_invD(1) [OF i]]
  define head where "head = (if st_history s then st_historyHead s else zeroHash)"
  have "runs may_fail (\<lambda>_. True) (\<lambda>_ s'. \<exists>s1. honest V n s1 \<and> s' = s1\<lparr>st_history := st_history s, st_historyHead := head\<rparr>)
      (initHistory True (st_history s) n)"
    by (rule initHistory_spec [OF h I want z]) (use C in \<open>auto simp: e head_def\<close>)
  then show ?thesis
  proof (rule runs_mono)
    fix x s' assume "\<exists>s1. honest V n s1 \<and> s' = s1\<lparr>st_history := st_history s, st_historyHead := head\<rparr>"
    then obtain s1 where s1: "honest V n s1" "s' = s1\<lparr>st_history := st_history s, st_historyHead := head\<rparr>" by blast
    note F = read_eq_fields [OF reader.ok_read_eq [OF s1(1)]]
    have "honest V s' s'" by (rule honest_upd [OF s1(1)]) (simp_all add: s1(2))
    moreover have "reopened s s'" using m F by (simp add: reopened_def same_store_def s1(2) head_def)
    ultimately show "honest V s' s' \<and> reopened s s'" by blast
  qed simp
qed

lemma OpenLatest_ledger:
  assumes l: "ledger s H lo" and c: "chain_ok s H lo" and d: "root_distinct s (H (st_version s))"
    and new: "newStore (st_backend s) (st_ck s) opts = Inr n" "st_cipher n = st_cipher s" "st_ckptMAC n = st_ckptMAC s"
    and want: "st_wantHistory n \<longrightarrow> st_history s"
  shows "case OpenLatest (st_backend s) (st_ck s) opts of
      Inl e \<Rightarrow> may_fail \<and> (\<exists>m. e = errBackend m)
    | Inr s' \<Rightarrow> ledger s' H lo \<and> chain_ok s' H lo \<and> reopened s s'"
proof -
  obtain V R where a: "honest V s s" "store_inv V s H R lo" "ckpt_ok V s" using l unfolding ledger_def by blast
  obtain rec where rec: "V checkpointRecordKey = Some rec"
    "openCheckpoint s rec = Inr (st_root s, st_version s, if st_history s then ckptFlagHistory else 0)"
    using a(3) unfolding ckpt_ok_def by blast
  note N = newStore_fields [OF new(1)]
  have n: "honest V n n" using a(1) N newNodeCache_ok by (simp add: honest_def)
  let ?P = "\<lambda>_ s'. honest V s' s' \<and> reopened s s'"
  have v: "version_ok V s (st_version s) (H (st_version s)) (R (st_version s))" using store_invD(1,2) [OF a(2)] by simp
  have ne: "c_version x = st_version s \<and> c_hash x \<noteq> placeholderHash" if "vr_child (R (st_version s)) = Some x" for x
    using version_okD(3) [OF v that] version_root [OF v] version_empty [OF v] d that by (auto simp: root_distinct_def rootHashOf_def)
  have rest: "runs may_fail (\<lambda>_. True) ?P
     (andThen (loadRootChild (st_root s) (st_version s)) (\<lambda>rootChild s1. initHistory True (st_history s) (s1\<lparr>st_rootChild := rootChild\<rparr>))
        (n1\<lparr>st_root := st_root s, st_version := st_version s\<rparr>))" if n1: "honest V n n1" for n1
  proof (rule runs_andThen, rule runs_mono)
    let ?n = "n1\<lparr>st_root := st_root s, st_version := st_version s\<rparr>"
    have h: "honest V ?n ?n" by (rule honest_upd [OF n1]) simp_all
    show "runs may_fail (honest V ?n) (\<lambda>r s'. r = vr_child (R (st_version s)) \<and> honest V ?n s') (loadRootChild (st_root s) (st_version s) ?n)"
      using reader.loadRootChild_spec [OF version_okD(2) [OF v] ne h] store_invD(3,4) [OF a(2)] by simp
    fix r s1 assume r: "r = vr_child (R (st_version s)) \<and> honest V ?n s1"
    note F = read_eq_fields [OF reader.ok_read_eq [OF conjunct2 [OF r]]] and F1 = read_eq_fields [OF reader.ok_read_eq [OF n1]]
    show "runs may_fail (\<lambda>_. True) ?P (initHistory True (st_history s) (s1\<lparr>st_rootChild := r\<rparr>))"
    proof (rule open_rest [OF _ a(2) c])
      show "honest V (s1\<lparr>st_rootChild := r\<rparr>) (s1\<lparr>st_rootChild := r\<rparr>)" by (rule honest_upd [OF conjunct2 [OF r]]) simp_all
      show "same_store s (s1\<lparr>st_rootChild := r\<rparr>)" using r F F1 N new store_invD(3) [OF a(2)] by (simp add: same_store_def)
    qed (use F F1 N want in simp_all)
  qed simp
  have flag: "((if st_history s then ckptFlagHistory else 0) AND ckptFlagHistory \<noteq> 0) = st_history s" by simp
  have "runs may_fail (\<lambda>_. True) ?P
     (andThen (wrapBackend (callGet checkpointRecordKey)) (\<lambda>r.
            case r of
              None \<Rightarrow> throw (errMissing ''checkpoint record'')
            | Some rec \<Rightarrow> (\<lambda>s.
                andThen (liftE (openCheckpoint s rec)) (\<lambda>(root, version, flags) s.
                andThen (loadRootChild root version) (\<lambda>rootChild s.
                  initHistory True (flags AND ckptFlagHistory \<noteq> 0) (s\<lparr>st_rootChild := rootChild\<rparr>))
                  (s\<lparr>st_root := root, st_version := version\<rparr>)) s)) n)"
  proof (rule runs_andThen, rule runs_mono, rule callGet_runs [OF n])
    fix r n1 assume b: "r = V checkpointRecordKey \<and> honest V n n1 \<and> st_cache n1 = st_cache n"
    then have "openCheckpoint n1 = openCheckpoint s"
      using new read_eq_fields [OF reader.ok_read_eq, of V n n1] by (intro openCheckpoint_cong) simp_all
    then show "runs may_fail (\<lambda>_. True) ?P
       ((case r of
              None \<Rightarrow> throw (errMissing ''checkpoint record'')
            | Some rec \<Rightarrow> (\<lambda>s.
                andThen (liftE (openCheckpoint s rec)) (\<lambda>(root, version, flags) s.
                andThen (loadRootChild root version) (\<lambda>rootChild s.
                  initHistory True (flags AND ckptFlagHistory \<noteq> 0) (s\<lparr>st_rootChild := rootChild\<rparr>))
                  (s\<lparr>st_root := root, st_version := version\<rparr>)) s)) n1)"
      using rest [of n1] b rec flag by (cases "st_history s") (simp_all add: liftE_run)
  qed simp
  from built_runs [OF this] show ?thesis
    unfolding OpenLatest_def new(1) sum.case
    by (rule rev_mp) (auto split: sum.split intro: reopened_ledger [OF _ a(2,3)] reopened_chain [OF _ c])
qed

end

end
