(* ===== verification/Chain_Inv.thy ===== *)
theory Chain_Inv
  imports Opening
begin

text \<open>
  The history chain: every commit of a chained store links the head of its version to the root before
  it, so that \<^verbatim>\<open>VerifyHistory\<close> from any retained version returns and accepts.
\<close>

section \<open>The chain grows with the history\<close>

lemma word_next:
  fixes w y :: u64
  assumes "w < y"
  shows "w < w + 1" "unat (w + 1) = Suc (unat w)" "w + 1 \<le> y"
proof -
  have "unat w < unat y" "unat y < 2 ^ 64" using assms unsigned_less [of y] by (simp_all add: word_less_nat_alt)
  then show n: "unat (w + 1) = Suc (unat w)" by (simp add: unat_word_ariths)
  show "w < w + 1" using n by (simp add: word_less_nat_alt)
  show "w + 1 \<le> y" using assms by (simp add: inc_le)
qed

lemma is_hash_HistoryLink: "is_hash (HistoryLink prev root v)"
  by (simp add: HistoryLink_def is_hash_def sha256Parts_def)

lemma advanced_fields:
  assumes "advanced s nv head s'"
  shows "st_ck s' = st_ck s" "st_cipher s' = st_cipher s" "st_ckptMAC s' = st_ckptMAC s" "st_version s' = nv" "st_history s' = st_history s"
    "st_historyHead s' = head" "st_snapshotPin s' = st_snapshotPin s" "st_wantHistory s' = st_wantHistory s"
  using assms unfolding advanced_def by (cases s; cases s'; simp)+

lemma chain_commit:
  assumes c: "chain_ok s H lo" and root: "contentRoot s (H (st_version s)) (st_root s)" and lo: "lo \<le> st_version s"
    and nv: "nv = st_version s + 1" "st_version s < nv" and off: "\<not> st_history s \<Longrightarrow> m (pathOf s HistoryKey) = None"
    and adv: "advanced s nv (if st_history s then nextHead s nv else st_historyHead s) s'"
  shows "chain_ok s' (H(nv := putMap (H (st_version s)) (linked s (nextHead s nv) m))) lo"
proof -
  let ?H = "H(nv := putMap (H (st_version s)) (linked s (nextHead s nv) m))"
  note F = advanced_fields [OF adv]
  have e: "pathOf s' = pathOf s" "contentRoot s' = contentRoot s" "headAt s' = headAt s"
    unfolding headAt_def [abs_def] commitments_cong(1) [OF F(1,2)] contentRoot_cong [OF F(1)] by simp_all
  show ?thesis
  proof (cases "st_history s")
    case False
    then show ?thesis using off c F by (simp add: chain_ok_def e putMap_def linked_def)
  next
    case True
    have new: "?H nv (pathOf s HistoryKey) = Some (nextHead s nv)" using True by (simp add: putMap_def linked_def)
    have nz: "nv \<noteq> 0" using nv(2) by auto
    have old: "headAt s ?H w = headAt s H w" if "w \<noteq> nv" for w using that by (simp add: headAt_def)
    have top: "headAt s ?H nv = nextHead s nv" using new nz by (simp add: headAt_def)
    have below: "w \<le> st_version s" if "w \<le> nv" "w \<noteq> nv" for w using word_below_next that nv by blast
    have C: "st_historyHead s = headAt s H (st_version s)"
      "\<And>w. lo \<le> w \<Longrightarrow> w \<le> st_version s \<Longrightarrow> w \<noteq> 0 \<Longrightarrow> \<exists>h. H w (pathOf s HistoryKey) = Some h \<and> is_hash h"
      "\<And>w r. lo \<le> w \<Longrightarrow> w < st_version s \<Longrightarrow> contentRoot s (H w) r \<Longrightarrow> headAt s H (w + 1) = HistoryLink (headAt s H w) r (w + 1)"
      using c True by (simp_all add: chain_ok_def)
    have A: "\<exists>h. ?H w (pathOf s HistoryKey) = Some h \<and> is_hash h" if "lo \<le> w" "w \<le> nv" "w \<noteq> 0" for w
    proof (cases "w = nv")
      case False
      then show ?thesis using C(2) [OF that(1) below [OF that(2)] that(3)] by simp
    qed (use new is_hash_HistoryLink in \<open>simp add: nextHead_def\<close>)
    have B: "headAt s ?H (w + 1) = HistoryLink (headAt s ?H w) r (w + 1)"
      if w: "lo \<le> w" "w < nv" and r: "contentRoot s (?H w) r" for w r
    proof (cases "w = st_version s")
      case True
      then have "r = st_root s" using r less_imp_neq [OF nv(2)] contentRoot_unique [OF root, of r] by simp
      then show ?thesis using True nv top old [of w] C(1) by (simp add: nextHead_def)
    next
      case False
      then have "w < st_version s" "w \<noteq> nv" "w + 1 \<noteq> nv" using below w nv by (auto simp: less_le)
      then show ?thesis using C(3) [OF w(1)] r old by simp
    qed
    show ?thesis using True F A B nz top unfolding chain_ok_def e by simp
  qed
qed

section \<open>Walking the chain\<close>

context kv_backend
begin

lemma historyLoop_spec:
  assumes i: "store_inv V s H R lo" and hist: "st_history s" and c: "chain_ok s H lo" and max: "st_version s < st_version s + 1"
  shows "honest V s s1 \<Longrightarrow> lo \<le> w \<Longrightarrow> w \<le> st_version s \<Longrightarrow>
     \<exists>r s'. historyLoop (w + 1) (headAt s H w) s1 = Some (r, s') \<and> honest V s s' \<and>
       (case r of Inl e \<Rightarrow> may_fail \<and> (\<exists>m. e = WrapErr ''history walk at version %d (pruned?)'' (errBackend m))
        | Inr head \<Rightarrow> head = headAt s H (st_version s))"
proof (induction "unat (st_version s - w)" arbitrary: w s1)
  case 0
  then have "w = st_version s" by (simp add: unat_eq_0)
  then show ?case
    using 0 max read_eq_fields(5) [OF reader.ok_read_eq, of V s s1] by (subst historyLoop.simps) (auto simp: not_le)
next
  case (Suc n)
  then have ne: "w \<noteq> st_version s" by auto
  then have lt: "w < st_version s" using Suc.prems by simp
  note le = word_next(3) [OF lt]
  have lo: "lo \<le> w + 1" using Suc.prems(2) word_next(1) [OF lt] by simp
  have m: "n = unat (st_version s - (w + 1))"
    using Suc.hyps(2) word_next(2,3) [OF lt] lt by (simp add: unat_sub word_le_nat_alt less_imp_le)
  note F = read_eq_fields [OF reader.ok_read_eq [OF Suc.prems(1)]]
  note v = store_invD(2) [OF i Suc.prems(2,3)]
  have L: "runs may_fail (honest V s) (\<lambda>r s'. r = rootHashOf (vr_child (R w)) \<and> honest V s s') (loadRootRecord w s1)"
    by (rule reader.loadRootRecord_law [OF Suc.prems(1) version_okD(1) [OF v] is_hash_rootHashOf [OF version_okD(2) [OF v]]])
  have link: "HistoryLink (headAt s H w) (rootHashOf (vr_child (R w))) (w + 1) = headAt s H (w + 1)"
    using c hist Suc.prems(2) lt version_root [OF v] by (simp add: chain_ok_def)
  obtain r s2 where l: "loadRootRecord w s1 = (r, s2)" by fastforce
  show ?case
  proof (cases r)
    case (Inl e)
    then show ?thesis using L l F(5) le by (subst historyLoop.simps) (auto simp: runs_def)
  next
    case (Inr root)
    then have "root = rootHashOf (vr_child (R w))" "honest V s s2" using L l by (simp_all add: runs_def)
    then show ?thesis using Suc.hyps(1) [OF m _ lo le, of s2] link l Inr F(5) le by (subst historyLoop.simps) simp
  qed
qed

lemma VerifyHistory_ledger:
  assumes l: "ledger s H lo" and c: "chain_ok s H lo" and hist: "st_history s" and w: "lo \<le> w" "w \<le> st_version s"
    and max: "st_version s < st_version s + 1"
  shows "\<exists>r s'. VerifyHistory w (headAt s H w) s = Some (r, s') \<and> kept s H lo s' \<and>
     (case r of Inl e \<Rightarrow> may_fail \<and> (\<exists>m. e = WrapErr ''history walk at version %d (pruned?)'' (errBackend m)) | Inr u \<Rightarrow> True)"
proof -
  obtain V R where a: "honest V s s" "store_inv V s H R lo" "ckpt_ok V s"
    "\<forall>s'. honest V s s' \<longrightarrow> kept s H lo s'" by (rule ledgerE [OF l])
  obtain r s' where r: "historyLoop (w + 1) (headAt s H w) s = Some (r, s')" "honest V s s'"
      "case r of Inl e \<Rightarrow> may_fail \<and> (\<exists>m. e = WrapErr ''history walk at version %d (pruned?)'' (errBackend m))
        | Inr head \<Rightarrow> head = headAt s H (st_version s)"
    using historyLoop_spec [OF a(2) hist c max a(1) w] by blast
  have "st_historyHead s' = headAt s H (st_version s)"
    using read_eq_fields(10) [OF reader.ok_read_eq [OF r(2)]] c hist by (simp add: chain_ok_def)
  then show ?thesis using r a(4) hist leD [OF w(2)] by (auto simp: VerifyHistory_def split: sum.splits)
qed

lemma HistoryHeadAt_ledger:
  assumes l: "ledger s H lo" and c: "chain_ok s H lo" and hist: "st_history s" and w: "lo \<le> w" "w \<le> st_version s" and d: "root_distinct s (H w)"
  shows "runs may_fail (kept s H lo) (\<lambda>r s'. r = headAt s H w \<and> kept s H lo s') (HistoryHeadAt w s)"
proof (cases "w = 0")
  case True
  have "kept s H lo s" using l by (simp add: kept_def)
  then show ?thesis using True hist by (simp add: HistoryHeadAt_def headAt_def)
next
  case False
  obtain h where h: "H w (pathOf s HistoryKey) = Some h" "is_hash h" using c hist w False unfolding chain_ok_def by auto
  have "HistoryHeadAt w s = andThen (GetAt w HistoryKey) (\<lambda>val.
             case val of
               None \<Rightarrow> throw (errCorrupted ''history head leaf missing or malformed at version %d'')
             | Some v \<Rightarrow>
                 if length v \<noteq> HashSize
                 then throw (errCorrupted ''history head leaf missing or malformed at version %d'')
                 else ret v) s" using False hist by (simp add: HistoryHeadAt_def)
  also have "runs may_fail (kept s H lo) (\<lambda>r s'. r = headAt s H w \<and> kept s H lo s') \<dots>"
    by (rule runs_andThen, rule GetAt_ledger [OF l w d]) (use h False in \<open>simp add: headAt_def is_hash_def\<close>)
  finally show ?thesis .
qed

end

end
