(* ===== verification/Fork.thy ===== *)
theory Fork
  imports Commit
begin

text \<open>
  \<^verbatim>\<open>ledger/fork.go\<close>: a write buffer over the store at its current root. The Go fork holds a pointer
  to the store; here the store is an argument of the operations that use it.
\<close>

record Fork =
  fk_rootBefore :: hash
  fk_versionBefore :: u64
  fk_overlay :: "(bytes \<times> bytes option) list"

record SealedFork =
  sf_RootBefore :: hash
  sf_VersionBefore :: u64
  sf_RootAfter :: hash
  sf_VersionAfter :: u64
  sf_Ops :: "Op list"

definition NewFork :: "'b Store \<Rightarrow> Fork" where
  "NewFork s = (case Root s of (root, version) \<Rightarrow>
     \<lparr>fk_rootBefore = root, fk_versionBefore = version, fk_overlay = []\<rparr>)"

definition RootBefore :: "Fork \<Rightarrow> hash \<times> u64" where
  "RootBefore f = (fk_rootBefore f, fk_versionBefore f)"

definition forkGet :: "Fork \<Rightarrow> bytes \<Rightarrow> ('b Store, bytes option) io" where
  "forkGet f key =
     (case map_of (fk_overlay f) key of
        Some pending \<Rightarrow> ret pending
      | None \<Rightarrow> Get key)"

definition forkPut :: "bytes \<Rightarrow> bytes \<Rightarrow> Fork \<Rightarrow> Fork" where
  "forkPut key value f = f\<lparr>fk_overlay := AList.update key (Some value) (fk_overlay f)\<rparr>"

definition forkDelete :: "bytes \<Rightarrow> Fork \<Rightarrow> Fork" where
  "forkDelete key f = f\<lparr>fk_overlay := AList.update key None (fk_overlay f)\<rparr>"

definition PendingOps :: "Fork \<Rightarrow> nat" where
  "PendingOps f = length (fk_overlay f)"

text \<open>The loop of \<^verbatim>\<open>Seal\<close>: the write set in key order.\<close>

definition forkOps :: "Fork \<Rightarrow> Op list" where
  "forkOps f =
     map (\<lambda>k. case map_of (fk_overlay f) k of Some (Some v) \<Rightarrow> Put k v | _ \<Rightarrow> Del k)
       (sort (map fst (fk_overlay f)))"

definition Seal :: "(rand_call \<Rightarrow> bytes option) \<Rightarrow> Fork \<Rightarrow> ('b Store, SealedFork) io" where
  "Seal rd f s =
     (case Root s of (rootNow, versionNow) \<Rightarrow>
        if rootNow \<noteq> fk_rootBefore f \<or> versionNow \<noteq> fk_versionBefore f
        then throw (errInvalid ''store moved under the fork (version %d != %d)'') s
        else let ops = forkOps f
             in andThen (PreviewBatch rd ops) (\<lambda>(rootAfter, versionAfter).
                  ret \<lparr>sf_RootBefore = fk_rootBefore f, sf_VersionBefore = fk_versionBefore f,
                       sf_RootAfter = rootAfter, sf_VersionAfter = versionAfter, sf_Ops = ops\<rparr>) s)"

definition IsNoop :: "SealedFork \<Rightarrow> bool" where
  "IsNoop sf \<longleftrightarrow> sf_RootAfter sf = sf_RootBefore sf"

end
