(* ===== verification/Fork_Inv.thy ===== *)
theory Fork_Inv
  imports Chain_Inv Fork
begin

text \<open>
  \<^verbatim>\<open>PreviewBatch\<close> predicts the root and version of \<^verbatim>\<open>PutBatch\<close>, whatever nonces either draws; a fork
  shows its overlay over the store, and what it seals is what a commit of its operations gives.
\<close>

section \<open>Previews\<close>

lemma commits_newLeaves:
  assumes "vals_open s V M D"
  shows "commits (newLeaves s nv M m) = commitmentsOf s (putMap D m)"
proof
  fix p
  have c: "commits M p = commitmentsOf s D p" using commits_open [OF assms] by simp
  show "commits (newLeaves s nv M m) p = commitmentsOf s (putMap D m) p"
  proof (cases "m p")
    case None
    then show ?thesis using c by (simp add: commits_def newLeaves_def commitmentsOf_def putMap_def)
  next
    case (Some x)
    then show ?thesis
      by (cases x; cases "M p") (auto simp: commits_def newLeaves_def commitmentsOf_def putMap_def updEntry_def)
  qed
qed

lemma batch_root:
  assumes v: "vals_open s V M D" and p: "batch_post V s M N m (Some (acc, c', root))"
  shows "contentRoot s (putMap D (linked s (nextHead s (st_version s + 1)) m)) root"
proof -
  obtain N' where "commit_ready V s (st_rootChild s) M N (linked s (nextHead s (st_version s + 1)) m) acc c' N'"
    "root = rootHashOf c'" "a_newVersion acc = st_version s + 1" using p by (auto simp: batch_post_def Let_def)
  then have "is_smt 0 (commits (newLeaves s (st_version s + 1) M (linked s (nextHead s (st_version s + 1)) m))) root"
    using tree_at_smt [where pre = "[]"] by (fastforce simp: commit_ready_def pass_ok_def)
  then show ?thesis by (simp add: contentRoot_def commits_newLeaves [OF v])
qed

text \<open>The version that a batch leads to, and the root it gives.\<close>

definition batch_result :: "'b Store \<Rightarrow> (u64 \<Rightarrow> hash \<rightharpoonup> bytes) \<Rightarrow> Op list \<Rightarrow> hash \<times> u64 \<Rightarrow> bool" where
  "batch_result s H ops rv \<longleftrightarrow>
     (if putMap (H (st_version s)) (batchMap s ops) = H (st_version s) then rv = Root s
      else snd rv = st_version s + 1 \<and>
        contentRoot s (putMap (H (st_version s)) (linked s (nextHead s (st_version s + 1)) (batchMap s ops))) (fst rv))"

lemma batch_result_unique: "batch_result s H ops rv \<Longrightarrow> batch_result s H ops rv' \<Longrightarrow> rv = rv'"
  unfolding batch_result_def using contentRoot_unique by (cases rv; cases rv') (auto split: if_splits)

context kv_backend
begin

lemma PreviewBatch_ledger:
  assumes l: "ledger s H lo" and nv: "st_version s < st_version s + 1"
    and rd: "good_rand rd" and b: "batch_ok s (H (st_version s)) (batchMap s ops)" and ops: "\<forall>op \<in> set ops. \<not> reserved op"
  shows "runs may_fail (kept s H lo) (\<lambda>rv s'. batch_result s H ops rv \<and> kept s H lo s') (PreviewBatch rd ops s)"
proof -
  obtain V R where a: "honest V s s" "store_inv V s H R lo" "ckpt_ok V s"
    "\<forall>s'. honest V s s' \<longrightarrow> kept s H lo s'" by (rule ledgerE [OF l])
  have v: "version_ok V s (st_version s) (H (st_version s)) (R (st_version s))" using store_invD(1,2) [OF a(2)] by simp
  have t: "tree_at (nodeAt V) (st_version s) [] (st_rootChild s) (vr_leaves (R (st_version s))) (vr_nodes (R (st_version s)))"
    using version_okD(2) [OF v] store_invD(3) [OF a(2)] by simp
  have same: "newLeaves s (st_version s + 1) (vr_leaves (R (st_version s))) (batchMap s ops) = vr_leaves (R (st_version s)) \<longleftrightarrow>
      putMap (H (st_version s)) (batchMap s ops) = H (st_version s)"
    using version_leaves(2) [OF v] nv by (intro newLeaves_same [OF version_okD(4) [OF v] no_clash_linked [OF b]]) fastforce
  show ?thesis
    unfolding PreviewBatch_def
  proof (rule runs_andThen, rule runs_mono, rule reader.computeBatch_spec [OF a(1) t version_okD(5) [OF v] nv rd b ops])
    fix r s1 assume r: "honest V s s1 \<and> batch_post V s (vr_leaves (R (st_version s))) (vr_nodes (R (st_version s))) (batchMap s ops) r"
    note F = read_eq_fields [OF reader.ok_read_eq [OF conjunct1 [OF r]]]
    show "runs may_fail (kept s H lo) (\<lambda>rv s'. batch_result s H ops rv \<and> kept s H lo s')
       (case r of None \<Rightarrow> ret (st_root s1, st_version s1) s1
        | Some (acc, newRootChild, newRoot) \<Rightarrow> ret (newRoot, st_version s1 + 1) s1)"
    proof (cases r)
      case None
      then show ?thesis using r a(4) same F by (simp add: batch_post_def batch_result_def Root_def)
    next
      case (Some e)
      obtain acc c' root where e: "e = (acc, c', root)" by (cases e)
      have "putMap (H (st_version s)) (batchMap s ops) \<noteq> H (st_version s)" using r same by (auto simp: Some e batch_post_def Let_def)
      then show ?thesis
        using r a(4) F batch_root [OF version_okD(4) [OF v] conjunct2 [OF r [unfolded Some e]]] by (simp add: Some e batch_result_def)
    qed
  qed (use a(4) in auto)
qed

lemma PutBatch_result:
  assumes l: "ledger s H lo" and nv: "st_version s < st_version s + 1"
    and rd: "good_rand rd" and b: "batch_ok s (H (st_version s)) (batchMap s ops)" and ops: "\<forall>op \<in> set ops. \<not> reserved op"
  shows "runs may_fail (kept s H lo) (\<lambda>rv s'. batch_result s H ops rv) (PutBatch rd ops s)"
proof (rule runs_mono, rule PutBatch_ledger [OF assms])
  let ?D = "putMap (H (st_version s)) (linked s (nextHead s (st_version s + 1)) (batchMap s ops))"
  fix rv s' assume a: "rv = Root s' \<and>
       (if putMap (H (st_version s)) (batchMap s ops) = H (st_version s) then kept s H lo s'
        else let nv = st_version s + 1; D' = putMap (H (st_version s)) (linked s (nextHead s nv) (batchMap s ops))
             in ledger s' (H(nv := D')) lo \<and> advanced s nv (if st_history s then nextHead s nv else st_historyHead s) s' \<and>
                (\<forall>k. foreign k \<longrightarrow> recordsOf s' k = recordsOf s k))"
  show "batch_result s H ops rv"
  proof (cases "putMap (H (st_version s)) (batchMap s ops) = H (st_version s)")
    case True
    then show ?thesis using a read_eq_fields [of s s'] by (auto simp: batch_result_def kept_def Root_def)
  next
    case False
    then have b: "ledger s' (H(st_version s + 1 := ?D)) lo"
      "advanced s (st_version s + 1) (if st_history s then nextHead s (st_version s + 1) else st_historyHead s) s'"
      using a by (simp_all add: Let_def)
    note F = advanced_fields [OF b(2)]
    have "contentRoot s ?D (st_root s')" using Root_ledger [OF b(1)] F(4) contentRoot_cong [OF F(1)] by simp
    then show ?thesis using False a F(4) by (simp add: batch_result_def Root_def)
  qed
qed

end

section \<open>Forks\<close>

definition fork_ok :: "Fork \<Rightarrow> bool" where
  "fork_ok f \<longleftrightarrow> distinct (map fst (fk_overlay f))"

lemma fork_ok_ops:
  "fork_ok (NewFork s)" "fork_ok f \<Longrightarrow> fork_ok (forkPut k v f)" "fork_ok f \<Longrightarrow> fork_ok (forkDelete k f)"
  by (simp_all add: fork_ok_def NewFork_def Root_def forkPut_def forkDelete_def distinct_update)

text \<open>The content that the fork shows: its overlay over the store's content, by path.\<close>

definition no_path_clash :: "'b Store \<Rightarrow> bytes set \<Rightarrow> bool" where
  "no_path_clash s ks \<longleftrightarrow> inj_on (pathOf s) ks"

lemma map_of_rev_keyed:
  "inj_on g (insert k (set xs)) \<Longrightarrow> map_of (rev (map (\<lambda>k. (g k, h k)) xs)) (g k) = (if k \<in> set xs then Some (h k) else None)"
proof (induction xs)
  case (Cons x xs)
  have "inj_on g (insert k (set xs))" using Cons.prems by (rule inj_on_subset) auto
  moreover have "g k = g x \<longleftrightarrow> k = x" using Cons.prems by (auto dest: inj_onD)
  ultimately show ?case using Cons.IH by (auto simp: map_add_def)
qed simp

lemma batchMap_forkOps:
  assumes "no_path_clash s (insert k (fst ` set (fk_overlay f)))"
  shows "batchMap s (forkOps f) (pathOf s k) = map_of (fk_overlay f) k"
proof -
  let ?xs = "sort (map fst (fk_overlay f))"
  have "map (\<lambda>op. (pathOf s (op_Key op), opValue op)) (forkOps f) = map (\<lambda>k. (pathOf s k, the (map_of (fk_overlay f) k))) ?xs"
    unfolding forkOps_def map_map
  proof (rule map_cong [OF refl])
    fix x assume "x \<in> set ?xs"
    then obtain y where "map_of (fk_overlay f) x = Some y" by (metis image_set map_of_eq_None_iff not_None_eq set_sort)
    then show "((\<lambda>op. (pathOf s (op_Key op), opValue op)) \<circ> (\<lambda>k. case map_of (fk_overlay f) k of Some (Some v) \<Rightarrow> Put k v | _ \<Rightarrow> Del k)) x =
        (pathOf s x, the (map_of (fk_overlay f) x))" by (cases y) (simp_all add: opValue_def Put_def Del_def)
  qed
  then have "batchMap s (forkOps f) (pathOf s k) = (if k \<in> set ?xs then Some (the (map_of (fk_overlay f) k)) else None)"
    using map_of_rev_keyed [of "pathOf s" k ?xs "\<lambda>k. the (map_of (fk_overlay f) k)"] assms by (simp add: batchMap_def no_path_clash_def)
  moreover have "k \<in> set ?xs \<longleftrightarrow> map_of (fk_overlay f) k \<noteq> None" by (simp add: map_of_eq_None_iff)
  ultimately show ?thesis by auto
qed

lemma forkOps_reserved: "(\<exists>op \<in> set (forkOps f). reserved op) \<longleftrightarrow> (\<exists>k \<in> fst ` set (fk_overlay f). hasPrefix k reservedKeyPrefix)"
proof -
  have "op_Key (case map_of (fk_overlay f) k of Some (Some v) \<Rightarrow> Put k v | _ \<Rightarrow> Del k) = k" for k
    by (simp add: Put_def Del_def split: option.split)
  then show ?thesis by (auto simp: forkOps_def reserved_def)
qed

context kv_backend
begin

lemma forkGet_ledger:
  assumes l: "ledger s H lo" and inj: "no_path_clash s (insert key (fst ` set (fk_overlay f)))"
  shows "runs may_fail (kept s H lo)
     (\<lambda>r s'. r = putMap (H (st_version s)) (batchMap s (forkOps f)) (pathOf s key) \<and> kept s H lo s') (forkGet f key s)"
proof -
  have k: "kept s H lo s" using l by (simp add: kept_def)
  show ?thesis
  proof (cases "map_of (fk_overlay f) key")
    case None
    then show ?thesis using Get_ledger [OF l, of key] batchMap_forkOps [OF inj] by (simp add: forkGet_def putMap_def)
  next
    case (Some x)
    then show ?thesis using k batchMap_forkOps [OF inj] by (simp add: forkGet_def putMap_def)
  qed
qed

lemma Seal_ledger:
  assumes l: "ledger s H lo" and f: "RootBefore f = Root s" and nv: "st_version s < st_version s + 1" and rd: "good_rand rd"
    and b: "batch_ok s (H (st_version s)) (batchMap s (forkOps f))" and ops: "\<forall>op \<in> set (forkOps f). \<not> reserved op"
  shows "runs may_fail (kept s H lo)
     (\<lambda>sf s'. sf_Ops sf = forkOps f \<and> (sf_RootBefore sf, sf_VersionBefore sf) = Root s \<and>
        batch_result s H (forkOps f) (sf_RootAfter sf, sf_VersionAfter sf) \<and> kept s H lo s') (Seal rd f s)"
proof -
  have "Seal rd f s = andThen (PreviewBatch rd (forkOps f)) (\<lambda>(rootAfter, versionAfter).
      ret \<lparr>sf_RootBefore = fk_rootBefore f, sf_VersionBefore = fk_versionBefore f,
           sf_RootAfter = rootAfter, sf_VersionAfter = versionAfter, sf_Ops = forkOps f\<rparr>) s"
    using f by (simp add: Seal_def Root_def RootBefore_def Let_def)
  also have "runs may_fail (kept s H lo)
     (\<lambda>sf s'. sf_Ops sf = forkOps f \<and> (sf_RootBefore sf, sf_VersionBefore sf) = Root s \<and>
        batch_result s H (forkOps f) (sf_RootAfter sf, sf_VersionAfter sf) \<and> kept s H lo s') \<dots>"
    by (rule runs_andThen, rule PreviewBatch_ledger [OF l nv rd b ops]) (use f in \<open>auto simp: RootBefore_def\<close>)
  finally show ?thesis .
qed

end

end
