(* ===== verification/Pruning.thy ===== *)
theory Pruning
  imports Commit
begin

text \<open>
  \<^verbatim>\<open>Prune\<close> and \<^verbatim>\<open>RetainRecent\<close> of \<^verbatim>\<open>ledger/store.go\<close>. The two scan-and-delete loops run until the
  backend returns a short chunk; against an arbitrary backend they may run forever, so they are partial
  functions whose value is \<open>None\<close> when they do not return.
\<close>

record PruneStats =
  ps_StaleEntries :: nat
  ps_RecordsDeleted :: nat
  ps_RootRecordsDeleted :: nat

definition noStats :: PruneStats where
  "noStats = \<lparr>ps_StaleEntries = 0, ps_RecordsDeleted = 0, ps_RootRecordsDeleted = 0\<rparr>"

abbreviation (input) pruneChunk :: nat where "pruneChunk \<equiv> 512"

text \<open>What \<^verbatim>\<open>Prune\<close> returns: the statistics so far and an error or \<open>None\<close> for \<^verbatim>\<open>nil\<close>.\<close>

type_synonym 'b pruneResult = "(PruneStats \<times> goerr option) \<times> 'b Store"

definition delOp :: "bytes \<Rightarrow> BatchOp" where
  "delOp key = \<lparr>bo_key = key, bo_value = [], bo_delete = True\<rparr>"

text \<open>The loop over the scanned stale entries: the batch, or the statistics reached at a short key.\<close>

fun staleDeletes :: "KV list \<Rightarrow> BatchOp list \<Rightarrow> PruneStats \<Rightarrow> PruneStats + BatchOp list \<times> PruneStats" where
  "staleDeletes [] batch stats = Inr (batch, stats)"
| "staleDeletes (e # es) batch stats =
     (if length (kv_key e) < 10 then Inl stats
      else staleDeletes es (batch @ [delOp (drop 9 (kv_key e)), delOp (kv_key e)])
             (stats\<lparr>ps_StaleEntries := ps_StaleEntries stats + 1,
                    ps_RecordsDeleted := ps_RecordsDeleted stats + 1\<rparr>))"

partial_function (option) pruneStale ::
  "bytes \<Rightarrow> bytes \<Rightarrow> PruneStats \<Rightarrow> 'b Store \<Rightarrow> 'b pruneResult option"
where
  "pruneStale start end stats s =
     (case callScan start end 512 s of
        (Inl e, s1) \<Rightarrow> Some ((stats, Some (errBackend e)), s1)
      | (Inr entries, s1) \<Rightarrow>
          if entries = [] then Some ((stats, None), s1)
          else (case staleDeletes entries [] stats of
                  Inl stats1 \<Rightarrow> Some ((stats1, Some (errCorrupted ''stale entry key too short'')), s1)
                | Inr (batch, stats1) \<Rightarrow>
                    (case callWriteBatch batch s1 of
                       (Inl e, s2) \<Rightarrow> Some ((stats1, Some (errBackend e)), s2)
                     | (Inr _, s2) \<Rightarrow>
                         if length entries = pruneChunk then pruneStale start end stats1 s2
                         else Some ((stats1, None), s2))))"

partial_function (option) pruneRoots ::
  "bytes \<Rightarrow> bytes \<Rightarrow> PruneStats \<Rightarrow> 'b Store \<Rightarrow> 'b pruneResult option"
where
  "pruneRoots start end stats s =
     (case callScan start end 512 s of
        (Inl e, s1) \<Rightarrow> Some ((stats, Some (errBackend e)), s1)
      | (Inr entries, s1) \<Rightarrow>
          if entries = [] then Some ((stats, None), s1)
          else (let stats1 = stats\<lparr>ps_RootRecordsDeleted := ps_RootRecordsDeleted stats + length entries\<rparr>
                in case callWriteBatch (map (\<lambda>e. delOp (kv_key e)) entries) s1 of
                     (Inl e, s2) \<Rightarrow> Some ((stats1, Some (errBackend e)), s2)
                   | (Inr _, s2) \<Rightarrow>
                       if length entries = pruneChunk then pruneRoots start end stats1 s2
                       else Some ((stats1, None), s2)))"

text \<open>The horizon of \<^verbatim>\<open>Prune\<close>, capped by a pinned version, and the end of the stale range.\<close>

definition pruneHorizon :: "'b Store \<Rightarrow> u64 \<Rightarrow> u64" where
  "pruneHorizon s beforeVersion =
     (case st_snapshotPin s of
        Some pin \<Rightarrow> if pin < beforeVersion then pin else beforeVersion
      | None \<Rightarrow> beforeVersion)"

definition staleEnd :: "u64 \<Rightarrow> bytes" where
  "staleEnd beforeVersion =
     (if beforeVersion = - 1 then [recStale + 1] else recStale # putUint64 (beforeVersion + 1))"

definition Prune :: "u64 \<Rightarrow> 'b Store \<Rightarrow> 'b pruneResult option" where
  "Prune before s =
     (let beforeVersion = pruneHorizon s before
      in if beforeVersion > st_version s
         then Some ((noStats, Some (errInvalid ''cannot prune to future version %d (current %d)'')), s)
         else case pruneStale [recStale] (staleEnd beforeVersion) noStats (s\<lparr>st_cache := cacheClear (st_cache s)\<rparr>) of
                None \<Rightarrow> None
              | Some ((stats, Some e), s1) \<Rightarrow> Some ((stats, Some e), s1)
              | Some ((stats, None), s1) \<Rightarrow> pruneRoots [recRoot] (recRoot # putUint64 beforeVersion) stats s1)"

definition RetainRecent :: "u64 \<Rightarrow> 'b Store \<Rightarrow> 'b pruneResult option" where
  "RetainRecent window s =
     (if window > st_version s then Prune 0 s else Prune (st_version s - window) s)"

end
