(* ===== verification/Prune_Inv.thy ===== *)
theory Prune_Inv
  imports Chain_Inv Pruning
begin

text \<open>
  \<^verbatim>\<open>Prune\<close> on an honest backend: it returns, deletes nothing that a retained version needs even when the
  backend fails half-way, and when it succeeds leaves no stale entry and no root record below its horizon.
\<close>

section \<open>Deleting records that no retained version needs\<close>

lemma store_inv_weaken: "store_inv V s H R lo \<Longrightarrow> lo \<le> lo' \<Longrightarrow> lo' \<le> st_version s \<Longrightarrow> store_inv V s H R lo'"
  unfolding store_inv_def stale_ok_def by (meson order_trans)

definition dead :: "u64 \<Rightarrow> 'b Store \<Rightarrow> (u64 \<Rightarrow> version) \<Rightarrow> bytes \<Rightarrow> bool" where
  "dead lo s R k \<longleftrightarrow>
     k \<noteq> checkpointRecordKey \<and> (\<forall>w. lo \<le> w \<longrightarrow> w \<le> st_version s \<longrightarrow> k \<notin> live_keys (R w) \<and> k \<noteq> rootRecordKey w)"

definition without :: "bytes set \<Rightarrow> (bytes \<rightharpoonup> bytes) \<Rightarrow> bytes \<rightharpoonup> bytes" where
  "without K V k = (if k \<in> K then None else V k)"

lemma without_le: "without K V \<subseteq>\<^sub>m V"
  by (auto simp: without_def map_le_def split: if_splits)

lemma store_inv_without:
  assumes i: "store_inv V s H R lo" and d: "\<forall>k \<in> K. dead lo s R k"
  shows "store_inv (without K V) s H R lo"
proof -
  note I = store_invD [OF i]
  have "version_ok (without K V) s w (H w) (R w)" if w: "lo \<le> w" "w \<le> st_version s" for w
    by (rule version_ok_frame [OF I(2) [OF w]]) (use d w in \<open>auto simp: without_def dead_def\<close>)
  moreover have "stale_ok (without K V) lo (st_version s) R" using I(6) by (auto simp: stale_ok_def without_def split: if_splits)
  ultimately show ?thesis using I by (simp add: store_inv_def without_def)
qed

lemma ckpt_ok_without: "ckpt_ok V s \<Longrightarrow> \<forall>k \<in> K. dead lo s R k \<Longrightarrow> ckpt_ok (without K V) s"
  by (auto simp: ckpt_ok_def without_def dead_def)

lemma stale_dead:
  assumes "stale_ok V lo (st_version s) R" "V (staleRecordKey since k) \<noteq> None" "since \<le> lo"
  shows "dead lo s R k" "dead lo s R (staleRecordKey since k)"
proof -
  have b: "before since k" "\<And>w. lo \<le> w \<Longrightarrow> w \<le> st_version s \<Longrightarrow> k \<notin> live_keys (R w)"
    using assms unfolding stale_ok_def by (blast intro: order_trans)+
  then show "dead lo s R k" by (auto simp: dead_def before_def)
  show "dead lo s R (staleRecordKey since k)" by (auto simp: dead_def live_keys_def record_key_defs)
qed

lemma root_dead:
  assumes "\<And>w. lo \<le> w \<Longrightarrow> recRoot # t \<noteq> rootRecordKey w"
  shows "dead lo s R (recRoot # t)"
  using assms by (auto simp: dead_def live_keys_def nodeRecordKey_def valueRecordKey_def checkpointRecordKey_def)

section \<open>The ranges that are scanned\<close>

lemma byte_stale: "(x :: byte) < 116 \<Longrightarrow> 115 \<le> x \<Longrightarrow> x = 115"
  by (simp add: word_less_nat_alt word_le_nat_alt word_unat_eq_iff)

lemma stale_range:
  assumes "inRange [recStale] (staleEnd h) k" "V k \<noteq> None" "\<forall>t. V (recStale # t) \<noteq> None \<longrightarrow> 8 \<le> length t"
  shows "\<exists>since t. k = staleRecordKey since t \<and> since \<le> h"
proof -
  obtain x xs where k: "k = x # xs" "recStale \<le> x" using assms(1) by (cases k) (auto simp: inRange_def)
  have "x = recStale"
    using assms(1) k byte_stale [of x] by (cases "h = - 1") (auto simp: inRange_def staleEnd_def)
  with k assms(2,3) have l: "8 \<le> length xs" by simp
  define since where "since = uint64 (take 8 xs)"
  have xs: "xs = putUint64 since @ drop 8 xs" using l by (simp add: since_def putUint64_uint64)
  have "since \<le> h"
  proof (cases "h = - 1")
    case False
    then have "putUint64 since @ drop 8 xs < putUint64 (h + 1) @ []"
      using assms(1) k \<open>x = recStale\<close> xs by (simp add: inRange_def staleEnd_def)
    then have "since < h + 1" unfolding putUint64_less by simp
    then show ?thesis using word_next(3) [of h since] by (meson not_le)
  qed simp
  then show ?thesis using k \<open>x = recStale\<close> xs by (intro exI [of _ since] exI [of _ "drop 8 xs"]) (simp add: staleRecordKey_def)
qed

lemma stale_in_range:
  assumes "since \<le> h"
  shows "inRange [recStale] (staleEnd h) (staleRecordKey since t)"
proof (cases "h = - 1")
  case False
  then have "h < - 1" by (simp add: word_order.not_eq_extremum)
  then have "since < h + 1" using assms word_next(1) order_le_less_trans by blast
  then show ?thesis using False putUint64_less [of since t "h + 1" "[]"] by (simp add: inRange_def staleEnd_def staleRecordKey_def)
qed (simp add: inRange_def staleEnd_def staleRecordKey_def)

lemma root_range:
  assumes "inRange [recRoot] (recRoot # putUint64 h) k"
  shows "\<exists>t. k = recRoot # t" "h \<le> w \<Longrightarrow> k \<noteq> rootRecordKey w"
proof -
  obtain x xs where k: "k = x # xs" "recRoot \<le> x" using assms by (cases k) (auto simp: inRange_def)
  then show "\<exists>t. k = recRoot # t" using assms by (auto simp: inRange_def)
  assume "h \<le> w"
  then show "k \<noteq> rootRecordKey w"
    using assms putUint64_less [of w "[]" h "[]"] by (auto simp: inRange_def rootRecordKey_def)
qed

lemma root_in_range: "w < h \<Longrightarrow> inRange [recRoot] (recRoot # putUint64 h) (rootRecordKey w)"
  using putUint64_less [of w "[]" h "[]"] by (simp add: inRange_def rootRecordKey_def)

lemma applyBatch_delOps: "applyBatch (map delOp ks) V = without (set ks) V"
  by (induction ks rule: rev_induct) (auto simp: applyBatch_def applyOp_def delOp_def without_def fun_eq_iff)

definition staleKeys :: "KV list \<Rightarrow> bytes list" where
  "staleKeys es = concat (map (\<lambda>e. [drop 9 (kv_key e), kv_key e]) es)"

lemma staleDeletes_all:
  "\<forall>e \<in> set es. 10 \<le> length (kv_key e) \<Longrightarrow>
     \<exists>stats1. staleDeletes es batch stats = Inr (batch @ map delOp (staleKeys es), stats1)"
proof (induction es arbitrary: batch stats)
  case (Cons e es)
  then obtain stats1 where
    "staleDeletes es (batch @ [delOp (drop 9 (kv_key e)), delOp (kv_key e)])
       (stats\<lparr>ps_StaleEntries := ps_StaleEntries stats + 1, ps_RecordsDeleted := ps_RecordsDeleted stats + 1\<rparr>) =
     Inr ((batch @ [delOp (drop 9 (kv_key e)), delOp (kv_key e)]) @ map delOp (staleKeys es), stats1)"
    by (metis list.set_intros(2))
  then show ?case using Cons.prems by (simp add: staleKeys_def)
qed (simp add: staleKeys_def)

section \<open>The loops\<close>

definition in_range :: "bytes \<Rightarrow> bytes \<Rightarrow> (bytes \<rightharpoonup> bytes) \<Rightarrow> bytes set" where
  "in_range start end V = {k \<in> dom V. inRange start end k}"

lemma in_range_shrinks:
  assumes f: "finite (dom V)" and sc: "scanned V start end 512 entries" and ne: "entries \<noteq> []" and K: "kv_key ` set entries \<subseteq> K"
  shows "card (in_range start end (without K V)) < card (in_range start end V)"
    "length entries \<noteq> 512 \<Longrightarrow> in_range start end (without K V) = {}"
proof -
  have e: "kv_key e \<in> in_range start end V" if "e \<in> set entries" for e
    using sc that by (auto simp: scanned_def in_range_def)
  have "in_range start end (without K V) \<subset> in_range start end V"
  proof
    show "in_range start end (without K V) \<subseteq> in_range start end V" by (auto simp: in_range_def without_def split: if_splits)
    have "kv_key (hd entries) \<notin> in_range start end (without K V)" using ne K by (auto simp: in_range_def without_def subset_iff split: if_splits)
    then show "in_range start end (without K V) \<noteq> in_range start end V" using e [of "hd entries"] ne by auto
  qed
  moreover have "finite (in_range start end V)" using f by (simp add: in_range_def)
  ultimately show "card (in_range start end (without K V)) < card (in_range start end V)" by (rule psubset_card_mono [rotated])
  assume "length entries \<noteq> 512"
  then have "\<forall>k \<in> dom V. inRange start end k \<longrightarrow> k \<in> kv_key ` set entries" using sc by (auto simp: scanned_def)
  then have "k \<in> K" if "V k = Some v" "inRange start end k" for k v using that K by blast
  then show "in_range start end (without K V) = {}" by (auto simp: in_range_def without_def split: if_splits)
qed

lemma in_range_none: "scanned V start end 512 [] \<Longrightarrow> in_range start end V = {}"
  by (auto simp: scanned_def in_range_def)

text \<open>
  \<open>pruned V h\<close>: nothing that died at or before \<open>h\<close> is left in the index, and no root record below \<open>h\<close>.
\<close>

definition pruned :: "(bytes \<rightharpoonup> bytes) \<Rightarrow> u64 \<Rightarrow> bool" where
  "pruned V h \<longleftrightarrow> (\<forall>since k. since \<le> h \<longrightarrow> V (staleRecordKey since k) = None) \<and> (\<forall>w. w < h \<longrightarrow> V (rootRecordKey w) = None)"

definition staleStats :: "KV list \<Rightarrow> PruneStats \<Rightarrow> PruneStats" where
  "staleStats es stats = (case staleDeletes es [] stats of Inl x \<Rightarrow> x | Inr (b, x) \<Rightarrow> x)"

context kv_backend
begin

text \<open>The states between two batches: an empty cache, and every retained version intact.\<close>

definition pruning :: "'b Store \<Rightarrow> (u64 \<Rightarrow> hash \<rightharpoonup> bytes) \<Rightarrow> (u64 \<Rightarrow> version) \<Rightarrow> u64 \<Rightarrow> (bytes \<rightharpoonup> bytes) \<Rightarrow> 'b Store \<Rightarrow> bool" where
  "pruning s0 H R lo V s \<longleftrightarrow> honest V s0 s \<and> nc_m (st_cache s) = [] \<and> store_inv V s0 H R lo \<and> ckpt_ok V s0"

lemma pruning_scan:
  assumes "pruning s0 H R lo V s" "callScan start end limit s = (r, s')"
  shows "pruning s0 H R lo V s'" "case r of Inl e \<Rightarrow> may_fail | Inr kvs \<Rightarrow> scanned V start end limit kvs"
proof -
  obtain q b where g: "scanB start end limit (be_state (st_backend s)) = (q, b)" by fastforce
  have h: "live (be_state (st_backend s))" "view (be_state (st_backend s)) = V" "be_Scan (st_backend s) = scanB"
    using assms(1) by (simp_all add: pruning_def honest_def)
  then have r: "r = q" "s' = setBackendState s b" using assms(2) g by (simp_all add: callScan_def)
  have L: "live b \<and> view b = V \<and> (case q of Inl e \<Rightarrow> may_fail | Inr kvs \<Rightarrow> scanned V start end limit kvs)"
    using scan_law [OF h(1) g] h(2) by (auto split: sum.splits)
  then show "pruning s0 H R lo V s'" using assms(1) by (simp add: r pruning_def honest_def)
  show "case r of Inl e \<Rightarrow> may_fail | Inr kvs \<Rightarrow> scanned V start end limit kvs" using L r by simp
qed

lemma pruning_delete:
  assumes p: "pruning s0 H R lo V s" and d: "\<forall>k \<in> set ks. dead lo s0 R k" and w: "callWriteBatch (map delOp ks) s = (r, s')"
  shows "case r of Inl e \<Rightarrow> may_fail \<and> pruning s0 H R lo V s' | Inr u \<Rightarrow> pruning s0 H R lo (without (set ks) V) s'"
proof -
  obtain q b where g: "writeB (map delOp ks) (be_state (st_backend s)) = (q, b)" by fastforce
  have h: "live (be_state (st_backend s))" "view (be_state (st_backend s)) = V" "be_WriteBatch (st_backend s) = writeB"
    using p by (simp_all add: pruning_def honest_def)
  then have r: "r = q" "s' = setBackendState s b" using w g by (simp_all add: callWriteBatch_def)
  have L: "live b \<and> (case q of Inl e \<Rightarrow> may_fail \<and> view b = V | Inr u \<Rightarrow> view b = without (set ks) V)"
    using write_law [OF h(1) g] h(2) by (auto simp: applyBatch_delOps split: sum.splits)
  have "coherent V' (st_cache s)" for V' using p by (simp add: pruning_def coherent_def cached_def)
  then show ?thesis
    using L p store_inv_without [OF _ d] ckpt_ok_without [OF _ d]
    by (cases q) (auto simp: r pruning_def honest_def)
qed

lemma pruning_finite: "pruning s0 H R lo V s \<Longrightarrow> finite (dom V)"
  using view_finite by (auto simp: pruning_def honest_def)

text \<open>How a loop ends: retained versions intact, and the range empty unless the backend failed.\<close>

definition prune_end ::
  "'b Store \<Rightarrow> (u64 \<Rightarrow> hash \<rightharpoonup> bytes) \<Rightarrow> (u64 \<Rightarrow> version) \<Rightarrow> u64 \<Rightarrow> bytes \<Rightarrow> bytes \<Rightarrow> (bytes \<rightharpoonup> bytes) \<Rightarrow> 'b pruneResult option \<Rightarrow> bool" where
  "prune_end s0 H R lo start end V0 r \<longleftrightarrow>
     (\<exists>stats eo s' V. r = Some ((stats, eo), s') \<and> pruning s0 H R lo V s' \<and> V \<subseteq>\<^sub>m V0 \<and>
        (case eo of None \<Rightarrow> in_range start end V = {} | Some e \<Rightarrow> may_fail \<and> (\<exists>m. e = errBackend m)))"

lemma prune_endI:
  "pruning s0 H R lo V s' \<Longrightarrow> V \<subseteq>\<^sub>m V0 \<Longrightarrow> in_range start end V = {} \<Longrightarrow> prune_end s0 H R lo start end V0 (Some ((stats, None), s'))"
  "pruning s0 H R lo V s' \<Longrightarrow> V \<subseteq>\<^sub>m V0 \<Longrightarrow> may_fail \<Longrightarrow> prune_end s0 H R lo start end V0 (Some ((stats, Some (errBackend m)), s'))"
  unfolding prune_end_def by auto

lemma prune_end_mono: "prune_end s0 H R lo start end V r \<Longrightarrow> V \<subseteq>\<^sub>m V0 \<Longrightarrow> prune_end s0 H R lo start end V0 r"
  unfolding prune_end_def by (blast intro: map_le_trans)

text \<open>Both loops scan a range, delete what they find and go on while chunks are full.\<close>

lemma scan_delete_loop:
  assumes eq: "\<And>stats s V. pruning s0 H R lo V s \<Longrightarrow> F stats s =
      (case callScan start end 512 s of
         (Inl e, s1) \<Rightarrow> Some ((stats, Some (errBackend e)), s1)
       | (Inr es, s1) \<Rightarrow>
           if es = [] then Some ((stats, None), s1)
           else (case callWriteBatch (map delOp (K es)) s1 of
                   (Inl e, s2) \<Rightarrow> Some ((upd es stats, Some (errBackend e)), s2)
                 | (Inr _, s2) \<Rightarrow> if length es = pruneChunk then F (upd es stats) s2 else Some ((upd es stats, None), s2)))"
    and K: "\<And>V es. store_inv V s0 H R lo \<Longrightarrow> scanned V start end 512 es \<Longrightarrow>
      (\<forall>k \<in> set (K es). dead lo s0 R k) \<and> kv_key ` set es \<subseteq> set (K es)"
  shows "pruning s0 H R lo V s \<Longrightarrow> prune_end s0 H R lo start end V (F stats s)"
proof (induction "card (in_range start end V)" arbitrary: V s stats rule: less_induct)
  case less
  obtain r s1 where sc: "callScan start end 512 s = (r, s1)" by fastforce
  note S = pruning_scan [OF less.prems sc] and U = eq [OF less.prems, of stats, unfolded sc prod.case]
  show ?case
  proof (cases r)
    case (Inl e)
    then show ?thesis unfolding U using S prune_endI(2) [OF S(1) map_le_refl] by simp
  next
    case r: (Inr es)
    have sn: "scanned V start end 512 es" using S(2) r by simp
    show ?thesis
    proof (cases "es = []")
      case True
      then show ?thesis unfolding U r using prune_endI(1) [OF S(1) map_le_refl in_range_none] sn by simp
    next
      case ne: False
      obtain q s2 where w: "callWriteBatch (map delOp (K es)) s1 = (q, s2)" by fastforce
      have kk: "\<forall>k \<in> set (K es). dead lo s0 R k" "kv_key ` set es \<subseteq> set (K es)" using K [OF _ sn] S(1) by (simp_all add: pruning_def)
      note P = pruning_delete [OF S(1) kk(1) w] and shr = in_range_shrinks [OF pruning_finite [OF S(1)] sn ne kk(2)]
      show ?thesis
      proof (cases q)
        case (Inl e)
        then show ?thesis unfolding U r using P prune_endI(2) [OF _ map_le_refl] ne w by simp
      next
        case (Inr u)
        then have p2: "pruning s0 H R lo (without (set (K es)) V) s2" using P by simp
        show ?thesis
        proof (cases "length es = 512")
          case True
          then show ?thesis unfolding U r using prune_end_mono [OF less.hyps [OF shr(1) p2] without_le] ne w Inr by simp
        next
          case False
          then show ?thesis unfolding U r using prune_endI(1) [OF p2 without_le shr(2) [OF False]] ne w Inr by simp
        qed
      qed
    qed
  qed
qed

lemma stale_entries:
  assumes st: "stale_ok V lo (st_version s0) R" and sn: "scanned V [recStale] (staleEnd h) 512 es" and h: "h \<le> lo" and e: "e \<in> set es"
  obtains since t where "kv_key e = staleRecordKey since t" "since \<le> lo" "V (staleRecordKey since t) \<noteq> None" "t \<noteq> []"
proof -
  have k: "inRange [recStale] (staleEnd h) (kv_key e)" "V (kv_key e) \<noteq> None" using sn e by (auto simp: scanned_def)
  obtain since t where s: "kv_key e = staleRecordKey since t" "since \<le> h"
    using stale_range [where V = V, OF k] st unfolding stale_ok_def by blast
  then have "before since t" using st k(2) unfolding stale_ok_def by auto
  then have "t \<noteq> []" by (auto simp: before_def nodeRecordKey_def valueRecordKey_def)
  then show thesis using that s k(2) h by auto
qed

lemma pruneStale_step:
  assumes h: "h \<le> lo" and p: "pruning s0 H R lo V s"
  shows "pruneStale [recStale] (staleEnd h) stats s =
      (case callScan [recStale] (staleEnd h) 512 s of
         (Inl e, s1) \<Rightarrow> Some ((stats, Some (errBackend e)), s1)
       | (Inr es, s1) \<Rightarrow>
           if es = [] then Some ((stats, None), s1)
           else (case callWriteBatch (map delOp (staleKeys es)) s1 of
                   (Inl e, s2) \<Rightarrow> Some ((staleStats es stats, Some (errBackend e)), s2)
                 | (Inr _, s2) \<Rightarrow> if length es = pruneChunk then pruneStale [recStale] (staleEnd h) (staleStats es stats) s2
                     else Some ((staleStats es stats, None), s2)))"
proof -
  obtain r s1 where sc: "callScan [recStale] (staleEnd h) 512 s = (r, s1)" by fastforce
  have d: "\<exists>x. staleDeletes es [] stats = Inr (map delOp (staleKeys es), x)" if "r = Inr es" for es
  proof -
    have i: "stale_ok V lo (st_version s0) R" "scanned V [recStale] (staleEnd h) 512 es"
      using pruning_scan [OF p sc] that store_invD(6) by (auto simp: pruning_def)
    have "10 \<le> length (kv_key e)" if "e \<in> set es" for e
      by (rule stale_entries [OF i h that]) (auto simp: staleRecordKey_def Suc_le_eq)
    then show ?thesis using staleDeletes_all [of es "[]" stats] by auto
  qed
  show ?thesis
  proof (cases r)
    case (Inr es)
    obtain x where x: "staleDeletes es [] stats = Inr (map delOp (staleKeys es), x)" using d [OF Inr] by blast
    show ?thesis unfolding pruneStale.simps [of "[recStale]" "staleEnd h" stats s] sc Inr sum.case prod.case x staleStats_def ..
  qed (simp add: pruneStale.simps [of "[recStale]" "staleEnd h" stats s] sc)
qed

lemma pruneStale_ends:
  assumes h: "h \<le> lo" and p: "pruning s0 H R lo V s"
  shows "prune_end s0 H R lo [recStale] (staleEnd h) V (pruneStale [recStale] (staleEnd h) stats s)"
proof (rule scan_delete_loop [where K = staleKeys, OF _ _ p])
  fix V es assume i: "store_inv V s0 H R lo" and sn: "scanned V [recStale] (staleEnd h) 512 es"
  note st = store_invD(6) [OF i]
  have "dead lo s0 R k" if kk: "k \<in> set (staleKeys es)" for k
  proof -
    obtain e where e: "e \<in> set es" "k = drop 9 (kv_key e) \<or> k = kv_key e"
      using kk by (auto simp: staleKeys_def)
    obtain since t where t: "kv_key e = staleRecordKey since t" "since \<le> lo" "V (staleRecordKey since t) \<noteq> None"
      by (rule stale_entries [OF st sn h e(1)])
    have "drop 9 (kv_key e) = t" by (simp add: t(1) staleRecordKey_def)
    then show ?thesis using e(2) t stale_dead [OF st t(3,2)] by auto
  qed
  then show "(\<forall>k \<in> set (staleKeys es). dead lo s0 R k) \<and> kv_key ` set es \<subseteq> set (staleKeys es)" by (auto simp: staleKeys_def)
qed (rule pruneStale_step [OF h])

lemma pruneRoots_ends:
  assumes h: "h \<le> lo" and p: "pruning s0 H R lo V s"
  shows "prune_end s0 H R lo [recRoot] (recRoot # putUint64 h) V (pruneRoots [recRoot] (recRoot # putUint64 h) stats s)"
proof (rule scan_delete_loop [where K = "map kv_key", OF _ _ p])
  fix V es assume sn: "scanned V [recRoot] (recRoot # putUint64 h) 512 es"
  have "dead lo s0 R (kv_key e)" if "e \<in> set es" for e
  proof -
    have k: "inRange [recRoot] (recRoot # putUint64 h) (kv_key e)" using sn that by (auto simp: scanned_def)
    obtain t where "kv_key e = recRoot # t" using root_range(1) [OF k] by blast
    then show ?thesis using root_dead [of lo t s0 R] root_range(2) [OF k] h by (auto intro: order_trans)
  qed
  then show "(\<forall>k \<in> set (map kv_key es). dead lo s0 R k) \<and> kv_key ` set es \<subseteq> set (map kv_key es)" by auto
next
  fix stats s V
  show "pruneRoots [recRoot] (recRoot # putUint64 h) stats s =
      (case callScan [recRoot] (recRoot # putUint64 h) 512 s of
         (Inl e, s1) \<Rightarrow> Some ((stats, Some (errBackend e)), s1)
       | (Inr es, s1) \<Rightarrow>
           if es = [] then Some ((stats, None), s1)
           else (case callWriteBatch (map delOp (map kv_key es)) s1 of
                   (Inl e, s2) \<Rightarrow> Some ((stats\<lparr>ps_RootRecordsDeleted := ps_RootRecordsDeleted stats + length es\<rparr>, Some (errBackend e)), s2)
                 | (Inr _, s2) \<Rightarrow> if length es = pruneChunk
                     then pruneRoots [recRoot] (recRoot # putUint64 h) (stats\<lparr>ps_RootRecordsDeleted := ps_RootRecordsDeleted stats + length es\<rparr>) s2
                     else Some ((stats\<lparr>ps_RootRecordsDeleted := ps_RootRecordsDeleted stats + length es\<rparr>, None), s2)))"
    unfolding pruneRoots.simps [of "[recRoot]" "recRoot # putUint64 h" stats s]
    unfolding Let_def map_map comp_def ..
qed

section \<open>Prune\<close>

lemma Prune_ledger:
  assumes l: "ledger s H lo" and h: "h = pruneHorizon s bv" "h \<le> st_version s"
  shows "\<exists>stats eo s'. Prune bv s = Some ((stats, eo), s') \<and> ledger s' H (max lo h) \<and> read_eq s s' \<and>
     (case eo of None \<Rightarrow> pruned (view (be_state (st_backend s'))) h | Some e \<Rightarrow> may_fail \<and> (\<exists>m. e = errBackend m))"
proof -
  obtain V R where a: "honest V s s" "store_inv V s H R lo" "ckpt_ok V s" using l unfolding ledger_def by blast
  let ?lo = "max lo h" and ?s = "s\<lparr>st_cache := cacheClear (st_cache s)\<rparr>"
  have "store_inv V s H R ?lo" using store_invD(1) [OF a(2)] h(2) by (intro store_inv_weaken [OF a(2)]) auto
  moreover have "honest V s ?s" using a(1) by (simp add: honest_def cacheClear_def cache_ok_def cacheLen_def coherent_def cached_def)
  ultimately have p: "pruning s H R ?lo V ?s" using a(3) by (simp add: pruning_def cacheClear_def)
  have fin: "ledger s' H ?lo \<and> read_eq s s' \<and> view (be_state (st_backend s')) = V'" if "pruning s H R ?lo V' s'" for V' s'
  proof -
    have r: "read_eq s s'" "honest V' s s'" using that by (simp_all add: pruning_def honest_def)
    have "store_inv V' s' H R ?lo \<and> ckpt_ok V' s'"
      using store_inv_read_eq [OF r(1)] ckpt_ok_read_eq [OF r(1)] that by (simp add: pruning_def)
    then have "ledger s' H ?lo" unfolding ledger_def using honest_self [OF r(2)] by blast
    then show ?thesis using r by (simp add: honest_def)
  qed
  obtain stats1 eo1 s1 V1 where A: "pruneStale [recStale] (staleEnd h) noStats ?s = Some ((stats1, eo1), s1)"
    "pruning s H R ?lo V1 s1" "case eo1 of None \<Rightarrow> in_range [recStale] (staleEnd h) V1 = {} | Some e \<Rightarrow> may_fail \<and> (\<exists>m. e = errBackend m)"
    using pruneStale_ends [OF max.cobounded2 p, of noStats] unfolding prune_end_def by blast
  have P: "Prune bv s = (case eo1 of Some e \<Rightarrow> Some ((stats1, Some e), s1)
      | None \<Rightarrow> pruneRoots [recRoot] (recRoot # putUint64 h) stats1 s1)"
    using A(1) leD [OF h(2)] h(1) by (simp add: Prune_def Let_def split: option.split)
  show ?thesis
  proof (cases eo1)
    case (Some e)
    then show ?thesis using A(3) fin [OF A(2)] P by simp
  next
    case None
    obtain stats2 eo2 s2 V2 where B: "pruneRoots [recRoot] (recRoot # putUint64 h) stats1 s1 = Some ((stats2, eo2), s2)"
      "pruning s H R ?lo V2 s2" "V2 \<subseteq>\<^sub>m V1"
      "case eo2 of None \<Rightarrow> in_range [recRoot] (recRoot # putUint64 h) V2 = {} | Some e \<Rightarrow> may_fail \<and> (\<exists>m. e = errBackend m)"
      using pruneRoots_ends [OF max.cobounded2 A(2), of stats1] unfolding prune_end_def by blast
    have "pruned V2 h" if "eo2 = None"
    proof -
      have "V1 (staleRecordKey since k) = None" if "since \<le> h" for since k
        using A(3) None stale_in_range [OF that, of k] by (auto simp: in_range_def)
      then have "V2 (staleRecordKey since k) = None" if "since \<le> h" for since k
        using B(3) that unfolding map_le_def by (metis domIff)
      moreover have "V2 (rootRecordKey w) = None" if "w < h" for w
        using B(4) \<open>eo2 = None\<close> root_in_range [OF that] by (auto simp: in_range_def)
      ultimately show ?thesis by (simp add: pruned_def)
    qed
    then show ?thesis using B(1,4) fin [OF B(2)] P None by (cases eo2) simp_all
  qed
qed

end

end
