(* ===== verification/Snapshot.thy ===== *)
theory Snapshot
  imports Audit_Log
begin

text \<open>
  \<^verbatim>\<open>ledger/snapshot.go\<close>: chunked export of the leaves of a version in path order, the pin against
  pruning, the restore of exported leaves in one commit and the stamp of a version. The slice the Go
  code appends to through a pointer is the second part of the state, so that the leaves collected before
  an error are kept, as \<^verbatim>\<open>SnapshotLeaves\<close> returns them.
\<close>

record SnapLeaf =
  sl_Path :: hash
  sl_Value :: bytes

definition reading :: "('b Store, 'a) io \<Rightarrow> ('b Store \<times> SnapLeaf list, 'a) io" where
  "reading m w = (case m (fst w) of (r, s) \<Rightarrow> (r, (s, snd w)))"

text \<open>\<^verbatim>\<open>pathGreater\<close> compares byte by byte; both arguments are hashes.\<close>

fun pathGreater :: "bytes \<Rightarrow> bytes \<Rightarrow> bool" where
  "pathGreater (a # as) (b # bs) = (if a \<noteq> b then a > b else pathGreater as bs)"
| "pathGreater _ _ = False"

text \<open>The loop over the children; \<open>collect\<close> is the recursive call on a slot's child with the bound
  that child keeps.\<close>

fun collectSlots ::
  "(nat \<Rightarrow> child \<Rightarrow> hash option \<Rightarrow> ('b Store \<times> SnapLeaf list, bool) io) \<Rightarrow> child option list \<Rightarrow>
   nat option \<Rightarrow> hash option \<Rightarrow> nat list \<Rightarrow> ('b Store \<times> SnapLeaf list, bool) io"
where
  "collectSlots collect children resumeNib startAfter [] = ret True"
| "collectSlots collect children resumeNib startAfter (nib # nibs) =
     (if (case resumeNib of None \<Rightarrow> False | Some r \<Rightarrow> nib < r)
      then collectSlots collect children resumeNib startAfter nibs
      else case children ! nib of
             None \<Rightarrow> collectSlots collect children resumeNib startAfter nibs
           | Some cc \<Rightarrow>
               andThen (collect nib cc (if resumeNib = Some nib then startAfter else None)) (\<lambda>exhausted.
                 if \<not> exhausted then ret False
                 else collectSlots collect children resumeNib startAfter nibs))"

fun collectLeaves ::
  "nat \<Rightarrow> child \<Rightarrow> nat list \<Rightarrow> hash option \<Rightarrow> int \<Rightarrow> ('b Store \<times> SnapLeaf list, bool) io"
where
  "collectLeaves 0 c prefix startAfter mx w = throw stackOverflow w"
| "collectLeaves (Suc stack) c prefix startAfter mx w =
     (if int (length (snd w)) \<ge> mx then ret False w
      else andThen (reading (loadNode \<lparr>nk_version = c_version c, nk_prefix = prefix\<rparr> (c_hash c))) (\<lambda>n.
        case n of
          Leaf leaf \<Rightarrow>
            (case startAfter of
               Some sa \<Rightarrow>
                 if \<not> pathGreater (l_path leaf) sa then ret True
                 else andThen (reading (readValue (l_path leaf) (l_vh leaf) (l_valueVersion leaf))) (\<lambda>value.
                      andThen (setState (\<lambda>(s, out). (s, out @ [\<lparr>sl_Path = l_path leaf, sl_Value = value\<rparr>])))
                        (\<lambda>_. ret True))
             | None \<Rightarrow>
                 andThen (reading (readValue (l_path leaf) (l_vh leaf) (l_valueVersion leaf))) (\<lambda>value.
                 andThen (setState (\<lambda>(s, out). (s, out @ [\<lparr>sl_Path = l_path leaf, sl_Value = value\<rparr>])))
                   (\<lambda>_. ret True)))
        | Internal children \<Rightarrow>
            if startAfter \<noteq> None \<and> nibbles \<le> length prefix then throw indexPanic
            else collectSlots (\<lambda>nib cc sa. collectLeaves stack cc (prefix @ [nib]) sa mx) children
                   (map_option (\<lambda>sa. nibble sa (length prefix)) startAfter) startAfter slots) w)"

declare collectLeaves.simps [simp del]

definition SnapshotLeaves ::
  "nat \<Rightarrow> u64 \<Rightarrow> hash option \<Rightarrow> int \<Rightarrow> 'b Store \<Rightarrow> (goerr + bool) \<times> 'b Store \<times> SnapLeaf list"
where
  "SnapshotLeaves stack version startAfter mx s =
     andThen (reading (loadRootRecord version)) (\<lambda>root.
     andThen (reading (loadRootChild root version)) (\<lambda>rootChild.
       case rootChild of
         None \<Rightarrow> ret True
       | Some c \<Rightarrow> collectLeaves stack c [] startAfter mx)) (s, [])"

definition PinVersion :: "u64 option \<Rightarrow> 'b Store \<Rightarrow> 'b Store" where
  "PinVersion version s = s\<lparr>st_snapshotPin := version\<rparr>"

section \<open>Restore\<close>

definition dedupeLeaves :: "SnapLeaf list \<Rightarrow> (hash \<times> bytes) list" where
  "dedupeLeaves leaves = foldl (\<lambda>m l. AList.update (sl_Path l) (sl_Value l) m) [] leaves"

definition refreshHead :: "hash \<times> u64 \<Rightarrow> ('b Store, hash \<times> u64) io" where
  "refreshHead rv s =
     (if st_history s
      then andThen (Get HistoryKey) (\<lambda>val.
             case val of
               Some v \<Rightarrow>
                 if length v = HashSize
                 then andThen (setState (\<lambda>s. s\<lparr>st_historyHead := v\<rparr>)) (\<lambda>_. ret rv)
                 else ret rv
             | None \<Rightarrow> ret rv) s
      else ret rv s)"

definition RestoreLeaves ::
  "(rand_call \<Rightarrow> bytes option) \<Rightarrow> SnapLeaf list \<Rightarrow> ('b Store, hash \<times> u64) io"
where
  "RestoreLeaves rd leaves s =
     (let deduped = dedupeLeaves leaves
      in if deduped = [] then ret (st_root s, st_version s) s
         else andThen (liftE (sealUpdates rd s (map (\<lambda>(path, pt). (path, Some pt)) deduped) [] []))
           (\<lambda>(updates, cts) s.
              let acc = (emptyAcc (st_version s + 1))\<lparr>a_insertCTs := cts\<rparr>
              in case applySubtree (st_rootChild s) [] (sort_key u_path updates) (s, acc) of
                   (Inl e, (s1, acc1)) \<Rightarrow> throw e s1
                 | (Inr newRootChild, (s1, acc1)) \<Rightarrow>
                     if childEq newRootChild (st_rootChild s1) then ret (st_root s1, st_version s1) s1
                     else andThen (commit rd acc1 newRootChild (rootHashOf newRootChild)) refreshHead s1) s)"

text \<open>\<^verbatim>\<open>StampVersion\<close> moves the root reference before it writes: the store keeps it when the write
  fails.\<close>

definition stampNode :: "u64 \<Rightarrow> ('b Store, BatchOp list) io" where
  "stampNode version s =
     (case st_rootChild s of
        None \<Rightarrow> ret [] s
      | Some c \<Rightarrow>
          andThen (loadNode (rootNodeKey (c_version c)) (c_hash c)) (\<lambda>n.
          andThen (setState (\<lambda>s. s\<lparr>st_rootChild :=
                     Some \<lparr>c_version = version, c_hash = c_hash c, c_isLeaf = c_isLeaf c\<rparr>\<rparr>)) (\<lambda>_.
          ret [\<lparr>bo_key = nodeRecordKey (rootNodeKey version), bo_value = encodeNode n, bo_delete = False\<rparr>])) s)"

definition StampVersion :: "(rand_call \<Rightarrow> bytes option) \<Rightarrow> u64 \<Rightarrow> ('b Store, unit) io" where
  "StampVersion rd version s =
     (if version < st_version s
      then throw (errInvalid ''cannot stamp version %d below current %d'') s
      else andThen (liftE (sealCheckpoint s (rd NonceCkpt) (st_root s) version)) (\<lambda>ckpt.
           andThen (stampNode version) (\<lambda>nodeOps.
           andThen (wrapBackend (callWriteBatch
             ([\<lparr>bo_key = rootRecordKey version, bo_value = st_root s, bo_delete = False\<rparr>,
               \<lparr>bo_key = checkpointRecordKey, bo_value = ckpt, bo_delete = False\<rparr>] @ nodeOps))) (\<lambda>_.
           setState (\<lambda>s. s\<lparr>st_version := version\<rparr>)))) s)"

end
