(* ===== verification/Tamper_Evidence.thy ===== *)
theory Tamper_Evidence
  imports Read_Inv
begin

text \<open>
  Reads from a backend that may return anything: every node is checked against the hash its parent
  holds, so that a value the walk returns is committed to by the root. The converse fails: a leaf moved
  to another slot of its range keeps the hash, and the walk then reports a present key as absent.
\<close>

section \<open>What a node hash commits to\<close>

definition wf_children :: "child option list \<Rightarrow> bool" where
  "wf_children cs \<longleftrightarrow> length cs = 16 \<and> (\<forall>i < 16. \<forall>c. cs ! i = Some c \<longrightarrow> is_hash (c_hash c))"

lemma wf_children_node: "wf_node (Internal cs) \<Longrightarrow> wf_children cs"
  by (auto simp: wf_children_def) (metis nth_mem)

lemma is_hash_subtreeHash:
  assumes wf: "wf_children cs" and r: "start + w \<le> 16"
  shows "is_hash (subtreeHash cs start w)"
proof (cases "length (present cs start w) = 1")
  case True
  then obtain c where c: "present cs start w = [c]" by (auto simp: length_Suc_conv)
  then obtain i where "start \<le> i" "i < start + w" "cs ! i = Some c" by (rule present_single)
  moreover from this have "i < 16" using r by simp
  ultimately have "is_hash (c_hash c)" using wf unfolding wf_children_def by blast
  then show ?thesis using c by (subst subtreeHash.simps) (simp add: Let_def is_hash_def)
qed (subst subtreeHash.simps, simp add: Let_def is_hash_def)

lemma subtreeHash_step:
  assumes c: "cs ! i = Some c" "start \<le> i" "i < start + w"
  shows "present cs start w = [c] \<and> (w = 1 \<or> c_isLeaf c) \<and> subtreeHash cs start w = c_hash c \<or>
     w \<noteq> 1 \<and> subtreeHash cs start w = internalHash (subtreeHash cs start (w div 2)) (subtreeHash cs (start + w div 2) (w div 2))"
proof -
  have ne: "present cs start w \<noteq> []" unfolding present_Nil using c by force
  show ?thesis
  proof (cases "length (present cs start w) = 1 \<and> (w = 1 \<or> c_isLeaf (hd (present cs start w)))")
    case True
    then obtain c' where c': "present cs start w = [c']" by (auto simp: length_Suc_conv)
    then have "c' = c" using c by (auto elim!: present_single)
    then show ?thesis using c' True by (subst subtreeHash.simps) (simp add: Let_def)
  next
    case False
    moreover have "w \<noteq> 1" using False ne length_present_le [of cs start w] by (cases "present cs start w") auto
    ultimately show ?thesis using ne by (subst subtreeHash.simps) (auto simp: Let_def)
  qed
qed

text \<open>The hash of a range is a fold from the hash of any child in it, with at most one sibling per level.\<close>

lemma subtreeHash_fold:
  assumes wf: "wf_children cs" and c: "cs ! nibble path D = Some c"
  shows "k \<le> 4 \<Longrightarrow> start = 2 ^ k * q \<Longrightarrow> start + 2 ^ k \<le> 16 \<Longrightarrow> start \<le> nibble path D \<Longrightarrow> nibble path D < start + 2 ^ k \<Longrightarrow>
     \<exists>ss. length ss \<le> k \<and> (c_isLeaf c \<or> length ss = k) \<and> (\<forall>s \<in> set ss. is_hash s) \<and>
       subtreeHash cs start (2 ^ k) = foldFrom path (4 * D + (4 - k)) ss (c_hash c)"
proof (induction k arbitrary: start q)
  case 0
  then show ?case using subtreeHash_step [OF c, of start 1] by auto
next
  case (Suc k)
  define w where "w = (2::nat) ^ k"
  have w: "2 ^ Suc k = 2 * w" "(2 * w) div 2 = w" "2 * w \<noteq> 1" by (simp_all add: w_def)
  note P = Suc.prems [unfolded w(1)]
  have k: "k < 4" using P(1) by simp
  have st: "start = 2 * w * q" using P(2) by simp
  have bit: "bitAt path (4 * D + (3 - k)) \<longleftrightarrow> start + w \<le> nibble path D"
    using nibble_bit [of "3 - k" path D] slot_range_bit [OF w_def st P(4,5)] k by simp
  have d: "4 * D + (4 - Suc k) = 4 * D + (3 - k)" "Suc (4 * D + (3 - k)) = 4 * D + (4 - k)" using k by auto
  from subtreeHash_step [OF c P(4,5)] show ?case
  proof
    assume "present cs start (2 * w) = [c] \<and> (2 * w = 1 \<or> c_isLeaf c) \<and> subtreeHash cs start (2 * w) = c_hash c"
    then show ?thesis using w unfolding w(1) by (intro exI [of _ "[]"]) auto
  next
    assume h: "2 * w \<noteq> 1 \<and> subtreeHash cs start (2 * w) =
        internalHash (subtreeHash cs start (2 * w div 2)) (subtreeHash cs (start + 2 * w div 2) (2 * w div 2))"
    have hh: "is_hash (subtreeHash cs start w)" "is_hash (subtreeHash cs (start + w) w)"
      using P(3) by (auto intro!: is_hash_subtreeHash [OF wf])
    show ?thesis
    proof (cases "start + w \<le> nibble path D")
      case True
      obtain ss where "length ss \<le> k" "c_isLeaf c \<or> length ss = k" "\<forall>s \<in> set ss. is_hash s"
        "subtreeHash cs (start + w) w = foldFrom path (4 * D + (4 - k)) ss (c_hash c)"
        using Suc.IH [folded w_def, of "start + w" "2 * q + 1"] P True k by (auto simp: algebra_simps)
      then show ?thesis
        using h hh(1) w(2) bit True unfolding w(1) d(1)
        by (intro exI [of _ "subtreeHash cs start w # ss"]) (simp add: d(2) nodePre_def internalHash_def sha256Parts_def)
    next
      case False
      obtain ss where "length ss \<le> k" "c_isLeaf c \<or> length ss = k" "\<forall>s \<in> set ss. is_hash s"
        "subtreeHash cs start w = foldFrom path (4 * D + (4 - k)) ss (c_hash c)"
        using Suc.IH [folded w_def, of start "2 * q"] P False k by auto
      then show ?thesis
        using h hh(2) w(2) bit False unfolding w(1) d(1)
        by (intro exI [of _ "subtreeHash cs (start + w) w # ss"]) (simp add: d(2) nodePre_def internalHash_def sha256Parts_def)
    qed
  qed
qed

lemma foldFrom_append: "foldFrom path d (ss @ ts) h = foldFrom path d ss (foldFrom path (d + length ss) ts h)"
  by (induction ss arbitrary: d) auto

section \<open>Reads from a backend that may lie\<close>

text \<open>The cache holds well-formed nodes only: it is filled by \<^verbatim>\<open>decodeNode\<close> and by commits.\<close>

definition cache_wf :: "nodeCache \<Rightarrow> bool" where
  "cache_wf c \<longleftrightarrow> cache_ok c \<and> (\<forall>k n. cached c k = Some n \<longrightarrow> wf_node n)"

lemma cache_wf_put: "cache_wf c \<Longrightarrow> wf_node n \<Longrightarrow> cache_wf (cachePut nk n c)"
  unfolding cache_wf_def using cachePut_spec by metis

lemma cache_wf_get: "cache_wf c \<Longrightarrow> cacheGet nk c = (r, c') \<Longrightarrow> cache_wf c' \<and> (\<forall>n. r = Some n \<longrightarrow> wf_node n)"
  unfolding cache_wf_def using cacheGet_spec by metis

lemma loadNode_checked:
  assumes "loadNode nk h s = (Inr n, s')" "cache_wf (st_cache s)"
  shows "hashNode n = h" "wf_node n" "cache_wf (st_cache s')" "read_eq s s'"
proof -
  obtain r c where g: "cacheGet nk (st_cache s) = (r, c)" by fastforce
  note C = cache_wf_get [OF assms(2) g]
  have all: "hashNode n = h \<and> wf_node n \<and> cache_wf (st_cache s') \<and> read_eq s s'"
  proof (cases r)
    case (Some m)
    then show ?thesis using assms(1) C by (auto simp: loadNode_def g checkHash_def ret_def throw_def split: if_splits)
  next
    case None
    obtain q b where b: "be_Get (st_backend s) (nodeRecordKey nk) (be_state (st_backend s)) = (q, b)" by fastforce
    show ?thesis
    proof (cases q)
      case (Inr v)
      then obtain rec where v: "v = Some rec" "decodeNode rec = Inr n" "hashNode n = h"
        "s' = (setBackendState (s\<lparr>st_cache := c\<rparr>) b)\<lparr>st_cache := cachePut nk n c\<rparr>"
        using assms(1) None b
        by (auto simp: loadNode_def g io_defs wrapBackend_def callGet_def checkHash_def split: option.splits sum.splits if_splits)
      then show ?thesis using C cache_wf_put decodeNode_Inr [OF v(2)] by simp
    qed (use assms(1) None b in \<open>simp add: loadNode_def g io_defs wrapBackend_def callGet_def\<close>)
  qed
  then show "hashNode n = h" "wf_node n" "cache_wf (st_cache s')" "read_eq s s'" by blast+
qed

lemma readValue_checked:
  assumes "readValue path vh vv s = (Inr v, s')"
  shows "vhOf s path v = vh"
  using assms
  by (auto simp: readValue_def io_defs wrapBackend_def callGet_def vhOf_def setBackendState_def
      split: prod.splits option.splits sum.splits if_splits)

lemma walkFrom_proof:
  assumes "walkFrom path prefix c s = (Inr (Some v), s')" "cache_wf (st_cache s)" "length prefix \<le> 64"
  shows "\<exists>ss. 4 * length prefix + length ss \<le> 256 \<and> (c_isLeaf c \<longrightarrow> ss = []) \<and> (\<forall>x \<in> set ss. is_hash x) \<and>
     c_hash c = foldFrom path (4 * length prefix) ss (leafHash path (vhOf s path v))"
  using assms
proof (induction "64 - length prefix" arbitrary: prefix c s rule: less_induct)
  case less
  obtain r s1 where l: "loadNode \<lparr>nk_version = c_version c, nk_prefix = prefix\<rparr> (c_hash c) s = (r, s1)" by fastforce
  note W = less.prems(1) [unfolded walkFrom.simps [of path prefix c s] andThen_def l prod.case]
  obtain n where r: "r = Inr n" using W by (cases r) auto
  note L = loadNode_checked [OF l [unfolded r] less.prems(2)]
  have kind: "isLeaf n = c_isLeaf c" using W r by (auto simp: throw_def split: if_splits)
  have ck: "vhOf s1 = vhOf s" using read_eq_fields [OF L(4)] by (intro commitments_cong) simp_all
  show ?case
  proof (cases n)
    case (Leaf leaf)
    then have p: "l_path leaf = path" and "\<exists>w. readValue path (l_vh leaf) (l_valueVersion leaf) s1 = (Inr v, w)"
      using W r kind by (auto simp: andThen_def ret_def split: if_splits sum.splits prod.splits)
    then have "vhOf s path v = l_vh leaf" using readValue_checked ck by metis
    then show ?thesis using L(1) Leaf p less.prems(3) by (intro exI [of _ "[]"]) auto
  next
    case (Internal cs)
    let ?i = "nibble path (length prefix)"
    have D: "length prefix < 64" using W r kind Internal by (auto simp: throw_def split: if_splits)
    then obtain c' where c': "cs ! ?i = Some c'" "walkFrom path (prefix @ [?i]) c' s1 = (Inr (Some v), s')"
      using W r kind Internal by (auto simp: ret_def Let_def split: option.splits)
    have lt: "64 - length (prefix @ [?i]) < 64 - length prefix" "length (prefix @ [?i]) \<le> 64" using D by auto
    obtain ts where ts: "4 * length (prefix @ [?i]) + length ts \<le> 256" "c_isLeaf c' \<longrightarrow> ts = []" "\<forall>x \<in> set ts. is_hash x"
      "c_hash c' = foldFrom path (4 * length (prefix @ [?i])) ts (leafHash path (vhOf s1 path v))"
      using less.hyps [OF lt(1) c'(2) L(3) lt(2)] by blast
    have wf: "wf_children cs" using L(2) Internal by (simp add: wf_children_node)
    obtain ss where ss: "length ss \<le> 4" "c_isLeaf c' \<or> length ss = 4" "\<forall>x \<in> set ss. is_hash x"
      "subtreeHash cs 0 16 = foldFrom path (4 * length prefix) ss (c_hash c')"
      using subtreeHash_fold [OF wf c'(1), of 4 0 0] nibble_less [of path "length prefix"] by auto
    have "foldFrom path (4 * length prefix) (ss @ ts) (leafHash path (vhOf s path v)) = subtreeHash cs 0 16"
      using ss(2,4) ts(2,4) by (auto simp: foldFrom_append ck algebra_simps)
    then show ?thesis using L(1) Internal kind ss(1,3) ts(1,3) by (intro exI [of _ "ss @ ts"]) auto
  qed
qed

section \<open>A leaf that moves within its range\<close>

text \<open>
  A range with one leaf hashes to the leaf's hash, whichever slot holds it. So the record of an internal
  node can be replaced by one with a leaf in another slot of its range: the hash check of
  \<^verbatim>\<open>loadNode\<close> passes, and \<^verbatim>\<open>walk\<close>, which looks at one slot only, reports a present key as absent.
\<close>

definition twoLeaves :: "nat \<Rightarrow> child \<Rightarrow> child \<Rightarrow> child option list" where
  "twoLeaves i a b = (replicate 16 None)[0 := Some a, i := Some b]"

lemma twoLeaves_8: "twoLeaves 8 a b = [Some a, None, None, None, None, None, None, None, Some b, None, None, None, None, None, None, None]"
  by (simp add: twoLeaves_def numeral_eq_Suc)

lemma twoLeaves_9: "twoLeaves 9 a b = [Some a, None, None, None, None, None, None, None, None, Some b, None, None, None, None, None, None]"
  by (simp add: twoLeaves_def numeral_eq_Suc)

lemma sliceHash_leaf: "List.map_filter id xs = [c] \<Longrightarrow> c_isLeaf c \<Longrightarrow> sliceHash xs = c_hash c"
  by (subst sliceHash.simps) simp

lemma moved_leaf_same_hash:
  assumes "c_isLeaf a" "c_isLeaf b"
  shows "hashNode (Internal (twoLeaves 8 a b)) = hashNode (Internal (twoLeaves 9 a b))"
proof -
  have h: "sliceHash (twoLeaves i a b) = internalHash (c_hash a) (c_hash b)" if "i \<in> {8, 9}" for i
    using that assms
    by (subst sliceHash.simps) (auto simp: twoLeaves_8 twoLeaves_9 map_filter_simps Let_def sliceHash_leaf)
  have "hashNode (Internal (twoLeaves i a b)) = sliceHash (twoLeaves i a b)" if "i \<in> {8, 9}" for i
    using subtreeHash_slice [of 0 16 "twoLeaves i a b"] that by (auto simp: twoLeaves_def)
  then show ?thesis using h by simp
qed

lemma wf_twoLeaves: "is_hash (c_hash a) \<Longrightarrow> is_hash (c_hash b) \<Longrightarrow> wf_node (Internal (twoLeaves 9 a b))"
  by (auto simp: twoLeaves_9)

text \<open>C32. The finding: a backend that stores the leaf of slot 8 in slot 9 makes \<^verbatim>\<open>walk\<close> return "absent",
  without an error, for a path that the node with this very hash has a leaf for.\<close>

theorem walk_misses_moved_leaf:
  assumes leaves: "c_isLeaf a" "c_isLeaf b" "is_hash (c_hash a)" "is_hash (c_hash b)" and path: "nibble path 0 = 8"
    and cold: "map_of (nc_m (st_cache s)) (encodeKey (rootNodeKey v)) = None"
    and moved: "be_Get (st_backend s) (nodeRecordKey (rootNodeKey v)) (be_state (st_backend s)) =
      (Inr (Some (encodeNode (Internal (twoLeaves 9 a b)))), mb)"
  shows "twoLeaves 8 a b ! nibble path 0 = Some b \<and>
    fst (walk (Some \<lparr>c_version = v, c_hash = hashNode (Internal (twoLeaves 8 a b)), c_isLeaf = False\<rparr>) path s) = Inr None"
proof -
  let ?h = "hashNode (Internal (twoLeaves 8 a b))" and ?n = "Internal (twoLeaves 9 a b)"
  have nk: "\<lparr>nk_version = v, nk_prefix = []\<rparr> = rootNodeKey v" by (simp add: rootNodeKey_def)
  have "\<exists>s'. loadNode (rootNodeKey v) ?h s = (Inr ?n, s')"
    using moved cold decodeNode_encodeNode [OF wf_twoLeaves [OF leaves(3,4)]] moved_leaf_same_hash [OF leaves(1,2)]
    by (simp add: loadNode_def cacheGet_def Let_def io_defs wrapBackend_def callGet_def checkHash_def)
  then obtain s' where "loadNode (rootNodeKey v) ?h s = (Inr ?n, s')" by blast
  then show ?thesis
    using path by (simp add: walk_def walkFrom.simps [of path "[]"] andThen_def nk twoLeaves_8 twoLeaves_9 ret_def)
qed

theorem walk_misses_moved_leaf_witness:
  "let a = \<lparr>c_version = 1, c_hash = replicate 32 1, c_isLeaf = True\<rparr>; b = \<lparr>c_version = 1, c_hash = replicate 32 2, c_isLeaf = True\<rparr>;
       be = memBackend \<lparr>mb_m = [(nodeRecordKey (rootNodeKey 1), encodeNode (Internal (twoLeaves 9 a b)))], mb_reads = 0\<rparr>;
       s = projr (newStore be (replicate 32 7) [])
   in fst (walk (Some \<lparr>c_version = 1, c_hash = hashNode (Internal (twoLeaves 8 a b)), c_isLeaf = False\<rparr>) (0x80 # replicate 31 0) s) = Inr None"
  unfolding Let_def
  by (rule conjunct2 [OF walk_misses_moved_leaf [where mb = "\<lparr>mb_m = [(nodeRecordKey (rootNodeKey 1),
        encodeNode (Internal (twoLeaves 9 \<lparr>c_version = 1, c_hash = replicate 32 1, c_isLeaf = True\<rparr>
          \<lparr>c_version = 1, c_hash = replicate 32 2, c_isLeaf = True\<rparr>)))], mb_reads = 1\<rparr>"]])
    (simp_all add: is_hash_def nibble_def newStore_def newNodeCache_def memBackend_def memGet_def)

end
