(* ===== verification/Ledger_Run.thy ===== *)
theory Ledger_Run
  imports Fork_Inv Prune_Inv Snapshot Tamper_Evidence
begin

text \<open>
  The operations of a store in any order, as an inductive relation on the store and the history it
  should have; \<open>run_ledger\<close> shows by rule induction that the records carry that history throughout.
\<close>

context kv_backend
begin

lemma read_eq_chain: "read_eq s s' \<Longrightarrow> chain_ok s H lo \<Longrightarrow> chain_ok s' H lo"
  by (rule reopened_chain) (use read_eq_fields [of s s'] in \<open>simp_all add: reopened_def same_store_def\<close>)

lemma ledger_upd:
  assumes l: "ledger s H lo" and f: "reopened s s'" and b: "st_backend s' = st_backend s" and c: "cache_ok (st_cache s')"
    "\<And>V. coherent V (st_cache s) \<Longrightarrow> coherent V (st_cache s')"
  shows "ledger s' H lo"
proof -
  obtain V R where a: "honest V s s" "store_inv V s H R lo" "ckpt_ok V s" using l unfolding ledger_def by blast
  have "honest V s' s'" using a(1) b c by (simp add: honest_def)
  then show ?thesis using a f by (intro reopened_ledger)
qed

text \<open>
  The life of a store: created, written to, read, pruned, pinned, resized and reopened, with the history
  that the ledger should have alongside. A write that fails and a read leave the history alone.
\<close>

inductive run :: "'b Store \<Rightarrow> (u64 \<Rightarrow> hash \<rightharpoonup> bytes) \<Rightarrow> u64 \<Rightarrow> bool" where
  create: "be_Get be = getB \<Longrightarrow> be_WriteBatch be = writeB \<Longrightarrow> be_Scan be = scanB \<Longrightarrow> live (be_state be) \<Longrightarrow>
     view (be_state be) = Map.empty \<Longrightarrow> good_rand rd \<Longrightarrow> Create rd be ck opts = Inr s \<Longrightarrow> run s (\<lambda>_. Map.empty) 0"
| put: "run s H lo \<Longrightarrow> st_version s < st_version s + 1 \<Longrightarrow> good_rand rd \<Longrightarrow> batch_ok s (H (st_version s)) (batchMap s ops) \<Longrightarrow>
     batchMap s ops (pathOf s HistoryKey) = None \<Longrightarrow> \<forall>op \<in> set ops. \<not> reserved op \<Longrightarrow> PutBatch rd ops s = (r, s') \<Longrightarrow>
     H' = (if r = Inr (Root s) \<or> isl r then H
           else H(st_version s + 1 := putMap (H (st_version s)) (linked s (nextHead s (st_version s + 1)) (batchMap s ops)))) \<Longrightarrow>
     run s' H' lo"
| get: "run s H lo \<Longrightarrow> Get key s = (r, s') \<Longrightarrow> run s' H lo"
| getAt: "run s H lo \<Longrightarrow> lo \<le> w \<Longrightarrow> w \<le> st_version s \<Longrightarrow> root_distinct s (H w) \<Longrightarrow> GetAt w key s = (r, s') \<Longrightarrow> run s' H lo"
| prove: "run s H lo \<Longrightarrow> Prove key s = (r, s') \<Longrightarrow> run s' H lo"
| prune: "run s H lo \<Longrightarrow> pruneHorizon s bv \<le> st_version s \<Longrightarrow> Prune bv s = Some (r, s') \<Longrightarrow> run s' H (max lo (pruneHorizon s bv))"
| pin: "run s H lo \<Longrightarrow> run (PinVersion v s) H lo"
| resize: "run s H lo \<Longrightarrow> run (SetCacheCapacity n s) H lo"
| reopen: "run s H lo \<Longrightarrow> root_distinct s (H (st_version s)) \<Longrightarrow> newStore (st_backend s) (st_ck s) opts = Inr n \<Longrightarrow>
     st_cipher n = st_cipher s \<Longrightarrow> st_ckptMAC n = st_ckptMAC s \<Longrightarrow> (st_wantHistory n \<longrightarrow> st_history s) \<Longrightarrow>
     OpenLatest (st_backend s) (st_ck s) opts = Inr s' \<Longrightarrow> run s' H lo"

lemma runs_state: "runs may E Q r \<Longrightarrow> r = (x, s') \<Longrightarrow> (\<And>s. E s \<Longrightarrow> P s) \<Longrightarrow> (\<And>y s. Q y s \<Longrightarrow> P s) \<Longrightarrow> P s'"
  by (cases x) (auto simp: runs_def)

lemma kept_run: "kept s H lo s' \<Longrightarrow> ledger s H lo \<and> chain_ok s H lo \<Longrightarrow> ledger s' H lo \<and> chain_ok s' H lo"
  using read_eq_chain by (auto simp: kept_def)

lemma chain_ok_weaken: "chain_ok s H lo \<Longrightarrow> lo \<le> lo' \<Longrightarrow> chain_ok s H lo'"
  unfolding chain_ok_def by (auto split: if_splits intro: order_trans)

lemma put_run:
  assumes i: "ledger s H lo \<and> chain_ok s H lo" and nv: "st_version s < st_version s + 1" and rd: "good_rand rd"
    and b: "batch_ok s (H (st_version s)) (batchMap s ops)" "batchMap s ops (pathOf s HistoryKey) = None" "\<forall>op \<in> set ops. \<not> reserved op"
    and p: "PutBatch rd ops s = (r, s')"
    and H': "H' = (if r = Inr (Root s) \<or> isl r then H
           else H(st_version s + 1 := putMap (H (st_version s)) (linked s (nextHead s (st_version s + 1)) (batchMap s ops))))"
  shows "ledger s' H' lo \<and> chain_ok s' H' lo"
proof -
  note L = PutBatch_ledger [OF conjunct1 [OF i] nv rd b(1,3), unfolded p]
  show ?thesis
  proof (cases r)
    case (Inl e)
    then show ?thesis using L kept_run [OF _ i] by (simp add: runs_def H')
  next
    case (Inr rv)
    show ?thesis
    proof (cases "putMap (H (st_version s)) (batchMap s ops) = H (st_version s)")
      case True
      then have k: "kept s H lo s'" "rv = Root s'" using L Inr by (simp_all add: runs_def)
      moreover have "Root s' = Root s" using k(1) read_eq_fields [of s s'] by (simp add: kept_def Root_def)
      ultimately show ?thesis using kept_run [OF _ i] Inr by (simp add: H')
    next
      case False
      let ?nv = "st_version s + 1" and ?D = "putMap (H (st_version s)) (linked s (nextHead s (st_version s + 1)) (batchMap s ops))"
      have a: "rv = Root s'" "ledger s' (H(?nv := ?D)) lo"
        "advanced s ?nv (if st_history s then nextHead s ?nv else st_historyHead s) s'"
        using L Inr False by (simp_all add: runs_def Let_def)
      have "rv \<noteq> Root s" using a(1) advanced_fields(4) [OF a(3)] nv by (auto simp: Root_def)
      then have "H' = H(?nv := ?D)" using Inr by (simp add: H')
      moreover have "chain_ok s' (H(?nv := ?D)) lo"
        using Root_ledger [OF conjunct1 [OF i]] b(2) by (intro chain_commit [OF conjunct2 [OF i] _ _ refl nv _ a(3)]) simp_all
      ultimately show ?thesis using a(2) by simp
    qed
  qed
qed

theorem run_ledger: "run s H lo \<Longrightarrow> ledger s H lo \<and> chain_ok s H lo"
proof (induction rule: run.induct)
  case (create be rd ck opts s)
  obtain s0 where n: "newStore be ck opts = Inr s0" using create(7) by (auto simp: Create_def split: sum.splits)
  have "ledger s (\<lambda>_. Map.empty) 0 \<and> Root s = (placeholderHash, 0) \<and> st_historyHead s = zeroHash"
    using Create_ledger [OF create(1-6) n] create(7) by simp
  then show ?case by (auto simp: chain_ok_def headAt_def Root_def)
next
  case (put s H lo rd ops r s' H')
  show ?case by (rule put_run [OF put.IH put.hyps(2-)])
next
  case (get s H lo key r s')
  show ?case by (rule kept_run [OF _ get.IH]) (rule runs_state [OF Get_ledger [OF conjunct1 [OF get.IH]] get.hyps(2)]; blast)
next
  case (getAt s H lo w key r s')
  show ?case by (rule kept_run [OF _ getAt.IH]) (rule runs_state [OF GetAt_ledger [OF conjunct1 [OF getAt.IH] getAt.hyps(2-4)] getAt.hyps(5)]; blast)
next
  case (prove s H lo key r s')
  show ?case by (rule kept_run [OF _ prove.IH]) (rule runs_state [OF Prove_ledger [OF conjunct1 [OF prove.IH]] prove.hyps(2)]; blast)
next
  case (prune s H lo bv r s')
  then have "ledger s' H (max lo (pruneHorizon s bv)) \<and> read_eq s s'" using Prune_ledger [OF conjunct1 [OF prune.IH] refl prune.hyps(2)] by auto
  then show ?case using read_eq_chain [of s s'] chain_ok_weaken [OF conjunct2 [OF prune.IH] max.cobounded1] by simp
next
  case (pin s H lo v)
  have "reopened s (PinVersion v s)" by (simp add: reopened_def same_store_def PinVersion_def)
  then show ?case using pin.IH ledger_upd [of s H lo "PinVersion v s"] reopened_chain by (auto simp: PinVersion_def ledger_def honest_def)
next
  case (resize s H lo n)
  have "reopened s (SetCacheCapacity n s)" by (simp add: reopened_def same_store_def SetCacheCapacity_def)
  then show ?case using resize.IH ledger_upd [of s H lo "SetCacheCapacity n s"] reopened_chain
    by (auto simp: SetCacheCapacity_def cacheSetCapacity_def cache_ok_def cacheLen_def coherent_def cached_def)
next
  case (reopen s H lo opts n s')
  then show ?case using OpenLatest_ledger [OF conjunct1 [OF reopen.IH] conjunct2 [OF reopen.IH] reopen.hyps(2-6)] by simp
qed

lemma ledger_pin: "ledger s H lo \<Longrightarrow> ledger (PinVersion v s) H lo"
  by (rule ledger_upd) (auto simp: reopened_def same_store_def PinVersion_def ledger_def honest_def)

lemma honest_cache_wf: "honest V s0 s \<Longrightarrow> cache_wf (st_cache s)"
  using nodeAt_record decodeNode_Inr unfolding honest_def coherent_def cache_wf_def by metis

lemma ledger_cache_wf: "ledger s H lo \<Longrightarrow> cache_wf (st_cache s) \<and> rootHashOf (st_rootChild s) = st_root s"
  unfolding ledger_def using honest_cache_wf store_invD(4) by metis

end

end
