(* ===== verification/Mem_Store.thy ===== *)
theory Mem_Store
  imports Ledger_Run
begin

text \<open>
  The store that \<^verbatim>\<open>Create\<close> makes on an empty in-memory backend, plain and with the history chain, and
  that store after one commit: the instances on which the properties are exercised.
\<close>

definition zeroNonce :: "rand_call \<Rightarrow> bytes option" where
  "zeroNonce c = Some (replicate 12 0)"

definition newLedger :: "(storeOptions \<Rightarrow> storeOptions) list \<Rightarrow> MemBackend Store" where
  "newLedger opts = projr (Create zeroNonce (memBackend NewMemBackend) (replicate 32 7) opts)"

lemma good_zeroNonce: "good_rand zeroNonce"
  by (simp add: good_rand_def zeroNonce_def)

lemma memLive_new: "memLive NewMemBackend" "map_of (mb_m NewMemBackend) = Map.empty"
  by (simp_all add: memLive_def NewMemBackend_def)

lemma newLedger_facts:
  assumes "newStore (memBackend NewMemBackend) (replicate 32 7) opts = Inr s0"
  shows "Create zeroNonce (memBackend NewMemBackend) (replicate 32 7) opts = Inr (newLedger opts)"
    "mem.ledger (newLedger opts) (\<lambda>_. Map.empty) 0" "Root (newLedger opts) = (placeholderHash, 0)"
    "st_ck (newLedger opts) = replicate 32 7" "st_cipher (newLedger opts) = st_cipher s0" "st_ckptMAC (newLedger opts) = st_ckptMAC s0"
    "st_history (newLedger opts) = st_wantHistory s0" "st_historyHead (newLedger opts) = zeroHash"
proof -
  have C: "case Create zeroNonce (memBackend NewMemBackend) (replicate 32 7) opts of
      Inl e \<Rightarrow> False \<and> (\<exists>m. e = BackendErr m)
    | Inr s \<Rightarrow> mem.ledger s (\<lambda>_. Map.empty) 0 \<and> Root s = (placeholderHash, 0) \<and> st_ck s = replicate 32 7 \<and> st_cipher s = st_cipher s0 \<and>
        st_ckptMAC s = st_ckptMAC s0 \<and> st_history s = st_wantHistory s0 \<and> st_historyHead s = zeroHash"
    by (rule mem.Create_ledger [OF _ _ _ _ _ good_zeroNonce assms]) (simp_all add: memBackend_def memLive_new)
  then obtain s where s: "Create zeroNonce (memBackend NewMemBackend) (replicate 32 7) opts = Inr s" by (auto split: sum.splits)
  then have "newLedger opts = s" by (simp add: newLedger_def)
  then show "Create zeroNonce (memBackend NewMemBackend) (replicate 32 7) opts = Inr (newLedger opts)"
    "mem.ledger (newLedger opts) (\<lambda>_. Map.empty) 0" "Root (newLedger opts) = (placeholderHash, 0)"
    "st_ck (newLedger opts) = replicate 32 7" "st_cipher (newLedger opts) = st_cipher s0" "st_ckptMAC (newLedger opts) = st_ckptMAC s0"
    "st_history (newLedger opts) = st_wantHistory s0" "st_historyHead (newLedger opts) = zeroHash"
    using C s by simp_all
qed

definition plainBase :: "MemBackend Store" where
  "plainBase = projr (newStore (memBackend NewMemBackend) (replicate 32 7) [])"

lemma newStore_plain: "newStore (memBackend NewMemBackend) (replicate 32 7) [] = Inr plainBase" "st_wantHistory plainBase = False"
  by (simp_all add: newStore_def plainBase_def)

lemma newStore_chained:
  "newStore (memBackend NewMemBackend) (replicate 32 7) [WithHistoryChain] = Inr (plainBase\<lparr>st_wantHistory := True\<rparr>)"
  by (simp add: newStore_def plainBase_def WithHistoryChain_def)

lemmas plain = newLedger_facts [OF newStore_plain(1), unfolded newStore_plain(2)]
lemmas chained = newLedger_facts [OF newStore_chained, simplified]

lemma version_plain: "st_version (newLedger []) = 0" "st_root (newLedger []) = placeholderHash"
  using plain(3) by (simp_all add: Root_def)

lemma version_chained: "st_version (newLedger [WithHistoryChain]) = 0" "st_root (newLedger [WithHistoryChain]) = placeholderHash"
  using chained(3) by (simp_all add: Root_def)

lemma chain_new: "chain_ok (newLedger []) (\<lambda>_. Map.empty) 0" "chain_ok (newLedger [WithHistoryChain]) (\<lambda>_. Map.empty) 0"
  using plain(7) chained(7,8) version_chained by (simp_all add: chain_ok_def headAt_def)

lemma root_distinct_empty: "root_distinct s Map.empty"
  by (simp add: root_distinct_def)

lemma batchMap_single: "batchMap s [Put k v] = [pathOf s k \<mapsto> Some v]"
  by (simp add: batchMap_def Put_def opValue_def)

lemma batch_ok_single: "\<not> st_history s \<Longrightarrow> batch_ok s Map.empty (batchMap s [Put k v])"
  by (auto simp: batch_ok_def batchMap_single linked_def no_clash_def split: if_splits)

lemma not_reserved: "k \<noteq> 0 \<Longrightarrow> \<forall>op \<in> set [Put (k # ks) v]. \<not> reserved op"
  by (simp add: reserved_def Put_def hasPrefix_def reservedKeyPrefix_def)

lemma newLedger_pin: "st_snapshotPin (newLedger []) = None"
  by (simp add: newLedger_def Create_def newStore_def Let_def sealCheckpoint_def callWriteBatch_def memBackend_def
      memWriteBatch_def setBackendState_def)

lemma newLedger_prunes: "\<exists>stats s'. Prune 0 (newLedger []) = Some ((stats, None), s')"
  using mem.Prune_ledger [OF plain(2) refl, of 0] by (auto simp: pruneHorizon_def newLedger_pin split: option.splits)

lemma one_entry:
  "\<exists>s'. PutBatch zeroNonce [Put [1] [2]] (newLedger []) = (Inr (Root s'), s') \<and> st_version s' = 1 \<and> pathOf s' = pathOf (newLedger []) \<and>
     mem.ledger s' ((\<lambda>_. Map.empty)(1 := [pathOf (newLedger []) [1] \<mapsto> [2]])) 0"
proof -
  let ?s = "newLedger []"
  have v: "st_version ?s < st_version ?s + 1" by (simp add: version_plain)
  have D: "putMap Map.empty [pathOf ?s [1] \<mapsto> Some [2]] = [pathOf ?s [1] \<mapsto> [2]]" by (auto simp: putMap_def fun_eq_iff)
  have "batch_ok ?s Map.empty (batchMap ?s [Put [1] [2]])" by (rule batch_ok_single) (simp add: plain(7))
  from runs_no_fail [OF mem.PutBatch_ledger [OF plain(2) v good_zeroNonce this not_reserved]]
  obtain rv s' where s': "PutBatch zeroNonce [Put [1] [2]] ?s = (Inr rv, s')" "rv = Root s'"
    "mem.ledger s' ((\<lambda>_. Map.empty)(1 := [pathOf ?s [1] \<mapsto> [2]])) 0" "advanced ?s 1 (st_historyHead ?s) s'"
    by (auto simp: version_plain batchMap_single D linked_def plain(7) Let_def split: if_splits)
  note F = advanced_fields [OF s'(4)]
  show ?thesis using s' F(4) commitments_cong(1) [OF F(1,2)] by blast
qed

end
