(* ===== verification/Sql_Codec.thy ===== *)
theory Sql_Codec
  imports Prelude
begin

text \<open>
  \<^verbatim>\<open>sqlledger/codec.go\<close>: column definitions, the Go values that the engine passes, the order-preserving
  key form of a column value and the stored form of a row. An \<^verbatim>\<open>interface{}\<close> value is a \<open>GoVal\<close>
  with the constructor of its dynamic type, \<^verbatim>\<open>nil\<close> is \<open>None\<close>. Floating-point numbers are their IEEE 754
  bits, a \<^verbatim>\<open>time.Time\<close> is its instant in nanoseconds since 1970 (any integer), and the column type codes of
  the engine are a datatype with the codes that the source names and \<open>Type_other\<close> for the rest.
\<close>

section \<open>Column definitions\<close>

datatype QueryType =
    Type_INT8 | Type_INT16 | Type_INT24 | Type_INT32 | Type_INT64
  | Type_UINT8 | Type_UINT16 | Type_UINT24 | Type_UINT32 | Type_UINT64
  | Type_FLOAT32 | Type_FLOAT64
  | Type_CHAR | Type_VARCHAR | Type_TEXT
  | Type_BINARY | Type_VARBINARY | Type_BLOB
  | Type_DATETIME | Type_TIMESTAMP
  | Type_other int

datatype colKind = kindInt | kindUint | kindFloat32 | kindFloat64 | kindString | kindBytes | kindDatetime

record colDef =
  cd_Name :: bytes
  cd_QType :: QueryType
  cd_Length :: u64
  cd_Precision :: u64
  cd_Nullable :: bool
  cd_AutoInc :: bool

definition kindOfQType :: "QueryType \<Rightarrow> goerr + colKind" where
  "kindOfQType qt =
     (if qt \<in> {Type_INT8, Type_INT16, Type_INT24, Type_INT32, Type_INT64} then Inr kindInt
      else if qt \<in> {Type_UINT8, Type_UINT16, Type_UINT24, Type_UINT32, Type_UINT64} then Inr kindUint
      else if qt = Type_FLOAT32 then Inr kindFloat32
      else if qt = Type_FLOAT64 then Inr kindFloat64
      else if qt \<in> {Type_CHAR, Type_VARCHAR, Type_TEXT} then Inr kindString
      else if qt \<in> {Type_BINARY, Type_VARBINARY, Type_BLOB} then Inr kindBytes
      else if qt \<in> {Type_DATETIME, Type_TIMESTAMP} then Inr kindDatetime
      else Inl (TextErr ''column type %v is not supported''))"

definition kind :: "colDef \<Rightarrow> goerr + colKind" where
  "kind c = kindOfQType (cd_QType c)"

section \<open>Go values\<close>

type_synonym GoTime = int

datatype GoVal =
    VInt8 "8 word" | VInt16 "16 word" | VInt32 "32 word" | VInt64 u64 | VInt u64
  | VUint8 "8 word" | VUint16 "16 word" | VUint32 "32 word" | VUint64 u64 | VUint u64
  | VBool bool
  | VFloat32 "32 word" | VFloat64 u64
  | VString bytes | VBytes bytes
  | VTime GoTime
  | VOther string

type_synonym Row = "GoVal option list"

text \<open>
  The conversions \<^verbatim>\<open>float64(x)\<close> of a \<^verbatim>\<open>float32\<close> (exact) and \<^verbatim>\<open>float32(f)\<close> of a \<^verbatim>\<open>float64\<close> (to nearest,
  ties to even) on the fields of the two formats. A NaN keeps the upper bits of its payload and is made
  quiet, as the conversion instructions do.
\<close>

definition packF64 :: "nat \<Rightarrow> nat \<Rightarrow> nat \<Rightarrow> u64" where
  "packF64 sign expo mant = of_nat (sign * 2 ^ 63 + expo * 2 ^ 52 + mant)"

fun topBit :: "nat \<Rightarrow> nat" where
  "topBit n = (if n < 2 then 0 else Suc (topBit (n div 2)))"

declare topBit.simps [simp del]

definition float64Of :: "32 word \<Rightarrow> u64" where
  "float64Of b =
     (let n = unat b; sign = n div 2 ^ 31; expo = n div 2 ^ 23 mod 2 ^ 8; mant = n mod 2 ^ 23
      in if expo = 255 then packF64 sign 2047 (if mant = 0 then 0 else (mant * 2 ^ 29) mod 2 ^ 51 + 2 ^ 51)
         else if expo = 0 then
           (if mant = 0 then packF64 sign 0 0
            else let k = topBit mant in packF64 sign (k + 874) ((mant - 2 ^ k) * 2 ^ (52 - k)))
         else packF64 sign (expo + 896) (mant * 2 ^ 29))"

text \<open>\<open>n / 2 ^ k\<close> to the nearest integer, ties to even.\<close>

definition roundEven :: "nat \<Rightarrow> nat \<Rightarrow> nat" where
  "roundEven n k =
     (let q = n div 2 ^ k; r = n mod 2 ^ k
      in if 2 * r > 2 ^ k \<or> 2 * r = 2 ^ k \<and> odd q then q + 1 else q)"

definition float32Of :: "u64 \<Rightarrow> 32 word" where
  "float32Of b =
     (let n = unat b; sign = n div 2 ^ 63; expo = n div 2 ^ 52 mod 2 ^ 11; mant = n mod 2 ^ 52;
          body =
            (if expo = 2047 then
               2 ^ 23 * 255 + (if mant = 0 then 0 else (mant div 2 ^ 29) mod 2 ^ 22 + 2 ^ 22)
             else if expo = 0 then 0
             else if expo \<ge> 897 then
               min (2 ^ 23 * 255) ((expo - 897) * 2 ^ 23 + roundEven (2 ^ 52 + mant) 29)
             else roundEven (2 ^ 52 + mant) (926 - expo))
      in of_nat (sign * 2 ^ 31 + body))"

text \<open>\<^verbatim>\<open>t.UTC().UnixNano()\<close>, which wraps outside the years 1678 to 2262, and \<^verbatim>\<open>time.Unix(0, n).UTC()\<close>.\<close>

definition UnixNano :: "GoTime \<Rightarrow> u64" where
  "UnixNano t = word_of_int t"

definition timeUnix :: "u64 \<Rightarrow> GoTime" where
  "timeUnix n = sint n"

section \<open>Scalar encodings\<close>

text \<open>\<^verbatim>\<open>1<<63\<close>.\<close>

definition signBit :: u64 where
  "signBit = push_bit 63 1"

definition encInt64 :: "u64 \<Rightarrow> bytes" where
  "encInt64 v = putUint64 (v XOR signBit)"

definition decInt64 :: "bytes \<Rightarrow> u64" where
  "decInt64 b = uint64 b XOR signBit"

definition encUint64 :: "u64 \<Rightarrow> bytes" where
  "encUint64 v = putUint64 v"

definition encFloat64 :: "u64 \<Rightarrow> bytes" where
  "encFloat64 f =
     (let b = f; b = (if b AND signBit \<noteq> 0 then NOT b else b OR signBit)
      in putUint64 b)"

definition decFloat64 :: "bytes \<Rightarrow> u64" where
  "decFloat64 raw =
     (let b = uint64 raw
      in if b AND signBit \<noteq> 0 then b AND NOT signBit else NOT b)"

text \<open>The results of \<^verbatim>\<open>coerce\<close>: one variable per scalar form, of which the kind selects one.\<close>

record Scalars =
  sc_i :: u64
  sc_u :: u64
  sc_f :: u64
  sc_s :: bytes
  sc_raw :: bytes
  sc_t :: GoTime

text \<open>The zero values; the zero \<^verbatim>\<open>time.Time\<close> is the first of January of year 1.\<close>

definition zeroScalars :: Scalars where
  "zeroScalars = \<lparr>sc_i = 0, sc_u = 0, sc_f = 0, sc_s = [], sc_raw = [], sc_t = - 62135596800000000000\<rparr>"

definition coerce :: "colKind \<Rightarrow> GoVal \<Rightarrow> goerr + Scalars" where
  "coerce k v =
     (let z = zeroScalars in
      case k of
        kindInt \<Rightarrow>
          (case v of
             VInt8 x \<Rightarrow> Inr (z\<lparr>sc_i := scast x\<rparr>)
           | VInt16 x \<Rightarrow> Inr (z\<lparr>sc_i := scast x\<rparr>)
           | VInt32 x \<Rightarrow> Inr (z\<lparr>sc_i := scast x\<rparr>)
           | VInt64 x \<Rightarrow> Inr (z\<lparr>sc_i := x\<rparr>)
           | VInt x \<Rightarrow> Inr (z\<lparr>sc_i := x\<rparr>)
           | VBool x \<Rightarrow> Inr (z\<lparr>sc_i := (if x then 1 else 0)\<rparr>)
           | VUint64 x \<Rightarrow> Inr (z\<lparr>sc_i := x\<rparr>)
           | _ \<Rightarrow> Inl (TextErr ''unexpected integer value %T''))
      | kindUint \<Rightarrow>
          (case v of
             VUint8 x \<Rightarrow> Inr (z\<lparr>sc_u := ucast x\<rparr>)
           | VUint16 x \<Rightarrow> Inr (z\<lparr>sc_u := ucast x\<rparr>)
           | VUint32 x \<Rightarrow> Inr (z\<lparr>sc_u := ucast x\<rparr>)
           | VUint64 x \<Rightarrow> Inr (z\<lparr>sc_u := x\<rparr>)
           | VUint x \<Rightarrow> Inr (z\<lparr>sc_u := x\<rparr>)
           | VInt64 x \<Rightarrow> Inr (z\<lparr>sc_u := x\<rparr>)
           | _ \<Rightarrow> Inl (TextErr ''unexpected unsigned value %T''))
      | kindFloat32 \<Rightarrow>
          (case v of
             VFloat32 x \<Rightarrow> Inr (z\<lparr>sc_f := float64Of x\<rparr>)
           | VFloat64 x \<Rightarrow> Inr (z\<lparr>sc_f := x\<rparr>)
           | _ \<Rightarrow> Inl (TextErr ''unexpected float value %T''))
      | kindFloat64 \<Rightarrow>
          (case v of
             VFloat64 x \<Rightarrow> Inr (z\<lparr>sc_f := x\<rparr>)
           | VFloat32 x \<Rightarrow> Inr (z\<lparr>sc_f := float64Of x\<rparr>)
           | _ \<Rightarrow> Inl (TextErr ''unexpected float value %T''))
      | kindString \<Rightarrow>
          (case v of
             VString x \<Rightarrow> Inr (z\<lparr>sc_s := x\<rparr>)
           | VBytes x \<Rightarrow> Inr (z\<lparr>sc_s := x\<rparr>)
           | _ \<Rightarrow> Inl (TextErr ''unexpected string value %T''))
      | kindBytes \<Rightarrow>
          (case v of
             VBytes x \<Rightarrow> Inr (z\<lparr>sc_raw := x\<rparr>)
           | VString x \<Rightarrow> Inr (z\<lparr>sc_raw := x\<rparr>)
           | _ \<Rightarrow> Inl (TextErr ''unexpected bytes value %T''))
      | kindDatetime \<Rightarrow>
          (case v of
             VTime x \<Rightarrow> Inr (z\<lparr>sc_t := x\<rparr>)
           | _ \<Rightarrow> Inl (TextErr ''unexpected time value %T'')))"

text \<open>The loop of \<^verbatim>\<open>appendEscaped\<close> over the data.\<close>

definition appendEscaped :: "bytes \<Rightarrow> bytes \<Rightarrow> bytes" where
  "appendEscaped buf data =
     foldl (\<lambda>buf b. if b = 0 then buf @ [0, 0xFF] else buf @ [b]) buf data @ [0, 0]"

definition encodeKeyCol :: "bytes \<Rightarrow> colKind \<Rightarrow> GoVal \<Rightarrow> goerr + bytes" where
  "encodeKeyCol buf k v =
     (case coerce k v of
        Inl e \<Rightarrow> Inl e
      | Inr c \<Rightarrow>
          (case k of
             kindInt \<Rightarrow> Inr (buf @ encInt64 (sc_i c))
           | kindUint \<Rightarrow> Inr (buf @ encUint64 (sc_u c))
           | kindFloat32 \<Rightarrow> Inr (buf @ encFloat64 (sc_f c))
           | kindFloat64 \<Rightarrow> Inr (buf @ encFloat64 (sc_f c))
           | kindString \<Rightarrow> Inr (appendEscaped buf (sc_s c))
           | kindBytes \<Rightarrow> Inr (appendEscaped buf (sc_raw c))
           | kindDatetime \<Rightarrow> Inr (buf @ encInt64 (UnixNano (sc_t c)))))"

section \<open>The row codec\<close>

abbreviation (input) rowNull :: byte where "rowNull \<equiv> 0"
abbreviation (input) rowPresent :: byte where "rowPresent \<equiv> 1"

text \<open>\<^verbatim>\<open>binary.AppendUvarint\<close> and \<^verbatim>\<open>binary.Uvarint\<close>; the second result is the number of bytes read, 0 when
  the buffer is too short and negative on overflow.\<close>

function putUvarint :: "u64 \<Rightarrow> bytes" where
  "putUvarint v = (if v < 0x80 then [ucast v] else (ucast v OR 0x80) # putUvarint (drop_bit 7 v))"
  by auto
termination
proof (relation "measure unat")
  fix v :: u64 assume "\<not> v < 0x80"
  then have "128 \<le> unat v" by (simp add: word_less_nat_alt)
  then show "(drop_bit 7 v, v) \<in> measure unat" by (simp add: drop_bit_eq_div unat_div)
qed simp

declare putUvarint.simps [simp del]

fun uvarintLoop :: "nat \<Rightarrow> u64 \<Rightarrow> nat \<Rightarrow> bytes \<Rightarrow> u64 \<times> int" where
  "uvarintLoop i x sh [] = (0, 0)"
| "uvarintLoop i x sh (b # bs) =
     (if i = 10 then (0, - (int i + 1))
      else if b < 0x80 then
        (if i = 9 \<and> b > 1 then (0, - (int i + 1)) else (x OR push_bit sh (ucast b), int i + 1))
      else uvarintLoop (i + 1) (x OR push_bit sh (ucast (b AND 0x7F))) (sh + 7) bs)"

definition Uvarint :: "bytes \<Rightarrow> u64 \<times> int" where
  "Uvarint buf = uvarintLoop 0 0 0 buf"

definition encodeCell :: "colDef \<Rightarrow> GoVal option \<Rightarrow> bytes \<Rightarrow> goerr + bytes" where
  "encodeCell c cell buf =
     (case cell of
        None \<Rightarrow> Inr (buf @ [rowNull])
      | Some v \<Rightarrow>
          let buf = buf @ [rowPresent] in
          (case kind c of
             Inl e \<Rightarrow> Inl e
           | Inr k \<Rightarrow>
               (case coerce k v of
                  Inl e \<Rightarrow> Inl (WrapErr ''column %q'' e)
                | Inr x \<Rightarrow>
                    (case k of
                       kindInt \<Rightarrow> Inr (buf @ encInt64 (sc_i x))
                     | kindUint \<Rightarrow> Inr (buf @ encUint64 (sc_u x))
                     | kindFloat32 \<Rightarrow> Inr (buf @ encFloat64 (sc_f x))
                     | kindFloat64 \<Rightarrow> Inr (buf @ encFloat64 (sc_f x))
                     | kindString \<Rightarrow> Inr (buf @ putUvarint (of_nat (length (sc_s x))) @ sc_s x)
                     | kindBytes \<Rightarrow> Inr (buf @ putUvarint (of_nat (length (sc_raw x))) @ sc_raw x)
                     | kindDatetime \<Rightarrow> Inr (buf @ encInt64 (UnixNano (sc_t x)))))))"

fun encodeRowLoop :: "colDef list \<Rightarrow> Row \<Rightarrow> bytes \<Rightarrow> goerr + bytes" where
  "encodeRowLoop (c # cols) (v # row) buf =
     (case encodeCell c v buf of Inl e \<Rightarrow> Inl e | Inr buf' \<Rightarrow> encodeRowLoop cols row buf')"
| "encodeRowLoop _ _ buf = Inr buf"

definition encodeRow :: "colDef list \<Rightarrow> Row \<Rightarrow> goerr + bytes" where
  "encodeRow cols row =
     (if length row \<noteq> length cols then Inl (TextErr ''row has %d values, schema has %d columns'')
      else encodeRowLoop cols row [])"

definition narrowInt :: "QueryType \<Rightarrow> u64 \<Rightarrow> GoVal" where
  "narrowInt qt v =
     (if qt = Type_INT8 then VInt8 (ucast v)
      else if qt = Type_INT16 then VInt16 (ucast v)
      else if qt = Type_INT24 \<or> qt = Type_INT32 then VInt32 (ucast v)
      else VInt64 v)"

definition narrowUint :: "QueryType \<Rightarrow> u64 \<Rightarrow> GoVal" where
  "narrowUint qt v =
     (if qt = Type_UINT8 then VUint8 (ucast v)
      else if qt = Type_UINT16 then VUint16 (ucast v)
      else if qt = Type_UINT24 \<or> qt = Type_UINT32 then VUint32 (ucast v)
      else VUint64 v)"

text \<open>
  One column of \<^verbatim>\<open>decodeRow\<close>, at the offset after its marker, with the offset it leaves. The sums of
  offsets are 64-bit signed, so that a length of \<open>2 ^ 63\<close> or more, or one whose sum overflows, passes the
  bounds check; the slice expression after it then panics.
\<close>

definition decodeCell :: "colDef \<Rightarrow> colKind \<Rightarrow> bytes \<Rightarrow> nat \<Rightarrow> goerr + GoVal \<times> nat" where
  "decodeCell c k data off =
     (if k \<noteq> kindString \<and> k \<noteq> kindBytes then
        (if off + 8 > length data then Inl (TextErr ''row truncated at column %q'')
         else let raw = take 8 (drop off data) in
           Inr (case k of
                  kindInt \<Rightarrow> narrowInt (cd_QType c) (decInt64 raw)
                | kindUint \<Rightarrow> narrowUint (cd_QType c) (uint64 raw)
                | kindFloat32 \<Rightarrow> VFloat32 (float32Of (decFloat64 raw))
                | kindFloat64 \<Rightarrow> VFloat64 (decFloat64 raw)
                | _ \<Rightarrow> VTime (timeUnix (decInt64 raw)), off + 8))
      else
        (case Uvarint (drop off data) of
           (n, sz) \<Rightarrow>
             if sz \<le> 0 \<or> sint (of_nat off + word_of_int sz + n) > int (length data)
             then Inl (TextErr ''row truncated at column %q'')
             else let off = off + nat sz; hi = sint (of_nat off + n) in
               if hi < int off then Inl (Panic ''slice bounds out of range'')
               else let b = take (nat hi - off) (drop off data) in
                 Inr (if k = kindString then VString b else VBytes b, nat hi)))"

fun decodeRowLoop :: "colDef list \<Rightarrow> bytes \<Rightarrow> nat \<Rightarrow> goerr + Row \<times> nat" where
  "decodeRowLoop [] data off = Inr ([], off)"
| "decodeRowLoop (c # cols) data off =
     (if off \<ge> length data then Inl (TextErr ''row truncated at column %q'')
      else let marker = data ! off; off = off + 1 in
        if marker = rowNull then
          (case decodeRowLoop cols data off of Inl e \<Rightarrow> Inl e | Inr (row, off') \<Rightarrow> Inr (None # row, off'))
        else if marker \<noteq> rowPresent then Inl (TextErr ''row corrupt at column %q'')
        else
          (case kind c of
             Inl e \<Rightarrow> Inl e
           | Inr k \<Rightarrow>
               (case decodeCell c k data off of
                  Inl e \<Rightarrow> Inl e
                | Inr (v, off) \<Rightarrow>
                    (case decodeRowLoop cols data off of
                       Inl e \<Rightarrow> Inl e | Inr (row, off') \<Rightarrow> Inr (Some v # row, off')))))"

definition decodeRow :: "colDef list \<Rightarrow> bytes \<Rightarrow> goerr + Row" where
  "decodeRow cols data =
     (case decodeRowLoop cols data 0 of
        Inl e \<Rightarrow> Inl e
      | Inr (row, off) \<Rightarrow>
          if off \<noteq> length data then Inl (TextErr ''row has %d trailing bytes'') else Inr row)"

end
