(* ===== verification/Sql_Keys.thy ===== *)
theory Sql_Keys
  imports Sql_Codec Store Commit
begin

text \<open>
  The definitions of tables and indexes (\<^verbatim>\<open>sqlledger/store.go\<close>), the logical keys of the catalog and
  the rows, the derived scan keyspaces, and the translation of index ranges into key ranges
  (\<^verbatim>\<open>sqlledger/index.go\<close>). Ordinals index slices as in the source: one out of range is a panic. Table
  and index names are compared as \<^verbatim>\<open>strings.ToLower\<close> and \<^verbatim>\<open>strings.EqualFold\<close> do on ASCII strings; other
  letters are left as they are.
\<close>

section \<open>Tables and indexes\<close>

record indexDef =
  ix_ID :: u64
  ix_Name :: bytes
  ix_Unique :: bool
  ix_ColOrds :: "nat list"

record tableDef =
  td_ID :: u64
  td_Name :: bytes
  td_Columns :: "colDef list"
  td_PKOrds :: "nat list"
  td_Comment :: bytes
  td_Indexes :: "indexDef list"
  td_autoIncNext :: u64

record catalogMeta =
  cm_NextTableID :: u64
  cm_NextIndexID :: u64
  cm_Tables :: "bytes list"

definition toLower :: "bytes \<Rightarrow> bytes" where
  "toLower s = map (\<lambda>c. if 0x41 \<le> c \<and> c \<le> 0x5A then c + 0x20 else c) s"

definition EqualFold :: "bytes \<Rightarrow> bytes \<Rightarrow> bool" where
  "EqualFold s t \<longleftrightarrow> toLower s = toLower t"

text \<open>\<^verbatim>\<open>equalsFold\<close> of \<^verbatim>\<open>engine.go\<close> compares byte by byte.\<close>

fun equalsFoldLoop :: "bytes \<Rightarrow> bytes \<Rightarrow> bool" where
  "equalsFoldLoop (a # as) (b # bs) =
     (let ca = (if 0x41 \<le> a \<and> a \<le> 0x5A then a + 0x20 else a);
          cb = (if 0x41 \<le> b \<and> b \<le> 0x5A then b + 0x20 else b)
      in if ca \<noteq> cb then False else equalsFoldLoop as bs)"
| "equalsFoldLoop _ _ = True"

definition equalsFold :: "bytes \<Rightarrow> bytes \<Rightarrow> bool" where
  "equalsFold a b = (if length a \<noteq> length b then False else equalsFoldLoop a b)"

definition hasAutoInc :: "tableDef \<Rightarrow> bool" where
  "hasAutoInc d \<longleftrightarrow> (\<exists>c \<in> set (td_Columns d). cd_AutoInc c)"

definition indexByID :: "u64 \<Rightarrow> tableDef \<Rightarrow> indexDef option" where
  "indexByID i d = find (\<lambda>x. ix_ID x = i) (td_Indexes d)"

text \<open>\<^verbatim>\<open>row[ord]\<close> and \<^verbatim>\<open>def.Columns[ord]\<close>.\<close>

definition at :: "'a list \<Rightarrow> nat \<Rightarrow> goerr + 'a" where
  "at xs i = (if i < length xs then Inr (xs ! i) else Inl (Panic ''index out of range''))"

section \<open>Keys\<close>

abbreviation (input) tagCatalogMeta :: byte where "tagCatalogMeta \<equiv> 1"
abbreviation (input) tagCatalogTable :: byte where "tagCatalogTable \<equiv> 2"
abbreviation (input) tagRow :: byte where "tagRow \<equiv> 3"
abbreviation (input) tagAutoInc :: byte where "tagAutoInc \<equiv> 4"

abbreviation (input) scanPrefix :: byte where "scanPrefix \<equiv> 0x69"
abbreviation (input) scanMetaKey :: byte where "scanMetaKey \<equiv> 0x6A"
abbreviation (input) secondaryPrefix :: byte where "secondaryPrefix \<equiv> 0x78"
abbreviation (input) scanChunkSize :: u32 where "scanChunkSize \<equiv> 512"

definition metaKey :: bytes where
  "metaKey = ascii ''sql/c/meta''"

definition tableKey :: "bytes \<Rightarrow> bytes" where
  "tableKey name = ascii ''sql/c/t/'' @ toLower name"

definition autoIncKey :: "u64 \<Rightarrow> bytes" where
  "autoIncKey i = ascii ''sql/c/a/'' @ putUint64 i"

definition rowKeyPrefix :: "u64 \<Rightarrow> bytes" where
  "rowKeyPrefix i = ascii ''sql/r/'' @ putUint64 i"

definition rowKey :: "u64 \<Rightarrow> bytes \<Rightarrow> bytes" where
  "rowKey i pkEnc = rowKeyPrefix i @ pkEnc"

definition scanKey :: "u64 \<Rightarrow> bytes \<Rightarrow> bytes" where
  "scanKey i pkEnc = scanPrefix # putUint64 i @ pkEnc"

definition secondarySpace :: "u64 \<Rightarrow> bytes" where
  "secondarySpace idxID = secondaryPrefix # putUint64 idxID"

text \<open>The loop of \<^verbatim>\<open>encodePK\<close> over the ordinals, with the buffer it appends to.\<close>

fun encodePKLoop :: "tableDef \<Rightarrow> Row \<Rightarrow> nat list \<Rightarrow> bytes \<Rightarrow> goerr + bytes" where
  "encodePKLoop def row [] buf = Inr buf"
| "encodePKLoop def row (ord # ords) buf =
     (case at row ord of
        Inl e \<Rightarrow> Inl e
      | Inr cell \<Rightarrow>
          (case at (td_Columns def) ord of
             Inl e \<Rightarrow> Inl e
           | Inr col \<Rightarrow>
               (case cell of
                  None \<Rightarrow> Inl (TextErr ''primary key column %q is NULL'')
                | Some v \<Rightarrow>
                    (case kind col of
                       Inl e \<Rightarrow> Inl e
                     | Inr k \<Rightarrow>
                         (case encodeKeyCol buf k v of
                            Inl e \<Rightarrow> Inl (WrapErr ''primary key column %q'' e)
                          | Inr buf' \<Rightarrow> encodePKLoop def row ords buf')))))"

definition encodePK :: "tableDef \<Rightarrow> Row \<Rightarrow> goerr + bytes" where
  "encodePK def row = encodePKLoop def row (td_PKOrds def) []"

section \<open>Secondary index entries\<close>

fun encodeIndexLoop :: "tableDef \<Rightarrow> Row \<Rightarrow> nat list \<Rightarrow> bytes \<Rightarrow> bool \<Rightarrow> goerr + bytes \<times> bool" where
  "encodeIndexLoop def row [] buf hasNull = Inr (buf, hasNull)"
| "encodeIndexLoop def row (ord # ords) buf hasNull =
     (case at row ord of
        Inl e \<Rightarrow> Inl e
      | Inr None \<Rightarrow> encodeIndexLoop def row ords (buf @ [0]) True
      | Inr (Some v) \<Rightarrow>
          (case at (td_Columns def) ord of
             Inl e \<Rightarrow> Inl e
           | Inr col \<Rightarrow>
               (case kind col of
                  Inl e \<Rightarrow> Inl e
                | Inr k \<Rightarrow>
                    (case encodeKeyCol (buf @ [1]) k v of
                       Inl e \<Rightarrow> Inl (WrapErr ''index %q column %q'' e)
                     | Inr buf' \<Rightarrow> encodeIndexLoop def row ords buf' hasNull))))"

definition encodeIndexCols :: "tableDef \<Rightarrow> indexDef \<Rightarrow> Row \<Rightarrow> goerr + bytes \<times> bool" where
  "encodeIndexCols def idx row = encodeIndexLoop def row (ix_ColOrds idx) [] False"

fun indexOpsLoop :: "tableDef \<Rightarrow> Row \<Rightarrow> bytes \<Rightarrow> bool \<Rightarrow> indexDef list \<Rightarrow> goerr + BatchOp list" where
  "indexOpsLoop def row pkEnc remove [] = Inr []"
| "indexOpsLoop def row pkEnc remove (idx # idxs) =
     (case encodeIndexCols def idx row of
        Inl e \<Rightarrow> Inl e
      | Inr (colsEnc, _) \<Rightarrow>
          (case indexOpsLoop def row pkEnc remove idxs of
             Inl e \<Rightarrow> Inl e
           | Inr ops \<Rightarrow>
               let key = secondarySpace (ix_ID idx) @ colsEnc @ pkEnc
               in Inr (\<lparr>bo_key = key, bo_value = (if remove then [] else pkEnc), bo_delete = remove\<rparr> # ops)))"

definition indexOps :: "tableDef \<Rightarrow> Row \<Rightarrow> bytes \<Rightarrow> bool \<Rightarrow> goerr + BatchOp list" where
  "indexOps def row pkEnc remove = indexOpsLoop def row pkEnc remove (td_Indexes def)"

definition indexInsertOps :: "tableDef \<Rightarrow> Row \<Rightarrow> bytes \<Rightarrow> BatchOp list" where
  "indexInsertOps def row pkEnc = (case indexOps def row pkEnc False of Inl e \<Rightarrow> [] | Inr ops \<Rightarrow> ops)"

section \<open>Ranges\<close>

text \<open>\<^verbatim>\<open>incBytes\<close> walks from the last byte down; here over the reversed string.\<close>

fun incLoop :: "bytes \<Rightarrow> bytes option" where
  "incLoop [] = None"
| "incLoop (b # bs) = (if b \<noteq> 0xFF then Some ((b + 1) # bs) else incLoop bs)"

definition incBytes :: "bytes \<Rightarrow> bytes option" where
  "incBytes b = map_option rev (incLoop (rev b))"

text \<open>The cuts of the engine's ranges (\<^verbatim>\<open>sql.MySQLRangeCut\<close>).\<close>

datatype Cut = BelowNull | AboveNull | Below GoVal | Above GoVal | AboveAll

record RangeColumnExpr =
  re_LowerBound :: Cut
  re_UpperBound :: Cut

record ledgerIndex =
  li_dbName :: bytes
  li_def :: tableDef
  li_idx :: "indexDef option"

definition indexID :: "ledgerIndex \<Rightarrow> bytes" where
  "indexID x = (case li_idx x of None \<Rightarrow> ascii ''PRIMARY'' | Some idx \<Rightarrow> ix_Name idx)"

definition ords :: "ledgerIndex \<Rightarrow> nat list" where
  "ords x = (case li_idx x of None \<Rightarrow> td_PKOrds (li_def x) | Some idx \<Rightarrow> ix_ColOrds idx)"

definition IsUnique :: "ledgerIndex \<Rightarrow> bool" where
  "IsUnique x = (case li_idx x of None \<Rightarrow> True | Some idx \<Rightarrow> ix_Unique idx)"

text \<open>\<^verbatim>\<open>Expressions\<close>: the qualified column names; an ordinal out of range panics.\<close>

fun columnNames :: "tableDef \<Rightarrow> nat list \<Rightarrow> goerr + bytes list" where
  "columnNames def [] = Inr []"
| "columnNames def (ord # os) =
     (case at (td_Columns def) ord of
        Inl e \<Rightarrow> Inl e
      | Inr c \<Rightarrow>
          (case columnNames def os of
             Inl e \<Rightarrow> Inl e
           | Inr names \<Rightarrow> Inr ((td_Name def @ ascii ''.'' @ cd_Name c) # names)))"

definition Expressions :: "ledgerIndex \<Rightarrow> goerr + bytes list" where
  "Expressions x = columnNames (li_def x) (ords x)"

definition GetIndexes :: "bytes \<Rightarrow> tableDef \<Rightarrow> ledgerIndex list" where
  "GetIndexes dbName def =
     \<lparr>li_dbName = dbName, li_def = def, li_idx = None\<rparr> #
     map (\<lambda>idx. \<lparr>li_dbName = dbName, li_def = def, li_idx = Some idx\<rparr>) (td_Indexes def)"

text \<open>\<^verbatim>\<open>IndexedAccess\<close> for an index of this package: whether the table serves it.\<close>

definition IndexedAccess :: "tableDef \<Rightarrow> ledgerIndex \<Rightarrow> bool" where
  "IndexedAccess def x \<longleftrightarrow> td_ID (li_def x) = td_ID def"

definition encodeCut :: "colKind \<Rightarrow> GoVal \<Rightarrow> goerr + bytes" where
  "encodeCut k v = encodeKeyCol [] k v"

text \<open>Scan bounds for the first column that is not exact; the marker byte is 1 in an index space and absent
  (0) in the primary keyspace.\<close>

definition boundedColumn :: "bytes \<Rightarrow> byte \<Rightarrow> colKind \<Rightarrow> Cut \<Rightarrow> Cut \<Rightarrow> (bytes \<times> bytes) option" where
  "boundedColumn pre marker k lo hi =
     (let withMarker = (\<lambda>enc. pre @ (if marker \<noteq> 0 then [marker] else []) @ enc);
          start =
            (case lo of
               BelowNull \<Rightarrow> Some pre
             | AboveNull \<Rightarrow> Some (if marker = 0 then pre else pre @ [marker])
             | Below v \<Rightarrow> (case encodeCut k v of Inl e \<Rightarrow> None | Inr enc \<Rightarrow> Some (withMarker enc))
             | Above v \<Rightarrow> (case encodeCut k v of Inl e \<Rightarrow> None | Inr enc \<Rightarrow> incBytes (withMarker enc))
             | AboveAll \<Rightarrow> None)
      in case start of
           None \<Rightarrow> None
         | Some start \<Rightarrow>
             map_option (Pair start)
               (case hi of
                  AboveAll \<Rightarrow> incBytes pre
                | Above v \<Rightarrow> (case encodeCut k v of Inl e \<Rightarrow> None | Inr enc \<Rightarrow> incBytes (withMarker enc))
                | Below v \<Rightarrow> (case encodeCut k v of Inl e \<Rightarrow> None | Inr enc \<Rightarrow> Some (withMarker enc))
                | AboveNull \<Rightarrow> if marker = 0 then None else Some (pre @ [marker])
                | BelowNull \<Rightarrow> None))"

text \<open>What the loop of \<^verbatim>\<open>rangeBounds\<close> does with one column: extend the prefix by an exact match, end with
  the bounds of a ranged column, or give up.\<close>

datatype rangeStep = Exact bytes | Ranged "(bytes \<times> bytes) option"

definition rangeColumn :: "bool \<Rightarrow> colKind \<Rightarrow> bytes \<Rightarrow> Cut \<Rightarrow> Cut \<Rightarrow> rangeStep" where
  "rangeColumn secondary k pre lo hi =
     (let marker = (if secondary then 1 else 0)
      in if lo = BelowNull \<and> hi = AboveNull \<and> secondary then Exact (pre @ [0])
         else case (lo, hi) of
           (Below v, Above w) \<Rightarrow>
             (case (encodeCut k v, encodeCut k w) of
                (Inr lenc, Inr uenc) \<Rightarrow>
                  if lenc = uenc then Exact (pre @ (if marker \<noteq> 0 then [marker] else []) @ lenc)
                  else Ranged (boundedColumn pre marker k lo hi)
              | _ \<Rightarrow> Ranged None)
         | _ \<Rightarrow> Ranged (boundedColumn pre marker k lo hi))"

fun rangeLoop ::
  "bool \<Rightarrow> tableDef \<Rightarrow> nat list \<Rightarrow> RangeColumnExpr list \<Rightarrow> bytes \<Rightarrow> goerr + (bytes \<times> bytes) option"
where
  "rangeLoop secondary def (ord # os) (expr # rng) pre =
     (case at (td_Columns def) ord of
        Inl e \<Rightarrow> Inl e
      | Inr col \<Rightarrow>
          (case kind col of
             Inl e \<Rightarrow> Inr None
           | Inr k \<Rightarrow>
               (case rangeColumn secondary k pre (re_LowerBound expr) (re_UpperBound expr) of
                  Exact pre' \<Rightarrow> rangeLoop secondary def os rng pre'
                | Ranged bounds \<Rightarrow> Inr bounds)))"
| "rangeLoop secondary def _ _ pre = Inr (map_option (Pair pre) (incBytes pre))"

definition rangeBounds :: "ledgerIndex \<Rightarrow> RangeColumnExpr list \<Rightarrow> goerr + (bytes \<times> bytes) option" where
  "rangeBounds x rng =
     (let space = (case li_idx x of None \<Rightarrow> scanKey (td_ID (li_def x)) [] | Some idx \<Rightarrow> secondarySpace (ix_ID idx))
      in rangeLoop (li_idx x \<noteq> None) (li_def x) (ords x) rng space)"

text \<open>\<^verbatim>\<open>CanSupport\<close> on ranges of the engine's MySQL form.\<close>

fun CanSupport :: "ledgerIndex \<Rightarrow> RangeColumnExpr list list \<Rightarrow> goerr + bool" where
  "CanSupport x [] = Inr True"
| "CanSupport x (r # ranges) =
     (case rangeBounds x r of
        Inl e \<Rightarrow> Inl e
      | Inr None \<Rightarrow> Inr False
      | Inr (Some _) \<Rightarrow> CanSupport x ranges)"

record indexRangePartition =
  pt_start :: bytes
  pt_end :: bytes
  pt_secondary :: bool
  pt_idxID :: u64
  pt_reverse :: bool
  pt_seq :: nat

fun lookupLoop ::
  "ledgerIndex \<Rightarrow> bool \<Rightarrow> nat \<Rightarrow> RangeColumnExpr list list \<Rightarrow> goerr + indexRangePartition list"
where
  "lookupLoop x isReverse i [] = Inr []"
| "lookupLoop x isReverse i (rng # ranges) =
     (case rangeBounds x rng of
        Inl e \<Rightarrow> Inl e
      | Inr None \<Rightarrow> Inl (TextErr ''index %s cannot serve the requested range'')
      | Inr (Some (start, end)) \<Rightarrow>
          (case lookupLoop x isReverse (i + 1) ranges of
             Inl e \<Rightarrow> Inl e
           | Inr parts \<Rightarrow>
               Inr (\<lparr>pt_start = start, pt_end = end, pt_secondary = (li_idx x \<noteq> None),
                     pt_idxID = (case li_idx x of None \<Rightarrow> 0 | Some idx \<Rightarrow> ix_ID idx),
                     pt_reverse = isReverse, pt_seq = i\<rparr> # parts)))"

definition LookupPartitions ::
  "ledgerIndex \<Rightarrow> RangeColumnExpr list list \<Rightarrow> bool \<Rightarrow> bool \<Rightarrow> goerr + indexRangePartition list"
where
  "LookupPartitions x ranges isEmptyRange isReverse =
     (if isEmptyRange then Inr []
      else case lookupLoop x isReverse 0 ranges of
             Inl e \<Rightarrow> Inl e
           | Inr parts \<Rightarrow> Inr (if isReverse then rev parts else parts))"

end
