(* ===== verification/Sql_Store.thy ===== *)
theory Sql_Store
  imports Sql_Keys Snapshot Proving
begin

text \<open>
  The SQL store (\<^verbatim>\<open>sqlledger/store.go\<close>): catalog, row storage and the derived scan keyspace, with verified
  reads (\<^verbatim>\<open>sqlledger/verify.go\<close>). The ledger and the scan keyspace share one backend, which is the backend
  inside the ledger store here. The lock is taken around every operation, so that each is one step. The
  JSON form of catalog entries is a parameter of the operations that read or write it (\<open>Json\<close>); a random
  source is the parameter \<open>rd\<close> of every commit, and the depth of the Go stack the parameter \<open>stack\<close> of the
  rebuild, as in the ledger.
\<close>

section \<open>State\<close>

record Json =
  js_marshalMeta :: "catalogMeta \<Rightarrow> goerr + bytes"
  js_unmarshalMeta :: "bytes \<Rightarrow> goerr + catalogMeta"
  js_marshalTable :: "tableDef \<Rightarrow> goerr + bytes"
  js_unmarshalTable :: "bytes \<Rightarrow> goerr + tableDef"

record 'b SqlStore =
  sq_led :: "'b Store"
  sq_dbName :: bytes
  sq_meta :: catalogMeta
  sq_tables :: "(bytes \<times> tableDef) list"

text \<open>A call of the ledger, and a call of the backend whose error is returned as it is.\<close>

definition onLedger :: "('b Store, 'a) io \<Rightarrow> ('b SqlStore, 'a) io" where
  "onLedger m s = (case m (sq_led s) of (r, l) \<Rightarrow> (r, s\<lparr>sq_led := l\<rparr>))"

definition onBackend :: "('b Store \<Rightarrow> (string + 'a) \<times> 'b Store) \<Rightarrow> ('b SqlStore, 'a) io" where
  "onBackend call s =
     (case call (sq_led s) of
        (Inl e, l) \<Rightarrow> (Inl (BackendErr e), s\<lparr>sq_led := l\<rparr>)
      | (Inr x, l) \<Rightarrow> (Inr x, s\<lparr>sq_led := l\<rparr>))"

definition tableByID :: "u64 \<Rightarrow> 'b SqlStore \<Rightarrow> tableDef option" where
  "tableByID i s = map_option snd (find (\<lambda>(n, def). td_ID def = i) (sq_tables s))"

section \<open>Catalog\<close>

definition marshalTagged :: "byte \<Rightarrow> (goerr + bytes) \<Rightarrow> goerr + bytes" where
  "marshalTagged tag raw = (case raw of Inl e \<Rightarrow> Inl e | Inr r \<Rightarrow> Inr (tag # r))"

text \<open>The AUTO_INCREMENT counter of a loaded table.\<close>

definition loadCounter :: "tableDef \<Rightarrow> ('b SqlStore, tableDef) io" where
  "loadCounter def =
     (if hasAutoInc def then
        andThen (onLedger (Get (autoIncKey (td_ID def)))) (\<lambda>craw.
          let next = (case craw of
                        Some c \<Rightarrow> if length c = 9 \<and> c ! 0 = tagAutoInc then uint64 (drop 1 c) else td_autoIncNext def
                      | None \<Rightarrow> td_autoIncNext def)
          in ret (def\<lparr>td_autoIncNext := (if next = 0 then 1 else next)\<rparr>))
      else ret def)"

definition loadTable :: "Json \<Rightarrow> bytes \<Rightarrow> ('b SqlStore, tableDef) io" where
  "loadTable js name =
     andThen (onLedger (Get (tableKey name))) (\<lambda>r.
       case r of
         None \<Rightarrow> throw (TextErr ''catalog names table %q but its definition is missing'')
       | Some raw \<Rightarrow>
           if length raw < 1 \<or> raw ! 0 \<noteq> tagCatalogTable then throw (TextErr ''table %q definition is corrupt'')
           else case js_unmarshalTable js (drop 1 raw) of
                  Inl e \<Rightarrow> throw (WrapErr ''table %q definition'' e)
                | Inr def \<Rightarrow> loadCounter def)"

fun loadTables :: "Json \<Rightarrow> bytes list \<Rightarrow> ('b SqlStore, unit) io" where
  "loadTables js [] = ret ()"
| "loadTables js (name # names) =
     andThen (loadTable js name) (\<lambda>def.
     andThen (setState (\<lambda>s. s\<lparr>sq_tables := AList.update (toLower name) def (sq_tables s)\<rparr>)) (\<lambda>_.
     loadTables js names))"

definition loadCatalog :: "Json \<Rightarrow> ('b SqlStore, unit) io" where
  "loadCatalog js =
     andThen (onLedger (Get metaKey)) (\<lambda>r.
       case r of
         None \<Rightarrow>
           setState (\<lambda>s. s\<lparr>sq_meta := \<lparr>cm_NextTableID = 1, cm_NextIndexID = 1, cm_Tables = []\<rparr>\<rparr>)
       | Some raw \<Rightarrow>
           if length raw < 1 \<or> raw ! 0 \<noteq> tagCatalogMeta then throw (TextErr ''catalog meta entry is corrupt'')
           else case js_unmarshalMeta js (drop 1 raw) of
                  Inl e \<Rightarrow> throw (WrapErr ''catalog meta'' e)
                | Inr meta \<Rightarrow>
                    andThen (setState (\<lambda>s. s\<lparr>sq_meta := meta\<rparr>)) (\<lambda>_.
                    loadTables js (cm_Tables meta)))"

section \<open>The scan keyspace\<close>

definition appliedVersion :: "('b SqlStore, u64) io" where
  "appliedVersion =
     andThen (onBackend (callGet [scanMetaKey])) (\<lambda>r.
       case r of
         None \<Rightarrow> ret 0
       | Some raw \<Rightarrow> if length raw \<noteq> 8 then ret 0 else ret (uint64 raw))"

definition markerOp :: "u64 \<Rightarrow> BatchOp" where
  "markerOp version = \<lparr>bo_key = [scanMetaKey], bo_value = putUint64 version, bo_delete = False\<rparr>"

definition deleteOps :: "KV list \<Rightarrow> BatchOp list" where
  "deleteOps kvs = map (\<lambda>kv. \<lparr>bo_key = kv_key kv, bo_value = [], bo_delete = True\<rparr>) kvs"

type_synonym ('b, 'a) loop = "((goerr + 'a) \<times> 'b SqlStore) option"

text \<open>The loop that drops the keyspace from \<^verbatim>\<open>start\<close> to \<^verbatim>\<open>end\<close>.\<close>

partial_function (option) dropSpace :: "bytes \<Rightarrow> bytes \<Rightarrow> 'b SqlStore \<Rightarrow> ('b, unit) loop" where
  "dropSpace start end s =
     (case onBackend (callScan start end scanChunkSize) s of
        (Inl e, s1) \<Rightarrow> Some (Inl e, s1)
      | (Inr kvs, s1) \<Rightarrow>
          if kvs = [] then Some (Inr (), s1)
          else (case onBackend (callWriteBatch (deleteOps kvs)) s1 of
                  (Inl e, s2) \<Rightarrow> Some (Inl e, s2)
                | (Inr _, s2) \<Rightarrow>
                    if length kvs < unat scanChunkSize then Some (Inr (), s2) else dropSpace start end s2))"

text \<open>The derived operations of one leaf: none unless it is a row of a table of the catalog.\<close>

definition leafOps :: "'b SqlStore \<Rightarrow> bytes \<Rightarrow> goerr + BatchOp list" where
  "leafOps s v =
     (if length v < 9 \<or> v ! 0 \<noteq> tagRow then Inr []
      else let i = uint64 (take 8 (drop 1 v)) in
        case tableByID i s of
          None \<Rightarrow> Inr []
        | Some def \<Rightarrow>
            (case decodeRow (td_Columns def) (drop 9 v) of
               Inl e \<Rightarrow> Inl (WrapErr ''rebuild: table %s'' e)
             | Inr row \<Rightarrow>
                 (case encodePK def row of
                    Inl e \<Rightarrow> Inl e
                  | Inr pkEnc \<Rightarrow>
                      Inr (\<lparr>bo_key = scanKey i pkEnc, bo_value = [], bo_delete = False\<rparr> #
                           indexInsertOps def row pkEnc))))"

fun rebuildLeaves :: "SnapLeaf list \<Rightarrow> BatchOp list \<Rightarrow> ('b SqlStore, BatchOp list) io" where
  "rebuildLeaves [] ops s = ret ops s"
| "rebuildLeaves (l # ls) ops s =
     (case leafOps s (sl_Value l) of
        Inl e \<Rightarrow> throw e s
      | Inr new \<Rightarrow>
          if new = [] then rebuildLeaves ls ops s
          else if length (ops @ new) \<ge> unat scanChunkSize
          then andThen (onBackend (callWriteBatch (ops @ new))) (\<lambda>_. rebuildLeaves ls []) s
          else rebuildLeaves ls (ops @ new) s)"

partial_function (option) rebuildLoop ::
  "nat \<Rightarrow> u64 \<Rightarrow> hash option \<Rightarrow> BatchOp list \<Rightarrow> 'b SqlStore \<Rightarrow> ('b, BatchOp list) loop"
where
  "rebuildLoop stack version startAfter ops s =
     (case SnapshotLeaves stack version startAfter (uint scanChunkSize) (sq_led s) of
        (Inl e, (l, leaves)) \<Rightarrow> Some (Inl e, s\<lparr>sq_led := l\<rparr>)
      | (Inr exhausted, (l, leaves)) \<Rightarrow>
          (case rebuildLeaves leaves ops (s\<lparr>sq_led := l\<rparr>) of
             (Inl e, s1) \<Rightarrow> Some (Inl e, s1)
           | (Inr ops', s1) \<Rightarrow>
               if exhausted then Some (Inr ops', s1)
               else if leaves = [] then Some (Inl (Panic ''index out of range''), s1)
               else rebuildLoop stack version (Some (sl_Path (last leaves))) ops' s1))"

definition reconcileScanSpace :: "nat \<Rightarrow> 'b SqlStore \<Rightarrow> ('b, unit) loop" where
  "reconcileScanSpace stack s =
     (let version = snd (Root (sq_led s)) in
      case appliedVersion s of
        (Inl e, s1) \<Rightarrow> Some (Inl e, s1)
      | (Inr applied, s1) \<Rightarrow>
          if applied = version then Some (Inr (), s1)
          else (case dropSpace [scanPrefix] [scanPrefix + 1] s1 of
                  None \<Rightarrow> None
                | Some (Inl e, s2) \<Rightarrow> Some (Inl e, s2)
                | Some (Inr _, s2) \<Rightarrow>
                    (case rebuildLoop stack version None [] s2 of
                       None \<Rightarrow> None
                     | Some (Inl e, s3) \<Rightarrow> Some (Inl e, s3)
                     | Some (Inr ops, s3) \<Rightarrow> Some (onBackend (callWriteBatch (ops @ [markerOp version])) s3))))"

definition OpenSql :: "Json \<Rightarrow> nat \<Rightarrow> 'b Store \<Rightarrow> bytes \<Rightarrow> ('b, unit) loop" where
  "OpenSql js stack led dbName =
     (let s = \<lparr>sq_led = led, sq_dbName = dbName,
               sq_meta = \<lparr>cm_NextTableID = 0, cm_NextIndexID = 0, cm_Tables = []\<rparr>, sq_tables = []\<rparr>
      in case loadCatalog js s of
           (Inl e, s1) \<Rightarrow> Some (Inl e, s1)
         | (Inr _, s1) \<Rightarrow> reconcileScanSpace stack s1)"

section \<open>Commits\<close>

definition commitSql :: "(rand_call \<Rightarrow> bytes option) \<Rightarrow> Op list \<Rightarrow> BatchOp list \<Rightarrow> ('b SqlStore, unit) io" where
  "commitSql rd ledOps scanOps =
     andThen (onLedger (PutBatch rd ledOps)) (\<lambda>_.
     andThen (getState (\<lambda>s. snd (Root (sq_led s)))) (\<lambda>version.
     onBackend (callWriteBatch (scanOps @ [markerOp version]))))"

section \<open>Rows\<close>

definition rowPayload :: "u64 \<Rightarrow> bytes \<Rightarrow> bytes" where
  "rowPayload i value = tagRow # putUint64 i @ value"

definition readRow :: "tableDef \<Rightarrow> bytes \<Rightarrow> ('b SqlStore, Row) io" where
  "readRow def pkEnc =
     andThen (onLedger (Get (rowKey (td_ID def) pkEnc))) (\<lambda>r.
       case r of
         None \<Rightarrow> throw (TextErr ''table %s: scan entry without a ledger row'')
       | Some raw \<Rightarrow>
           if length raw < 9 \<or> raw ! 0 \<noteq> tagRow \<or> uint64 (take 8 (drop 1 raw)) \<noteq> td_ID def
           then throw (TextErr ''table %s: row entry is corrupt'')
           else liftE (decodeRow (td_Columns def) (drop 9 raw)))"

definition readRowLocked :: "tableDef \<Rightarrow> bytes \<Rightarrow> ('b SqlStore, Row) io" where
  "readRowLocked def pkEnc =
     andThen (onLedger (Get (rowKey (td_ID def) pkEnc))) (\<lambda>r.
       case r of
         None \<Rightarrow> throw (TextErr ''table %s: scan entry without a ledger row'')
       | Some raw \<Rightarrow>
           if length raw < 9 \<or> raw ! 0 \<noteq> tagRow then throw (TextErr ''table %s: row entry is corrupt'')
           else liftE (decodeRow (td_Columns def) (drop 9 raw)))"

definition rowExists :: "tableDef \<Rightarrow> bytes \<Rightarrow> ('b SqlStore, bool) io" where
  "rowExists def pkEnc =
     andThen (onLedger (Get (rowKey (td_ID def) pkEnc))) (\<lambda>r. ret (r \<noteq> None))"

definition uniqueConflict :: "indexDef \<Rightarrow> bytes \<Rightarrow> bytes \<Rightarrow> ('b SqlStore, bool) io" where
  "uniqueConflict idx colsEnc pkEnc =
     (let start = secondarySpace (ix_ID idx) @ colsEnc in
      case incBytes start of
        None \<Rightarrow> throw (TextErr ''index keyspace overflow'')
      | Some end \<Rightarrow>
          andThen (onBackend (callScan start end 2)) (\<lambda>kvs.
          ret (\<exists>kv \<in> set kvs. kv_value kv \<noteq> pkEnc)))"

section \<open>Verified reads\<close>

record VerifiedRow =
  vw_Row :: "Row option"
  vw_Key :: bytes
  vw_Value :: "bytes option"
  vw_Proof :: Proof
  vw_Root :: hash
  vw_Version :: u64

fun encodePKValues :: "tableDef \<Rightarrow> nat list \<Rightarrow> GoVal list \<Rightarrow> bytes \<Rightarrow> goerr + bytes" where
  "encodePKValues def (ord # os) (v # vs) buf =
     (case at (td_Columns def) ord of
        Inl e \<Rightarrow> Inl e
      | Inr col \<Rightarrow>
          (case kind col of
             Inl e \<Rightarrow> Inl e
           | Inr k \<Rightarrow>
               (case encodeKeyCol buf k v of
                  Inl e \<Rightarrow> Inl (WrapErr ''primary-key column %q'' e)
                | Inr buf' \<Rightarrow> encodePKValues def os vs buf')))"
| "encodePKValues def _ _ buf = Inr buf"

definition VerifiedGet :: "bytes \<Rightarrow> GoVal list \<Rightarrow> ('b SqlStore, VerifiedRow) io" where
  "VerifiedGet table pkValues s =
     (case map_of (sq_tables s) (toLower table) of
        None \<Rightarrow> throw (TextErr ''table %q does not exist'') s
      | Some def \<Rightarrow>
          if length pkValues \<noteq> length (td_PKOrds def)
          then throw (TextErr ''table %q has %d primary-key columns, got %d values'') s
          else
            (case encodePKValues def (td_PKOrds def) pkValues [] of
               Inl e \<Rightarrow> throw e s
             | Inr pkEnc \<Rightarrow>
                 let key = rowKey (td_ID def) pkEnc; (root, version) = Root (sq_led s) in
                 andThen (onLedger (Prove key)) (\<lambda>prf.
                 andThen (onLedger (Get key)) (\<lambda>r.
                   let out = \<lparr>vw_Row = None, vw_Key = key, vw_Value = None, vw_Proof = prf,
                              vw_Root = root, vw_Version = version\<rparr>
                   in case r of
                        None \<Rightarrow> ret out
                      | Some raw \<Rightarrow>
                          if length raw < 9 \<or> raw ! 0 \<noteq> tagRow then throw (TextErr ''table %q: row entry is corrupt'')
                          else
                            (case decodeRow (td_Columns def) (drop 9 raw) of
                               Inl e \<Rightarrow> throw e
                             | Inr row \<Rightarrow> ret (out\<lparr>vw_Value := Some raw, vw_Row := Some row\<rparr>)))) s))"

definition VerifySql :: "'b SqlStore \<Rightarrow> VerifiedRow \<Rightarrow> hash \<Rightarrow> goerr + bool" where
  "VerifySql s vr root =
     (case vw_Value vr of
        None \<Rightarrow> VerifyAbsent (sq_led s) root (vw_Key vr) (vw_Proof vr)
      | Some v \<Rightarrow> VerifyValue (sq_led s) root (vw_Key vr) v (vw_Proof vr))"

end
