(* ===== verification/Sql_Txn.thy ===== *)
theory Sql_Txn
  imports Sql_Store
begin

text \<open>
  Transactions (\<^verbatim>\<open>sqlledger/txn.go\<close>) and the statement editor (\<^verbatim>\<open>sqlledger/table.go\<close>). Go maps are
  association lists; iteration over one takes the list's order, as one of the orders Go may take. The rows
  that buffers share through pointers are never written through, so that copies stand for them. A table
  handle is the table's key in the store's table map, through which it reads and updates the definition.
\<close>

section \<open>Pending rows\<close>

record pendingRow =
  pr_pkEnc :: bytes
  pr_old :: "Row option"
  pr_new :: "Row option"

type_synonym tableTxn = "(bytes \<times> pendingRow) list"

record savepoint =
  sp_name :: bytes
  sp_tables :: "(u64 \<times> tableTxn) list"

record storeTxn =
  tx_baseVersion :: u64
  tx_readOnly :: bool
  tx_tables :: "(u64 \<times> tableTxn) list"
  tx_savepoints :: "savepoint list"

record 'b Session =
  se_store :: "'b SqlStore"
  se_txn :: "storeTxn option"

definition onStore :: "('b SqlStore, 'a) io \<Rightarrow> ('b Session, 'a) io" where
  "onStore m s = (case m (se_store s) of (r, st) \<Rightarrow> (r, s\<lparr>se_store := st\<rparr>))"

text \<open>\<^verbatim>\<open>tableView\<close> gives nil for a missing table and for no transaction; \<^verbatim>\<open>table\<close> makes the buffer.\<close>

definition tableView :: "u64 \<Rightarrow> storeTxn option \<Rightarrow> tableTxn option" where
  "tableView i t = (case t of None \<Rightarrow> None | Some txn \<Rightarrow> map_of (tx_tables txn) i)"

definition tableOf :: "u64 \<Rightarrow> storeTxn \<Rightarrow> tableTxn" where
  "tableOf i txn = (case map_of (tx_tables txn) i of None \<Rightarrow> [] | Some tt \<Rightarrow> tt)"

section \<open>Sessions and savepoints\<close>

definition NewSession :: "'b SqlStore \<Rightarrow> 'b Session" where
  "NewSession s = \<lparr>se_store = s, se_txn = None\<rparr>"

definition StartTransaction :: "bool \<Rightarrow> 'b Session \<Rightarrow> 'b Session" where
  "StartTransaction readOnly s =
     s\<lparr>se_txn := Some \<lparr>tx_baseVersion = snd (Root (sq_led (se_store s))), tx_readOnly = readOnly,
                       tx_tables = [], tx_savepoints = []\<rparr>\<rparr>"

definition Rollback :: "'b Session \<Rightarrow> 'b Session" where
  "Rollback s = s\<lparr>se_txn := None\<rparr>"

text \<open>\<^verbatim>\<open>snapshotTables\<close> makes a deep copy.\<close>

definition snapshotTables :: "(u64 \<times> tableTxn) list \<Rightarrow> (u64 \<times> tableTxn) list" where
  "snapshotTables tables = map (\<lambda>(i, tt). (i, map (\<lambda>(k, p). (k, p)) tt)) tables"

fun dropSavepoint :: "bytes \<Rightarrow> savepoint list \<Rightarrow> savepoint list" where
  "dropSavepoint name [] = []"
| "dropSavepoint name (sp # sps) = (if EqualFold (sp_name sp) name then sps else sp # dropSavepoint name sps)"

definition noTransaction :: goerr where
  "noTransaction = TextErr ''savepoint %s: no active transaction''"

definition ErrSavepointDoesNotExist :: goerr where
  "ErrSavepointDoesNotExist = TextErr ''ErrSavepointDoesNotExist''"

definition CreateSavepoint :: "bytes \<Rightarrow> ('b Session, unit) io" where
  "CreateSavepoint name s =
     (case se_txn s of
        None \<Rightarrow> throw noTransaction s
      | Some txn \<Rightarrow>
          setState (\<lambda>s. s\<lparr>se_txn := Some (txn\<lparr>tx_savepoints :=
            dropSavepoint name (tx_savepoints txn) @
              [\<lparr>sp_name = name, sp_tables = snapshotTables (tx_tables txn)\<rparr>]\<rparr>)\<rparr>) s)"

text \<open>The position of the last savepoint of a name, as the loops from the end find it.\<close>

definition findSavepoint :: "bytes \<Rightarrow> savepoint list \<Rightarrow> nat option" where
  "findSavepoint name sps = find (\<lambda>i. EqualFold (sp_name (sps ! i)) name) (rev [0..<length sps])"

definition RollbackToSavepoint :: "bytes \<Rightarrow> ('b Session, unit) io" where
  "RollbackToSavepoint name s =
     (case se_txn s of
        None \<Rightarrow> throw noTransaction s
      | Some txn \<Rightarrow>
          (case findSavepoint name (tx_savepoints txn) of
             None \<Rightarrow> throw ErrSavepointDoesNotExist s
           | Some i \<Rightarrow>
               setState (\<lambda>s. s\<lparr>se_txn := Some (txn\<lparr>tx_tables := snapshotTables (sp_tables (tx_savepoints txn ! i)),
                                                 tx_savepoints := take (i + 1) (tx_savepoints txn)\<rparr>)\<rparr>) s))"

definition ReleaseSavepoint :: "bytes \<Rightarrow> ('b Session, unit) io" where
  "ReleaseSavepoint name s =
     (case se_txn s of
        None \<Rightarrow> throw noTransaction s
      | Some txn \<Rightarrow>
          (case findSavepoint name (tx_savepoints txn) of
             None \<Rightarrow> throw ErrSavepointDoesNotExist s
           | Some i \<Rightarrow> setState (\<lambda>s. s\<lparr>se_txn := Some (txn\<lparr>tx_savepoints := take i (tx_savepoints txn)\<rparr>)\<rparr>) s))"

section \<open>Row operations\<close>

definition buildRowOps :: "tableDef \<Rightarrow> pendingRow \<Rightarrow> goerr + Op list \<times> BatchOp list" where
  "buildRowOps def p =
     (let rk = rowKey (td_ID def) (pr_pkEnc p); sk = scanKey (td_ID def) (pr_pkEnc p) in
      case (pr_new p, pr_old p) of
        (None, Some old) \<Rightarrow>
          (case indexOps def old (pr_pkEnc p) True of
             Inl e \<Rightarrow> Inl e
           | Inr ops \<Rightarrow> Inr ([Del rk], \<lparr>bo_key = sk, bo_value = [], bo_delete = True\<rparr> # ops))
      | (Some new, old) \<Rightarrow>
          (case encodeRow (td_Columns def) new of
             Inl e \<Rightarrow> Inl e
           | Inr value \<Rightarrow>
               (case (case old of None \<Rightarrow> Inr [] | Some r \<Rightarrow> indexOps def r (pr_pkEnc p) True) of
                  Inl e \<Rightarrow> Inl e
                | Inr oldOps \<Rightarrow>
                    (case indexOps def new (pr_pkEnc p) False of
                       Inl e \<Rightarrow> Inl e
                     | Inr newOps \<Rightarrow>
                         Inr ([Put rk (rowPayload (td_ID def) value)],
                              \<lparr>bo_key = sk, bo_value = [], bo_delete = False\<rparr> # oldOps @ newOps))))
      | (None, None) \<Rightarrow> Inr ([], []))"

definition counterOps :: "tableDef \<Rightarrow> Op list" where
  "counterOps def =
     (if hasAutoInc def then [Put (autoIncKey (td_ID def)) (tagAutoInc # putUint64 (td_autoIncNext def))] else [])"

section \<open>The statement editor\<close>

record tableEditor =
  ed_table :: bytes
  ed_pending :: "(bytes \<times> pendingRow) list"

type_synonym 'b editing = "'b Session \<times> tableEditor"

definition ErrPrimaryKeyViolation :: goerr where
  "ErrPrimaryKeyViolation = TextErr ''ErrPrimaryKeyViolation''"

definition UniqueKeyErr :: goerr where
  "UniqueKeyErr = TextErr ''UniqueKeyErr''"

definition inSession :: "('b SqlStore, 'a) io \<Rightarrow> ('b editing, 'a) io" where
  "inSession m w = (case m (se_store (fst w)) of (r, st) \<Rightarrow> (r, ((fst w)\<lparr>se_store := st\<rparr>, snd w)))"

definition setPending :: "bytes \<Rightarrow> pendingRow \<Rightarrow> ('b editing, unit) io" where
  "setPending key p = setState (\<lambda>(s, e). (s, e\<lparr>ed_pending := AList.update key p (ed_pending e)\<rparr>))"

definition writable :: "'b Session \<Rightarrow> goerr + unit" where
  "writable s =
     (case se_txn s of
        Some txn \<Rightarrow> if tx_readOnly txn then Inl (TextErr ''cannot write in a read-only transaction'') else Inr ()
      | None \<Rightarrow> Inr ())"

definition txnRow :: "u64 \<Rightarrow> bytes \<Rightarrow> 'b Session \<Rightarrow> pendingRow option" where
  "txnRow i key s = (case tableView i (se_txn s) of None \<Rightarrow> None | Some tt \<Rightarrow> map_of tt key)"

definition effectivePending :: "tableTxn option \<Rightarrow> (bytes \<times> pendingRow) list \<Rightarrow> pendingRow list" where
  "effectivePending tt pending =
     (case tt of
        None \<Rightarrow> map snd pending
      | Some rows \<Rightarrow>
          map (\<lambda>(k, p). case map_of rows k of
                          Some q \<Rightarrow> \<lparr>pr_pkEnc = pr_pkEnc p, pr_old = pr_old q, pr_new = pr_new p\<rparr>
                        | None \<Rightarrow> p) pending @
          map snd (filter (\<lambda>(k, p). map_of pending k = None) rows))"

text \<open>The two loops of \<^verbatim>\<open>checkUnique\<close> over the pending rows: is there a pending row with the same columns,
  and does pending work move the committed row away.\<close>

fun pendingConflict :: "tableDef \<Rightarrow> indexDef \<Rightarrow> bytes \<Rightarrow> bytes \<Rightarrow> pendingRow list \<Rightarrow> goerr + bool" where
  "pendingConflict def idx colsEnc pkEnc [] = Inr False"
| "pendingConflict def idx colsEnc pkEnc (p # ps) =
     (if pr_pkEnc p = pkEnc then pendingConflict def idx colsEnc pkEnc ps
      else case pr_new p of
             None \<Rightarrow> pendingConflict def idx colsEnc pkEnc ps
           | Some new \<Rightarrow>
               (case encodeIndexCols def idx new of
                  Inl e \<Rightarrow> Inl e
                | Inr (otherEnc, otherNull) \<Rightarrow>
                    if \<not> otherNull \<and> otherEnc = colsEnc then Inr True
                    else pendingConflict def idx colsEnc pkEnc ps))"

fun pendingResolves :: "tableDef \<Rightarrow> indexDef \<Rightarrow> bytes \<Rightarrow> bytes \<Rightarrow> pendingRow list \<Rightarrow> goerr + bool" where
  "pendingResolves def idx colsEnc pkEnc [] = Inr False"
| "pendingResolves def idx colsEnc pkEnc (p # ps) =
     (case pr_old p of
        None \<Rightarrow> pendingResolves def idx colsEnc pkEnc ps
      | Some old \<Rightarrow>
          if pr_pkEnc p = pkEnc then pendingResolves def idx colsEnc pkEnc ps
          else
            (case encodeIndexCols def idx old of
               Inl e \<Rightarrow> Inl e
             | Inr (oldEnc, oldNull) \<Rightarrow>
                 if oldNull \<or> oldEnc \<noteq> colsEnc then pendingResolves def idx colsEnc pkEnc ps
                 else case pr_new p of
                        None \<Rightarrow> Inr True
                      | Some new \<Rightarrow>
                          (case encodeIndexCols def idx new of
                             Inl e \<Rightarrow> Inl e
                           | Inr (newEnc, newNull) \<Rightarrow>
                               if newNull \<or> newEnc \<noteq> colsEnc then Inr True
                               else pendingResolves def idx colsEnc pkEnc ps)))"

fun checkUniqueLoop ::
  "tableDef \<Rightarrow> Row \<Rightarrow> bytes \<Rightarrow> pendingRow list \<Rightarrow> indexDef list \<Rightarrow> ('b SqlStore, unit) io"
where
  "checkUniqueLoop def row pkEnc pendings [] = ret ()"
| "checkUniqueLoop def row pkEnc pendings (idx # idxs) =
     (if \<not> ix_Unique idx then checkUniqueLoop def row pkEnc pendings idxs
      else case encodeIndexCols def idx row of
             Inl e \<Rightarrow> throw e
           | Inr (colsEnc, hasNull) \<Rightarrow>
               if hasNull then checkUniqueLoop def row pkEnc pendings idxs
               else
                 andThen (uniqueConflict idx colsEnc pkEnc) (\<lambda>committed.
                   case (if \<not> committed then pendingConflict def idx colsEnc pkEnc pendings
                         else map_sum id Not (pendingResolves def idx colsEnc pkEnc pendings)) of
                     Inl e \<Rightarrow> throw e
                   | Inr conflict \<Rightarrow>
                       if conflict then throw UniqueKeyErr
                       else checkUniqueLoop def row pkEnc pendings idxs))"

definition checkUnique :: "tableDef \<Rightarrow> Row \<Rightarrow> bytes \<Rightarrow> ('b editing, unit) io" where
  "checkUnique def row pkEnc w =
     (let pendings = effectivePending (tableView (td_ID def) (se_txn (fst w))) (ed_pending (snd w))
      in inSession (checkUniqueLoop def row pkEnc pendings (td_Indexes def)) w)"

text \<open>The definition behind the editor's handle.\<close>

definition editorDef :: "('b editing, tableDef) io" where
  "editorDef w =
     (case map_of (sq_tables (se_store (fst w))) (ed_table (snd w)) of
        None \<Rightarrow> throw (TextErr ''dropped table'') w
      | Some def \<Rightarrow> ret def w)"

text \<open>The values that advance the AUTO_INCREMENT counter, and the counter after a row.\<close>

definition autoIncValue :: "GoVal \<Rightarrow> u64" where
  "autoIncValue v =
     (case v of
        VInt64 x \<Rightarrow> if sint x > 0 then x else 0
      | VUint64 x \<Rightarrow> x
      | VInt32 x \<Rightarrow> if sint x > 0 then scast x else 0
      | VUint32 x \<Rightarrow> ucast x
      | _ \<Rightarrow> 0)"

fun advanceAutoInc :: "colDef list \<Rightarrow> Row \<Rightarrow> u64 \<Rightarrow> goerr + u64" where
  "advanceAutoInc [] row next = Inr next"
| "advanceAutoInc (c # cols) [] next =
     (if cd_AutoInc c then Inl (Panic ''index out of range'') else advanceAutoInc cols [] next)"
| "advanceAutoInc (c # cols) (cell # row) next =
     (let next' =
        (case cell of
           None \<Rightarrow> next
         | Some x \<Rightarrow>
             if cd_AutoInc c then let v = autoIncValue x in if v > 0 \<and> v \<ge> next then v + 1 else next else next)
      in advanceAutoInc cols row next')"

definition setAutoInc :: "bytes \<Rightarrow> tableDef \<Rightarrow> u64 \<Rightarrow> 'b SqlStore \<Rightarrow> 'b SqlStore" where
  "setAutoInc lower def next s =
     s\<lparr>sq_tables := AList.update lower (def\<lparr>td_autoIncNext := next\<rparr>) (sq_tables s)\<rparr>"

definition editorInsert :: "Row \<Rightarrow> ('b editing, unit) io" where
  "editorInsert row =
     andThen (\<lambda>w. liftE (writable (fst w)) w) (\<lambda>_.
     andThen editorDef (\<lambda>def0.
     andThen (liftE (encodePK def0 row)) (\<lambda>pkEnc.
     andThen (liftE (advanceAutoInc (td_Columns def0) row (td_autoIncNext def0))) (\<lambda>next.
     andThen (setState (\<lambda>(s, e). (s\<lparr>se_store := setAutoInc (ed_table e) def0 next (se_store s)\<rparr>, e))) (\<lambda>_.
     andThen editorDef (\<lambda>def.
     andThen (\<lambda>w.
       case map_of (ed_pending (snd w)) pkEnc of
         Some p \<Rightarrow>
           if pr_new p \<noteq> None then throw ErrPrimaryKeyViolation w
           else setPending pkEnc (p\<lparr>pr_new := Some row\<rparr>) w
       | None \<Rightarrow>
           andThen
             (case txnRow (td_ID def) pkEnc (fst w) of
                Some tp \<Rightarrow> ret (pr_new tp \<noteq> None)
              | None \<Rightarrow> inSession (rowExists def pkEnc)) (\<lambda>exists.
           if exists then throw ErrPrimaryKeyViolation
           else setPending pkEnc \<lparr>pr_pkEnc = pkEnc, pr_old = None, pr_new = Some row\<rparr>) w) (\<lambda>_.
     checkUnique def row pkEnc)))))))"

definition editorDelete :: "Row \<Rightarrow> ('b editing, unit) io" where
  "editorDelete row =
     andThen (\<lambda>w. liftE (writable (fst w)) w) (\<lambda>_.
     andThen editorDef (\<lambda>def.
     andThen (liftE (encodePK def row)) (\<lambda>pkEnc w.
       case map_of (ed_pending (snd w)) pkEnc of
         Some p \<Rightarrow> setPending pkEnc (p\<lparr>pr_new := None\<rparr>) w
       | None \<Rightarrow> setPending pkEnc \<lparr>pr_pkEnc = pkEnc, pr_old = Some row, pr_new = None\<rparr> w)))"

definition editorUpdate :: "Row \<Rightarrow> Row \<Rightarrow> ('b editing, unit) io" where
  "editorUpdate oldRow newRow =
     andThen (\<lambda>w. liftE (writable (fst w)) w) (\<lambda>_.
     andThen editorDef (\<lambda>def.
     andThen (liftE (encodePK def oldRow)) (\<lambda>oldPK.
     andThen (liftE (encodePK def newRow)) (\<lambda>newPK.
       if oldPK = newPK then
         andThen (\<lambda>w.
           case map_of (ed_pending (snd w)) oldPK of
             Some p \<Rightarrow> setPending oldPK (p\<lparr>pr_new := Some newRow\<rparr>) w
           | None \<Rightarrow> setPending oldPK \<lparr>pr_pkEnc = oldPK, pr_old = Some oldRow, pr_new = Some newRow\<rparr> w) (\<lambda>_.
         checkUnique def newRow oldPK)
       else andThen (editorDelete oldRow) (\<lambda>_. editorInsert newRow)))))"

definition DiscardChanges :: "'b editing \<Rightarrow> 'b editing" where
  "DiscardChanges w = (fst w, (snd w)\<lparr>ed_pending := []\<rparr>)"

text \<open>The statement buffer folded into the transaction buffer of its table.\<close>

definition foldPending :: "(bytes \<times> pendingRow) list \<Rightarrow> tableTxn \<Rightarrow> tableTxn" where
  "foldPending pending tt =
     foldl (\<lambda>tt (k, p). case map_of tt k of
                          Some q \<Rightarrow> AList.update k (q\<lparr>pr_new := pr_new p\<rparr>) tt
                        | None \<Rightarrow> AList.update k p tt) tt pending"

fun rowOpsLoop :: "tableDef \<Rightarrow> pendingRow list \<Rightarrow> goerr + Op list \<times> BatchOp list" where
  "rowOpsLoop def [] = Inr ([], [])"
| "rowOpsLoop def (p # ps) =
     (case buildRowOps def p of
        Inl e \<Rightarrow> Inl e
      | Inr (lo, so) \<Rightarrow>
          (case rowOpsLoop def ps of Inl e \<Rightarrow> Inl e | Inr (los, sos) \<Rightarrow> Inr (lo @ los, so @ sos)))"

definition editorClose :: "(rand_call \<Rightarrow> bytes option) \<Rightarrow> ('b editing, unit) io" where
  "editorClose rd w =
     (if ed_pending (snd w) = [] then ret () w
      else andThen editorDef (\<lambda>def w.
        case se_txn (fst w) of
          Some txn \<Rightarrow>
            let tt = foldPending (ed_pending (snd w)) (tableOf (td_ID def) txn);
                txn' = txn\<lparr>tx_tables := AList.update (td_ID def) tt (tx_tables txn)\<rparr>
            in ret () ((fst w)\<lparr>se_txn := Some txn'\<rparr>, (snd w)\<lparr>ed_pending := []\<rparr>)
        | None \<Rightarrow>
            andThen (liftE (rowOpsLoop def (map snd (ed_pending (snd w))))) (\<lambda>(ledOps, scanOps).
            inSession (commitSql rd (ledOps @ counterOps def) scanOps)) w) w)"

section \<open>Commit of a transaction\<close>

definition ErrTxnConflict :: goerr where
  "ErrTxnConflict = TextErr ''transaction write conflict''"

definition validatePendingLocked :: "tableDef \<Rightarrow> pendingRow \<Rightarrow> ('b SqlStore, unit) io" where
  "validatePendingLocked def p =
     andThen (onLedger (Get (rowKey (td_ID def) (pr_pkEnc p)))) (\<lambda>r.
       case pr_old p of
         None \<Rightarrow>
           if r \<noteq> None then throw (WrapErr ''a row this transaction inserts was created concurrently'' ErrTxnConflict)
           else ret ()
       | Some old \<Rightarrow>
           (case r of
              None \<Rightarrow> throw (WrapErr ''a row this transaction rewrites was deleted concurrently'' ErrTxnConflict)
            | Some raw \<Rightarrow>
                (case encodeRow (td_Columns def) old of
                   Inl e \<Rightarrow> throw e
                 | Inr oldEnc \<Rightarrow>
                     if length raw < 9 \<or> drop 9 raw \<noteq> oldEnc
                     then throw (WrapErr ''a row this transaction rewrites was changed concurrently'' ErrTxnConflict)
                     else ret ())))"

text \<open>The loop of \<^verbatim>\<open>revalidateUniqueLocked\<close> over the committed entries with the columns of a pending row:
  the first that the transaction does not delete or move is a conflict.\<close>

fun standingConflict :: "tableDef \<Rightarrow> tableTxn \<Rightarrow> indexDef \<Rightarrow> bytes \<Rightarrow> bytes \<Rightarrow> KV list \<Rightarrow> goerr + unit" where
  "standingConflict def tt idx colsEnc pkEnc [] = Inr ()"
| "standingConflict def tt idx colsEnc pkEnc (kv # kvs) =
     (if kv_value kv = pkEnc then standingConflict def tt idx colsEnc pkEnc kvs
      else case map_of tt (kv_value kv) of
             None \<Rightarrow> Inl (WrapErr ''a conflicting row was committed concurrently'' ErrTxnConflict)
           | Some q \<Rightarrow>
               (case pr_new q of
                  None \<Rightarrow> standingConflict def tt idx colsEnc pkEnc kvs
                | Some new \<Rightarrow>
                    (case encodeIndexCols def idx new of
                       Inl e \<Rightarrow> Inl e
                     | Inr (otherEnc, otherNull) \<Rightarrow>
                         if otherNull \<or> otherEnc \<noteq> colsEnc then standingConflict def tt idx colsEnc pkEnc kvs
                         else Inl (WrapErr ''a conflicting row was committed concurrently'' ErrTxnConflict))))"

definition revalidateRow :: "tableDef \<Rightarrow> tableTxn \<Rightarrow> indexDef \<Rightarrow> pendingRow \<Rightarrow> ('b SqlStore, unit) io" where
  "revalidateRow def tt idx p =
     (case pr_new p of
        None \<Rightarrow> ret ()
      | Some new \<Rightarrow>
          (case encodeIndexCols def idx new of
             Inl e \<Rightarrow> throw e
           | Inr (colsEnc, hasNull) \<Rightarrow>
               if hasNull then ret ()
               else let start = secondarySpace (ix_ID idx) @ colsEnc in
                 case incBytes start of
                   None \<Rightarrow> throw (TextErr ''index keyspace overflow'')
                 | Some end \<Rightarrow>
                     andThen (onBackend (callScan start end scanChunkSize)) (\<lambda>kvs.
                     liftE (standingConflict def tt idx colsEnc (pr_pkEnc p) kvs))))"

fun forEach :: "('a \<Rightarrow> ('s, unit) io) \<Rightarrow> 'a list \<Rightarrow> ('s, unit) io" where
  "forEach f [] = ret ()"
| "forEach f (x # xs) = andThen (f x) (\<lambda>_. forEach f xs)"

definition revalidateUniqueLocked :: "tableDef \<Rightarrow> tableTxn \<Rightarrow> ('b SqlStore, unit) io" where
  "revalidateUniqueLocked def tt =
     forEach (\<lambda>idx. if \<not> ix_Unique idx then ret () else forEach (revalidateRow def tt idx) (map snd tt)) (td_Indexes def)"

text \<open>The rows of one table, by ascending key: net no-ops are skipped, the others validated when the ledger
  has moved and turned into operations.\<close>

fun commitRows :: "bool \<Rightarrow> tableDef \<Rightarrow> pendingRow list \<Rightarrow> ('b SqlStore, Op list \<times> BatchOp list) io" where
  "commitRows moved def [] = ret ([], [])"
| "commitRows moved def (p # ps) =
     (if pr_old p = None \<and> pr_new p = None then commitRows moved def ps
      else andThen (if moved then validatePendingLocked def p else ret ()) (\<lambda>_.
           andThen (liftE (buildRowOps def p)) (\<lambda>(lo, so).
           andThen (commitRows moved def ps) (\<lambda>(los, sos). ret (lo @ los, so @ sos)))))"

definition commitTable :: "bool \<Rightarrow> u64 \<times> tableTxn \<Rightarrow> ('b SqlStore, Op list \<times> BatchOp list) io" where
  "commitTable moved e s =
     (case e of (i, tt) \<Rightarrow>
        (case tableByID i s of
           None \<Rightarrow> throw (WrapErr ''a table in the write-set was dropped'' ErrTxnConflict) s
         | Some def \<Rightarrow>
             andThen (commitRows moved def (map snd (sort_key fst tt))) (\<lambda>(lo, so).
             andThen (if moved then revalidateUniqueLocked def tt else ret ()) (\<lambda>_.
             ret (lo @ counterOps def, so))) s))"

fun commitTables :: "bool \<Rightarrow> (u64 \<times> tableTxn) list \<Rightarrow> ('b SqlStore, Op list \<times> BatchOp list) io" where
  "commitTables moved [] = ret ([], [])"
| "commitTables moved (e # es) =
     andThen (commitTable moved e) (\<lambda>(lo, so).
     andThen (commitTables moved es) (\<lambda>(los, sos). ret (lo @ los, so @ sos)))"

definition commitTxn :: "(rand_call \<Rightarrow> bytes option) \<Rightarrow> storeTxn \<Rightarrow> ('b SqlStore, unit) io" where
  "commitTxn rd txn s =
     (if tx_tables txn = [] then ret () s
      else let moved = (snd (Root (sq_led s)) \<noteq> tx_baseVersion txn) in
        andThen (commitTables moved (sort_key fst (tx_tables txn))) (\<lambda>(ledOps, scanOps).
        if ledOps = [] then ret () else commitSql rd ledOps scanOps) s)"

definition CommitTransaction :: "(rand_call \<Rightarrow> bytes option) \<Rightarrow> ('b Session, unit) io" where
  "CommitTransaction rd s =
     (case se_txn s of
        None \<Rightarrow> ret () s
      | Some txn \<Rightarrow> onStore (commitTxn rd txn) (s\<lparr>se_txn := None\<rparr>))"

section \<open>Read overlay\<close>

record scanOverlay =
  ov_adds :: "KV list"
  ov_masks :: "bytes list"

text \<open>The contribution of one pending row: the key it hides and the key it adds.\<close>

definition indexKey :: "tableDef \<Rightarrow> indexDef \<Rightarrow> bytes \<Rightarrow> Row \<Rightarrow> goerr + bytes" where
  "indexKey def idx pkEnc row =
     (case encodeIndexCols def idx row of
        Inl e \<Rightarrow> Inl e
      | Inr (colsEnc, _) \<Rightarrow> Inr (secondarySpace (ix_ID idx) @ colsEnc @ pkEnc))"

definition maskKey :: "bytes \<Rightarrow> bytes \<Rightarrow> bytes \<Rightarrow> scanOverlay \<Rightarrow> scanOverlay" where
  "maskKey start end k ov = (if start \<le> k \<and> k < end then ov\<lparr>ov_masks := List.insert k (ov_masks ov)\<rparr> else ov)"

definition addKey :: "bytes \<Rightarrow> bytes \<Rightarrow> bytes \<Rightarrow> bytes \<Rightarrow> scanOverlay \<Rightarrow> scanOverlay" where
  "addKey start end k pkEnc ov =
     (if start \<le> k \<and> k < end
      then ov\<lparr>ov_masks := removeAll k (ov_masks ov), ov_adds := ov_adds ov @ [\<lparr>kv_key = k, kv_value = pkEnc\<rparr>]\<rparr>
      else ov)"

definition overlayRow ::
  "tableDef \<Rightarrow> indexDef option \<Rightarrow> bytes \<Rightarrow> bytes \<Rightarrow> pendingRow \<Rightarrow> scanOverlay \<Rightarrow> goerr + scanOverlay"
where
  "overlayRow def idx start end p ov =
     (case idx of
        None \<Rightarrow>
          let k = scanKey (td_ID def) (pr_pkEnc p) in
          Inr (if pr_new p \<noteq> None then addKey start end k (pr_pkEnc p) ov
               else if pr_old p \<noteq> None then maskKey start end k ov else ov)
      | Some idx \<Rightarrow>
          (case (case pr_old p of
                   None \<Rightarrow> Inr ov
                 | Some old \<Rightarrow> map_sum id (\<lambda>k. maskKey start end k ov) (indexKey def idx (pr_pkEnc p) old)) of
             Inl e \<Rightarrow> Inl e
           | Inr ov1 \<Rightarrow>
               (case pr_new p of
                  None \<Rightarrow> Inr ov1
                | Some new \<Rightarrow> map_sum id (\<lambda>k. addKey start end k (pr_pkEnc p) ov1) (indexKey def idx (pr_pkEnc p) new))))"

fun overlayRows ::
  "tableDef \<Rightarrow> indexDef option \<Rightarrow> bytes \<Rightarrow> bytes \<Rightarrow> pendingRow list \<Rightarrow> scanOverlay \<Rightarrow> goerr + scanOverlay"
where
  "overlayRows def idx start end [] ov = Inr ov"
| "overlayRows def idx start end (p # ps) ov =
     (case overlayRow def idx start end p ov of Inl e \<Rightarrow> Inl e | Inr ov' \<Rightarrow> overlayRows def idx start end ps ov')"

definition buildOverlay ::
  "tableDef \<Rightarrow> tableTxn option \<Rightarrow> indexDef option \<Rightarrow> bytes \<Rightarrow> bytes \<Rightarrow> goerr + scanOverlay option"
where
  "buildOverlay def tt idx start end =
     (case tt of
        None \<Rightarrow> Inr None
      | Some rows \<Rightarrow>
          if rows = [] then Inr None
          else case overlayRows def idx start end (map snd rows) \<lparr>ov_adds = [], ov_masks = []\<rparr> of
                 Inl e \<Rightarrow> Inl e
               | Inr ov \<Rightarrow>
                   if ov_adds ov = [] \<and> ov_masks ov = [] then Inr None
                   else let adds = sort_key kv_key (ov_adds ov) in
                     Inr (Some \<lparr>ov_adds = adds,
                                ov_masks = foldl (\<lambda>m kv. removeAll (kv_key kv) m) (ov_masks ov) adds\<rparr>))"

definition stringsCompare :: "bytes \<Rightarrow> bytes \<Rightarrow> int" where
  "stringsCompare a b = (if a < b then -1 else if a > b then 1 else 0)"

text \<open>The loop of \<^verbatim>\<open>mergeOverlay\<close> on what is left of the two lists.\<close>

fun mergeLoop :: "bytes list \<Rightarrow> KV list \<Rightarrow> KV list \<Rightarrow> KV list" where
  "mergeLoop masks [] adds = adds"
| "mergeLoop masks (e # es) [] =
     (if kv_key e \<in> set masks then mergeLoop masks es [] else e # mergeLoop masks es [])"
| "mergeLoop masks (e # es) (a # adds) =
     (let c = stringsCompare (kv_key a) (kv_key e)
      in if c \<le> 0 then a # mergeLoop masks (if c = 0 then es else e # es) adds
         else if kv_key e \<in> set masks then mergeLoop masks es (a # adds)
         else e # mergeLoop masks es (a # adds))"

definition mergeOverlay :: "KV list \<Rightarrow> scanOverlay option \<Rightarrow> KV list" where
  "mergeOverlay entries ov =
     (case ov of None \<Rightarrow> entries | Some ov \<Rightarrow> mergeLoop (ov_masks ov) entries (ov_adds ov))"

definition readRowTxn :: "tableTxn option \<Rightarrow> tableDef \<Rightarrow> bytes \<Rightarrow> ('b SqlStore, Row) io" where
  "readRowTxn tt def pkEnc =
     (case (case tt of None \<Rightarrow> None | Some rows \<Rightarrow> map_of rows pkEnc) of
        Some p \<Rightarrow>
          (case pr_new p of
             None \<Rightarrow> throw (TextErr ''table %s: scan resolved a row deleted in this transaction'')
           | Some new \<Rightarrow> ret new)
      | None \<Rightarrow> readRow def pkEnc)"

end
