(* ===== verification/Sql_Ddl.thy ===== *)
theory Sql_Ddl
  imports Sql_Txn
begin

text \<open>
  Definitions of tables and indexes through SQL (\<^verbatim>\<open>sqlledger/database.go\<close>), TRUNCATE and AUTO_INCREMENT
  (\<^verbatim>\<open>sqlledger/table.go\<close>). The engine's types and columns are records of what the source reads of them,
  the constructors of the engine's types a parameter (\<open>GmsTypes\<close>). The count that TRUNCATE returns beside an error is not kept. The
  last section is the database provider of \<^verbatim>\<open>sqlledger/engine.go\<close>.
\<close>

section \<open>Columns of the engine\<close>

record ColumnType =
  ct_Type :: QueryType
  ct_String :: "(u64 \<times> u64) option"
  ct_Datetime :: "u64 option"

record Column =
  co_Name :: bytes
  co_Type :: ColumnType
  co_Nullable :: bool
  co_AutoIncrement :: bool
  co_Source :: bytes
  co_PrimaryKey :: bool

text \<open>\<^verbatim>\<open>ct_String\<close> holds \<^verbatim>\<open>MaxCharacterLength\<close> and \<^verbatim>\<open>MaxByteLength\<close> of a string type.\<close>

record GmsTypes =
  gt_Number :: "QueryType \<Rightarrow> ColumnType"
  gt_CreateStringWithDefaults :: "QueryType \<Rightarrow> u64 \<Rightarrow> goerr + ColumnType"
  gt_CreateBinary :: "QueryType \<Rightarrow> u64 \<Rightarrow> goerr + ColumnType"
  gt_CreateDatetimeType :: "QueryType \<Rightarrow> u64 \<Rightarrow> goerr + ColumnType"

definition colDefOf :: "Column \<Rightarrow> goerr + colDef" where
  "colDefOf col =
     (let qt = ct_Type (co_Type col) in
      case kindOfQType qt of
        Inl e \<Rightarrow> Inl (WrapErr ''column %q'' e)
      | Inr k \<Rightarrow>
          Inr \<lparr>cd_Name = co_Name col, cd_QType = qt,
               cd_Length = (case ct_String (co_Type col) of
                              None \<Rightarrow> 0
                            | Some (chars, octets) \<Rightarrow> if k = kindBytes then octets else chars),
               cd_Precision = (case ct_Datetime (co_Type col) of None \<Rightarrow> 0 | Some p \<Rightarrow> p),
               cd_Nullable = co_Nullable col, cd_AutoInc = co_AutoIncrement col\<rparr>)"

definition sqlType :: "GmsTypes \<Rightarrow> colDef \<Rightarrow> goerr + ColumnType" where
  "sqlType gt c =
     (let qt = cd_QType c in
      if qt \<in> {Type_INT8, Type_INT16, Type_INT24, Type_INT32, Type_INT64, Type_UINT8, Type_UINT16, Type_UINT24,
               Type_UINT32, Type_UINT64, Type_FLOAT32, Type_FLOAT64} then Inr (gt_Number gt qt)
      else if qt \<in> {Type_CHAR, Type_VARCHAR, Type_TEXT} then gt_CreateStringWithDefaults gt qt (cd_Length c)
      else if qt \<in> {Type_BINARY, Type_VARBINARY, Type_BLOB} then gt_CreateBinary gt qt (cd_Length c)
      else if qt \<in> {Type_DATETIME, Type_TIMESTAMP} then gt_CreateDatetimeType gt qt (cd_Precision c)
      else Inl (TextErr ''column type %v is not supported''))"

fun schemaLoop :: "GmsTypes \<Rightarrow> tableDef \<Rightarrow> nat \<Rightarrow> colDef list \<Rightarrow> goerr + Column list" where
  "schemaLoop gt def i [] = Inr []"
| "schemaLoop gt def i (c # cols) =
     (case sqlType gt c of
        Inl e \<Rightarrow> Inl (Panic ''table %s: %v'')
      | Inr typ \<Rightarrow>
          (case schemaLoop gt def (i + 1) cols of
             Inl e \<Rightarrow> Inl e
           | Inr schema \<Rightarrow>
               let pk = i \<in> set (td_PKOrds def) in
               Inr (\<lparr>co_Name = cd_Name c, co_Type = typ, co_Nullable = cd_Nullable c \<and> \<not> pk,
                     co_AutoIncrement = cd_AutoInc c, co_Source = td_Name def, co_PrimaryKey = pk\<rparr> # schema)))"

definition PrimaryKeySchema :: "GmsTypes \<Rightarrow> tableDef \<Rightarrow> goerr + Column list \<times> nat list" where
  "PrimaryKeySchema gt def =
     (case schemaLoop gt def 0 (td_Columns def) of
        Inl e \<Rightarrow> Inl e
      | Inr schema \<Rightarrow> Inr (schema, td_PKOrds def))"

section \<open>Tables\<close>

definition GetTableInsensitive :: "bytes \<Rightarrow> 'b SqlStore \<Rightarrow> tableDef option" where
  "GetTableInsensitive tblName s = map_of (sq_tables s) (toLower tblName)"

definition GetTableNames :: "'b SqlStore \<Rightarrow> bytes list" where
  "GetTableNames s = sort (map (\<lambda>(n, def). td_Name def) (sq_tables s))"

fun defOps :: "Json \<Rightarrow> tableDef list \<Rightarrow> goerr + Op list" where
  "defOps js [] = Inr []"
| "defOps js (def # defs) =
     (case marshalTagged tagCatalogTable (js_marshalTable js def) of
        Inl e \<Rightarrow> Inl e
      | Inr defRaw \<Rightarrow>
          (case defOps js defs of Inl e \<Rightarrow> Inl e | Inr ops \<Rightarrow> Inr (Put (tableKey (td_Name def)) defRaw # ops)))"

definition catalogOps :: "Json \<Rightarrow> catalogMeta \<Rightarrow> tableDef list \<Rightarrow> goerr + Op list" where
  "catalogOps js meta defs =
     (case marshalTagged tagCatalogMeta (js_marshalMeta js meta) of
        Inl e \<Rightarrow> Inl e
      | Inr metaRaw \<Rightarrow>
          (case defOps js defs of Inl e \<Rightarrow> Inl e | Inr ops \<Rightarrow> Inr (Put metaKey metaRaw # ops)))"

fun colDefsOf :: "Column list \<Rightarrow> goerr + colDef list" where
  "colDefsOf [] = Inr []"
| "colDefsOf (col # cols) =
     (case colDefOf col of
        Inl e \<Rightarrow> Inl (WrapErr ''table %s'' e)
      | Inr cd \<Rightarrow> (case colDefsOf cols of Inl e \<Rightarrow> Inl e | Inr cds \<Rightarrow> Inr (cd # cds)))"

definition createTable ::
  "(rand_call \<Rightarrow> bytes option) \<Rightarrow> Json \<Rightarrow> bytes \<Rightarrow> Column list \<Rightarrow> nat list \<Rightarrow> bytes \<Rightarrow> ('b SqlStore, unit) io"
where
  "createTable rd js name schema pkOrdinals comment s =
     (let lower = toLower name in
      if map_of (sq_tables s) lower \<noteq> None then throw (TextErr ''ErrTableAlreadyExists'') s
      else if pkOrdinals = [] then throw (TextErr ''table %s: a primary key is required (keyless tables are not supported)'') s
      else
        andThen (liftE (colDefsOf schema)) (\<lambda>cols s.
          let meta = sq_meta s;
              def0 = \<lparr>td_ID = cm_NextTableID meta, td_Name = name, td_Columns = cols, td_PKOrds = pkOrdinals,
                      td_Comment = comment, td_Indexes = [], td_autoIncNext = 0\<rparr>;
              def = (if hasAutoInc def0 then def0\<lparr>td_autoIncNext := 1\<rparr> else def0);
              newMeta = meta\<lparr>cm_NextTableID := cm_NextTableID meta + 1, cm_Tables := cm_Tables meta @ [name]\<rparr>
          in andThen (liftE (catalogOps js newMeta [def])) (\<lambda>ledOps.
             andThen (commitSql rd ledOps []) (\<lambda>_.
             setState (\<lambda>s. s\<lparr>sq_meta := newMeta, sq_tables := AList.update lower def (sq_tables s)\<rparr>))) s) s)"

definition CreateTable ::
  "(rand_call \<Rightarrow> bytes option) \<Rightarrow> Json \<Rightarrow> bytes \<Rightarrow> Column list \<Rightarrow> nat list \<Rightarrow> bool \<Rightarrow> bytes \<Rightarrow> ('b SqlStore, unit) io"
where
  "CreateTable rd js name schema pkOrdinals defaultCollation comment =
     (if \<not> defaultCollation then throw (TextErr ''only the default (binary-comparable) collation is supported'')
      else createTable rd js name schema pkOrdinals comment)"

text \<open>The operations that delete the rows behind a chunk of scan entries, with their derived entries
  (the loop body that TRUNCATE and DROP TABLE share).\<close>

fun clearChunk :: "tableDef \<Rightarrow> KV list \<Rightarrow> ('b SqlStore, Op list \<times> BatchOp list) io" where
  "clearChunk def [] = ret ([], [])"
| "clearChunk def (kv # kvs) =
     (let pkEnc = drop 9 (kv_key kv) in
      if length (kv_key kv) < 9 then throw (Panic ''slice bounds out of range'')
      else
        andThen (readRowLocked def pkEnc) (\<lambda>row.
        andThen (liftE (indexOps def row pkEnc True)) (\<lambda>ops.
        andThen (clearChunk def kvs) (\<lambda>(los, sos).
        ret (Del (rowKey (td_ID def) pkEnc) # los,
             \<lparr>bo_key = kv_key kv, bo_value = [], bo_delete = True\<rparr> # ops @ sos)))))"

text \<open>The scan of a table's primary keyspace; an unbounded one when the table id is the last (\<^verbatim>\<open>incBytes\<close>
  then gives an empty end).\<close>

definition tableEnd :: "tableDef \<Rightarrow> bytes" where
  "tableEnd def = (case incBytes (scanKey (td_ID def) []) of None \<Rightarrow> [] | Some e \<Rightarrow> e)"

partial_function (option) clearLoop ::
  "(rand_call \<Rightarrow> bytes option) \<Rightarrow> tableDef \<Rightarrow> nat \<Rightarrow> 'b SqlStore \<Rightarrow> ('b, nat) loop"
where
  "clearLoop rd def cnt s =
     (case onBackend (callScan (scanKey (td_ID def) []) (tableEnd def) scanChunkSize) s of
        (Inl e, s1) \<Rightarrow> Some (Inl e, s1)
      | (Inr kvs, s1) \<Rightarrow>
          if kvs = [] then Some (Inr cnt, s1)
          else (case clearChunk def kvs s1 of
                  (Inl e, s2) \<Rightarrow> Some (Inl e, s2)
                | (Inr (ledOps, scanOps), s2) \<Rightarrow>
                    (case commitSql rd ledOps scanOps s2 of
                       (Inl e, s3) \<Rightarrow> Some (Inl e, s3)
                     | (Inr _, s3) \<Rightarrow> clearLoop rd def (cnt + length kvs) s3)))"

definition dropTable ::
  "(rand_call \<Rightarrow> bytes option) \<Rightarrow> Json \<Rightarrow> bytes \<Rightarrow> 'b SqlStore \<Rightarrow> ('b, unit) loop"
where
  "dropTable rd js name s =
     (let lower = toLower name in
      case map_of (sq_tables s) lower of
        None \<Rightarrow> Some (Inl (TextErr ''ErrTableNotFound''), s)
      | Some def \<Rightarrow>
          (case clearLoop rd def 0 s of
             None \<Rightarrow> None
           | Some (Inl e, s1) \<Rightarrow> Some (Inl e, s1)
           | Some (Inr _, s1) \<Rightarrow>
               let newMeta = (sq_meta s1)\<lparr>cm_Tables := filter (\<lambda>n. \<not> EqualFold n name) (cm_Tables (sq_meta s1))\<rparr>
               in Some (andThen (liftE (marshalTagged tagCatalogMeta (js_marshalMeta js newMeta))) (\<lambda>metaRaw.
                        andThen (commitSql rd [Put metaKey metaRaw, Del (tableKey (td_Name def)), Del (autoIncKey (td_ID def))] []) (\<lambda>_.
                        setState (\<lambda>s. s\<lparr>sq_meta := newMeta, sq_tables := AList.delete lower (sq_tables s)\<rparr>))) s1)))"

text \<open>\<^verbatim>\<open>Database.DropTable\<close> and \<^verbatim>\<open>Truncate\<close> discard the session's buffered rows of the table first.\<close>

definition discardTable :: "u64 \<Rightarrow> 'b Session \<Rightarrow> 'b Session" where
  "discardTable i s = s\<lparr>se_txn := map_option (\<lambda>txn. txn\<lparr>tx_tables := AList.delete i (tx_tables txn)\<rparr>) (se_txn s)\<rparr>"

definition onSession ::
  "('b SqlStore \<Rightarrow> ('b, 'a) loop) \<Rightarrow> 'b Session \<Rightarrow> ((goerr + 'a) \<times> 'b Session) option"
where
  "onSession m s = map_option (\<lambda>(r, st). (r, s\<lparr>se_store := st\<rparr>)) (m (se_store s))"

definition DropTable ::
  "(rand_call \<Rightarrow> bytes option) \<Rightarrow> Json \<Rightarrow> bytes \<Rightarrow> 'b Session \<Rightarrow> ((goerr + unit) \<times> 'b Session) option"
where
  "DropTable rd js name s =
     onSession (dropTable rd js name)
       (case map_of (sq_tables (se_store s)) (toLower name) of
          None \<Rightarrow> s
        | Some def \<Rightarrow> discardTable (td_ID def) s)"

definition Truncate ::
  "(rand_call \<Rightarrow> bytes option) \<Rightarrow> tableDef \<Rightarrow> 'b Session \<Rightarrow> ((goerr + nat) \<times> 'b Session) option"
where
  "Truncate rd def s = onSession (clearLoop rd def 0) (discardTable (td_ID def) s)"

definition renameTable ::
  "(rand_call \<Rightarrow> bytes option) \<Rightarrow> Json \<Rightarrow> bytes \<Rightarrow> bytes \<Rightarrow> ('b SqlStore, unit) io"
where
  "renameTable rd js oldName newName s =
     (let oldLower = toLower oldName in
      case map_of (sq_tables s) oldLower of
        None \<Rightarrow> throw (TextErr ''ErrTableNotFound'') s
      | Some def \<Rightarrow>
          if map_of (sq_tables s) (toLower newName) \<noteq> None then throw (TextErr ''ErrTableAlreadyExists'') s
          else let renamed = def\<lparr>td_Name := newName\<rparr>;
                   newMeta = (sq_meta s)\<lparr>cm_Tables :=
                     map (\<lambda>n. if EqualFold n oldName then newName else n) (cm_Tables (sq_meta s))\<rparr>
               in andThen (liftE (catalogOps js newMeta [renamed])) (\<lambda>ledOps.
                  andThen (commitSql rd (ledOps @ [Del (tableKey oldName)]) []) (\<lambda>_.
                  setState (\<lambda>s. s\<lparr>sq_meta := newMeta,
                     sq_tables := AList.update (toLower newName) renamed (AList.delete oldLower (sq_tables s))\<rparr>))) s)"

section \<open>Indexes\<close>

record IndexDefn =
  id_Name :: bytes
  id_Unique :: bool
  id_Special :: bool
  id_Columns :: "(bytes \<times> int) list"

definition colByName :: "tableDef \<Rightarrow> bytes \<Rightarrow> nat option" where
  "colByName def lower =
     map_of (rev (map (\<lambda>i. (toLower (cd_Name (td_Columns def ! i)), i)) [0..<length (td_Columns def)])) lower"

fun indexOrds :: "tableDef \<Rightarrow> (bytes \<times> int) list \<Rightarrow> goerr + nat list" where
  "indexOrds def [] = Inr []"
| "indexOrds def ((name, len) # ics) =
     (case colByName def (toLower name) of
        None \<Rightarrow> Inl (TextErr ''index %s: unknown column %q'')
      | Some ord \<Rightarrow>
          if len > 0 then Inl (TextErr ''index %s: prefix lengths are not supported'')
          else (case indexOrds def ics of Inl e \<Rightarrow> Inl e | Inr os \<Rightarrow> Inr (ord # os)))"

text \<open>The entries of existing rows, with the columns seen so far for the unique check.\<close>

fun indexChunk ::
  "tableDef \<Rightarrow> indexDef \<Rightarrow> KV list \<Rightarrow> (bytes \<times> bytes) list \<Rightarrow> ('b SqlStore, BatchOp list \<times> (bytes \<times> bytes) list) io"
where
  "indexChunk def idx [] seen = ret ([], seen)"
| "indexChunk def idx (kv # kvs) seen =
     (let pkEnc = drop 9 (kv_key kv) in
      if length (kv_key kv) < 9 then throw (Panic ''slice bounds out of range'')
      else
        andThen (readRowLocked def pkEnc) (\<lambda>row.
        andThen (liftE (encodeIndexCols def idx row)) (\<lambda>(colsEnc, hasNull).
          if ix_Unique idx \<and> \<not> hasNull \<and> (case map_of seen colsEnc of None \<Rightarrow> False | Some prev \<Rightarrow> prev \<noteq> pkEnc)
          then throw UniqueKeyErr
          else
            andThen (indexChunk def idx kvs
              (if ix_Unique idx \<and> \<not> hasNull then AList.update colsEnc pkEnc seen else seen)) (\<lambda>(ops, seen').
            ret (\<lparr>bo_key = secondarySpace (ix_ID idx) @ colsEnc @ pkEnc, bo_value = pkEnc, bo_delete = False\<rparr> # ops, seen')))))"

partial_function (option) indexEntries ::
  "tableDef \<Rightarrow> indexDef \<Rightarrow> bytes \<Rightarrow> BatchOp list \<Rightarrow> (bytes \<times> bytes) list \<Rightarrow> 'b SqlStore \<Rightarrow> ('b, BatchOp list) loop"
where
  "indexEntries def idx next entries seen s =
     (case onBackend (callScan next (tableEnd def) scanChunkSize) s of
        (Inl e, s1) \<Rightarrow> Some (Inl e, s1)
      | (Inr kvs, s1) \<Rightarrow>
          if kvs = [] then Some (Inr entries, s1)
          else (case indexChunk def idx kvs seen s1 of
                  (Inl e, s2) \<Rightarrow> Some (Inl e, s2)
                | (Inr (ops, seen'), s2) \<Rightarrow>
                    if length kvs < unat scanChunkSize then Some (Inr (entries @ ops), s2)
                    else indexEntries def idx (kv_key (last kvs) @ [0]) (entries @ ops) seen' s2))"

definition createIndex ::
  "(rand_call \<Rightarrow> bytes option) \<Rightarrow> Json \<Rightarrow> bytes \<Rightarrow> tableDef \<Rightarrow> bytes \<Rightarrow> IndexDefn \<Rightarrow> 'b SqlStore \<Rightarrow> ('b, unit) loop"
where
  "createIndex rd js lower def name defn s =
     (if \<exists>idx \<in> set (td_Indexes def). EqualFold (ix_Name idx) name
      then Some (Inl (TextErr ''index %s already exists on table %s''), s)
      else case indexOrds def (id_Columns defn) of
        Inl e \<Rightarrow> Some (Inl e, s)
      | Inr os \<Rightarrow>
          let idx = \<lparr>ix_ID = cm_NextIndexID (sq_meta s), ix_Name = name, ix_Unique = id_Unique defn, ix_ColOrds = os\<rparr> in
          (case indexEntries def idx (scanKey (td_ID def) []) [] [] s of
             None \<Rightarrow> None
           | Some (Inl e, s1) \<Rightarrow> Some (Inl e, s1)
           | Some (Inr entries, s1) \<Rightarrow>
               let updated = def\<lparr>td_Indexes := td_Indexes def @ [idx]\<rparr>;
                   newMeta = (sq_meta s1)\<lparr>cm_NextIndexID := cm_NextIndexID (sq_meta s1) + 1\<rparr>
               in Some (andThen (liftE (catalogOps js newMeta [updated])) (\<lambda>ledOps.
                        andThen (commitSql rd ledOps entries) (\<lambda>_.
                        setState (\<lambda>s. s\<lparr>sq_meta := newMeta, sq_tables := AList.update lower updated (sq_tables s)\<rparr>))) s1)))"

fun joinNames :: "bytes list \<Rightarrow> bytes" where
  "joinNames [] = []"
| "joinNames [n] = n"
| "joinNames (n # m # ns) = n @ ascii ''_'' @ joinNames (m # ns)"

definition CreateIndex ::
  "(rand_call \<Rightarrow> bytes option) \<Rightarrow> Json \<Rightarrow> bytes \<Rightarrow> tableDef \<Rightarrow> IndexDefn \<Rightarrow> 'b SqlStore \<Rightarrow> ('b, unit) loop"
where
  "CreateIndex rd js lower def defn s =
     (if id_Special defn then Some (Inl (TextErr ''only BTREE indexes are supported''), s)
      else let name = (if id_Name defn = [] then joinNames (map fst (id_Columns defn)) else id_Name defn)
           in createIndex rd js lower def name defn s)"

text \<open>The loop of \<^verbatim>\<open>dropIndex\<close> that lists the entries of an index.\<close>

partial_function (option) spaceEntries :: "bytes \<Rightarrow> bytes \<Rightarrow> BatchOp list \<Rightarrow> 'b SqlStore \<Rightarrow> ('b, BatchOp list) loop" where
  "spaceEntries next end ops s =
     (case onBackend (callScan next end scanChunkSize) s of
        (Inl e, s1) \<Rightarrow> Some (Inl e, s1)
      | (Inr kvs, s1) \<Rightarrow>
          if length kvs < unat scanChunkSize then Some (Inr (ops @ deleteOps kvs), s1)
          else spaceEntries (kv_key (last kvs) @ [0]) end (ops @ deleteOps kvs) s1)"

definition updateDef :: "bytes \<Rightarrow> tableDef \<Rightarrow> ('b SqlStore, unit) io" where
  "updateDef lower def = setState (\<lambda>s. s\<lparr>sq_tables := AList.update lower def (sq_tables s)\<rparr>)"

definition indexPos :: "bytes \<Rightarrow> tableDef \<Rightarrow> nat option" where
  "indexPos name def = find (\<lambda>i. EqualFold (ix_Name (td_Indexes def ! i)) name) [0..<length (td_Indexes def)]"

definition dropIndex ::
  "(rand_call \<Rightarrow> bytes option) \<Rightarrow> Json \<Rightarrow> bytes \<Rightarrow> tableDef \<Rightarrow> bytes \<Rightarrow> 'b SqlStore \<Rightarrow> ('b, unit) loop"
where
  "dropIndex rd js lower def name s =
     (case indexPos name def of
        None \<Rightarrow> Some (Inl (TextErr ''index %s does not exist on table %s''), s)
      | Some pos \<Rightarrow>
          let idxID = ix_ID (td_Indexes def ! pos);
              updated = def\<lparr>td_Indexes := take pos (td_Indexes def) @ drop (pos + 1) (td_Indexes def)\<rparr>
          in case catalogOps js (sq_meta s) [updated] of
               Inl e \<Rightarrow> Some (Inl e, s)
             | Inr ledOps \<Rightarrow>
                 (case spaceEntries (secondarySpace idxID)
                         (case incBytes (secondarySpace idxID) of None \<Rightarrow> [] | Some e \<Rightarrow> e) [] s of
                    None \<Rightarrow> None
                  | Some (Inl e, s1) \<Rightarrow> Some (Inl e, s1)
                  | Some (Inr scanOps, s1) \<Rightarrow>
                      Some (andThen (commitSql rd ledOps scanOps) (\<lambda>_. updateDef lower updated) s1)))"

definition renameIndex ::
  "(rand_call \<Rightarrow> bytes option) \<Rightarrow> Json \<Rightarrow> bytes \<Rightarrow> tableDef \<Rightarrow> bytes \<Rightarrow> bytes \<Rightarrow> ('b SqlStore, unit) io"
where
  "renameIndex rd js lower def from to s =
     (case indexPos from def of
        None \<Rightarrow> throw (TextErr ''index %s does not exist on table %s'') s
      | Some pos \<Rightarrow>
          let updated = def\<lparr>td_Indexes := (td_Indexes def)[pos := (td_Indexes def ! pos)\<lparr>ix_Name := to\<rparr>]\<rparr>
          in andThen (liftE (catalogOps js (sq_meta s) [updated])) (\<lambda>ledOps.
             andThen (commitSql rd ledOps []) (\<lambda>_. updateDef lower updated)) s)"

section \<open>AUTO INCREMENT\<close>

definition PeekNextAutoIncrementValue :: "tableDef \<Rightarrow> u64" where
  "PeekNextAutoIncrementValue def = td_autoIncNext def"

definition givenValue :: "GoVal option \<Rightarrow> u64" where
  "givenValue insertVal =
     (case insertVal of
        None \<Rightarrow> 0
      | Some v \<Rightarrow>
          (case v of
             VInt64 x \<Rightarrow> if sint x > 0 then x else 0
           | VUint64 x \<Rightarrow> x
           | VInt x \<Rightarrow> if sint x > 0 then x else 0
           | VUint32 x \<Rightarrow> ucast x
           | VInt32 x \<Rightarrow> if sint x > 0 then scast x else 0
           | _ \<Rightarrow> 0))"

definition GetNextAutoIncrementValue :: "bytes \<Rightarrow> tableDef \<Rightarrow> GoVal option \<Rightarrow> 'b SqlStore \<Rightarrow> u64 \<times> 'b SqlStore" where
  "GetNextAutoIncrementValue lower def insertVal s =
     (let given = givenValue insertVal in
      if given = 0 then (td_autoIncNext def, setAutoInc lower def (td_autoIncNext def + 1) s)
      else if given \<ge> td_autoIncNext def then (given, setAutoInc lower def (given + 1) s)
      else (given, s))"

definition SetAutoIncrementValue ::
  "(rand_call \<Rightarrow> bytes option) \<Rightarrow> bytes \<Rightarrow> tableDef \<Rightarrow> u64 \<Rightarrow> ('b SqlStore, unit) io"
where
  "SetAutoIncrementValue rd lower def v =
     andThen (setState (setAutoInc lower def v)) (\<lambda>_.
     commitSql rd [Put (autoIncKey (td_ID def)) (tagAutoInc # putUint64 v)] [])"

section \<open>The database provider\<close>

text \<open>\<^verbatim>\<open>sqlledger/engine.go\<close>: the store's database beside the engine's own information schema, whose name is a
  parameter. A store named like the schema hides it.\<close>

datatype provided = LedgerDatabase | InfoDatabase

definition ProviderDatabase :: "bytes \<Rightarrow> bytes \<Rightarrow> 'b SqlStore \<Rightarrow> goerr + provided" where
  "ProviderDatabase infoName name s =
     (if equalsFold name (sq_dbName s) then Inr LedgerDatabase
      else if equalsFold name infoName then Inr InfoDatabase
      else Inl (TextErr ''ErrDatabaseNotFound''))"

definition HasDatabase :: "bytes \<Rightarrow> bytes \<Rightarrow> 'b SqlStore \<Rightarrow> bool" where
  "HasDatabase infoName name s \<longleftrightarrow> equalsFold name (sq_dbName s) \<or> equalsFold name infoName"

definition AllDatabases :: "provided list" where
  "AllDatabases = [LedgerDatabase, InfoDatabase]"

lemma HasDatabase_iff: "HasDatabase infoName name s \<longleftrightarrow> (\<exists>d \<in> set AllDatabases. ProviderDatabase infoName name s = Inr d)"
  by (simp add: HasDatabase_def ProviderDatabase_def AllDatabases_def)

end
