(* ===== verification/Sql_Inv.thy ===== *)
theory Sql_Inv
  imports Sql_Ddl Fork_Inv
begin

text \<open>
  The SQL layer over an honest backend. The derived keyspaces lie outside the ledger's record space, so
  that writes to one leave the other alone (\<open>ledger_foreign\<close>); a commit advances the ledger by one
  version and applies the derived batch (\<open>commitSql_ledger\<close>), and reads through the SQL layer find the content of
  the ledger and of the keyspaces (\<open>onLedger_Get\<close>, \<open>onBackend_scan\<close>).
\<close>

section \<open>Outcomes\<close>

text \<open>What holds of an operation's result: \<open>E\<close> of an error, \<open>Q\<close> of a value, with the state they leave.\<close>

definition outcome :: "(goerr \<Rightarrow> 's \<Rightarrow> bool) \<Rightarrow> ('a \<Rightarrow> 's \<Rightarrow> bool) \<Rightarrow> (goerr + 'a) \<times> 's \<Rightarrow> bool" where
  "outcome E Q r = (case r of (Inl e, s) \<Rightarrow> E e s | (Inr x, s) \<Rightarrow> Q x s)"

lemma outcome_simps [simp]:
  "outcome E Q (Inl e, s) = E e s" "outcome E Q (Inr x, s) = Q x s"
  "outcome E Q (ret x s) = Q x s" "outcome E Q (throw e s) = E e s"
  by (simp_all add: outcome_def ret_def throw_def)

lemma outcome_bind:
  assumes "outcome E' Q (m s)" "\<And>e s. E' e s \<Longrightarrow> E e s" "\<And>x s1. Q x s1 \<Longrightarrow> outcome E R (f x s1)"
  shows "outcome E R (andThen m f s)"
proof (cases "m s")
  case (Pair r s1)
  then show ?thesis using assms(1) assms(2,3) [of _ s1] by (cases r) (simp_all add: andThen_def)
qed

lemma outcome_mono:
  "outcome E Q r \<Longrightarrow> (\<And>e s. E e s \<Longrightarrow> E' e s) \<Longrightarrow> (\<And>x s. Q x s \<Longrightarrow> Q' x s) \<Longrightarrow> outcome E' Q' r"
  by (auto simp: outcome_def split: prod.splits sum.splits)

lemma outcome_liftE: "(\<And>e. x = Inl e \<Longrightarrow> E e s) \<Longrightarrow> (\<And>y. x = Inr y \<Longrightarrow> Q y s) \<Longrightarrow> outcome E Q (liftE x s)"
  by (cases x) (auto simp: outcome_def liftE_def ret_def throw_def)

declare liftE_run [simp]

lemma outcome_onLedger:
  "runs may E Q (m (sq_led s)) \<Longrightarrow>
     outcome (\<lambda>e s'. may \<and> s' = s\<lparr>sq_led := sq_led s'\<rparr> \<and> E (sq_led s')) (\<lambda>x s'. s' = s\<lparr>sq_led := sq_led s'\<rparr> \<and> Q x (sq_led s')) (onLedger m s)"
  by (auto simp: outcome_def runs_def onLedger_def split: prod.splits sum.splits)

section \<open>Two record spaces in one backend\<close>

definition agree :: "(bytes \<rightharpoonup> bytes) \<Rightarrow> (bytes \<rightharpoonup> bytes) \<Rightarrow> bool" where
  "agree V V' \<longleftrightarrow> (\<forall>k. \<not> foreign k \<longrightarrow> V' k = V k)"

lemma agree_nodeAt: "agree V V' \<Longrightarrow> nodeAt V' = nodeAt V"
  by (simp add: agree_def nodeAt_def fun_eq_iff)

lemma agree_store_inv:
  assumes a: "agree V V'" and i: "store_inv V s H R lo"
  shows "store_inv V' s H R lo"
proof -
  note I = store_invD [OF i]
  have live: "V' k = V k" if "k \<in> live_keys r" for k r
    using that a by (auto simp: live_keys_def agree_def)
  have stale: "V' (recStale # t) = V (recStale # t)" for t using a by (simp add: agree_def foreign_def)
  have "version_ok V' s w (H w) (R w)" if "lo \<le> w" "w \<le> st_version s" for w
    by (rule version_ok_frame [OF I(2) [OF that]]) (use a live in \<open>simp_all add: agree_def\<close>)
  moreover have "stale_ok V' lo (st_version s) R"
    using I(6) unfolding stale_ok_def staleRecordKey_def stale .
  ultimately show ?thesis using I a unfolding store_inv_def by (simp add: agree_def)
qed

lemma agree_applyBatch: "(\<forall>op \<in> set ops. foreign (bo_key op)) \<Longrightarrow> agree V (applyBatch ops V)"
  by (auto simp: agree_def intro!: applyBatch_other)

context kv_backend
begin

lemma ledger_foreign:
  assumes l: "ledger s H lo" and b: "live b" "agree (recordsOf s) (view b)"
  shows "ledger (setBackendState s b) H lo"
proof -
  obtain V R where a: "honest V s s" "store_inv V s H R lo" "ckpt_ok V s" using l unfolding ledger_def by blast
  let ?s = "setBackendState s b" and ?V = "view b"
  have ag: "agree V ?V" using b(2) honest_records [OF a(1)] by simp
  have "honest ?V ?s ?s" using a(1) b(1) agree_nodeAt [OF ag] by (simp add: honest_def setBackendState_def coherent_def read_eq_def)
  moreover have r: "read_eq s ?s" by (simp add: read_eq_def setBackendState_def)
  ultimately show ?thesis
    using store_inv_read_eq [OF r agree_store_inv [OF ag a(2)]] ckpt_ok_read_eq [OF r a(3)] ag
    unfolding ledger_def by (auto simp: ckpt_ok_def agree_def)
qed

lemma callWriteBatch_ledger:
  assumes l: "ledger s H lo" and w: "callWriteBatch ops s = (r, s')" "\<forall>op \<in> set ops. foreign (bo_key op)"
  shows "read_eq s s' \<and> ledger s' H lo \<and>
    (case r of Inl e \<Rightarrow> may_fail \<and> recordsOf s' = recordsOf s | Inr u \<Rightarrow> recordsOf s' = applyBatch ops (recordsOf s))"
proof -
  obtain V R where a: "honest V s s" using l unfolding ledger_def by blast
  obtain b where b: "writeB ops (be_state (st_backend s)) = (r, b)" "s' = setBackendState s b"
    using w(1) a by (auto simp: callWriteBatch_def honest_def split: prod.splits)
  have lv: "live (be_state (st_backend s))" using a by (simp add: honest_def)
  have L: "live b" "case r of Inl e \<Rightarrow> may_fail \<and> view b = recordsOf s | Inr u \<Rightarrow> view b = applyBatch ops (recordsOf s)"
    using write_law [OF lv b(1)] by (auto simp: recordsOf_def split: sum.splits)
  have ag: "agree (recordsOf s) (view b)" using L(2) agree_applyBatch [OF w(2)] by (auto simp: agree_def split: sum.splits)
  show ?thesis using ledger_foreign [OF l L(1) ag] L(2) b(2) by (auto simp: read_eq_def setBackendState_def recordsOf_def split: sum.splits)
qed

lemma callScan_ledger:
  assumes l: "ledger s H lo" and w: "callScan start end limit s = (r, s')"
  shows "kept s H lo s' \<and> (case r of Inl e \<Rightarrow> may_fail | Inr kvs \<Rightarrow> scanned (recordsOf s) start end limit kvs)"
proof -
  obtain V R where a: "honest V s s" "\<forall>s'. honest V s s' \<longrightarrow> kept s H lo s'" using ledgerE [OF l] by metis
  obtain b where b: "scanB start end limit (be_state (st_backend s)) = (r, b)" "s' = setBackendState s b"
    using w a(1) by (auto simp: callScan_def honest_def split: prod.splits)
  have lv: "live (be_state (st_backend s))" using a(1) by (simp add: honest_def)
  note L = scan_law [OF lv b(1)]
  have "honest V s s'" using a(1) L b(2) by (simp add: honest_def setBackendState_def read_eq_def)
  then show ?thesis using L a by (auto simp: recordsOf_def split: sum.splits)
qed

lemma callGet_ledger:
  assumes l: "ledger s H lo" and w: "callGet k s = (r, s')"
  shows "kept s H lo s' \<and> (case r of Inl e \<Rightarrow> may_fail | Inr v \<Rightarrow> v = recordsOf s k)"
proof -
  obtain V R where a: "honest V s s" "\<forall>s'. honest V s s' \<longrightarrow> kept s H lo s'" using ledgerE [OF l] by metis
  obtain b where b: "getB k (be_state (st_backend s)) = (r, b)" "s' = setBackendState s b"
    using w a(1) by (auto simp: callGet_def honest_def split: prod.splits)
  have lv: "live (be_state (st_backend s))" using a(1) by (simp add: honest_def)
  note L = get_law [OF lv b(1)]
  have "honest V s s'" using a(1) L b(2) by (simp add: honest_def setBackendState_def read_eq_def)
  then show ?thesis using L a by (auto simp: recordsOf_def split: sum.splits)
qed

end

section \<open>Commits\<close>

text \<open>The history after a batch, and the version it ends at.\<close>

definition historyAfter :: "'b Store \<Rightarrow> (u64 \<Rightarrow> hash \<rightharpoonup> bytes) \<Rightarrow> Op list \<Rightarrow> (u64 \<Rightarrow> hash \<rightharpoonup> bytes) \<times> u64" where
  "historyAfter s H ops =
     (let D = H (st_version s); nv = st_version s + 1; m = batchMap s ops
      in if putMap D m = D then (H, st_version s) else (H(nv := putMap D (linked s (nextHead s nv) m)), nv))"

lemma foreign_sql [simp]:
  "foreign (scanKey i pk)" "foreign (secondarySpace i @ t)" "foreign [scanMetaKey]"
  by (simp_all add: foreign_def scanKey_def secondarySpace_def)

text \<open>The part of a store that commits change.\<close>

definition onlyLed :: "'b SqlStore \<Rightarrow> 'b SqlStore \<Rightarrow> bool" where
  "onlyLed s s' \<longleftrightarrow> s' = s\<lparr>sq_led := sq_led s'\<rparr>"

lemma onlyLed_refl [simp]: "onlyLed s s" by (simp add: onlyLed_def)

lemma onlyLed_set [simp]: "onlyLed s (s\<lparr>sq_led := l\<rparr>)" by (simp add: onlyLed_def)

lemma onlyLed_trans: "onlyLed s s1 \<Longrightarrow> onlyLed s1 s2 \<Longrightarrow> onlyLed s s2"
  by (cases s; cases s1; cases s2) (simp add: onlyLed_def)

lemma onlyLed_tables: "onlyLed s s' \<Longrightarrow> sq_tables s' = sq_tables s" "onlyLed s s' \<Longrightarrow> sq_meta s' = sq_meta s"
  by (cases s; cases s'; simp add: onlyLed_def)+

lemma read_eq_trans: "read_eq s s1 \<Longrightarrow> read_eq s1 s2 \<Longrightarrow> read_eq s s2"
  by (cases s; cases s1; cases s2) (simp add: read_eq_def)

lemma applyBatch_cong: "V k = V' k \<Longrightarrow> applyBatch ops V k = applyBatch ops V' k"
  by (induction ops rule: rev_induct) (auto simp: applyBatch_snoc applyOp_def, simp add: applyBatch_def)

context kv_backend
begin

text \<open>The ledger after a successful \<^verbatim>\<open>PutBatch\<close>.\<close>

definition putDone :: "'b Store \<Rightarrow> (u64 \<Rightarrow> hash \<rightharpoonup> bytes) \<Rightarrow> u64 \<Rightarrow> Op list \<Rightarrow> 'b Store \<Rightarrow> bool" where
  "putDone s H lo ops s' \<longleftrightarrow>
     ledger s' (fst (historyAfter s H ops)) lo \<and> st_version s' = snd (historyAfter s H ops) \<and> pathOf s' = pathOf s \<and>
     (\<forall>k. foreign k \<longrightarrow> recordsOf s' k = recordsOf s k)"

lemma PutBatch_done:
  assumes "ledger s H lo" "st_version s < st_version s + 1" "good_rand rd" "batch_ok s (H (st_version s)) (batchMap s ops)"
    "\<forall>op \<in> set ops. \<not> reserved op"
  shows "runs may_fail (kept s H lo) (\<lambda>rv. putDone s H lo ops) (PutBatch rd ops s)"
proof (rule runs_mono [OF PutBatch_ledger [OF assms]])
  have keptD: "putDone s H lo ops s'" if "kept s H lo s'" "putMap (H (st_version s)) (batchMap s ops) = H (st_version s)" for s'
    using that by (auto simp: kept_def putDone_def historyAfter_def pathOf_def fun_eq_iff dest: read_eq_fields)
  show "putDone s H lo ops s'" if "rv = Root s' \<and>
       (if putMap (H (st_version s)) (batchMap s ops) = H (st_version s) then kept s H lo s'
        else let nv = st_version s + 1; D' = putMap (H (st_version s)) (linked s (nextHead s nv) (batchMap s ops))
             in ledger s' (H(nv := D')) lo \<and>
                advanced s nv (if st_history s then nextHead s nv else st_historyHead s) s' \<and>
                (\<forall>k. foreign k \<longrightarrow> recordsOf s' k = recordsOf s k))" for rv s'
    using that keptD advanced_fields [of s "st_version s + 1" _ s']
    by (auto simp: putDone_def historyAfter_def Let_def pathOf_def fun_eq_iff split: if_splits)
qed

text \<open>What a commit of the SQL layer does: nothing, or the ledger's step, or the ledger's step and the derived batch.\<close>

lemma commitSql_ledger:
  assumes l: "ledger (sq_led s) H lo" and v: "st_version (sq_led s) < st_version (sq_led s) + 1" and rd: "good_rand rd"
    and b: "batch_ok (sq_led s) (H (st_version (sq_led s))) (batchMap (sq_led s) ledOps)" "\<forall>op \<in> set ledOps. \<not> reserved op"
    and f: "\<forall>op \<in> set scanOps. foreign (bo_key op)" and c: "commitSql rd ledOps scanOps s = (r, s')"
  shows "onlyLed s s' \<and>
    (case r of
       Inl e \<Rightarrow> may_fail \<and> (kept (sq_led s) H lo (sq_led s') \<or> putDone (sq_led s) H lo ledOps (sq_led s'))
     | Inr u \<Rightarrow>
         ledger (sq_led s') (fst (historyAfter (sq_led s) H ledOps)) lo \<and>
         st_version (sq_led s') = snd (historyAfter (sq_led s) H ledOps) \<and> pathOf (sq_led s') = pathOf (sq_led s) \<and>
         (\<forall>k. foreign k \<longrightarrow> recordsOf (sq_led s') k =
            applyBatch (scanOps @ [markerOp (snd (historyAfter (sq_led s) H ledOps))]) (recordsOf (sq_led s)) k))"
proof (cases "PutBatch rd ledOps (sq_led s)")
  case (Pair p l1)
  note P = PutBatch_done [OF l v rd b]
  show ?thesis
  proof (cases p)
    case (Inl e)
    then show ?thesis using P c Pair by (auto simp: commitSql_def onLedger_def andThen_def runs_def)
  next
    case (Inr rv)
    then have d: "putDone (sq_led s) H lo ledOps l1" using P Pair by simp
    let ?H = "fst (historyAfter (sq_led s) H ledOps)" and ?v = "snd (historyAfter (sq_led s) H ledOps)"
    have v1: "snd (Root l1) = ?v" using d by (simp add: Root_def putDone_def)
    obtain q l2 where w: "callWriteBatch (scanOps @ [markerOp ?v]) l1 = (q, l2)" by (cases "callWriteBatch (scanOps @ [markerOp ?v]) l1")
    have fr: "\<forall>op \<in> set (scanOps @ [markerOp ?v]). foreign (bo_key op)" using f by (simp add: markerOp_def)
    have l1: "ledger l1 ?H lo" using d by (simp add: putDone_def)
    note W = callWriteBatch_ledger [OF l1 w fr]
    have s': "s' = s\<lparr>sq_led := l2\<rparr>" "case q of Inl e \<Rightarrow> \<exists>e'. r = Inl e' | Inr u \<Rightarrow> r = Inr ()"
      using c Pair Inr v1 w by (auto simp: commitSql_def onLedger_def onBackend_def andThen_def getState_def split: sum.splits)
    have eq: "st_version l2 = st_version l1" "pathOf l2 = pathOf l1" using W by (auto simp: pathOf_def fun_eq_iff dest: read_eq_fields)
    have "recordsOf l2 k = applyBatch (scanOps @ [markerOp ?v]) (recordsOf (sq_led s)) k" if "q = Inr ()" "foreign k" for k
      using W that d applyBatch_cong [of "recordsOf l1" k "recordsOf (sq_led s)"] by (simp add: putDone_def)
    then show ?thesis using s' W d eq by (cases q) (auto simp: putDone_def)
  qed
qed

text \<open>States that reads reach: the ledger and all records are as they were.\<close>

definition same :: "(u64 \<Rightarrow> hash \<rightharpoonup> bytes) \<Rightarrow> u64 \<Rightarrow> 'b SqlStore \<Rightarrow> 'b SqlStore \<Rightarrow> bool" where
  "same H lo s s' \<longleftrightarrow> onlyLed s s' \<and> kept (sq_led s) H lo (sq_led s')"

lemma same_refl: "ledger (sq_led s) H lo \<Longrightarrow> same H lo s s"
  by (simp add: same_def kept_def)

lemma same_trans: "same H lo s s1 \<Longrightarrow> same H lo s1 s2 \<Longrightarrow> same H lo s s2"
  unfolding same_def kept_def by (metis onlyLed_trans read_eq_trans)

lemma sameD:
  assumes "same H lo s s'"
  shows "ledger (sq_led s') H lo" "st_version (sq_led s') = st_version (sq_led s)" "pathOf (sq_led s') = pathOf (sq_led s)"
    "recordsOf (sq_led s') = recordsOf (sq_led s)" "sq_tables s' = sq_tables s" "sq_meta s' = sq_meta s" "Root (sq_led s') = Root (sq_led s)"
  using assms onlyLed_tables by (auto simp: same_def kept_def pathOf_def fun_eq_iff Root_def dest: read_eq_fields)

lemma onLedger_kept:
  assumes r: "runs may_fail (kept (sq_led s) H lo) (\<lambda>x l. P x \<and> kept (sq_led s) H lo l) (m (sq_led s))" and s: "same H lo s0 s"
  shows "outcome (\<lambda>e s'. may_fail \<and> same H lo s0 s') (\<lambda>x s'. P x \<and> same H lo s0 s') (onLedger m s)"
proof -
  have "same H lo s0 (s\<lparr>sq_led := l\<rparr>)" if "kept (sq_led s) H lo l" for l
    by (rule same_trans [OF s]) (simp add: same_def that)
  then show ?thesis using r by (cases "m (sq_led s)"; cases "fst (m (sq_led s))") (auto simp: onLedger_def runs_def)
qed

lemma onLedger_Get:
  assumes "same H lo s0 s"
  shows "outcome (\<lambda>e s'. may_fail \<and> same H lo s0 s')
    (\<lambda>r s'. r = H (st_version (sq_led s0)) (pathOf (sq_led s0) key) \<and> same H lo s0 s') (onLedger (Get key) s)"
  by (rule onLedger_kept [OF _ assms]) (use Get_ledger [OF sameD(1) [OF assms], of key] sameD [OF assms] in simp)

lemma onLedger_Prove:
  assumes "ledger (sq_led s) H lo"
  shows "outcome (\<lambda>e s'. may_fail \<and> same H lo s s')
    (\<lambda>p s'. proves (sq_led s) (st_root (sq_led s)) (H (st_version (sq_led s))) (pathOf (sq_led s) key) p \<and> same H lo s s')
    (onLedger (Prove key) s)"
  by (rule onLedger_kept [OF _ same_refl [OF assms]]) (rule Prove_ledger [OF assms])

lemma onBackend_kept:
  assumes c: "\<And>r l. call (sq_led s) = (r, l) \<Longrightarrow> kept (sq_led s) H lo l \<and> (case r of Inl e \<Rightarrow> may_fail | Inr x \<Rightarrow> P x)"
    and s: "same H lo s0 s"
  shows "outcome (\<lambda>e s'. may_fail \<and> same H lo s0 s') (\<lambda>x s'. P x \<and> same H lo s0 s') (onBackend call s)"
proof -
  have "same H lo s0 (s\<lparr>sq_led := l\<rparr>)" if "kept (sq_led s) H lo l" for l
    by (rule same_trans [OF s]) (simp add: same_def that)
  then show ?thesis using c by (cases "call (sq_led s)"; cases "fst (call (sq_led s))") (auto simp: onBackend_def)
qed

lemma onBackend_scan:
  assumes "same H lo s0 s"
  shows "outcome (\<lambda>e s'. may_fail \<and> same H lo s0 s')
    (\<lambda>kvs s'. scanned (recordsOf (sq_led s0)) start end limit kvs \<and> same H lo s0 s') (onBackend (callScan start end limit) s)"
  by (rule onBackend_kept [OF _ assms]) (use callScan_ledger [OF sameD(1) [OF assms]] sameD(4) [OF assms] in metis)

end

end
