(* ===== verification/Codec_Inv.thy ===== *)
theory Codec_Inv
  imports Sql_Codec
begin

text \<open>
  The codecs of the SQL layer: the key form of a column value keeps the order of the column and no key form
  is a prefix of another (\<open>keyBytes_less\<close>, with integers, floating-point numbers, instants and byte strings
  mapped to their place in the order by \<open>scalarRank\<close>), and a stored row reads back as the row it was
  (\<open>encodeRowLoop_decode\<close>).
\<close>

section \<open>The sign bit\<close>

lemma bit_signBit [simp]: "bit signBit n \<longleftrightarrow> n = 63"
proof -
  have "bit signBit n \<longleftrightarrow> n < 64 \<and> 63 \<le> n \<and> bit (1 :: u64) (n - 63)"
    unfolding signBit_def bit_push_bit_iff by auto
  then show ?thesis by (auto simp: bit_1_iff)
qed

lemma signBit_twice [simp]: "signBit + signBit = 0"
  by (simp add: signBit_def)

lemma unat_signBit [simp]: "unat signBit = 2 ^ 63" "uint signBit = 2 ^ 63"
  by (simp_all add: signBit_def)

lemma and_signBit: "v AND signBit \<noteq> 0 \<longleftrightarrow> bit v 63"
  using and_exp_eq_0_iff_not_bit [of v 63] unfolding signBit_def push_bit_of_1 by blast

lemma xor_signBit: "v XOR signBit = v + signBit"
proof -
  let ?w = "v AND NOT signBit"
  have w: "?w AND signBit = 0" by (rule bit_word_eqI) (simp add: bit_simps)
  show ?thesis
  proof (cases "bit v 63")
    case False
    have "v AND signBit = 0" using False and_signBit by blast
    then have "v + signBit = v OR signBit" by (rule disjunctive_add_eq_or)
    also have "\<dots> = v XOR signBit" by (rule bit_word_eqI) (use False in \<open>auto simp: bit_or_iff bit_xor_iff bit_signBit\<close>)
    finally show ?thesis by simp
  next
    case True
    have "?w + signBit = ?w OR signBit" by (rule disjunctive_add_eq_or [OF w])
    also have "\<dots> = v" by (rule bit_word_eqI) (use True in \<open>auto simp: bit_or_iff bit_and_iff bit_not_iff bit_signBit\<close>)
    finally have "v + signBit = ?w + (signBit + signBit)" by (metis add.assoc)
    also have "\<dots> = v XOR signBit" unfolding signBit_twice by simp (rule bit_word_eqI; use True in \<open>auto simp: bit_xor_iff bit_and_iff bit_not_iff bit_signBit\<close>)
    finally show ?thesis by simp
  qed
qed

lemma unat_flip: "int (unat (v XOR signBit)) = sint v + 2 ^ 63"
proof -
  have "sint v = signed_take_bit 63 (uint v)" by (simp add: sint_uint)
  then have "sint v + 2 ^ 63 = take_bit 64 (uint v + 2 ^ 63)" by (simp add: signed_take_bit_eq_take_bit_shift)
  also have "\<dots> = uint (v + signBit)" by (simp add: uint_word_ariths take_bit_eq_mod)
  finally show ?thesis unfolding xor_signBit by simp
qed

lemma flip_less: "v XOR signBit < w XOR signBit \<longleftrightarrow> sint v < sint w"
  using unat_flip [of v] unat_flip [of w] unfolding word_less_nat_alt by linarith

lemma flip_flip [simp]: "(v XOR signBit) XOR signBit = v"
  by (metis xor.assoc xor_self_eq xor.right_neutral)

lemma decInt64_encInt64 [simp]: "decInt64 (encInt64 v) = v"
  by (simp add: decInt64_def encInt64_def)

section \<open>Floating-point numbers\<close>

text \<open>
  The magnitude of a 63-bit pattern in units of \<open>2 ^ -1074\<close>, the smallest positive \<^verbatim>\<open>float64\<close>: a subnormal
  number is its mantissa, a normal one its mantissa with the hidden bit, scaled by its exponent. (Infinity
  gets the value that the next exponent would have, NaNs lie above it.)
\<close>

definition magnitude :: "nat \<Rightarrow> nat" where
  "magnitude w = (if w < 2 ^ 52 then w else (2 ^ 52 + w mod 2 ^ 52) * 2 ^ (w div 2 ^ 52 - 1))"

lemma magnitude_Suc: "magnitude w < magnitude (Suc w)"
proof -
  define e m where "e = w div 2 ^ 52" and "m = w mod 2 ^ 52"
  have w: "w = e * 2 ^ 52 + m" "m < 2 ^ 52" by (simp_all add: e_def m_def)
  have mag: "magnitude (e' * 2 ^ 52 + m') = (if e' = 0 then m' else (2 ^ 52 + m') * 2 ^ (e' - 1))" if "m' < 2 ^ 52" for e' m'
  proof (cases e')
    case (Suc k)
    have "\<not> e' * 2 ^ 52 + m' < 2 ^ 52" "(e' * 2 ^ 52 + m') div 2 ^ 52 = e'" "(e' * 2 ^ 52 + m') mod 2 ^ 52 = m'"
      using that Suc unfolding mod_mult_self3 div_mult_self3 [OF power_not_zero [OF zero_neq_numeral [symmetric]]] by simp_all
    then show ?thesis using Suc by (simp only: magnitude_def if_False) simp
  qed (use that in \<open>simp add: magnitude_def\<close>)
  show ?thesis
  proof (cases "Suc m < 2 ^ 52")
    case True
    have "Suc w = e * 2 ^ 52 + Suc m" using w(1) by simp
    then show ?thesis using mag [OF w(2), of e] mag [OF True, of e] w(1) by (simp only:) simp
  next
    case False
    then have "m = 2 ^ 52 - 1" using w(2) by simp
    then have "Suc w = (e + 1) * 2 ^ 52 + 0" using w(1) by simp
    moreover have "magnitude ((e + 1) * 2 ^ 52 + 0) = 2 ^ 52 * 2 ^ e" using mag [of 0 "e + 1"] by simp
    moreover have "magnitude w = (if e = 0 then m else (2 ^ 52 + m) * 2 ^ (e - 1))" using mag [OF w(2), of e] w(1) by simp
    moreover have "(2 ^ 52 + m) * 2 ^ (e - 1) < 2 ^ 52 * (2 :: nat) ^ e" if "e \<noteq> 0"
      using that \<open>m = 2 ^ 52 - 1\<close> by (cases e) simp_all
    ultimately show ?thesis using w(2) by (cases "e = 0") (simp_all only: simp_thms if_True if_False power_0 mult_1_right)
  qed
qed

lemma magnitude_less: "magnitude v < magnitude w \<longleftrightarrow> v < w"
  by (rule strict_mono_less) (simp add: strict_mono_Suc_iff magnitude_Suc)

lemma magnitude_0 [simp]: "magnitude 0 = 0" "0 < magnitude w \<longleftrightarrow> 0 < w"
  using magnitude_less [of 0 w] by (simp_all add: magnitude_def)

text \<open>Twice the value of a \<^verbatim>\<open>float64\<close> in these units, with \<open>-0\<close> just below \<open>+0\<close>.\<close>

definition floatRank :: "u64 \<Rightarrow> int" where
  "floatRank f =
     (let m = unat f mod 2 ^ 63
      in if bit f 63 then (if m = 0 then -1 else - (2 * int (magnitude m))) else 2 * int (magnitude m))"

text \<open>The word whose big-endian form \<^verbatim>\<open>encFloat64\<close> writes.\<close>

definition floatWord :: "u64 \<Rightarrow> u64" where
  "floatWord f = (if bit f 63 then NOT f else f OR signBit)"

lemma encFloat64_word: "encFloat64 f = putUint64 (floatWord f)"
  by (simp add: encFloat64_def floatWord_def and_signBit Let_def)

lemma bit63: "bit f 63 \<longleftrightarrow> 2 ^ 63 \<le> unat (f :: u64)"
proof -
  have "unat f div 2 ^ 63 < 2" using unsigned_less [of f, where ?'a = nat] by (simp add: less_mult_imp_div_less)
  moreover have "bit f 63 \<longleftrightarrow> odd (unat f div 2 ^ 63)" using bit_unsigned_iff [where ?'a = nat, of f 63]
    by (simp add: bit_iff_odd [of "unat f"])
  ultimately show ?thesis by (auto simp: less_2_cases_iff)
qed

lemma unat_floatWord:
  "unat (floatWord f) = (let m = unat f mod 2 ^ 63 in if bit f 63 then 2 ^ 63 - 1 - m else 2 ^ 63 + m)"
proof (cases "bit f 63")
  case True
  then have "unat f mod 2 ^ 63 = unat f - 2 ^ 63" using bit63 [of f] unsigned_less [of f, where ?'a = nat] 
    by (simp add: le_mod_geq)
  moreover have "unat (NOT f) = 2 ^ 64 - 1 - unat f"
  proof -
    have "NOT f = -1 - f" by (simp add: not_eq_complement)
    then show ?thesis using unat_sub [of f "-1"] by (simp add: unsigned_minus_1_eq_mask mask_eq_exp_minus_1)
  qed
  ultimately show ?thesis using True bit63 [of f] by (simp add: floatWord_def Let_def)
next
  case False
  then have "unat f < 2 ^ 63" using bit63 by simp
  moreover have "f OR signBit = f + signBit" using False and_signBit [of f] disjunctive_add_eq_or [of f signBit] by simp
  ultimately show ?thesis using False by (simp add: floatWord_def Let_def unat_word_ariths)
qed

lemma rank_less:
  assumes "a < 2 ^ 63" "b < 2 ^ 63"
  shows "(if p then 2 ^ 63 - 1 - a else 2 ^ 63 + a) < (if q then 2 ^ 63 - 1 - b else 2 ^ 63 + b) \<longleftrightarrow>
    (if p then (if a = 0 then -1 else - (2 * int (magnitude a))) else 2 * int (magnitude a)) <
    (if q then (if b = 0 then -1 else - (2 * int (magnitude b))) else 2 * int (magnitude b))"
proof -
  have pos: "0 < a \<Longrightarrow> 1 \<le> int (magnitude a)" "0 < b \<Longrightarrow> 1 \<le> int (magnitude b)"
    using magnitude_0(2) [of a] magnitude_0(2) [of b] by linarith+
  have neg: "2 ^ 63 - 1 - a < 2 ^ 63 - 1 - b \<longleftrightarrow> b < a" using assms by linarith
  have mag: "int (magnitude a) < int (magnitude b) \<longleftrightarrow> a < b" "int (magnitude b) < int (magnitude a) \<longleftrightarrow> b < a"
    by (simp_all add: magnitude_less)
  show ?thesis using pos neg mag assms by (cases p; cases q; cases "a = 0"; cases "b = 0") (simp_all only: if_True if_False simp_thms, auto)
qed

lemma floatWord_less: "floatWord f < floatWord g \<longleftrightarrow> floatRank f < floatRank g"
  unfolding word_less_nat_alt unat_floatWord floatRank_def Let_def by (rule rank_less) simp_all

lemma decFloat64_encFloat64 [simp]: "decFloat64 (encFloat64 f) = f"
proof (cases "bit f 63")
  case True
  then have "\<not> bit (NOT f) 63" by (simp add: bit_not_iff)
  then show ?thesis using True by (simp add: decFloat64_def encFloat64_word floatWord_def and_signBit Let_def)
next
  case False
  then have "(f OR signBit) AND NOT signBit = f"
    by (intro bit_word_eqI) (auto simp: bit_simps)
  then show ?thesis using False by (simp add: decFloat64_def encFloat64_word floatWord_def and_signBit bit_or_iff Let_def)
qed

section \<open>Escaped byte strings\<close>

fun escape :: "bytes \<Rightarrow> bytes" where
  "escape [] = [0, 0]"
| "escape (b # bs) = (if b = 0 then 0 # 0xFF # escape bs else b # escape bs)"

lemma appendEscaped_escape: "appendEscaped buf data = buf @ escape data"
proof -
  have "foldl (\<lambda>buf b. if b = 0 then buf @ [0, 0xFF] else buf @ [b]) buf data @ [0, 0] = buf @ escape data" for buf
    by (induction data arbitrary: buf) simp_all
  then show ?thesis by (simp add: appendEscaped_def)
qed

lemma escape_less: "escape xs @ us < escape ys @ vs \<longleftrightarrow> xs < ys \<or> xs = ys \<and> us < vs"
proof (induction xs arbitrary: ys)
  case Nil
  have pos: "0 < b \<longleftrightarrow> b \<noteq> 0" for b :: byte by (simp add: word_gt_0)
  show ?case by (cases ys) (auto simp: pos)
next
  case (Cons x xs)
  have pos: "0 < b \<longleftrightarrow> b \<noteq> 0" for b :: byte by (simp add: word_gt_0)
  show ?case using Cons by (cases ys) (auto simp: pos)
qed

section \<open>The order of keys\<close>

text \<open>
  The rank of a key value: its place in the order of the column, a number for numeric and time columns
  and the byte string itself for the others.
\<close>

datatype keyRank = RNum int | RBytes bytes

instantiation keyRank :: linorder
begin

fun less_keyRank :: "keyRank \<Rightarrow> keyRank \<Rightarrow> bool" where
  "RNum x < RNum y \<longleftrightarrow> x < y"
| "RNum x < RBytes b \<longleftrightarrow> True"
| "RBytes a < RNum y \<longleftrightarrow> False"
| "RBytes a < RBytes b \<longleftrightarrow> a < b"

definition less_eq_keyRank :: "keyRank \<Rightarrow> keyRank \<Rightarrow> bool" where
  "less_eq_keyRank a b \<longleftrightarrow> a = b \<or> a < b"

instance
proof
  fix a b c :: keyRank
  show "a < b \<longleftrightarrow> a \<le> b \<and> \<not> b \<le> a" by (cases a; cases b) (auto simp: less_eq_keyRank_def)
  show "a \<le> a" by (simp add: less_eq_keyRank_def)
  show "a \<le> b \<Longrightarrow> b \<le> c \<Longrightarrow> a \<le> c" by (cases a; cases b; cases c) (auto simp: less_eq_keyRank_def)
  show "a \<le> b \<Longrightarrow> b \<le> a \<Longrightarrow> a = b" by (cases a; cases b) (auto simp: less_eq_keyRank_def)
  show "a \<le> b \<or> b \<le> a" by (cases a; cases b) (auto simp: less_eq_keyRank_def)
qed

end

definition scalarRank :: "colKind \<Rightarrow> Scalars \<Rightarrow> keyRank" where
  "scalarRank k c =
     (case k of
        kindInt \<Rightarrow> RNum (sint (sc_i c))
      | kindUint \<Rightarrow> RNum (uint (sc_u c))
      | kindFloat32 \<Rightarrow> RNum (floatRank (sc_f c))
      | kindFloat64 \<Rightarrow> RNum (floatRank (sc_f c))
      | kindString \<Rightarrow> RBytes (sc_s c)
      | kindBytes \<Rightarrow> RBytes (sc_raw c)
      | kindDatetime \<Rightarrow> RNum (sint (UnixNano (sc_t c))))"

definition keyBytes :: "colKind \<Rightarrow> Scalars \<Rightarrow> bytes" where
  "keyBytes k c =
     (case k of
        kindInt \<Rightarrow> encInt64 (sc_i c)
      | kindUint \<Rightarrow> encUint64 (sc_u c)
      | kindFloat32 \<Rightarrow> encFloat64 (sc_f c)
      | kindFloat64 \<Rightarrow> encFloat64 (sc_f c)
      | kindString \<Rightarrow> escape (sc_s c)
      | kindBytes \<Rightarrow> escape (sc_raw c)
      | kindDatetime \<Rightarrow> encInt64 (UnixNano (sc_t c)))"

lemma encodeKeyCol_keyBytes:
  "encodeKeyCol buf k v = (case coerce k v of Inl e \<Rightarrow> Inl e | Inr c \<Rightarrow> Inr (buf @ keyBytes k c))"
  by (auto simp: encodeKeyCol_def keyBytes_def appendEscaped_escape split: sum.split colKind.split)

lemma keyBytes_less:
  "keyBytes k a @ us < keyBytes k b @ vs \<longleftrightarrow>
     scalarRank k a < scalarRank k b \<or> scalarRank k a = scalarRank k b \<and> us < vs"
proof -
  have flip: "v XOR signBit = w XOR signBit \<longleftrightarrow> sint v = sint w" for v w :: u64
    unfolding word_unat_eq_iff using unat_flip [of v] unat_flip [of w] by linarith
  have word: "floatWord f = floatWord g \<longleftrightarrow> floatRank f = floatRank g" for f g
    using floatWord_less [of f g] floatWord_less [of g f] by (metis linorder_neq_iff)
  note defs = keyBytes_def scalarRank_def encInt64_def encUint64_def encFloat64_word putUint64_less escape_less
  show ?thesis
  proof (cases "k = kindUint")
    case True
    then show ?thesis by (simp add: defs word_less_def word_uint_eq_iff)
  next
    case False
    then show ?thesis by (cases k) (simp_all add: defs flip_less flip word floatWord_less)
  qed
qed

lemma keyBytes_eq:
  "keyBytes k a @ us = keyBytes k b @ vs \<longleftrightarrow> scalarRank k a = scalarRank k b \<and> us = vs"
  using keyBytes_less [of k a us b vs] keyBytes_less [of k b vs a us] by (metis linorder_neq_iff)

section \<open>Variable-length integers\<close>

lemma bit_byte_consts: "bit (0x80 :: int) n \<longleftrightarrow> n = 7" "bit (0x7F :: int) n \<longleftrightarrow> n < 7"
proof -
  have "bit (push_bit 7 1 :: int) n \<longleftrightarrow> n = 7" unfolding bit_push_bit_iff by (auto simp: bit_1_iff)
  then show "bit (0x80 :: int) n \<longleftrightarrow> n = 7" by simp
  have "(0x7F :: int) = mask 7" by (simp add: mask_eq_exp_minus_1)
  then show "bit (0x7F :: int) n \<longleftrightarrow> n < 7" by (simp only: bit_mask_iff) simp
qed

lemma varint_byte:
  fixes w :: u64
  shows "(ucast w OR 0x80 :: byte) AND 0x7F = ucast (w AND 0x7F)" "\<not> (ucast w OR 0x80 :: byte) < 0x80"
proof -
  show "(ucast w OR 0x80 :: byte) AND 0x7F = ucast (w AND 0x7F)"
    by (rule bit_word_eqI) (auto simp: bit_or_iff bit_and_iff bit_ucast_iff bit_byte_consts)
  have "(0x80 :: byte) \<le> ucast w OR 0x80" by (metis or.commute le_word_or2)
  then show "\<not> (ucast w OR 0x80 :: byte) < 0x80" by simp
qed

lemma varint_split:
  fixes w :: u64
  shows "push_bit sh (ucast (ucast (w AND 0x7F) :: byte)) OR push_bit (sh + 7) (drop_bit 7 w) = push_bit sh w"
proof (rule bit_word_eqI)
  fix n assume "n < LENGTH(64)"
  then show "bit (push_bit sh (ucast (ucast (w AND 0x7F) :: byte)) OR push_bit (sh + 7) (drop_bit 7 w)) n = bit (push_bit sh w) n"
    by (cases "n < sh + 7") (auto simp: bit_or_iff bit_and_iff bit_push_bit_iff bit_ucast_iff bit_drop_bit_eq bit_byte_consts)
qed

lemma uvarintLoop_putUvarint:
  assumes "unat w < 2 ^ (64 - 7 * i)" "i \<le> 9"
  shows "uvarintLoop i x (7 * i) (putUvarint w @ rest) =
    (x OR push_bit (7 * i) w, int (i + length (putUvarint w)))"
  using assms
proof (induction w arbitrary: i x rule: putUvarint.induct)
  case (1 w)
  show ?case
  proof (cases "w < 0x80")
    case True
    then have "unat w < 128" by (simp add: word_less_nat_alt)
    then have u: "unat (ucast w :: byte) = unat w" by (simp add: unsigned_ucast_eq unsigned_take_bit_eq take_bit_nat_eq_self_iff)
    have "\<not> (i = 9 \<and> (1 :: byte) < ucast w)" using 1(2) by (auto simp: word_less_nat_alt u)
    moreover have "(ucast (ucast w :: byte) :: u64) = w"
      using \<open>unat w < 128\<close> by (simp add: word_unat_eq_iff unsigned_ucast_eq unsigned_take_bit_eq take_bit_nat_eq_self_iff)
    moreover have "(ucast w :: byte) < 0x80" using \<open>unat w < 128\<close> by (simp add: word_less_nat_alt u)
    ultimately show ?thesis using True 1(3) by (simp add: putUvarint.simps [of w])
  next
    case False
    then have w: "128 \<le> unat w" by (simp add: word_less_nat_alt)
    have i: "i \<le> 8"
    proof (rule ccontr)
      assume "\<not> i \<le> 8" then have "i = 9" using 1(3) by simp
      then show False using 1(2) w by simp
    qed
    have "(2 :: nat) ^ (64 - 7 * i) = 2 ^ (64 - 7 * Suc i) * 128"
    proof -
      have "64 - 7 * i = (64 - 7 * Suc i) + 7" using i by simp
      then show ?thesis by (simp only: power_add) simp
    qed
    then have "unat (drop_bit 7 w) < 2 ^ (64 - 7 * Suc i)" using 1(2)
      by (simp add: drop_bit_eq_div unat_div less_mult_imp_div_less)
    from 1(1) [OF False this] i have IH: "uvarintLoop (Suc i) y (7 * Suc i) (putUvarint (drop_bit 7 w) @ rest) =
       (y OR push_bit (7 * Suc i) (drop_bit 7 w), int (Suc i + length (putUvarint (drop_bit 7 w))))" for y by simp
    have s: "7 * Suc i = 7 * i + 7" by simp
    have "uvarintLoop i x (7 * i) (putUvarint w @ rest) =
        uvarintLoop (Suc i) (x OR push_bit (7 * i) (ucast (ucast (w AND 0x7F) :: byte))) (7 * Suc i) (putUvarint (drop_bit 7 w) @ rest)"
      using False i varint_byte [of w] by (simp add: putUvarint.simps [of w] s add.commute)
    also have "\<dots> = (x OR push_bit (7 * i) w, int (i + length (putUvarint w)))"
      unfolding IH unfolding s or.assoc varint_split using False by (simp add: putUvarint.simps [of w])
    finally show ?thesis .
  qed
qed

lemma Uvarint_putUvarint: "Uvarint (putUvarint w @ rest) = (w, int (length (putUvarint w)))"
  using uvarintLoop_putUvarint [of w 0 0 rest] unsigned_less [of w, where ?'a = nat] by (simp add: Uvarint_def)

lemma length_putUvarint: "0 < length (putUvarint w)"
  by (simp add: putUvarint.simps [of w])

section \<open>Conversions between the float formats\<close>

lemma topBit_bounds: "0 < n \<Longrightarrow> 2 ^ topBit n \<le> n \<and> n < 2 ^ Suc (topBit n)"
proof (induction n rule: topBit.induct)
  case (1 n)
  show ?case
  proof (cases "n < 2")
    case False
    then have "topBit n = Suc (topBit (n div 2))" by (simp add: topBit.simps [of n])
    moreover have "2 ^ topBit (n div 2) \<le> n div 2 \<and> n div 2 < 2 ^ Suc (topBit (n div 2))" using 1 False by simp
    ultimately show ?thesis by auto
  qed (use 1(2) in \<open>simp add: topBit.simps [of n]\<close>)
qed

lemma roundEven_exact [simp]: "roundEven (n * 2 ^ k) k = n"
  by (simp add: roundEven_def)

lemma unat_packF64:
  assumes "sign < 2" "expo < 2 ^ 11" "mant < 2 ^ 52"
  shows "unat (packF64 sign expo mant) div 2 ^ 63 = sign"
    "unat (packF64 sign expo mant) div 2 ^ 52 mod 2 ^ 11 = expo" "unat (packF64 sign expo mant) mod 2 ^ 52 = mant"
proof -
  define n where "n = sign * 2 ^ 63 + expo * 2 ^ 52 + mant"
  have e: "expo * 2 ^ 52 + mant < 2 ^ 63"
  proof -
    have "expo * 2 ^ 52 \<le> (2 ^ 11 - 1) * 2 ^ 52" using assms(2) by (intro mult_le_mono1) simp
    then show ?thesis using assms(3) by simp
  qed
  have "n < 2 ^ 64" using e assms(1) by (auto simp: n_def less_2_cases_iff)
  then have u: "unat (packF64 sign expo mant) = n" unfolding packF64_def n_def [symmetric]
    by (simp only: unsigned_of_nat) (simp add: take_bit_nat_eq_self_iff)
  show "unat (packF64 sign expo mant) div 2 ^ 63 = sign" unfolding u n_def using e by simp
  have n': "n = (sign * 2 ^ 11 + expo) * 2 ^ 52 + mant" by (simp add: n_def algebra_simps)
  have d: "n div 2 ^ 52 = sign * 2 ^ 11 + expo" "n mod 2 ^ 52 = mant" unfolding n' using assms(3)
    by (simp_all only: div_mult_self3 mod_mult_self3) simp_all
  show "unat (packF64 sign expo mant) mod 2 ^ 52 = mant" unfolding u by (rule d)
  show "unat (packF64 sign expo mant) div 2 ^ 52 mod 2 ^ 11 = expo" unfolding u d mod_mult_self3 using assms(2) by simp
qed

definition isNaN32 :: "32 word \<Rightarrow> bool" where
  "isNaN32 b \<longleftrightarrow> unat b div 2 ^ 23 mod 2 ^ 8 = 255 \<and> unat b mod 2 ^ 23 \<noteq> 0"

lemma float32Of_pack:
  assumes "sign < 2" "expo < 2 ^ 11" "mant < 2 ^ 52"
  shows "float32Of (packF64 sign expo mant) = of_nat (sign * 2 ^ 31 +
     (if expo = 2047 then 2 ^ 23 * 255 + (if mant = 0 then 0 else (mant div 2 ^ 29) mod 2 ^ 22 + 2 ^ 22)
      else if expo = 0 then 0
      else if expo \<ge> 897 then min (2 ^ 23 * 255) ((expo - 897) * 2 ^ 23 + roundEven (2 ^ 52 + mant) 29)
      else roundEven (2 ^ 52 + mant) (926 - expo)))"
  unfolding float32Of_def Let_def unat_packF64 [OF assms] by (rule refl)

lemma float32Of_float64Of:
  assumes "\<not> isNaN32 b"
  shows "float32Of (float64Of b) = b"
proof -
  define n sign expo mant where defs: "n = unat b" "sign = n div 2 ^ 31" "expo = n div 2 ^ 23 mod 2 ^ 8" "mant = n mod 2 ^ 23"
  have "n < 2 ^ 32" using unsigned_less [of b, where ?'a = nat] by (simp add: defs)
  then have s: "sign < 2" by (simp add: defs less_mult_imp_div_less)
  have em: "expo < 2 ^ 8" "mant < 2 ^ 23" by (simp_all add: defs)
  have "n = sign * 2 ^ 31 + expo * 2 ^ 23 + mant"
  proof -
    have "n div 2 ^ 23 = n div 2 ^ 31 * 2 ^ 8 + n div 2 ^ 23 mod 2 ^ 8"
      using div_mult_mod_eq [of "n div 2 ^ 23" "2 ^ 8"] by (simp add: div_mult2_eq [symmetric])
    then have "n div 2 ^ 23 * 2 ^ 23 = (n div 2 ^ 31 * 2 ^ 8 + n div 2 ^ 23 mod 2 ^ 8) * 2 ^ 23" by (rule arg_cong)
    then show ?thesis using div_mult_mod_eq [of n "2 ^ 23"] unfolding defs by (simp add: algebra_simps)
  qed
  moreover have "b = of_nat n" by (simp add: defs)
  ultimately have b: "b = of_nat (sign * 2 ^ 31 + (expo * 2 ^ 23 + mant))" by (metis add.assoc)
  have f: "float64Of b =
     (if expo = 255 then packF64 sign 2047 (if mant = 0 then 0 else (mant * 2 ^ 29) mod 2 ^ 51 + 2 ^ 51)
      else if expo = 0 then
        (if mant = 0 then packF64 sign 0 0
         else packF64 sign (topBit mant + 874) ((mant - 2 ^ topBit mant) * 2 ^ (52 - topBit mant)))
      else packF64 sign (expo + 896) (mant * 2 ^ 29))"
    unfolding float64Of_def Let_def defs by (rule refl)
  consider (inf) "expo = 255" "mant = 0" | (zero) "expo = 0" "mant = 0" | (sub) "expo = 0" "mant \<noteq> 0" | (norm) "expo \<noteq> 0" "expo < 255"
    using assms em(1) by (fastforce simp: isNaN32_def defs)
  then show ?thesis
  proof cases
    case inf
    then show ?thesis using float32Of_pack [OF s, of 2047 0] by (simp add: f) (simp add: b)
  next
    case zero
    then show ?thesis using float32Of_pack [OF s, of 0 0] by (simp add: f) (simp add: b)
  next
    case sub
    define k where "k = topBit mant"
    have k: "2 ^ k \<le> mant" "mant < 2 ^ Suc k" using topBit_bounds [of mant] sub by (simp_all add: k_def)
    have "k < 23" using power_less_imp_less_exp [of 2 k 23] le_less_trans [OF k(1) em(2)] by simp
    then have p: "(2 :: nat) ^ 52 = 2 ^ k * 2 ^ (52 - k)" by (simp flip: power_add)
    have m: "(mant - 2 ^ k) * 2 ^ (52 - k) < 2 ^ 52" unfolding p using k(2) by simp
    have "2 ^ 52 + (mant - 2 ^ k) * 2 ^ (52 - k) = mant * 2 ^ (52 - k)" unfolding p using k(1) by (simp add: algebra_simps)
    then show ?thesis using float32Of_pack [OF s _ m, of "k + 874"] sub \<open>k < 23\<close> by (simp add: f k_def [symmetric]) (simp add: b)
  next
    case norm
    have m: "mant * 2 ^ 29 < 2 ^ 52" using em(2) by simp
    have r: "2 ^ 52 + mant * 2 ^ 29 = (2 ^ 23 + mant) * 2 ^ (29 :: nat)" by (simp add: algebra_simps)
    have "min (2 ^ 23 * 255) ((expo + 896 - 897) * 2 ^ 23 + (2 ^ 23 + mant)) = expo * 2 ^ 23 + mant"
      using norm em(2) by (cases expo) (auto simp: min_def)
    then show ?thesis using float32Of_pack [OF s _ m, of "expo + 896"] norm em
      unfolding r roundEven_exact by (simp add: f) (simp add: b)
  qed
qed

section \<open>Rows\<close>

text \<open>A value of exactly the Go type that the column type uses: numbers are not NaN where the stored form
  goes through another format, instants lie in the range of \<^verbatim>\<open>UnixNano\<close>.\<close>

definition typed :: "QueryType \<Rightarrow> GoVal \<Rightarrow> bool" where
  "typed qt v =
     (case v of
        VInt8 x \<Rightarrow> qt = Type_INT8
      | VInt16 x \<Rightarrow> qt = Type_INT16
      | VInt32 x \<Rightarrow> qt = Type_INT24 \<or> qt = Type_INT32
      | VInt64 x \<Rightarrow> qt = Type_INT64
      | VUint8 x \<Rightarrow> qt = Type_UINT8
      | VUint16 x \<Rightarrow> qt = Type_UINT16
      | VUint32 x \<Rightarrow> qt = Type_UINT24 \<or> qt = Type_UINT32
      | VUint64 x \<Rightarrow> qt = Type_UINT64
      | VFloat32 x \<Rightarrow> qt = Type_FLOAT32 \<and> \<not> isNaN32 x
      | VFloat64 x \<Rightarrow> qt = Type_FLOAT64
      | VString x \<Rightarrow> qt = Type_CHAR \<or> qt = Type_VARCHAR \<or> qt = Type_TEXT
      | VBytes x \<Rightarrow> qt = Type_BINARY \<or> qt = Type_VARBINARY \<or> qt = Type_BLOB
      | VTime t \<Rightarrow> (qt = Type_DATETIME \<or> qt = Type_TIMESTAMP) \<and> - (2 ^ 63) \<le> t \<and> t < 2 ^ 63
      | _ \<Rightarrow> False)"

fun typedRow :: "colDef list \<Rightarrow> Row \<Rightarrow> bool" where
  "typedRow [] [] = True"
| "typedRow (c # cols) (v # row) = ((case v of None \<Rightarrow> True | Some x \<Rightarrow> typed (cd_QType c) x) \<and> typedRow cols row)"
| "typedRow _ _ = False"

text \<open>The stored form of a value, after its marker.\<close>

definition valueBytes :: "colKind \<Rightarrow> Scalars \<Rightarrow> bytes" where
  "valueBytes k x =
     (case k of
        kindString \<Rightarrow> putUvarint (of_nat (length (sc_s x))) @ sc_s x
      | kindBytes \<Rightarrow> putUvarint (of_nat (length (sc_raw x))) @ sc_raw x
      | _ \<Rightarrow> keyBytes k x)"

lemma encodeCell_Some:
  "kind c = Inr k \<Longrightarrow> coerce k v = Inr x \<Longrightarrow> encodeCell c (Some v) buf = Inr (buf @ rowPresent # valueBytes k x)"
  by (cases k) (simp_all add: encodeCell_def valueBytes_def keyBytes_def)

lemma UnixNano_range: "- (2 ^ 63) \<le> t \<Longrightarrow> t < 2 ^ 63 \<Longrightarrow> timeUnix (UnixNano t) = t"
  by (simp add: timeUnix_def UnixNano_def signed_of_int signed_take_bit_int_eq_self)

lemma ucast_scast:
  "(ucast (scast x :: u64) :: byte) = x" "(ucast (scast y :: u64) :: u16) = y" "(ucast (scast z :: u64) :: 32 word) = z"
  by (rule bit_word_eqI; simp add: bit_simps)+

lemma ucast_ucast:
  "(ucast (ucast x :: u64) :: byte) = x" "(ucast (ucast y :: u64) :: u16) = y" "(ucast (ucast z :: u64) :: 32 word) = z"
  by (rule bit_word_eqI; simp add: bit_simps)+

lemma decode_fixed:
  assumes "length raw = 8" "k \<noteq> kindString" "k \<noteq> kindBytes" "data = pre @ raw @ post"
  shows "decodeCell c k data (length pre) =
    Inr (case k of
           kindInt \<Rightarrow> narrowInt (cd_QType c) (decInt64 raw)
         | kindUint \<Rightarrow> narrowUint (cd_QType c) (uint64 raw)
         | kindFloat32 \<Rightarrow> VFloat32 (float32Of (decFloat64 raw))
         | kindFloat64 \<Rightarrow> VFloat64 (decFloat64 raw)
         | _ \<Rightarrow> VTime (timeUnix (decInt64 raw)), length (pre @ raw))"
  using assms by (simp add: decodeCell_def)

lemma decode_framed:
  assumes k: "k = kindString \<or> k = kindBytes" and data: "data = pre @ (putUvarint (of_nat (length b)) @ b) @ post"
    and len: "length data < 2 ^ 63"
  shows "decodeCell c k data (length pre) =
    Inr (if k = kindString then VString b else VBytes b, length (pre @ putUvarint (of_nat (length b)) @ b))"
proof -
  let ?n = "of_nat (length b) :: u64" and ?off = "length pre + length (putUvarint (of_nat (length b)))"
  have U: "Uvarint (drop (length pre) data) = (?n, int (length (putUvarint ?n)))"
    using Uvarint_putUvarint [of ?n "b @ post"] by (simp add: data)
  have le: "?off + length b \<le> length data" by (simp add: data)
  have s: "sint (of_nat m :: u64) = int m" if "m < 2 ^ 63" for m
    using that by (simp add: signed_of_nat signed_take_bit_int_eq_self)
  have sum: "of_nat (length pre) + word_of_int (int (length (putUvarint ?n))) + ?n = of_nat (?off + length b)"
    "of_nat ?off + ?n = (of_nat (?off + length b) :: u64)" by simp_all
  have "sint (of_nat (?off + length b) :: u64) = int (?off + length b)" using le len by (intro s) simp
  then show ?thesis
    using k le length_putUvarint [of ?n] unfolding decodeCell_def U
    by (auto simp only: prod.case Let_def sum nat_int simp_thms) (auto simp: data)
qed

lemma length_fixed: "k \<noteq> kindString \<Longrightarrow> k \<noteq> kindBytes \<Longrightarrow> length (keyBytes k x) = 8"
  by (cases k) (simp_all add: keyBytes_def encInt64_def encUint64_def encFloat64_word)

text \<open>The column's kind accepts a value of its type, and the stored form reads back as that value.\<close>

definition reads_back :: "colDef \<Rightarrow> GoVal \<Rightarrow> colKind \<Rightarrow> Scalars \<Rightarrow> bool" where
  "reads_back c v k x \<longleftrightarrow>
     kind c = Inr k \<and> coerce k v = Inr x \<and>
     (\<forall>pre post. length (pre @ valueBytes k x @ post) < 2 ^ 63 \<longrightarrow>
        decodeCell c k (pre @ valueBytes k x @ post) (length pre) = Inr (v, length (pre @ valueBytes k x)))"

lemma reads_back_fixed:
  assumes "k \<noteq> kindString" "k \<noteq> kindBytes" "kind c = Inr k" "coerce k v = Inr x"
    "v = (case k of
           kindInt \<Rightarrow> narrowInt (cd_QType c) (decInt64 (keyBytes k x))
         | kindUint \<Rightarrow> narrowUint (cd_QType c) (uint64 (keyBytes k x))
         | kindFloat32 \<Rightarrow> VFloat32 (float32Of (decFloat64 (keyBytes k x)))
         | kindFloat64 \<Rightarrow> VFloat64 (decFloat64 (keyBytes k x))
         | _ \<Rightarrow> VTime (timeUnix (decInt64 (keyBytes k x))))"
  shows "reads_back c v k x"
proof -
  have "valueBytes k x = keyBytes k x" using assms(1,2) by (cases k) (simp_all add: valueBytes_def)
  then show ?thesis
    using decode_fixed [OF length_fixed [OF assms(1,2)] assms(1,2) refl] assms(3,4) assms(5) [symmetric]
    unfolding reads_back_def by simp
qed

lemma reads_back_framed:
  assumes "kind c = Inr k" "coerce k v = Inr x"
    "k = kindString \<and> v = VString (sc_s x) \<or> k = kindBytes \<and> v = VBytes (sc_raw x)"
  shows "reads_back c v k x"
  unfolding reads_back_def
proof (intro conjI allI impI)
  fix pre post assume len: "length (pre @ valueBytes k x @ post) < 2 ^ 63"
  let ?b = "if k = kindString then sc_s x else sc_raw x"
  have k: "k = kindString \<or> k = kindBytes" "v = (if k = kindString then VString ?b else VBytes ?b)" using assms(3) by auto
  have v: "valueBytes k x = putUvarint (of_nat (length ?b)) @ ?b" using k(1) by (auto simp: valueBytes_def)
  show "decodeCell c k (pre @ valueBytes k x @ post) (length pre) = Inr (v, length (pre @ valueBytes k x))"
    using decode_framed [OF k(1) refl] len unfolding v k(2) by simp
qed (rule assms)+

lemma typed_reads_back:
  assumes "typed (cd_QType c) v"
  shows "\<exists>k x. reads_back c v k x"
proof -
  note defs = kind_def kindOfQType_def coerce_def Let_def keyBytes_def narrowInt_def narrowUint_def zeroScalars_def
    encUint64_def ucast_scast ucast_ucast float32Of_float64Of UnixNano_range
  have i: "\<exists>k x. reads_back c v k x" if "kind c = Inr kindInt" "coerce kindInt v = Inr x" "v = narrowInt (cd_QType c) (sc_i x)" for x
    using that reads_back_fixed [of kindInt c v x] by (auto simp: keyBytes_def)
  have u: "\<exists>k x. reads_back c v k x" if "kind c = Inr kindUint" "coerce kindUint v = Inr x" "v = narrowUint (cd_QType c) (sc_u x)" for x
    using that reads_back_fixed [of kindUint c v x] by (auto simp: keyBytes_def encUint64_def)
  have f: "\<exists>k x. reads_back c v k x" if "kind c = Inr k" "coerce k v = Inr x" "k = kindFloat32 \<and> v = VFloat32 (float32Of (sc_f x)) \<or> k = kindFloat64 \<and> v = VFloat64 (sc_f x)" for k x
    by (intro exI, rule reads_back_fixed [of k c v x]) (use that in \<open>auto simp: keyBytes_def\<close>)
  have d: "\<exists>k x. reads_back c v k x" if "kind c = Inr kindDatetime" "coerce kindDatetime v = Inr x" "v = VTime (timeUnix (UnixNano (sc_t x)))" for x
    by (intro exI, rule reads_back_fixed [of kindDatetime c v x]) (use that in \<open>auto simp: keyBytes_def\<close>)
  have b: "\<exists>k x. reads_back c v k x" if "kind c = Inr k" "coerce k v = Inr x" "k = kindString \<and> v = VString (sc_s x) \<or> k = kindBytes \<and> v = VBytes (sc_raw x)" for k x
    by (intro exI, rule reads_back_framed [OF that])
  show ?thesis
  proof (cases v)
    case (VInt8 y)
    show ?thesis by (intro i [of "zeroScalars\<lparr>sc_i := scast y\<rparr>"]) (use assms VInt8 in \<open>auto simp: typed_def defs\<close>)
  next
    case (VInt16 y)
    show ?thesis by (intro i [of "zeroScalars\<lparr>sc_i := scast y\<rparr>"]) (use assms VInt16 in \<open>auto simp: typed_def defs\<close>)
  next
    case (VInt32 y)
    show ?thesis by (intro i [of "zeroScalars\<lparr>sc_i := scast y\<rparr>"]) (use assms VInt32 in \<open>auto simp: typed_def defs\<close>)
  next
    case (VInt64 y)
    show ?thesis by (intro i [of "zeroScalars\<lparr>sc_i := y\<rparr>"]) (use assms VInt64 in \<open>auto simp: typed_def defs\<close>)
  next
    case (VUint8 y)
    show ?thesis by (intro u [of "zeroScalars\<lparr>sc_u := ucast y\<rparr>"]) (use assms VUint8 in \<open>auto simp: typed_def defs\<close>)
  next
    case (VUint16 y)
    show ?thesis by (intro u [of "zeroScalars\<lparr>sc_u := ucast y\<rparr>"]) (use assms VUint16 in \<open>auto simp: typed_def defs\<close>)
  next
    case (VUint32 y)
    show ?thesis by (intro u [of "zeroScalars\<lparr>sc_u := ucast y\<rparr>"]) (use assms VUint32 in \<open>auto simp: typed_def defs\<close>)
  next
    case (VUint64 y)
    show ?thesis by (intro u [of "zeroScalars\<lparr>sc_u := y\<rparr>"]) (use assms VUint64 in \<open>auto simp: typed_def defs\<close>)
  next
    case (VFloat32 y)
    show ?thesis by (intro f [of kindFloat32 "zeroScalars\<lparr>sc_f := float64Of y\<rparr>"]) (use assms VFloat32 in \<open>auto simp: typed_def defs\<close>)
  next
    case (VFloat64 y)
    show ?thesis by (intro f [of kindFloat64 "zeroScalars\<lparr>sc_f := y\<rparr>"]) (use assms VFloat64 in \<open>auto simp: typed_def defs\<close>)
  next
    case (VString y)
    show ?thesis by (intro b [of kindString "zeroScalars\<lparr>sc_s := y\<rparr>"]) (use assms VString in \<open>auto simp: typed_def defs\<close>)
  next
    case (VBytes y)
    show ?thesis by (intro b [of kindBytes "zeroScalars\<lparr>sc_raw := y\<rparr>"]) (use assms VBytes in \<open>auto simp: typed_def defs\<close>)
  next
    case (VTime y)
    show ?thesis by (intro d [of "zeroScalars\<lparr>sc_t := y\<rparr>"]) (use assms VTime in \<open>auto simp: typed_def defs\<close>)
  qed (use assms in \<open>simp_all add: typed_def\<close>)
qed

lemma encodeRowLoop_decode:
  assumes "typedRow cols row" "encodeRowLoop cols row pre = Inr buf" "length buf < 2 ^ 63"
  shows "\<exists>bs. buf = pre @ bs \<and> decodeRowLoop cols buf (length pre) = Inr (row, length buf)"
  using assms
proof (induction cols row arbitrary: pre rule: typedRow.induct)
  case (2 c cols v row)
  obtain pre' where p: "encodeCell c v pre = Inr pre'" "encodeRowLoop cols row pre' = Inr buf"
    using 2(3) by (auto split: sum.splits)
  obtain bs where bs: "buf = pre' @ bs" "decodeRowLoop cols buf (length pre') = Inr (row, length buf)"
    using 2(1) [OF _ p(2) 2(4)] 2(2) by auto
  show ?case
  proof (cases v)
    case None
    then have "pre' = pre @ [rowNull]" using p(1) by (simp add: encodeCell_def)
    then show ?thesis using bs None by (simp add: nth_append)
  next
    case (Some y)
    then obtain k x where r: "reads_back c y k x" using 2(2) typed_reads_back [of c y] by auto
    then have k: "kind c = Inr k" "pre' = (pre @ [rowPresent]) @ valueBytes k x"
      using p(1) encodeCell_Some [of c k y x pre] Some by (auto simp: reads_back_def)
    then have "decodeCell c k buf (Suc (length pre)) = Inr (y, length pre')"
      using r 2(4) bs(1) unfolding reads_back_def by (metis append.assoc length_append_singleton)
    then show ?thesis using bs k Some by (simp add: nth_append)
  qed
qed simp_all

lemma encodeRowLoop_total: "typedRow cols row \<Longrightarrow> \<exists>buf. encodeRowLoop cols row pre = Inr buf"
proof (induction cols row arbitrary: pre rule: typedRow.induct)
  case (2 c cols v row)
  have "\<exists>pre'. encodeCell c v pre = Inr pre'"
  proof (cases v)
    case (Some y)
    then show ?thesis using 2(2) typed_reads_back [of c y] encodeCell_Some [of c] by (fastforce simp: reads_back_def)
  qed (simp add: encodeCell_def)
  then show ?case using 2 by auto
qed simp_all

lemma typedRow_length: "typedRow cols row \<Longrightarrow> length row = length cols"
  by (induction cols row rule: typedRow.induct) auto

section \<open>The codec on rows\<close>

text \<open>The Go type that a column type uses, for any value of it.\<close>

definition dynTyped :: "QueryType \<Rightarrow> GoVal \<Rightarrow> bool" where
  "dynTyped qt v \<longleftrightarrow> typed qt v \<or> qt = Type_FLOAT32 \<and> (\<exists>x. v = VFloat32 x)"

lemma timeUnix_bounds: "- (2 ^ 63) \<le> timeUnix n" "timeUnix n < 2 ^ 63"
  using sint_ge [of n] sint_lt [of n] by (simp_all add: timeUnix_def)

lemma decodeCell_typed:
  assumes "kind c = Inr k" "decodeCell c k data off = Inr (v, off')"
  shows "dynTyped (cd_QType c) v"
proof (cases "k = kindString \<or> k = kindBytes")
  case True
  then have "if k = kindString then \<exists>b. v = VString b else \<exists>b. v = VBytes b"
    using assms(2) unfolding decodeCell_def by (auto simp: Let_def split: prod.splits if_splits)
  then show ?thesis using assms(1) True
    by (auto simp: dynTyped_def typed_def kind_def kindOfQType_def split: if_splits)
next
  case False
  then have "v = (case k of
           kindInt \<Rightarrow> narrowInt (cd_QType c) (decInt64 (take 8 (drop off data)))
         | kindUint \<Rightarrow> narrowUint (cd_QType c) (uint64 (take 8 (drop off data)))
         | kindFloat32 \<Rightarrow> VFloat32 (float32Of (decFloat64 (take 8 (drop off data))))
         | kindFloat64 \<Rightarrow> VFloat64 (decFloat64 (take 8 (drop off data)))
         | _ \<Rightarrow> VTime (timeUnix (decInt64 (take 8 (drop off data)))))"
    using assms(2) unfolding decodeCell_def by (auto simp: Let_def split: if_splits)
  then show ?thesis using assms(1) False timeUnix_bounds
    by (auto simp: dynTyped_def typed_def kind_def kindOfQType_def narrowInt_def narrowUint_def split: if_splits)
qed

lemma decodeRowLoop_typed:
  "decodeRowLoop cols data off = Inr (row, off') \<Longrightarrow>
     list_all2 (\<lambda>c v. \<forall>x. v = Some x \<longrightarrow> dynTyped (cd_QType c) x) cols row"
proof (induction cols data off arbitrary: row rule: decodeRowLoop.induct)
  case (2 c cols data off)
  then show ?case
    by (auto simp: Let_def dest: decodeCell_typed split: if_splits sum.splits prod.splits)
qed simp

text \<open>C38. Type soundness of the row codec: whatever bytes \<^verbatim>\<open>decodeRow\<close> accepts, the row it returns has one cell per
  column, and every cell that is not NULL holds a value of the Go type that the column's type stands for.\<close>

theorem decodeRow_typed:
  assumes "decodeRow cols data = Inr row"
  shows "length row = length cols \<and> (\<forall>i < length cols. \<forall>v. row ! i = Some v \<longrightarrow> dynTyped (cd_QType (cols ! i)) v)"
proof -
  obtain off where "decodeRowLoop cols data 0 = Inr (row, off)"
    using assms by (auto simp: decodeRow_def split: sum.splits prod.splits if_splits)
  from decodeRowLoop_typed [OF this] show ?thesis by (auto simp: list_all2_conv_all_nth)
qed

theorem decodeRow_typed_witness:
  "let c = \<lparr>cd_Name = [], cd_QType = Type_TEXT, cd_Length = 0, cd_Precision = 0, cd_Nullable = True, cd_AutoInc = False\<rparr>
   in decodeRow [c] [1, 2, 7, 8] = Inr [Some (VString [7, 8])] \<and> dynTyped (cd_QType c) (VString [7, 8])"
proof -
  let ?c = "\<lparr>cd_Name = [], cd_QType = Type_TEXT, cd_Length = 0, cd_Precision = 0, cd_Nullable = True, cd_AutoInc = False\<rparr>"
  have d: "decodeRow [?c] [1, 2, 7, 8] = Inr [Some (VString [7, 8])]" by code_simp
  from decodeRow_typed [OF this] d show ?thesis by simp
qed

text \<open>C37. Round trip of rows: every row whose cells have the Go types of their columns encodes, and
  \<^verbatim>\<open>decodeRow\<close> reads the encoding back as the same row, value for value.\<close>

theorem row_roundtrip:
  assumes "typedRow cols row"
  shows "\<exists>data. encodeRow cols row = Inr data \<and> (length data < 2 ^ 63 \<longrightarrow> decodeRow cols data = Inr row)"
proof -
  obtain data where d: "encodeRowLoop cols row [] = Inr data" using encodeRowLoop_total [OF assms] by blast
  then show ?thesis using encodeRowLoop_decode [OF assms d] typedRow_length [OF assms]
    by (auto simp: encodeRow_def decodeRow_def)
qed

theorem row_roundtrip_witness:
  "let c = \<lparr>cd_Name = [], cd_QType = Type_TEXT, cd_Length = 0, cd_Precision = 0, cd_Nullable = True, cd_AutoInc = False\<rparr>;
       row = [Some (VString [7, 0]), None]
   in typedRow [c, c] row \<and> encodeRow [c, c] row = Inr [1, 2, 7, 0, 0] \<and> decodeRow [c, c] [1, 2, 7, 0, 0] = Inr row"
proof -
  let ?c = "\<lparr>cd_Name = [], cd_QType = Type_TEXT, cd_Length = 0, cd_Precision = 0, cd_Nullable = True, cd_AutoInc = False\<rparr>"
  let ?row = "[Some (VString [7, 0]), None]"
  have t: "typedRow [?c, ?c] ?row" by (simp add: typed_def)
  have e: "encodeRow [?c, ?c] ?row = Inr [1, 2, 7, 0, 0]" by code_simp
  show ?thesis using row_roundtrip [OF t] t e by simp
qed

end
