(* ===== verification/Index_Inv.thy ===== *)
theory Index_Inv
  imports Sql_Keys Codec_Inv "HOL-Library.Option_ord" "HOL-Library.Sublist"
begin

text \<open>
  The keyspaces of the SQL layer keep the order of the columns, and a range of the engine becomes a key
  range that contains the entry of every row in it. Ranks (\<open>keyRank\<close>) are the places of values in the
  order of their column; a NULL has the rank \<open>None\<close>, below every value.
\<close>

section \<open>The bytes after a prefix\<close>

lemma incLoop_Some: "incLoop bs = Some c \<Longrightarrow> \<exists>k y p. bs = replicate k 0xFF @ y # p \<and> y \<noteq> 0xFF \<and> c = (y + 1) # p"
proof (induction bs)
  case (Cons b bs)
  show ?case
  proof (cases "b = 0xFF")
    case True
    then obtain k y p where "bs = replicate k 0xFF @ y # p" "y \<noteq> 0xFF" "c = (y + 1) # p" using Cons by auto
    then show ?thesis using True by (intro exI [of _ "Suc k"]) auto
  next
    case False
    then show ?thesis using Cons.prems by (intro exI [of _ 0] exI [of _ b] exI [of _ bs]) simp
  qed
qed simp

lemma incBytes_Some: "incBytes b = Some c \<Longrightarrow> \<exists>p y k. b = p @ y # replicate k 0xFF \<and> y \<noteq> 0xFF \<and> c = p @ [y + 1]"
proof -
  assume "incBytes b = Some c"
  then obtain d where d: "incLoop (rev b) = Some d" "c = rev d" by (auto simp: incBytes_def)
  obtain k y p where r: "rev b = replicate k 0xFF @ y # p" "y \<noteq> 0xFF" "d = (y + 1) # p" using incLoop_Some [OF d(1)] by blast
  have "b = rev (replicate k 0xFF @ y # p)" using r(1) by (metis rev_rev_ident)
  then show ?thesis using r d(2) by (intro exI [of _ "rev p"] exI [of _ y] exI [of _ k]) simp
qed

lemma append_less_same: "p @ xs < p @ ys \<longleftrightarrow> xs < (ys :: bytes)" "p @ xs \<le> p @ ys \<longleftrightarrow> xs \<le> ys"
  by (induction p) auto

lemma byte_next: "(y :: byte) \<noteq> 0xFF \<Longrightarrow> z < y + 1 \<longleftrightarrow> z \<le> y" "(y :: byte) \<noteq> 0xFF \<Longrightarrow> y < y + 1" "z \<le> (0xFF :: byte)"
proof -
  have m: "(0xFF :: byte) = - 1" by simp
  show "z \<le> (0xFF :: byte)" unfolding m by simp
  assume "y \<noteq> 0xFF"
  then have u: "unat (y + 1) = Suc (unat y)" using unatSuc [of y] by (metis m add.commute add_eq_0_iff)
  show "z < y + 1 \<longleftrightarrow> z \<le> y" "y < y + 1" by (simp_all add: word_less_nat_alt word_le_nat_alt u less_Suc_eq_le)
qed

lemma replicate_top: "replicate k (0xFF :: byte) \<le> x \<Longrightarrow> prefix (replicate k 0xFF) x"
proof (induction k arbitrary: x)
  case (Suc k)
  then obtain a y where x: "x = a # y" by (cases x) auto
  have "a = 0xFF" using Suc.prems byte_next(3) [of a] by (auto simp: x)
  then show ?case using Suc by (auto simp: x)
qed simp

lemma between_prefix: "p @ s \<le> x \<Longrightarrow> x < p @ u \<Longrightarrow> prefix p (x :: bytes)"
proof (induction p arbitrary: x)
  case (Cons a p)
  then show ?case by (cases x) auto
qed simp

lemma le_append: "xs \<le> xs @ (ys :: bytes)"
  using append_less_same(2) [of xs "[]" ys] by simp

lemma incBytes_range:
  assumes "incBytes b = Some c"
  shows "b \<le> x \<and> x < c \<longleftrightarrow> prefix b x"
proof -
  obtain p y k where b: "b = p @ y # replicate k 0xFF" "y \<noteq> 0xFF" "c = p @ [y + 1]" using incBytes_Some [OF assms] by blast
  show ?thesis
  proof
    assume a: "b \<le> x \<and> x < c"
    then obtain t where t: "x = p @ t" using between_prefix [of p "y # replicate k 0xFF" x "[y + 1]"] by (auto simp: b prefix_def)
    with a have t': "y # replicate k 0xFF \<le> t" "t < [y + 1]" by (simp_all add: b append_less_same)
    then obtain z u where z: "t = z # u" by (cases t) auto
    then have "z = y" "replicate k 0xFF \<le> u" using t' byte_next(1) [OF b(2), of z] by auto
    then show "prefix b x" using replicate_top by (simp add: b t z)
  next
    assume "prefix b x"
    then obtain t where "x = p @ y # replicate k 0xFF @ t" by (auto simp: prefix_def b)
    then show "b \<le> x \<and> x < c" using byte_next(2) [OF b(2)] le_append by (simp add: b append_less_same)
  qed
qed

text \<open>What lies at or above a prefix but does not start with it lies above every string that does.\<close>

lemma incBytes_above: "incBytes b = Some c \<Longrightarrow> b \<le> x \<Longrightarrow> \<not> prefix b x \<Longrightarrow> c \<le> x"
  using incBytes_range [of b c x] by auto

lemma incBytes_below: "incBytes b = Some c \<Longrightarrow> x < b \<Longrightarrow> x < c"
  using incBytes_range [of b c b] by auto

section \<open>Columns of a key\<close>

definition rankOf :: "colKind \<Rightarrow> GoVal \<Rightarrow> keyRank option" where
  "rankOf k v = (case coerce k v of Inl e \<Rightarrow> None | Inr c \<Rightarrow> Some (scalarRank k c))"

text \<open>\<open>p\<close> is what a key holds for the column: in an index space a marker, and the value's key form unless it
  is NULL; in the primary keyspace the key form alone.\<close>

definition piece :: "bool \<Rightarrow> tableDef \<Rightarrow> Row \<Rightarrow> nat \<Rightarrow> bytes \<Rightarrow> bool" where
  "piece secondary def row ord p \<longleftrightarrow>
     ord < length row \<and>
     (case row ! ord of
        None \<Rightarrow> secondary \<and> p = [0]
      | Some v \<Rightarrow> ord < length (td_Columns def) \<and>
          (\<exists>k c. kind (td_Columns def ! ord) = Inr k \<and> coerce k v = Inr c \<and>
             p = (if secondary then [1] else []) @ keyBytes k c))"

lemma encodeIndexLoop_pieces:
  "encodeIndexLoop def row os buf n = Inr (key, n') \<Longrightarrow> \<exists>ps. key = buf @ concat ps \<and> list_all2 (piece True def row) os ps"
proof (induction os arbitrary: buf n)
  case (Cons ord os)
  have l: "ord < length row" using Cons.prems by (auto simp: at_def split: if_splits)
  show ?case
  proof (cases "row ! ord")
    case None
    then have "encodeIndexLoop def row os (buf @ [0]) True = Inr (key, n')" using Cons.prems l by (simp add: at_def)
    then obtain ps where "key = (buf @ [0]) @ concat ps" "list_all2 (piece True def row) os ps" using Cons.IH by blast
    moreover have "piece True def row ord [0]" using None l by (simp add: piece_def)
    ultimately show ?thesis by (intro exI [of _ "[0] # ps"]) simp
  next
    case (Some v)
    then obtain k c where k: "ord < length (td_Columns def)" "kind (td_Columns def ! ord) = Inr k" "coerce k v = Inr c"
      "encodeIndexLoop def row os (buf @ [1] @ keyBytes k c) n = Inr (key, n')"
      using Cons.prems l by (auto simp: at_def encodeKeyCol_keyBytes split: if_splits sum.splits)
    then obtain ps where "key = (buf @ [1] @ keyBytes k c) @ concat ps" "list_all2 (piece True def row) os ps" using Cons.IH by blast
    moreover have "piece True def row ord ([1] @ keyBytes k c)" using Some l k by (simp add: piece_def)
    ultimately show ?thesis by (intro exI [of _ "([1] @ keyBytes k c) # ps"]) simp
  qed
qed simp

lemma encodePKLoop_pieces:
  "encodePKLoop def row os buf = Inr key \<Longrightarrow> \<exists>ps. key = buf @ concat ps \<and> list_all2 (piece False def row) os ps"
proof (induction os arbitrary: buf)
  case (Cons ord os)
  then obtain v k c where k: "ord < length row" "row ! ord = Some v" "ord < length (td_Columns def)"
      "kind (td_Columns def ! ord) = Inr k" "coerce k v = Inr c" "encodePKLoop def row os (buf @ keyBytes k c) = Inr key"
    by (auto simp: at_def encodeKeyCol_keyBytes split: if_splits sum.splits option.splits)
  then obtain ps where "key = (buf @ keyBytes k c) @ concat ps" "list_all2 (piece False def row) os ps" using Cons.IH by blast
  moreover have "piece False def row ord (keyBytes k c)" using k by (simp add: piece_def)
  ultimately show ?case by (intro exI [of _ "keyBytes k c # ps"]) simp
qed simp

section \<open>Order\<close>

text \<open>The place of a row in a key: the ranks of its columns, compared one after the other.\<close>

definition cellRank :: "tableDef \<Rightarrow> Row \<Rightarrow> nat \<Rightarrow> keyRank option" where
  "cellRank def row ord =
     (case row ! ord of
        None \<Rightarrow> None
      | Some v \<Rightarrow> (case kind (td_Columns def ! ord) of Inl e \<Rightarrow> None | Inr k \<Rightarrow> rankOf k v))"

lemma piece_less:
  assumes "piece secondary def r ord p" "piece secondary def r' ord q"
  shows "p @ us < q @ vs \<longleftrightarrow> cellRank def r ord < cellRank def r' ord \<or> cellRank def r ord = cellRank def r' ord \<and> us < vs"
  using assms by (auto simp: piece_def cellRank_def rankOf_def keyBytes_less split: option.splits)

lemma pieces_less:
  assumes "list_all2 (piece secondary def r) os ps" "list_all2 (piece secondary def r') os qs"
  shows "concat ps @ us < concat qs @ vs \<longleftrightarrow>
    map (cellRank def r) os < map (cellRank def r') os \<or> map (cellRank def r) os = map (cellRank def r') os \<and> us < vs"
  using assms
proof (induction os arbitrary: ps qs)
  case (Cons ord os)
  obtain p ps' where p: "ps = p # ps'" "piece secondary def r ord p" "list_all2 (piece secondary def r) os ps'"
    using Cons.prems(1) by (auto simp: list_all2_Cons1)
  obtain q qs' where q: "qs = q # qs'" "piece secondary def r' ord q" "list_all2 (piece secondary def r') os qs'"
    using Cons.prems(2) by (auto simp: list_all2_Cons1)
  show ?case using piece_less [OF p(2) q(2), of "concat ps' @ us" "concat qs' @ vs"] Cons.IH [OF p(3) q(3)]
    by (auto simp: p(1) q(1))
qed simp

section \<open>Ranges\<close>

text \<open>What the engine means by a range of a column: the ranks between two cuts. NULL lies below every value.\<close>

definition aboveCut :: "colKind \<Rightarrow> Cut \<Rightarrow> keyRank option \<Rightarrow> bool" where
  "aboveCut k lo r =
     (case lo of
        BelowNull \<Rightarrow> True
      | AboveNull \<Rightarrow> r \<noteq> None
      | Below v \<Rightarrow> rankOf k v \<le> r
      | Above v \<Rightarrow> rankOf k v < r
      | AboveAll \<Rightarrow> False)"

definition belowCut :: "colKind \<Rightarrow> Cut \<Rightarrow> keyRank option \<Rightarrow> bool" where
  "belowCut k hi r =
     (case hi of
        BelowNull \<Rightarrow> False
      | AboveNull \<Rightarrow> r = None
      | Below v \<Rightarrow> r < rankOf k v
      | Above v \<Rightarrow> r \<le> rankOf k v
      | AboveAll \<Rightarrow> True)"

definition inColumn :: "tableDef \<Rightarrow> Row \<Rightarrow> nat \<Rightarrow> RangeColumnExpr \<Rightarrow> bool" where
  "inColumn def row ord expr \<longleftrightarrow>
     (\<forall>k. kind (td_Columns def ! ord) = Inr k \<longrightarrow>
        aboveCut k (re_LowerBound expr) (cellRank def row ord) \<and> belowCut k (re_UpperBound expr) (cellRank def row ord))"

text \<open>A row lies in a range when each of its indexed columns lies in the range of that column.\<close>

definition inRanges :: "tableDef \<Rightarrow> nat list \<Rightarrow> Row \<Rightarrow> RangeColumnExpr list \<Rightarrow> bool" where
  "inRanges def os row rng \<longleftrightarrow> (\<forall>(ord, expr) \<in> set (zip os rng). inColumn def row ord expr)"

lemma encodeCut_rank: "encodeCut k v = Inr enc \<Longrightarrow> \<exists>c. coerce k v = Inr c \<and> enc = keyBytes k c \<and> rankOf k v = Some (scalarRank k c)"
  by (auto simp: encodeCut_def encodeKeyCol_keyBytes rankOf_def split: sum.splits)

text \<open>How the key form of a cut value compares with a piece and what follows it.\<close>

lemma cut_piece:
  assumes p: "piece secondary def row ord p" and k: "kind (td_Columns def ! ord) = Inr k" and c: "coerce k v = Inr c"
  defines "b \<equiv> (if secondary then [1] else []) @ keyBytes k c"
  shows "rankOf k v \<le> cellRank def row ord \<Longrightarrow> b \<le> p @ t"
    "rankOf k v < cellRank def row ord \<Longrightarrow> \<not> prefix b (p @ t)"
    "cellRank def row ord < rankOf k v \<Longrightarrow> p @ t < b"
    "cellRank def row ord = rankOf k v \<Longrightarrow> p = b"
proof -
  have r: "rankOf k v = Some (scalarRank k c)" using c by (simp add: rankOf_def)
  have less: "p @ us < b @ vs \<longleftrightarrow> cellRank def row ord < rankOf k v \<or> cellRank def row ord = rankOf k v \<and> us < vs" for us vs
    using p k r by (auto simp: piece_def cellRank_def rankOf_def b_def keyBytes_less split: option.splits)
  show "rankOf k v \<le> cellRank def row ord \<Longrightarrow> b \<le> p @ t" using less [of t "[]"] by force
  show "cellRank def row ord < rankOf k v \<Longrightarrow> p @ t < b" using less [of t "[]"] by simp
  have eq: "p @ us = b @ vs \<Longrightarrow> cellRank def row ord = rankOf k v" for us vs
    using p k r by (auto simp: piece_def cellRank_def rankOf_def b_def keyBytes_eq split: option.splits if_splits)
  then show "rankOf k v < cellRank def row ord \<Longrightarrow> \<not> prefix b (p @ t)" by (auto simp: prefix_def)
  show "cellRank def row ord = rankOf k v \<Longrightarrow> p = b"
    using less [of "[]" "[]"] p k r keyBytes_eq [of k _ "[]" _ "[]"]
    by (auto simp: piece_def cellRank_def rankOf_def b_def split: option.splits)
qed

lemma prefix_drop: "prefix (pre @ b) (pre @ x) \<longleftrightarrow> prefix b x"
  by simp

lemma lower_bound:
  assumes p: "piece secondary def row ord p" and k: "kind (td_Columns def ! ord) = Inr k" "aboveCut k lo (cellRank def row ord)"
    and s: "(case lo of
               BelowNull \<Rightarrow> Some pre
             | AboveNull \<Rightarrow> Some (if \<not> secondary then pre else pre @ [1])
             | Below v \<Rightarrow> (case encodeCut k v of Inl e \<Rightarrow> None | Inr enc \<Rightarrow> Some (pre @ (if secondary then [1] else []) @ enc))
             | Above v \<Rightarrow> (case encodeCut k v of Inl e \<Rightarrow> None | Inr enc \<Rightarrow> incBytes (pre @ (if secondary then [1] else []) @ enc))
             | AboveAll \<Rightarrow> None) = Some start"
  shows "start \<le> pre @ p @ t"
proof (cases lo)
  case AboveNull
  then have "\<exists>q. p = (if secondary then [1] else []) @ q" using p k(2) by (auto simp: piece_def aboveCut_def cellRank_def split: option.splits)
  then show ?thesis using s AboveNull le_append by (auto simp: append_less_same)
next
  case (Below v)
  then obtain c where c: "coerce k v = Inr c" "start = pre @ (if secondary then [1] else []) @ keyBytes k c"
    using s encodeCut_rank [of k v] by (auto split: sum.splits)
  then show ?thesis using cut_piece(1) [OF p k(1) c(1)] k(2) Below by (simp add: append_less_same aboveCut_def)
next
  case (Above v)
  then obtain c where c: "coerce k v = Inr c" "incBytes (pre @ (if secondary then [1] else []) @ keyBytes k c) = Some start"
    using s encodeCut_rank [of k v] by (auto split: sum.splits)
  then show ?thesis using cut_piece(1,2) [OF p k(1) c(1), of t] k(2) Above
    by (intro incBytes_above [OF c(2)]) (simp_all only: append_less_same prefix_drop aboveCut_def Cut.case less_imp_le not_False_eq_True)
qed (use s in \<open>auto simp: le_append\<close>)

lemma upper_bound:
  assumes p: "piece secondary def row ord p" and k: "kind (td_Columns def ! ord) = Inr k" "belowCut k hi (cellRank def row ord)"
    and s: "(case hi of
               AboveAll \<Rightarrow> incBytes pre
             | Above v \<Rightarrow> (case encodeCut k v of Inl e \<Rightarrow> None | Inr enc \<Rightarrow> incBytes (pre @ (if secondary then [1] else []) @ enc))
             | Below v \<Rightarrow> (case encodeCut k v of Inl e \<Rightarrow> None | Inr enc \<Rightarrow> Some (pre @ (if secondary then [1] else []) @ enc))
             | AboveNull \<Rightarrow> if \<not> secondary then None else Some (pre @ [1])
             | BelowNull \<Rightarrow> None) = Some end"
  shows "pre @ p @ t < end"
proof (cases hi)
  case AboveAll
  then show ?thesis using s incBytes_range [of pre "end" "pre @ p @ t"] by simp
next
  case AboveNull
  then have "p = [0]" "end = pre @ [1]" using p k s by (auto simp: piece_def belowCut_def cellRank_def rankOf_def split: option.splits if_splits sum.splits)
  then show ?thesis by (simp add: append_less_same)
next
  case (Below v)
  then obtain c where c: "coerce k v = Inr c" "end = pre @ (if secondary then [1] else []) @ keyBytes k c"
    using s encodeCut_rank [of k v] by (auto split: sum.splits)
  then show ?thesis using cut_piece(3) [OF p k(1) c(1)] k(2) Below by (simp add: append_less_same belowCut_def)
next
  case (Above v)
  let ?b = "(if secondary then [1] else [])"
  obtain c where c: "coerce k v = Inr c" "incBytes (pre @ ?b @ keyBytes k c) = Some end"
    using s Above encodeCut_rank [of k v] by (auto split: sum.splits)
  have "cellRank def row ord < rankOf k v \<or> cellRank def row ord = rankOf k v" using k(2) Above by (auto simp: belowCut_def)
  then show ?thesis
  proof
    assume "cellRank def row ord < rankOf k v"
    then have "pre @ p @ t < pre @ ?b @ keyBytes k c" unfolding append_less_same by (rule cut_piece(3) [OF p k(1) c(1)])
    then show ?thesis by (rule incBytes_below [OF c(2)])
  next
    assume "cellRank def row ord = rankOf k v"
    then have "p = ?b @ keyBytes k c" by (rule cut_piece(4) [OF p k(1) c(1)])
    then show ?thesis using incBytes_range [OF c(2), of "pre @ p @ t"] by simp
  qed
qed (use s in simp)

lemma boundedColumn_superset:
  assumes p: "piece secondary def row ord p" and k: "kind (td_Columns def ! ord) = Inr k" "aboveCut k lo (cellRank def row ord)"
      "belowCut k hi (cellRank def row ord)"
    and b: "boundedColumn pre (if secondary then 1 else 0) k lo hi = Some (start, end)"
  shows "start \<le> pre @ p @ t \<and> pre @ p @ t < end"
proof
  show "start \<le> pre @ p @ t"
    by (rule lower_bound [OF p k(1,2)]) (use b in \<open>cases secondary; cases lo; auto simp: boundedColumn_def Let_def split: option.splits sum.splits\<close>)
  show "pre @ p @ t < end"
    by (rule upper_bound [OF p k(1,3)]) (use b in \<open>cases secondary; cases hi; auto simp: boundedColumn_def Let_def split: option.splits sum.splits\<close>)
qed

lemma exact_piece:
  assumes p: "piece secondary def row ord p" and k: "kind (td_Columns def ! ord) = Inr k" "aboveCut k lo (cellRank def row ord)"
      "belowCut k hi (cellRank def row ord)"
    and e: "rangeColumn secondary k pre lo hi = Exact pre'"
  shows "pre' = pre @ p"
proof (cases "lo = BelowNull \<and> hi = AboveNull \<and> secondary")
  case True
  then have "p = [0]" using p k by (auto simp: piece_def belowCut_def cellRank_def rankOf_def split: option.splits sum.splits)
  then show ?thesis using True e by (simp add: rangeColumn_def)
next
  case False
  then obtain v w enc where v: "lo = Below v" "hi = Above w" "encodeCut k v = Inr enc" "encodeCut k w = Inr enc"
    "pre' = pre @ (if secondary then [1] else []) @ enc"
    using e unfolding rangeColumn_def by (auto simp: Let_def split: Cut.splits sum.splits if_splits)
  obtain c where c: "coerce k v = Inr c" "enc = keyBytes k c" "rankOf k v = Some (scalarRank k c)" using encodeCut_rank [OF v(3)] by blast
  have "rankOf k w = rankOf k v" using encodeCut_rank [OF v(4)] c keyBytes_eq [of k _ "[]" _ "[]"] by auto
  then have "cellRank def row ord = rankOf k v" using k(2,3) by (simp add: v aboveCut_def belowCut_def)
  then show ?thesis using cut_piece(4) [OF p k(1) c(1)] by (simp add: v(5) c(2))
qed

lemma rangeLoop_superset:
  assumes "list_all2 (piece secondary def row) os ps" "inRanges def os row rng"
    "rangeLoop secondary def os rng pre = Inr (Some (start, end))"
  shows "start \<le> pre @ concat ps @ t \<and> pre @ concat ps @ t < end"
  using assms
proof (induction secondary def os rng pre arbitrary: ps rule: rangeLoop.induct)
  case (1 secondary def ord os expr rng pre)
  obtain p ps' where p: "ps = p # ps'" "piece secondary def row ord p" "list_all2 (piece secondary def row) os ps'"
    using 1(2) by (auto simp: list_all2_Cons1)
  obtain k where c: "at (td_Columns def) ord = Inr (td_Columns def ! ord)" "kind (td_Columns def ! ord) = Inr k"
    using 1(4) by (auto simp: at_def split: if_splits sum.splits)
  have col: "aboveCut k (re_LowerBound expr) (cellRank def row ord)" "belowCut k (re_UpperBound expr) (cellRank def row ord)"
    "inRanges def os row rng" using 1(3) c(2) by (auto simp: inRanges_def inColumn_def)
  show ?case
  proof (cases "rangeColumn secondary k pre (re_LowerBound expr) (re_UpperBound expr)")
    case (Exact pre')
    have e: "pre' = pre @ p" by (rule exact_piece [OF p(2) c(2) col(1,2) Exact])
    have "rangeLoop secondary def os rng pre' = Inr (Some (start, end))" using 1(4) c Exact by simp
    from 1(1) [OF c Exact p(3) col(3) this] show ?thesis by (simp add: e p(1))
  next
    case (Ranged b)
    then have "boundedColumn pre (if secondary then 1 else 0) k (re_LowerBound expr) (re_UpperBound expr) = Some (start, end)"
      using 1(4) c by (auto simp: rangeColumn_def Let_def split: Cut.splits sum.splits if_splits)
    from boundedColumn_superset [OF p(2) c(2) col(1,2) this, of "concat ps' @ t"] show ?thesis by (simp add: p(1))
  qed
qed (use incBytes_range prefix_def in fastforce)+

section \<open>Keys of rows\<close>

lemma pieces_eq:
  assumes "list_all2 (piece secondary def r) os ps" "list_all2 (piece secondary def r') os qs"
  shows "concat ps @ us = concat qs @ vs \<longleftrightarrow> map (cellRank def r) os = map (cellRank def r') os \<and> us = vs"
  using pieces_less [OF assms, of us vs] pieces_less [OF assms(2,1), of vs us] by (metis linorder_neq_iff)

lemma encodePK_pieces: "encodePK def r = Inr pk \<Longrightarrow> \<exists>ps. pk = concat ps \<and> list_all2 (piece False def r) (td_PKOrds def) ps"
  using encodePKLoop_pieces [of def r "td_PKOrds def" "[]" pk] by (simp add: encodePK_def)

lemma encodeIndexCols_pieces:
  "encodeIndexCols def idx r = Inr (c, n) \<Longrightarrow> \<exists>ps. c = concat ps \<and> list_all2 (piece True def r) (ix_ColOrds idx) ps"
  using encodeIndexLoop_pieces [of def r "ix_ColOrds idx" "[]" False c n] by (simp add: encodeIndexCols_def)


section \<open>Bounds stay within a space\<close>

lemma prefix_between: "(pre :: bytes) \<le> x \<Longrightarrow> x < pre @ y \<Longrightarrow> prefix pre x"
proof (induction pre arbitrary: x)
  case (Cons b pre)
  then show ?case by (cases x) auto
qed simp

lemma incBytes_between:
  assumes "incBytes (pre @ y) = Some c" "pre \<le> x" "x < c"
  shows "prefix pre x"
proof (cases "x < pre @ y")
  case True
  then show ?thesis by (rule prefix_between [OF assms(2)])
next
  case False
  then have "prefix (pre @ y) x" using incBytes_range [OF assms(1), of x] assms(3) False by (simp add: not_less)
  then show ?thesis by (rule append_prefixD)
qed

lemma incBytes_greater: "incBytes b = Some c \<Longrightarrow> b < c"
  using incBytes_range [of b c b] by simp

lemma boundedColumn_space:
  assumes "boundedColumn pre m k lo hi = Some (start, end)"
  shows "pre \<le> start \<and> (\<forall>x. pre \<le> x \<longrightarrow> x < end \<longrightarrow> prefix pre x)"
proof -
  have le: "pre \<le> pre @ y" for y by (simp add: le_append)
  have inc: "pre \<le> c" if "incBytes (pre @ y) = Some c" for y c
    using incBytes_greater [OF that] le [of y] by simp
  have inc0: "\<exists>y. incBytes (pre @ y) = Some e" if "incBytes pre = Some e" for e using that by (intro exI [of _ "[]"]) simp
  have "(\<exists>y. start = pre @ y) \<or> (\<exists>y. incBytes (pre @ y) = Some start)"
    using assms by (cases lo) (auto simp: boundedColumn_def Let_def split: option.splits sum.splits if_splits)
  then have lo: "pre \<le> start" using le inc by blast
  have "(\<exists>y. end = pre @ y) \<or> (\<exists>y. incBytes (pre @ y) = Some end)"
    using assms by (cases hi) (auto simp: boundedColumn_def Let_def split: option.splits sum.splits if_splits dest!: inc0)
  then show ?thesis
  proof (elim disjE exE)
    fix y assume "end = pre @ y"
    then show ?thesis using lo prefix_between by simp
  next
    fix y assume "incBytes (pre @ y) = Some end"
    from incBytes_between [OF this] show ?thesis using lo by blast
  qed
qed

lemma rangeColumn_Exact: "rangeColumn secondary k pre lo hi = Exact pre' \<Longrightarrow> prefix pre pre'"
  unfolding rangeColumn_def by (auto simp: Let_def split: if_splits Cut.splits sum.splits)

lemma rangeColumn_Ranged:
  "rangeColumn secondary k pre lo hi = Ranged (Some b) \<Longrightarrow> boundedColumn pre (if secondary then 1 else 0) k lo hi = Some b"
  unfolding rangeColumn_def by (auto simp: Let_def split: if_splits Cut.splits sum.splits)

lemma rangeLoop_space:
  "rangeLoop secondary def os rng pre = Inr (Some (start, end)) \<Longrightarrow> start \<le> x \<Longrightarrow> x < end \<Longrightarrow> prefix pre x"
proof (induction secondary def os rng pre rule: rangeLoop.induct)
  case (1 secondary def ord os expr rng pre)
  obtain col k where k: "at (td_Columns def) ord = Inr col" "kind col = Inr k"
    using 1(2) by (auto split: sum.splits)
  show ?case
  proof (cases "rangeColumn secondary k pre (re_LowerBound expr) (re_UpperBound expr)")
    case (Exact pre')
    then have "prefix pre' x" using 1 k by simp
    then show ?thesis using rangeColumn_Exact [OF Exact] prefix_order.trans by blast
  next
    case (Ranged b)
    then have "boundedColumn pre (if secondary then 1 else 0) k (re_LowerBound expr) (re_UpperBound expr) = Some (start, end)"
      using 1(2) k rangeColumn_Ranged [of secondary k pre "re_LowerBound expr" "re_UpperBound expr"] by simp
    from boundedColumn_space [OF this] show ?thesis using 1(3,4) by force
  qed
qed (use incBytes_range in auto)


text \<open>A table with one integer column, its key, for the witnesses.\<close>

definition intTable :: tableDef where
  "intTable = \<lparr>td_ID = 1, td_Name = [], td_Columns = [\<lparr>cd_Name = [], cd_QType = Type_INT64, cd_Length = 0, cd_Precision = 0,
     cd_Nullable = False, cd_AutoInc = False\<rparr>], td_PKOrds = [0], td_Comment = [], td_Indexes = [], td_autoIncNext = 0\<rparr>"



end
