(* ===== verification/Table_Inv.thy ===== *)
theory Table_Inv
  imports Sql_Inv Index_Inv
begin

text \<open>
  Tables as maps from primary keys to rows. A table's content lies in three places: the rows in the ledger, an empty record
  per row in the primary keyspace and an entry per row and index in the index keyspaces. \<open>entriesOk\<close> and
  \<open>rowsOk\<close> relate them to one abstract map, and \<open>rowOpsLoop_state\<close> shows that the two batches
  \<^verbatim>\<open>buildRowOps\<close> makes of pending rows take all three to the map with these rows written.
\<close>

type_synonym rows = "bytes \<rightharpoonup> Row"

section \<open>Derived entries\<close>

text \<open>A row that its table can hold: its primary key is \<open>pk\<close>, it encodes, and so do its index columns.\<close>

definition rowOk :: "tableDef \<Rightarrow> bytes \<Rightarrow> Row \<Rightarrow> bool" where
  "rowOk def pk row \<longleftrightarrow>
     encodePK def row = Inr pk \<and> typedRow (td_Columns def) row \<and>
     (\<forall>value. encodeRow (td_Columns def) row = Inr value \<longrightarrow> length value < 2 ^ 63) \<and>
     (\<forall>idx \<in> set (td_Indexes def). \<exists>k. indexKey def idx pk row = Inr k)"

text \<open>The derived keyspaces hold exactly the entries of the rows: a key in the primary keyspace per row, and one in
  each index space.\<close>

definition entriesOk :: "tableDef \<Rightarrow> rows \<Rightarrow> (bytes \<rightharpoonup> bytes) \<Rightarrow> bool" where
  "entriesOk def T V \<longleftrightarrow>
     (\<forall>pk. V (scanKey (td_ID def) pk) = (if T pk = None then None else Some [])) \<and>
     (\<forall>idx \<in> set (td_Indexes def). \<forall>t pk. V (secondarySpace (ix_ID idx) @ t) = Some pk \<longleftrightarrow>
        (\<exists>row. T pk = Some row \<and> indexKey def idx pk row = Inr (secondarySpace (ix_ID idx) @ t)))"

definition tableOk :: "tableDef \<Rightarrow> rows \<Rightarrow> bool" where
  "tableOk def T \<longleftrightarrow> distinct (map ix_ID (td_Indexes def)) \<and> (\<forall>pk row. T pk = Some row \<longrightarrow> rowOk def pk row)"

lemma space_eq [simp]: "secondarySpace a @ t = secondarySpace b @ u \<longleftrightarrow> a = b \<and> t = u"
  by (auto simp: secondarySpace_def)

lemma scanKey_eq [simp]:
  "scanKey a t = scanKey b u \<longleftrightarrow> a = b \<and> t = u" "scanKey a t \<noteq> secondarySpace b @ u" "secondarySpace b @ u \<noteq> scanKey a t"
  by (auto simp: secondarySpace_def scanKey_def)

lemma indexKey_space: "indexKey def idx pk row = Inr k \<Longrightarrow> \<exists>t. k = secondarySpace (ix_ID idx) @ t"
  by (auto simp: indexKey_def split: sum.splits)

text \<open>An index key names its row.\<close>

lemma indexKey_inj:
  assumes "indexKey def idx pk r = Inr k" "indexKey def idx pk' r' = Inr k"
  shows "pk = pk'"
proof -
  obtain c n c' n' where c: "encodeIndexCols def idx r = Inr (c, n)" "encodeIndexCols def idx r' = Inr (c', n')" "c @ pk = c' @ pk'"
    using assms by (auto simp: indexKey_def split: sum.splits)
  obtain ps where ps: "c = concat ps" "list_all2 (piece True def r) (ix_ColOrds idx) ps" using encodeIndexCols_pieces [OF c(1)] by blast
  obtain qs where qs: "c' = concat qs" "list_all2 (piece True def r') (ix_ColOrds idx) qs" using encodeIndexCols_pieces [OF c(2)] by blast
  show ?thesis using pieces_eq [OF ps(2) qs(2), of pk pk'] c(3) by (simp add: ps(1) qs(1))
qed

section \<open>The operations of a row\<close>

lemma applyBatch_dels: "\<forall>op \<in> set ops. bo_delete op \<Longrightarrow> applyBatch ops V k = (if k \<in> bo_key ` set ops then None else V k)"
  by (induction ops rule: rev_induct) (auto simp: applyBatch_snoc applyOp_def, simp add: applyBatch_def)

lemma applyBatch_puts:
  "\<forall>op \<in> set ops. \<not> bo_delete op \<and> bo_value op = v \<Longrightarrow> applyBatch ops V k = (if k \<in> bo_key ` set ops then Some v else V k)"
  by (induction ops rule: rev_induct) (auto simp: applyBatch_snoc applyOp_def, simp add: applyBatch_def)

lemma applyBatch_append: "applyBatch (xs @ ys) V = applyBatch ys (applyBatch xs V)"
  by (simp add: applyBatch_def)

lemma applyBatch_Cons: "applyBatch (x # xs) V = applyBatch xs (applyOp V x)"
  by (simp add: applyBatch_def)

text \<open>The keys of the index entries of a row.\<close>

definition indexKeys :: "tableDef \<Rightarrow> bytes \<Rightarrow> Row option \<Rightarrow> bytes set" where
  "indexKeys def pk row = {k. \<exists>r idx. row = Some r \<and> idx \<in> set (td_Indexes def) \<and> indexKey def idx pk r = Inr k}"

lemma indexOpsLoop_keys:
  "indexOpsLoop def row pk rm idxs = Inr ops \<Longrightarrow>
     bo_key ` set ops = {k. \<exists>idx \<in> set idxs. indexKey def idx pk row = Inr k} \<and>
     (\<forall>op \<in> set ops. bo_delete op = rm \<and> bo_value op = (if rm then [] else pk)) \<and>
     (\<forall>idx \<in> set idxs. \<exists>k. indexKey def idx pk row = Inr k)"
proof (induction idxs arbitrary: ops)
  case (Cons idx idxs)
  obtain c n os where c: "encodeIndexCols def idx row = Inr (c, n)" "indexOpsLoop def row pk rm idxs = Inr os"
    "ops = \<lparr>bo_key = secondarySpace (ix_ID idx) @ c @ pk, bo_value = (if rm then [] else pk), bo_delete = rm\<rparr> # os"
    using Cons.prems by (auto simp: Let_def split: sum.splits prod.splits)
  have "indexKey def idx pk row = Inr (secondarySpace (ix_ID idx) @ c @ pk)" using c(1) by (simp add: indexKey_def)
  then show ?case using Cons.IH [OF c(2)] c(3) by auto
qed simp

lemma indexOps_keys:
  assumes "indexOps def row pk rm = Inr ops"
  shows "bo_key ` set ops = indexKeys def pk (Some row)" "\<forall>op \<in> set ops. bo_delete op = rm \<and> bo_value op = (if rm then [] else pk)"
  using indexOpsLoop_keys [OF assms [unfolded indexOps_def]] by (auto simp: indexKeys_def)

lemma indexKeys_None [simp]: "indexKeys def pk None = {}"
  by (simp add: indexKeys_def)

text \<open>The effect of the operations on the derived keyspaces.\<close>

lemma buildRowOps_effect:
  assumes "buildRowOps def p = Inr (lo, so)"
  shows "applyBatch so V k =
    (if pr_old p = None \<and> pr_new p = None then V k
     else if k \<in> indexKeys def (pr_pkEnc p) (pr_new p) then Some (pr_pkEnc p)
     else if k \<in> indexKeys def (pr_pkEnc p) (pr_old p) then None
     else if k = scanKey (td_ID def) (pr_pkEnc p) then (if pr_new p = None then None else Some [])
     else V k)" (is "_ = ?R") and "\<forall>op \<in> set so. foreign (bo_key op)"
proof -
  let ?sk = "scanKey (td_ID def) (pr_pkEnc p)"
  have ik: "foreign k" "k \<noteq> ?sk" if "k \<in> indexKeys def (pr_pkEnc p) row" for k row
    using that indexKey_space by (fastforce simp: indexKeys_def)+
  have A: "so = [] \<and> pr_old p = None \<and> pr_new p = None \<or>
    (\<exists>old new. so = \<lparr>bo_key = ?sk, bo_value = [], bo_delete = (pr_new p = None)\<rparr> # old @ new \<and>
       (pr_old p \<noteq> None \<or> pr_new p \<noteq> None) \<and>
       bo_key ` set old = indexKeys def (pr_pkEnc p) (pr_old p) \<and> (\<forall>op \<in> set old. bo_delete op) \<and>
       bo_key ` set new = indexKeys def (pr_pkEnc p) (pr_new p) \<and> (\<forall>op \<in> set new. \<not> bo_delete op \<and> bo_value op = pr_pkEnc p))"
  proof (cases "pr_new p")
    case None
    show ?thesis
    proof (cases "pr_old p")
      case (Some old)
      then obtain ops where "indexOps def old (pr_pkEnc p) True = Inr ops" "so = \<lparr>bo_key = ?sk, bo_value = [], bo_delete = True\<rparr> # ops @ []"
        using assms None by (auto simp: buildRowOps_def Let_def split: sum.splits)
      then show ?thesis using indexOps_keys [of def old _ True ops] None Some by fastforce
    qed (use assms None in \<open>simp add: buildRowOps_def\<close>)
  next
    case (Some new)
    obtain oldOps newOps where o: "(case pr_old p of None \<Rightarrow> Inr [] | Some r \<Rightarrow> indexOps def r (pr_pkEnc p) True) = Inr oldOps"
      "indexOps def new (pr_pkEnc p) False = Inr newOps" "so = \<lparr>bo_key = ?sk, bo_value = [], bo_delete = False\<rparr> # oldOps @ newOps"
      using assms Some by (auto simp: buildRowOps_def Let_def split: sum.splits)
    have "bo_key ` set oldOps = indexKeys def (pr_pkEnc p) (pr_old p)" "\<forall>op \<in> set oldOps. bo_delete op"
      using o(1) indexOps_keys [of def _ "pr_pkEnc p" True oldOps] by (auto split: option.splits)
    then show ?thesis using o(3) indexOps_keys [OF o(2)] Some
      by (intro disjI2 exI [of _ oldOps] exI [of _ newOps]) simp
  qed
  then show "\<forall>op \<in> set so. foreign (bo_key op)" using ik by fastforce
  show "applyBatch so V k = ?R"
  proof (cases "pr_old p = None \<and> pr_new p = None")
    case False
    then obtain old new where so: "so = \<lparr>bo_key = ?sk, bo_value = [], bo_delete = (pr_new p = None)\<rparr> # old @ new"
      and old: "bo_key ` set old = indexKeys def (pr_pkEnc p) (pr_old p)" "\<forall>op \<in> set old. bo_delete op"
      and new: "bo_key ` set new = indexKeys def (pr_pkEnc p) (pr_new p)" "\<forall>op \<in> set new. \<not> bo_delete op \<and> bo_value op = pr_pkEnc p"
      using A by auto
    show ?thesis unfolding so applyBatch_Cons applyBatch_append applyBatch_puts [OF new(2)] applyBatch_dels [OF old(2)] old(1) new(1)
      using False by (auto simp: applyOp_def)
  qed (use A in \<open>auto simp: applyBatch_def\<close>)
qed

section \<open>Pending rows\<close>

text \<open>A pending row against the table it is based on: the old image is the row that the table holds, and the new one
  is a row that it can hold.\<close>

definition pendingOk :: "tableDef \<Rightarrow> rows \<Rightarrow> pendingRow \<Rightarrow> bool" where
  "pendingOk def T p \<longleftrightarrow> pr_old p = T (pr_pkEnc p) \<and> (\<forall>new. pr_new p = Some new \<longrightarrow> rowOk def (pr_pkEnc p) new)"

definition afterRows :: "rows \<Rightarrow> pendingRow list \<Rightarrow> rows" where
  "afterRows T ps = foldl (\<lambda>T p. T(pr_pkEnc p := pr_new p)) T ps"

lemma tableOk_upd: "tableOk def T \<Longrightarrow> pendingOk def T p \<Longrightarrow> tableOk def (T(pr_pkEnc p := pr_new p))"
  by (simp add: tableOk_def pendingOk_def)

lemma in_indexKeys:
  assumes "distinct (map ix_ID (td_Indexes def))" "idx \<in> set (td_Indexes def)"
  shows "secondarySpace (ix_ID idx) @ t \<in> indexKeys def pk row \<longleftrightarrow>
    (\<exists>r. row = Some r \<and> indexKey def idx pk r = Inr (secondarySpace (ix_ID idx) @ t))"
proof -
  have "idx' = idx" if "idx' \<in> set (td_Indexes def)" "indexKey def idx' pk r = Inr (secondarySpace (ix_ID idx) @ t)" for idx' r
    using indexKey_space [OF that(2)] that(1) assms by (auto simp: distinct_map dest: inj_onD)
  then show ?thesis using assms(2) by (auto simp: indexKeys_def)
qed

lemma entries_upd:
  assumes e: "entriesOk def T V" and ok: "tableOk def T" and p: "pendingOk def T p" and b: "buildRowOps def p = Inr (lo, so)"
  shows "entriesOk def (T(pr_pkEnc p := pr_new p)) (applyBatch so V)"
proof -
  let ?pk = "pr_pkEnc p" and ?T = "T(pr_pkEnc p := pr_new p)"
  have old: "pr_old p = T ?pk" using p by (simp add: pendingOk_def)
  have no: "scanKey i k \<notin> indexKeys def ?pk row" for i k row by (auto simp: indexKeys_def dest: indexKey_space)
  have "applyBatch so V (scanKey (td_ID def) pk) = (if ?T pk = None then None else Some [])" for pk
    using e old unfolding buildRowOps_effect(1) [OF b] by (auto simp: entriesOk_def no)
  moreover have "applyBatch so V (secondarySpace (ix_ID idx) @ t) = Some pk \<longleftrightarrow>
      (\<exists>row. ?T pk = Some row \<and> indexKey def idx pk row = Inr (secondarySpace (ix_ID idx) @ t))"
    if i: "idx \<in> set (td_Indexes def)" for idx t pk
  proof -
    let ?k = "secondarySpace (ix_ID idx) @ t"
    have d: "distinct (map ix_ID (td_Indexes def))" using ok by (simp add: tableOk_def)
    have V: "V ?k = Some q \<longleftrightarrow> (\<exists>row. T q = Some row \<and> indexKey def idx q row = Inr ?k)" for q
      using e i by (simp add: entriesOk_def)
    let ?N = "\<exists>r. pr_new p = Some r \<and> indexKey def idx ?pk r = Inr ?k"
    let ?O = "\<exists>r. T ?pk = Some r \<and> indexKey def idx ?pk r = Inr ?k"
    let ?R = "\<exists>row. T pk = Some row \<and> indexKey def idx pk row = Inr ?k"
    have inj: "\<not> ?N \<and> \<not> ?O" if "pk \<noteq> ?pk" ?R
      using that indexKey_inj by blast
    have eff: "applyBatch so V ?k =
      (if T ?pk = None \<and> pr_new p = None then V ?k else if ?N then Some ?pk else if ?O then None else V ?k)"
      unfolding buildRowOps_effect(1) [OF b] in_indexKeys [OF d i] old by (simp only: scanKey_eq if_False)
    show ?thesis
    proof (cases "pk = ?pk")
      case True
      then show ?thesis unfolding eff using V [of ?pk] by (cases ?N; cases ?O) auto
    next
      case False
      then show ?thesis unfolding eff using V [of pk] inj by (cases ?R) auto
    qed
  qed
  ultimately show ?thesis by (simp add: entriesOk_def)
qed

section \<open>The rows in the ledger\<close>

text \<open>The content of the ledger by key, and what a batch makes of it.\<close>

definition applyPuts :: "Op list \<Rightarrow> (bytes \<rightharpoonup> bytes) \<Rightarrow> bytes \<rightharpoonup> bytes" where
  "applyPuts ops C = foldl (\<lambda>C op. C(op_Key op := opValue op)) C ops"

lemma applyPuts_append [simp]: "applyPuts (xs @ ys) C = applyPuts ys (applyPuts xs C)"
  by (simp add: applyPuts_def)

lemma applyPuts_simps [simp]: "applyPuts [] C = C" "applyPuts (op # ops) C = applyPuts ops (C(op_Key op := opValue op))"
  by (simp_all add: applyPuts_def)

lemma applyPuts_other: "k \<notin> op_Key ` set ops \<Longrightarrow> applyPuts ops C k = C k"
  by (induction ops arbitrary: C) auto

definition contentOf :: "'b Store \<Rightarrow> (hash \<rightharpoonup> bytes) \<Rightarrow> bytes \<rightharpoonup> bytes" where
  "contentOf l D k = D (pathOf l k)"

lemma putMap_content:
  assumes "no_path_clash l (insert k (op_Key ` set ops))"
  shows "contentOf l (putMap D (batchMap l ops)) k = applyPuts ops (contentOf l D) k"
  using assms
proof (induction ops rule: rev_induct)
  case (snoc op ops)
  have n: "no_path_clash l (insert k (op_Key ` set ops))" using snoc.prems by (auto simp: no_path_clash_def intro: inj_on_subset)
  have e: "pathOf l (op_Key op) = pathOf l k \<longleftrightarrow> op_Key op = k"
    using inj_on_eq_iff [OF snoc.prems [unfolded no_path_clash_def], of "op_Key op" k] by simp
  show ?case using snoc.IH [OF n] e by (auto simp: contentOf_def putMap_def batchMap_def)
qed (simp add: contentOf_def putMap_def batchMap_def)

lemma historyAfter_content:
  assumes n: "no_path_clash l (insert k (op_Key ` set ops))" and hk: "st_history l \<longrightarrow> pathOf l HistoryKey \<noteq> pathOf l k"
    and h: "historyAfter l H ops = (H', v')"
  shows "contentOf l (H' v') k = applyPuts ops (contentOf l (H (st_version l))) k"
proof -
  have "putMap D (linked l hd m) (pathOf l k) = putMap D m (pathOf l k)" for D hd m
    using hk by (auto simp: putMap_def linked_def)
  then show ?thesis using h putMap_content [OF n, of "H (st_version l)"]
    by (auto simp: historyAfter_def Let_def contentOf_def split: if_splits)
qed

text \<open>The rows of a table in the ledger, among the keys in play.\<close>

definition payloadOf :: "tableDef \<Rightarrow> Row \<Rightarrow> bytes option" where
  "payloadOf def row = (case encodeRow (td_Columns def) row of Inl e \<Rightarrow> None | Inr value \<Rightarrow> Some (rowPayload (td_ID def) value))"

definition rowsOk :: "bytes set \<Rightarrow> (bytes \<rightharpoonup> bytes) \<Rightarrow> tableDef \<Rightarrow> rows \<Rightarrow> bool" where
  "rowsOk K C def T \<longleftrightarrow>
     (\<forall>pk. rowKey (td_ID def) pk \<in> K \<longrightarrow> C (rowKey (td_ID def) pk) = Option.bind (T pk) (payloadOf def)) \<and>
     (\<forall>pk \<in> dom T. rowKey (td_ID def) pk \<in> K)"

lemma rowKey_eq [simp]: "rowKey i pk = rowKey j pk' \<longleftrightarrow> i = j \<and> pk = pk'"
  by (auto simp: rowKey_def rowKeyPrefix_def)

lemma rowKey_other [simp]: "rowKey i pk \<noteq> autoIncKey j" "autoIncKey j \<noteq> rowKey i pk" "rowKey i pk \<noteq> HistoryKey" "autoIncKey i \<noteq> HistoryKey"
  by (simp_all add: rowKey_def rowKeyPrefix_def autoIncKey_def ascii_def HistoryKey_def)

lemma encodeRow_typed: "typedRow cols row \<Longrightarrow> \<exists>value. encodeRow cols row = Inr value"
  using encodeRowLoop_total [of cols row "[]"] typedRow_length [of cols row] by (simp add: encodeRow_def)

lemma encodeRow_inj:
  assumes "typedRow cols r" "typedRow cols r'" "encodeRow cols r = Inr v" "encodeRow cols r' = Inr v" "length v < 2 ^ 63"
  shows "r = r'"
proof -
  have "decodeRowLoop cols v 0 = Inr (r, length v)" "decodeRowLoop cols v 0 = Inr (r', length v)"
    using encodeRowLoop_decode [of cols r "[]" v] encodeRowLoop_decode [of cols r' "[]" v] assms
    by (auto simp: encodeRow_def split: if_splits)
  then show ?thesis by simp
qed

lemma buildRowOps_puts:
  assumes b: "buildRowOps def p = Inr (lo, so)"
  shows "applyPuts lo C k =
    (if k = rowKey (td_ID def) (pr_pkEnc p) \<and> (pr_old p \<noteq> None \<or> pr_new p \<noteq> None) then Option.bind (pr_new p) (payloadOf def) else C k)"
    "op_Key ` set lo \<subseteq> {rowKey (td_ID def) (pr_pkEnc p)}"
proof -
  have "lo = (case pr_new p of
      None \<Rightarrow> if pr_old p = None then [] else [Del (rowKey (td_ID def) (pr_pkEnc p))]
    | Some new \<Rightarrow> [Put (rowKey (td_ID def) (pr_pkEnc p)) (the (payloadOf def new))])" "pr_new p = Some new \<Longrightarrow> payloadOf def new \<noteq> None" for new
    using b by (auto simp: buildRowOps_def Let_def payloadOf_def split: option.splits sum.splits)
  then show "applyPuts lo C k =
    (if k = rowKey (td_ID def) (pr_pkEnc p) \<and> (pr_old p \<noteq> None \<or> pr_new p \<noteq> None) then Option.bind (pr_new p) (payloadOf def) else C k)"
    "op_Key ` set lo \<subseteq> {rowKey (td_ID def) (pr_pkEnc p)}"
    by (auto simp: opValue_def Put_def Del_def split: option.splits)
qed

lemma rows_upd:
  assumes "rowsOk K C def T" "pendingOk def T p" "rowKey (td_ID def) (pr_pkEnc p) \<in> K" "buildRowOps def p = Inr (lo, so)"
  shows "rowsOk K (applyPuts lo C) def (T(pr_pkEnc p := pr_new p))"
  using assms unfolding rowsOk_def buildRowOps_puts(1) [OF assms(4)] pendingOk_def by auto

section \<open>Tables in a store\<close>

definition tableState :: "bytes set \<Rightarrow> (bytes \<rightharpoonup> bytes) \<Rightarrow> (bytes \<rightharpoonup> bytes) \<Rightarrow> tableDef \<Rightarrow> rows \<Rightarrow> bool" where
  "tableState K C V def T \<longleftrightarrow> tableOk def T \<and> entriesOk def T V \<and> rowsOk K C def T"

lemma rowOpsLoop_state:
  assumes "tableState K C V def T" "rowOpsLoop def ps = Inr (lo, so)" "distinct (map pr_pkEnc ps)"
    "\<forall>p \<in> set ps. pendingOk def T p \<and> rowKey (td_ID def) (pr_pkEnc p) \<in> K"
  shows "tableState K (applyPuts lo C) (applyBatch so V) def (afterRows T ps)"
  using assms
proof (induction ps arbitrary: C V T lo so)
  case (Cons p ps)
  obtain l s ls ss where b: "buildRowOps def p = Inr (l, s)" "rowOpsLoop def ps = Inr (ls, ss)" "lo = l @ ls" "so = s @ ss"
    using Cons.prems(2) by (auto split: sum.splits)
  have p: "pendingOk def T p" "rowKey (td_ID def) (pr_pkEnc p) \<in> K" using Cons.prems(4) by auto
  have st: "tableState K (applyPuts l C) (applyBatch s V) def (T(pr_pkEnc p := pr_new p))"
    using Cons.prems(1) entries_upd [OF _ _ p(1) b(1)] rows_upd [OF _ p b(1)] tableOk_upd [OF _ p(1)] by (simp add: tableState_def)
  have q: "\<forall>q \<in> set ps. pendingOk def (T(pr_pkEnc p := pr_new p)) q \<and> rowKey (td_ID def) (pr_pkEnc q) \<in> K"
  proof
    fix q assume q: "q \<in> set ps"
    then have "pr_pkEnc q \<noteq> pr_pkEnc p" using Cons.prems(3) by (metis distinct.simps(2) image_eqI list.simps(9) set_map)
    then show "pendingOk def (T(pr_pkEnc p := pr_new p)) q \<and> rowKey (td_ID def) (pr_pkEnc q) \<in> K"
      using Cons.prems(4) q by (simp add: pendingOk_def)
  qed
  show ?case using Cons.IH [OF st b(2) _ q] Cons.prems(3) by (simp add: afterRows_def b(3,4) applyBatch_append fun_upd_def)
qed (simp add: afterRows_def applyBatch_def)

text \<open>The keys of a table's entries, and tables that do not share any.\<close>

definition apart :: "tableDef \<Rightarrow> tableDef \<Rightarrow> bool" where
  "apart d d' \<longleftrightarrow> td_ID d \<noteq> td_ID d' \<and> ix_ID ` set (td_Indexes d) \<inter> ix_ID ` set (td_Indexes d') = {}"

definition tableKeys :: "tableDef \<Rightarrow> bytes set" where
  "tableKeys def = range (scanKey (td_ID def)) \<union> {secondarySpace (ix_ID idx) @ t | idx t. idx \<in> set (td_Indexes def)}"

lemma tableKeysI [intro, simp]:
  "scanKey (td_ID def) pk \<in> tableKeys def" "idx \<in> set (td_Indexes def) \<Longrightarrow> secondarySpace (ix_ID idx) @ t \<in> tableKeys def"
  by (auto simp: tableKeys_def)

lemma entriesOk_frame: "entriesOk def T V \<Longrightarrow> (\<And>k. k \<in> tableKeys def \<Longrightarrow> V' k = V k) \<Longrightarrow> entriesOk def T V'"
  by (simp add: entriesOk_def)

lemma rowsOk_frame: "rowsOk K C def T \<Longrightarrow> (\<And>pk. C' (rowKey (td_ID def) pk) = C (rowKey (td_ID def) pk)) \<Longrightarrow> rowsOk K C' def T"
  by (simp add: rowsOk_def)

lemma apart_keys: "apart d d' \<Longrightarrow> k \<in> tableKeys d \<Longrightarrow> k \<notin> tableKeys d'"
  by (auto simp: apart_def tableKeys_def)

lemma rowOpsLoop_frame:
  "rowOpsLoop def ps = Inr (lo, so) \<Longrightarrow> k \<notin> tableKeys def \<Longrightarrow> applyBatch so V k = V k"
proof (induction ps arbitrary: V lo so)
  case (Cons p ps)
  obtain l s ls ss where b: "buildRowOps def p = Inr (l, s)" "rowOpsLoop def ps = Inr (ls, ss)" "so = s @ ss"
    using Cons.prems(1) by (auto split: sum.splits)
  have "k \<notin> indexKeys def (pr_pkEnc p) row" for row
    using Cons.prems(2) by (auto simp: indexKeys_def tableKeys_def dest: indexKey_space)
  then have "applyBatch s V k = V k" using Cons.prems(2) unfolding buildRowOps_effect(1) [OF b(1)] by (auto simp: tableKeys_def)
  then show ?case using Cons.IH [OF b(2) Cons.prems(2)] b(3) by (simp add: applyBatch_append)
qed (simp add: applyBatch_def)

lemma rowOpsLoop_keys:
  "rowOpsLoop def ps = Inr (lo, so) \<Longrightarrow> op_Key ` set lo \<subseteq> rowKey (td_ID def) ` pr_pkEnc ` set ps \<and> (\<forall>op \<in> set so. foreign (bo_key op))"
proof (induction ps arbitrary: lo so)
  case (Cons p ps)
  obtain l s ls ss where b: "buildRowOps def p = Inr (l, s)" "rowOpsLoop def ps = Inr (ls, ss)" "lo = l @ ls" "so = s @ ss"
    using Cons.prems(1) by (auto split: sum.splits)
  then show ?case using Cons.IH [OF b(2)] buildRowOps_puts(2) [OF b(1)] buildRowOps_effect(2) [OF b(1)] by auto
qed simp

end
