(* ===== verification/Txn_Inv.thy ===== *)
theory Txn_Inv
  imports Table_Inv
begin

text \<open>
  Transactions over an honest backend. A database is a set of tables with separate keyspaces. \<open>commitTxn_ledger\<close> is
  the theorem of this theory: a commit that succeeds was based on the current rows, so that it overwrites no
  other session's write, and moves the database by the transaction's buffers at once; one that fails leaves the ledger and
  the keyspaces as they were, or, where the backend fails between the two writes, the ledger committed and the
  derived keyspaces behind it.
\<close>

section \<open>Databases\<close>

text \<open>The tables of a catalog share no key; each is in the state \<open>DB\<close> gives it.\<close>

definition catalog :: "'b SqlStore \<Rightarrow> tableDef list" where
  "catalog s = map snd (sq_tables s)"

definition database :: "bytes set \<Rightarrow> (bytes \<rightharpoonup> bytes) \<Rightarrow> (bytes \<rightharpoonup> bytes) \<Rightarrow> tableDef list \<Rightarrow> (u64 \<Rightarrow> rows) \<Rightarrow> bool" where
  "database K C V defs DB \<longleftrightarrow>
     (\<forall>d \<in> set defs. \<forall>d' \<in> set defs. d \<noteq> d' \<longrightarrow> apart d d') \<and>
     (\<forall>d \<in> set defs. tableState K C V d (DB (td_ID d)))"

lemma tableByID_catalog: "tableByID i s = Some def \<Longrightarrow> def \<in> set (catalog s) \<and> td_ID def = i"
  by (auto simp: tableByID_def catalog_def find_Some_iff) (metis nth_mem snd_conv image_eqI)

section \<open>Write-sets\<close>

text \<open>A pending row with an effect.\<close>

definition changes :: "pendingRow \<Rightarrow> bool" where
  "changes p \<longleftrightarrow> pr_old p \<noteq> None \<or> pr_new p \<noteq> None"

text \<open>The operations of a transaction's buffers, tables and rows in the order of the commit.\<close>

fun writeSet :: "'b SqlStore \<Rightarrow> (u64 \<times> tableTxn) list \<Rightarrow> goerr + Op list \<times> BatchOp list" where
  "writeSet s [] = Inr ([], [])"
| "writeSet s ((i, tt) # es) =
     (case tableByID i s of
        None \<Rightarrow> Inl ErrTxnConflict
      | Some def \<Rightarrow>
          (case rowOpsLoop def (filter changes (map snd (sort_key fst tt))) of
             Inl e \<Rightarrow> Inl e
           | Inr (lo, so) \<Rightarrow>
               (case writeSet s es of Inl e \<Rightarrow> Inl e | Inr (los, sos) \<Rightarrow> Inr (lo @ counterOps def @ los, so @ sos))))"

text \<open>What validation establishes of a pending row, given the content of the ledger by key.\<close>

definition validated :: "(bytes \<rightharpoonup> bytes) \<Rightarrow> tableDef \<Rightarrow> pendingRow \<Rightarrow> bool" where
  "validated C def p \<longleftrightarrow>
     (case pr_old p of
        None \<Rightarrow> C (rowKey (td_ID def) (pr_pkEnc p)) = None
      | Some old \<Rightarrow> \<exists>raw. C (rowKey (td_ID def) (pr_pkEnc p)) = Some raw \<and> encodeRow (td_Columns def) old = Inr (drop 9 raw))"

section \<open>The database after a write-set\<close>

definition afterTxn :: "rows \<Rightarrow> tableTxn \<Rightarrow> rows" where
  "afterTxn T tt pk = (case map_of tt pk of None \<Rightarrow> T pk | Some p \<Rightarrow> if changes p then pr_new p else T pk)"

definition afterTables :: "(u64 \<Rightarrow> rows) \<Rightarrow> (u64 \<times> tableTxn) list \<Rightarrow> u64 \<Rightarrow> rows" where
  "afterTables DB es i = (case map_of es i of None \<Rightarrow> DB i | Some tt \<Rightarrow> afterTxn (DB i) tt)"

text \<open>A buffer that fits the table it is based on.\<close>

definition bufferOk :: "bytes set \<Rightarrow> tableDef \<Rightarrow> rows \<Rightarrow> tableTxn \<Rightarrow> bool" where
  "bufferOk K def T tt \<longleftrightarrow>
     distinct (map fst tt) \<and>
     (\<forall>(k, p) \<in> set tt. pr_pkEnc p = k \<and> (changes p \<longrightarrow> pendingOk def T p \<and> rowKey (td_ID def) k \<in> K))"

lemma afterRows_other: "pk \<notin> pr_pkEnc ` set ps \<Longrightarrow> afterRows T ps pk = T pk"
  by (induction ps arbitrary: T) (auto simp: afterRows_def)

lemma afterRows_at: "distinct (map pr_pkEnc ps) \<Longrightarrow> p \<in> set ps \<Longrightarrow> afterRows T ps (pr_pkEnc p) = pr_new p"
proof (induction ps arbitrary: T)
  case (Cons q ps)
  show ?case
  proof (cases "p \<in> set ps")
    case False
    then have "p = q" using Cons.prems by simp
    then show ?thesis using Cons.prems afterRows_other [of "pr_pkEnc p" ps] by (simp add: afterRows_def)
  qed (use Cons in \<open>simp add: afterRows_def\<close>)
qed simp

lemma buffer_rows:
  assumes "distinct (map fst tt)" "\<forall>(k, p) \<in> set tt. pr_pkEnc p = k"
  shows "distinct (map pr_pkEnc (filter changes (map snd (sort_key fst tt))))"
    "afterRows T (filter changes (map snd (sort_key fst tt))) = afterTxn T tt"
proof -
  let ?ps = "filter changes (map snd (sort_key fst tt))"
  have k: "map pr_pkEnc (map snd (sort_key fst tt)) = map fst (sort_key fst tt)" using assms(2) by auto
  have "distinct (map pr_pkEnc (map snd (sort_key fst tt)))" unfolding k using distinct_map_sort [OF assms(1)] .
  then show d: "distinct (map pr_pkEnc ?ps)" by (rule distinct_map_filter)
  show "afterRows T ?ps = afterTxn T tt"
  proof
    fix pk
    show "afterRows T ?ps pk = afterTxn T tt pk"
    proof (cases "\<exists>p. map_of tt pk = Some p \<and> changes p")
      case True
      then obtain p where p: "map_of tt pk = Some p" "changes p" by blast
      then have "(pk, p) \<in> set tt" by (simp add: map_of_SomeD)
      then have "p \<in> set ?ps" "pr_pkEnc p = pk" using assms(2) p(2) by force+
      then show ?thesis using afterRows_at [OF d] p by (auto simp: afterTxn_def)
    next
      case False
      have "pk \<notin> pr_pkEnc ` set ?ps" using False assms by force
      then show ?thesis using False afterRows_other [of pk ?ps T] by (auto simp: afterTxn_def split: option.splits)
    qed
  qed
qed

lemma counterOps_keys: "op_Key ` set (counterOps def) \<subseteq> (if hasAutoInc def then {autoIncKey (td_ID def)} else {})"
  by (auto simp: counterOps_def Put_def)

lemma table_rows:
  assumes d: "database K C V defs DB" and t: "def \<in> set defs" and r: "rowOpsLoop def ps = Inr (l1, b1)" and u: "distinct (map pr_pkEnc ps)"
    and p: "\<forall>p \<in> set ps. pendingOk def (DB (td_ID def)) p \<and> rowKey (td_ID def) (pr_pkEnc p) \<in> K"
  shows "database K (applyPuts (l1 @ counterOps def) C) (applyBatch b1 V) defs (DB(td_ID def := afterRows (DB (td_ID def)) ps))"
proof -
  have own: "tableState K (applyPuts l1 C) (applyBatch b1 V) def (afterRows (DB (td_ID def)) ps)"
    using rowOpsLoop_state [OF _ r u p] d t unfolding database_def by blast
  have cnt: "applyPuts (counterOps def) C' (rowKey i pk) = C' (rowKey i pk)" for C' i pk
    by (rule applyPuts_other) (use counterOps_keys [of def] in \<open>auto split: if_splits\<close>)
  have other: "tableState K (applyPuts l1 C) (applyBatch b1 V) d (DB (td_ID d))" if "d \<in> set defs" "d \<noteq> def" for d
  proof -
    have a: "apart d def" "tableState K C V d (DB (td_ID d))" using \<open>database K C V defs DB\<close> that t by (auto simp: database_def)
    have "applyBatch b1 V k = V k" if "k \<in> tableKeys d" for k by (rule rowOpsLoop_frame [OF r apart_keys [OF a(1) that]])
    moreover have "applyPuts l1 C (rowKey (td_ID d) pk) = C (rowKey (td_ID d) pk)" for pk
      by (rule applyPuts_other) (use rowOpsLoop_keys [OF r] a(1) in \<open>auto simp: apart_def\<close>)
    ultimately show ?thesis using a(2) by (auto simp: tableState_def intro: entriesOk_frame rowsOk_frame)
  qed
  have id: "td_ID d \<noteq> td_ID def" if "d \<in> set defs" "d \<noteq> def" for d using d that t by (auto simp: database_def apart_def)
  have "tableState K (applyPuts (counterOps def) (applyPuts l1 C)) (applyBatch b1 V) d ((DB(td_ID def := afterRows (DB (td_ID def)) ps)) (td_ID d))"
    if "d \<in> set defs" for d
    using own other [OF that] id [OF that] cnt by (cases "d = def") (auto simp: tableState_def intro: rowsOk_frame)
  then show ?thesis using d by (simp add: database_def)
qed

lemma table_step:
  assumes d: "database K C V defs DB" and t: "def \<in> set defs" and b: "bufferOk K def (DB (td_ID def)) tt"
    and r: "rowOpsLoop def (filter changes (map snd (sort_key fst tt))) = Inr (l1, b1)"
  shows "database K (applyPuts (l1 @ counterOps def) C) (applyBatch b1 V) defs (DB(td_ID def := afterTxn (DB (td_ID def)) tt))"
proof -
  have k: "distinct (map fst tt)" "\<forall>(k, p) \<in> set tt. pr_pkEnc p = k" using b by (auto simp: bufferOk_def)
  note B = buffer_rows [OF k]
  have "\<forall>p \<in> set (filter changes (map snd (sort_key fst tt))). pendingOk def (DB (td_ID def)) p \<and> rowKey (td_ID def) (pr_pkEnc p) \<in> K"
    using b by (auto simp: bufferOk_def)
  from table_rows [OF d t r B(1) this] show ?thesis unfolding B(2) .
qed

lemma tableOps_keys:
  assumes "rowOpsLoop def ps = Inr (l1, b1)"
  shows "op_Key ` set (l1 @ counterOps def) \<subseteq> rowKey (td_ID def) ` pr_pkEnc ` set ps \<union> (if hasAutoInc def then {autoIncKey (td_ID def)} else {})"
    "\<forall>op \<in> set (l1 @ counterOps def). \<not> reserved op" "\<forall>op \<in> set b1. foreign (bo_key op)"
proof -
  show k: "op_Key ` set (l1 @ counterOps def) \<subseteq> rowKey (td_ID def) ` pr_pkEnc ` set ps \<union> (if hasAutoInc def then {autoIncKey (td_ID def)} else {})"
    unfolding set_append image_Un by (rule Un_mono [OF _ counterOps_keys]) (use rowOpsLoop_keys [OF assms] in simp)
  show "\<forall>op \<in> set (l1 @ counterOps def). \<not> reserved op"
  proof
    fix op
    assume "op \<in> set (l1 @ counterOps def)"
    then have "op_Key op \<in> range (rowKey (td_ID def)) \<union> {autoIncKey (td_ID def)}" using k by (auto split: if_splits)
    then show "\<not> reserved op" by (auto simp: reserved_def hasPrefix_def reservedKeyPrefix_def rowKey_def rowKeyPrefix_def autoIncKey_def ascii_def)
  qed
  show "\<forall>op \<in> set b1. foreign (bo_key op)" using rowOpsLoop_keys [OF assms] by blast
qed

lemma afterTables_Nil [simp]: "afterTables DB [] = DB"
  by (simp add: afterTables_def fun_eq_iff)

lemma writeSet_database:
  assumes "database K C V (catalog s) DB" "writeSet s es = Inr (lops, bops)" "distinct (map fst es)"
    "\<forall>(i, tt) \<in> set es. \<forall>def. tableByID i s = Some def \<longrightarrow> bufferOk K def (DB i) tt"
  shows "database K (applyPuts lops C) (applyBatch bops V) (catalog s) (afterTables DB es)"
  using assms
proof (induction es arbitrary: C V DB lops bops)
  case (Cons e es)
  obtain i tt where e: "e = (i, tt)" by (cases e)
  obtain def l1 b1 l2 b2 where w: "tableByID i s = Some def" "rowOpsLoop def (filter changes (map snd (sort_key fst tt))) = Inr (l1, b1)"
    "writeSet s es = Inr (l2, b2)" "lops = (l1 @ counterOps def) @ l2" "bops = b1 @ b2"
    using Cons.prems(2) e by (auto split: option.splits sum.splits)
  have def: "def \<in> set (catalog s)" "td_ID def = i" using tableByID_catalog [OF w(1)] by auto
  have b: "bufferOk K def (DB (td_ID def)) tt" using Cons.prems(4) w(1) def(2) e by auto
  have d: "database K (applyPuts (l1 @ counterOps def) C) (applyBatch b1 V) (catalog s) (DB(i := afterTxn (DB i) tt))"
    using table_step [OF Cons.prems(1) def(1) b w(2)] def(2) by simp
  have i: "i \<notin> fst ` set es" "distinct (map fst es)" using Cons.prems(3) e by auto
  have o: "\<forall>(j, tt') \<in> set es. \<forall>def. tableByID j s = Some def \<longrightarrow> bufferOk K def ((DB(i := afterTxn (DB i) tt)) j) tt'"
    using Cons.prems(4) i(1) by force
  have a: "afterTables DB (e # es) = afterTables (DB(i := afterTxn (DB i) tt)) es"
    using i(1) by (auto simp: afterTables_def e fun_eq_iff map_of_eq_None_iff [symmetric] split: option.splits)
  show ?case using Cons.IH [OF d w(3) i(2) o] unfolding a by (simp add: w(4,5) applyBatch_append fun_upd_def)
qed (simp add: applyBatch_def)

text \<open>The keys of a write-set.\<close>

definition keysIn :: "bytes set \<Rightarrow> 'b SqlStore \<Rightarrow> (u64 \<times> tableTxn) list \<Rightarrow> bool" where
  "keysIn K s es \<longleftrightarrow>
     distinct (map fst es) \<and>
     (\<forall>(i, tt) \<in> set es. (\<forall>def. tableByID i s = Some def \<longrightarrow> hasAutoInc def \<longrightarrow> autoIncKey i \<in> K) \<and> distinct (map fst tt) \<and> (\<forall>(k, p) \<in> set tt. pr_pkEnc p = k \<and> rowKey i k \<in> K))"

lemma writeSet_keys:
  "writeSet s es = Inr (lops, bops) \<Longrightarrow> keysIn K s es \<Longrightarrow> op_Key ` set lops \<subseteq> K \<and> (\<forall>op \<in> set lops. \<not> reserved op) \<and> (\<forall>op \<in> set bops. foreign (bo_key op))"
proof (induction es arbitrary: lops bops)
  case (Cons e es)
  obtain i tt where e: "e = (i, tt)" by (cases e)
  obtain def l1 b1 l2 b2 where w: "tableByID i s = Some def" "rowOpsLoop def (filter changes (map snd (sort_key fst tt))) = Inr (l1, b1)"
    "writeSet s es = Inr (l2, b2)" "lops = (l1 @ counterOps def) @ l2" "bops = b1 @ b2"
    using Cons.prems(1) e by (auto split: option.splits sum.splits)
  have def: "td_ID def = i" using tableByID_catalog [OF w(1)] by auto
  note k = tableOps_keys [OF w(2), unfolded def]
  have "rowKey i ` pr_pkEnc ` set (filter changes (map snd (sort_key fst tt))) \<subseteq> K"
    using Cons.prems(2) e by (fastforce simp: keysIn_def)
  moreover have "hasAutoInc def \<longrightarrow> autoIncKey i \<in> K" using w(1) Cons.prems(2) e by (auto simp: keysIn_def)
  ultimately have "op_Key ` set (l1 @ counterOps def) \<subseteq> K"
    by (intro order_trans [OF k(1)]) (simp split: if_splits)
  moreover have "keysIn K s es" using Cons.prems(2) by (simp add: keysIn_def)
  ultimately show ?case using Cons.IH [OF w(3)] k(2,3) w(4,5) by auto
qed simp

text \<open>Validation against the ledger gives the old image.\<close>

definition pendingWf :: "tableDef \<Rightarrow> pendingRow \<Rightarrow> bool" where
  "pendingWf def p \<longleftrightarrow>
     (\<forall>r. pr_old p = Some r \<longrightarrow> rowOk def (pr_pkEnc p) r) \<and> (\<forall>r. pr_new p = Some r \<longrightarrow> rowOk def (pr_pkEnc p) r)"

lemma validated_old:
  assumes "validated C def p" "tableState K C V def T" "pendingWf def p" "rowKey (td_ID def) (pr_pkEnc p) \<in> K"
  shows "pr_old p = T (pr_pkEnc p)"
proof -
  have C: "C (rowKey (td_ID def) (pr_pkEnc p)) = Option.bind (T (pr_pkEnc p)) (payloadOf def)"
    using assms(2,4) by (simp add: tableState_def rowsOk_def)
  have row: "rowOk def (pr_pkEnc p) r" if "T (pr_pkEnc p) = Some r" for r using assms(2) that by (simp add: tableState_def tableOk_def)
  show ?thesis
  proof (cases "pr_old p")
    case None
    then have "Option.bind (T (pr_pkEnc p)) (payloadOf def) = None" using assms(1) C by (simp add: validated_def)
    moreover have "payloadOf def r \<noteq> None" if "T (pr_pkEnc p) = Some r" for r
      using row [OF that] encodeRow_typed [of "td_Columns def" r] by (auto simp: rowOk_def payloadOf_def)
    ultimately show ?thesis using None by (cases "T (pr_pkEnc p)") auto
  next
    case (Some old)
    then obtain raw where raw: "Option.bind (T (pr_pkEnc p)) (payloadOf def) = Some raw" "encodeRow (td_Columns def) old = Inr (drop 9 raw)"
      using assms(1) C by (auto simp: validated_def)
    obtain r v where r: "T (pr_pkEnc p) = Some r" "encodeRow (td_Columns def) r = Inr v" "raw = rowPayload (td_ID def) v"
      using raw(1) by (auto simp: payloadOf_def split: bind_splits sum.splits)
    have "drop 9 raw = v" by (simp add: r(3) rowPayload_def)
    then have "old = r" using encodeRow_inj [of "td_Columns def" old r v] raw(2) r row [OF r(1)] assms(3) Some
      by (auto simp: rowOk_def pendingWf_def)
    then show ?thesis using Some r(1) by simp
  qed
qed

lemma read_eq_funs:
  assumes "read_eq s s'"
  shows "pathOf s' = pathOf s" "batchMap s' = batchMap s" "historyAfter s' = historyAfter s" "batch_ok s' = batch_ok s"
    "no_path_clash s' = no_path_clash s" "contentOf s' = contentOf s"
proof -
  note f = read_eq_fields [OF assms]
  show p: "pathOf s' = pathOf s" by (simp add: pathOf_def f fun_eq_iff)
  have v: "vhOf s' = vhOf s" "nextHead s' = nextHead s" by (simp_all add: vhOf_def nextHead_def f fun_eq_iff)
  have l: "linked s' = linked s" by (simp add: linked_def f p fun_eq_iff)
  show m: "batchMap s' = batchMap s" by (simp add: batchMap_def p fun_eq_iff)
  show "historyAfter s' = historyAfter s" by (rule ext, rule ext) (simp add: historyAfter_def f m l v Let_def)
  show "batch_ok s' = batch_ok s" by (simp add: batch_ok_def no_clash_def f p l v fun_eq_iff)
  show "no_path_clash s' = no_path_clash s" "contentOf s' = contentOf s" by (simp_all add: no_path_clash_def contentOf_def p fun_eq_iff)
qed

lemma writeSet_empty: "writeSet s es = Inr ([], bops) \<Longrightarrow> bops = []"
proof (induction es arbitrary: bops)
  case (Cons e es)
  have r: "b = []" if "rowOpsLoop def ps = Inr ([], b)" for def ps b
    using that by (induction ps arbitrary: b) (auto simp: buildRowOps_def Let_def split: sum.splits option.splits)
  show ?case using Cons by (cases e) (auto split: option.splits sum.splits dest!: r)
qed simp

lemma afterTables_sort: "distinct (map fst es) \<Longrightarrow> afterTables DB (sort_key fst es) = afterTables DB es"
proof -
  assume "distinct (map fst es)"
  then have "map_of (sort_key fst es) = map_of es" by (intro map_of_inject_set [THEN iffD2]) (simp_all add: distinct_map_sort)
  then show ?thesis by (simp add: afterTables_def fun_eq_iff)
qed

lemma historyAfter_old:
  assumes "historyAfter l H ops = (H', v')" "st_version l < st_version l + 1"
  shows "\<forall>w \<le> st_version l. H' w = H w"
  using assms by (auto simp: historyAfter_def Let_def split: if_splits)

lemma database_cong:
  assumes "database K C V defs DB" "\<And>i pk. rowKey i pk \<in> K \<Longrightarrow> C' (rowKey i pk) = C (rowKey i pk)"
    "\<And>d k. d \<in> set defs \<Longrightarrow> k \<in> tableKeys d \<Longrightarrow> V' k = V k"
  shows "database K C' V' defs DB"
proof -
  have "tableState K C' V' d (DB (td_ID d))" if "d \<in> set defs" for d
    using assms that entriesOk_frame [of d "DB (td_ID d)" V V'] by (auto simp: database_def tableState_def rowsOk_def)
  then show ?thesis using assms(1) by (simp add: database_def)
qed

lemma foreign_tableKeys: "k \<in> tableKeys d \<Longrightarrow> foreign k \<and> k \<noteq> [scanMetaKey]"
  by (auto simp: tableKeys_def scanKey_def secondarySpace_def foreign_def)

section \<open>Transactions\<close>

text \<open>A transaction whose buffers hold rows of their tables, under keys in play.\<close>

definition txnOk :: "bytes set \<Rightarrow> 'b SqlStore \<Rightarrow> storeTxn \<Rightarrow> bool" where
  "txnOk K s txn \<longleftrightarrow>
     keysIn K s (tx_tables txn) \<and>
     (\<forall>(i, tt) \<in> set (tx_tables txn). \<forall>def. tableByID i s = Some def \<longrightarrow> (\<forall>p \<in> snd ` set tt. pendingWf def p))"

text \<open>The transaction saw the current row under every key that it writes.\<close>

definition based :: "(u64 \<Rightarrow> rows) \<Rightarrow> storeTxn \<Rightarrow> bool" where
  "based DB txn \<longleftrightarrow> (\<forall>(i, tt) \<in> set (tx_tables txn). \<forall>p \<in> snd ` set tt. changes p \<longrightarrow> pr_old p = DB i (pr_pkEnc p))"

lemma based_buffers:
  assumes "based DB txn" "txnOk K s txn" "(i, tt) \<in> set (tx_tables txn)" "tableByID i s = Some def"
  shows "bufferOk K def (DB i) tt"
proof -
  have i: "td_ID def = i" using tableByID_catalog [OF assms(4)] by simp
  have "distinct (map fst tt)" "\<forall>(k, p) \<in> set tt. pr_pkEnc p = k \<and> rowKey i k \<in> K"
    using assms(2,3) by (auto simp: txnOk_def keysIn_def)
  moreover have "pendingOk def (DB i) p" if "(k, p) \<in> set tt" "changes p" for k p
    using assms that by (force simp: txnOk_def based_def pendingOk_def pendingWf_def)
  ultimately show ?thesis using i by (auto simp: bufferOk_def)
qed

context kv_backend
begin

lemma validate_spec:
  assumes "same H lo s0 s"
  shows "outcome (\<lambda>e. same H lo s0)
    (\<lambda>u s'. same H lo s0 s' \<and> validated (contentOf (sq_led s0) (H (st_version (sq_led s0)))) def p)
    (validatePendingLocked def p s)"
  unfolding validatePendingLocked_def
  by (rule outcome_bind, rule onLedger_Get [OF assms])
    (auto simp: validated_def contentOf_def split: option.splits sum.splits)

lemma commitRows_spec:
  assumes "same H lo s0 s"
  shows "outcome (\<lambda>e. same H lo s0)
    (\<lambda>r s'. same H lo s0 s' \<and> rowOpsLoop def (filter changes ps) = Inr r \<and>
       (moved \<longrightarrow> (\<forall>p \<in> set ps. changes p \<longrightarrow> validated (contentOf (sq_led s0) (H (st_version (sq_led s0)))) def p)))
    (commitRows moved def ps s)"
  using assms
proof (induction ps arbitrary: s)
  case (Cons p ps)
  show ?case
  proof (cases "changes p")
    case False
    then show ?thesis using Cons by (simp add: changes_def)
  next
    case True
    let ?C = "contentOf (sq_led s0) (H (st_version (sq_led s0)))"
    let ?Q = "\<lambda>r s'. same H lo s0 s' \<and> rowOpsLoop def (filter changes (p # ps)) = Inr r \<and>
         (moved \<longrightarrow> (\<forall>p \<in> set (p # ps). changes p \<longrightarrow> validated ?C def p))"
    have v: "outcome (\<lambda>e. same H lo s0) (\<lambda>u s'. same H lo s0 s' \<and> (moved \<longrightarrow> validated ?C def p))
        ((if moved then validatePendingLocked def p else ret ()) s)"
      using validate_spec [OF Cons.prems] Cons.prems by (auto intro: outcome_mono)
    have rest: "outcome (\<lambda>e. same H lo s0) ?Q (andThen (liftE (buildRowOps def p)) (\<lambda>(l1, b1).
           andThen (commitRows moved def ps) (\<lambda>(l2, b2). ret (l1 @ l2, b1 @ b2))) s1)"
      if s1: "same H lo s0 s1 \<and> (moved \<longrightarrow> validated ?C def p)" for s1
    proof (cases "buildRowOps def p")
      case (Inr q)
      obtain l1 b1 where q: "q = (l1, b1)" by (cases q)
      have "outcome (\<lambda>e. same H lo s0) ?Q (andThen (commitRows moved def ps) (\<lambda>(l2, b2). ret (l1 @ l2, b1 @ b2)) s1)"
        by (rule outcome_bind, rule Cons.IH) (use s1 True Inr q in auto)
      then show ?thesis by (simp add: Inr q)
    qed (use s1 in simp)
    have e: "commitRows moved def (p # ps) s = andThen (if moved then validatePendingLocked def p else ret ()) (\<lambda>_.
           andThen (liftE (buildRowOps def p)) (\<lambda>(l1, b1).
           andThen (commitRows moved def ps) (\<lambda>(l2, b2). ret (l1 @ l2, b1 @ b2)))) s"
      using True by (auto simp: changes_def)
    show ?thesis unfolding e by (rule outcome_bind, rule v, assumption, rule rest)
  qed
qed simp

text \<open>The checks of unique indexes read only.\<close>

lemma revalidateRow_spec:
  assumes "same H lo s0 s"
  shows "outcome (\<lambda>e. same H lo s0) (\<lambda>u. same H lo s0) (revalidateRow def tt idx p s)"
proof -
  have "outcome (\<lambda>e. same H lo s0) (\<lambda>u. same H lo s0)
      (andThen (onBackend (callScan start end scanChunkSize)) (\<lambda>kvs. liftE (standingConflict def tt idx c (pr_pkEnc p) kvs)) s)" for start "end" c
    by (rule outcome_bind, rule onBackend_scan [OF assms]) (auto intro: outcome_liftE)
  then show ?thesis using assms by (auto simp: revalidateRow_def Let_def split: option.splits sum.splits)
qed

lemma forEach_spec:
  assumes "\<And>x s. x \<in> set xs \<Longrightarrow> I s \<Longrightarrow> outcome (\<lambda>e. I) (\<lambda>u. I) (f x s)" "I s"
  shows "outcome (\<lambda>e. I) (\<lambda>u. I) (forEach f xs s)"
  using assms
proof (induction xs arbitrary: s)
  case (Cons x xs)
  show ?case unfolding forEach.simps
    by (rule outcome_bind, rule Cons.prems(1)) (use Cons in auto)
qed simp

lemma revalidateUnique_spec:
  assumes "same H lo s0 s"
  shows "outcome (\<lambda>e. same H lo s0) (\<lambda>u. same H lo s0) (revalidateUniqueLocked def tt s)"
  unfolding revalidateUniqueLocked_def
  by (rule forEach_spec) (auto intro!: forEach_spec revalidateRow_spec assms)

definition tableValidated :: "(u64 \<Rightarrow> hash \<rightharpoonup> bytes) \<Rightarrow> 'b SqlStore \<Rightarrow> u64 \<times> tableTxn \<Rightarrow> bool" where
  "tableValidated H s e \<longleftrightarrow>
     (\<forall>def. tableByID (fst e) s = Some def \<longrightarrow>
        (\<forall>p \<in> snd ` set (snd e). changes p \<longrightarrow> validated (contentOf (sq_led s) (H (st_version (sq_led s)))) def p))"

definition tableDone :: "(u64 \<Rightarrow> hash \<rightharpoonup> bytes) \<Rightarrow> u64 \<Rightarrow> 'b SqlStore \<Rightarrow> bool \<Rightarrow> u64 \<times> tableTxn \<Rightarrow> Op list \<times> BatchOp list \<Rightarrow> 'b SqlStore \<Rightarrow> bool" where
  "tableDone H lo s0 moved e r s' \<longleftrightarrow>
     same H lo s0 s' \<and>
     (\<exists>def l. tableByID (fst e) s0 = Some def \<and> fst r = l @ counterOps def \<and>
        rowOpsLoop def (filter changes (map snd (sort_key fst (snd e)))) = Inr (l, snd r)) \<and>
     (moved \<longrightarrow> tableValidated H s0 e)"

lemma commitTable_spec:
  assumes s: "same H lo s0 s"
  shows "outcome (\<lambda>e. same H lo s0) (tableDone H lo s0 moved e) (commitTable moved e s)"
proof (cases "tableByID (fst e) s")
  case None
  then show ?thesis using s by (cases e) (simp add: commitTable_def)
next
  case (Some def)
  obtain i tt where e: "e = (i, tt)" by (cases e)
  have t: "tableByID i s0 = Some def" using sameD(5) [OF s] Some by (simp add: tableByID_def e)
  have u: "outcome (\<lambda>e. same H lo s0) (\<lambda>u. same H lo s0) ((if moved then revalidateUniqueLocked def tt else ret ()) s1)"
    if "same H lo s0 s1" for s1
    using revalidateUnique_spec [OF that] that by auto
  have c: "commitTable moved e s = andThen (commitRows moved def (map snd (sort_key fst tt))) (\<lambda>r.
       andThen (if moved then revalidateUniqueLocked def tt else ret ()) (\<lambda>_. ret (fst r @ counterOps def, snd r))) s"
    using Some by (simp add: commitTable_def e case_prod_unfold)
  show ?thesis unfolding c
  proof (rule outcome_bind, rule commitRows_spec [OF s], assumption)
    fix r s1
    assume r: "same H lo s0 s1 \<and> rowOpsLoop def (filter changes (map snd (sort_key fst tt))) = Inr r \<and>
      (moved \<longrightarrow> (\<forall>p \<in> set (map snd (sort_key fst tt)). changes p \<longrightarrow> validated (contentOf (sq_led s0) (H (st_version (sq_led s0)))) def p))"
    show "outcome (\<lambda>e. same H lo s0) (tableDone H lo s0 moved e)
        (andThen (if moved then revalidateUniqueLocked def tt else ret ()) (\<lambda>_. ret (fst r @ counterOps def, snd r)) s1)"
      by (rule outcome_bind, rule u) (use r t in \<open>auto simp: tableDone_def tableValidated_def e\<close>)
  qed
qed

lemma commitTables_spec:
  assumes "same H lo s0 s"
  shows "outcome (\<lambda>e. same H lo s0)
    (\<lambda>r s'. same H lo s0 s' \<and> writeSet s0 es = Inr r \<and> (moved \<longrightarrow> (\<forall>e \<in> set es. tableValidated H s0 e)))
    (commitTables moved es s)"
  using assms
proof (induction es arbitrary: s)
  case (Cons e es)
  have c: "commitTables moved (e # es) s =
    andThen (commitTable moved e) (\<lambda>r. andThen (commitTables moved es) (\<lambda>q. ret (fst r @ fst q, snd r @ snd q))) s"
    by (simp add: case_prod_unfold)
  show ?case unfolding c
  proof (rule outcome_bind, rule commitTable_spec [OF Cons.prems], assumption)
    fix r s1
    assume r: "tableDone H lo s0 moved e r s1"
    show "outcome (\<lambda>e. same H lo s0)
      (\<lambda>r s'. same H lo s0 s' \<and> writeSet s0 (e # es) = Inr r \<and> (moved \<longrightarrow> (\<forall>e \<in> set (e # es). tableValidated H s0 e)))
      (andThen (commitTables moved es) (\<lambda>q. ret (fst r @ fst q, snd r @ snd q)) s1)"
      by (rule outcome_bind, rule Cons.IH) (use r in \<open>cases e; cases r; auto simp: tableDone_def\<close>)+
  qed
qed simp

lemma commitTables_based:
  assumes db: "database K (contentOf (sq_led s) (H (st_version (sq_led s)))) V (catalog s) DB" and tx: "txnOk K s txn"
    and w: "writeSet s (sort_key fst (tx_tables txn)) = Inr r"
    and v: "\<forall>e \<in> set (tx_tables txn). tableValidated H s e"
  shows "based DB txn"
proof -
  have "pr_old p = DB i (pr_pkEnc p)" if e: "(i, tt) \<in> set (tx_tables txn)" "(k, p) \<in> set tt" "changes p" for i tt k p
  proof -
    have "\<exists>def. tableByID i s = Some def" if "writeSet s es = Inr r" "(i, tt) \<in> set es" for es r
      using that by (induction es arbitrary: r) (auto split: option.splits sum.splits)
    then obtain def where def: "tableByID i s = Some def" using w e(1) by (metis set_sort)
    then have i: "td_ID def = i" "def \<in> set (catalog s)" using tableByID_catalog by auto
    have "validated (contentOf (sq_led s) (H (st_version (sq_led s)))) def p"
      using v e def by (force simp: tableValidated_def)
    moreover have "pendingWf def p" "pr_pkEnc p = k" "rowKey i k \<in> K" using tx e def by (force simp: txnOk_def keysIn_def)+
    ultimately show ?thesis
      using validated_old [of _ def p K V "DB i"] db i by (auto simp: database_def)
  qed
  then show ?thesis by (auto simp: based_def)
qed

text \<open>The two ways a commit leaves a changed ledger: with the derived keyspaces in step, or, after a failed write of them,
  with the keyspaces as they were.\<close>

definition committed :: "bytes set \<Rightarrow> (u64 \<Rightarrow> hash \<rightharpoonup> bytes) \<Rightarrow> u64 \<Rightarrow> (u64 \<Rightarrow> rows) \<Rightarrow> 'b SqlStore \<Rightarrow> bool \<Rightarrow> 'b SqlStore \<Rightarrow> bool" where
  "committed K H lo DB s derived s' \<longleftrightarrow>
     (\<exists>H'. (\<forall>w \<le> st_version (sq_led s). H' w = H w) \<and> ledger (sq_led s') H' lo \<and>
        (if derived then database K (contentOf (sq_led s') (H' (st_version (sq_led s')))) (recordsOf (sq_led s')) (catalog s') DB
         else (\<forall>d \<in> set (catalog s'). rowsOk K (contentOf (sq_led s') (H' (st_version (sq_led s')))) d (DB (td_ID d))) \<and>
              (\<forall>k. foreign k \<longrightarrow> recordsOf (sq_led s') k = recordsOf (sq_led s) k)))"

lemma commitSql_committed:
  assumes s1: "same H lo s s1" and v: "st_version (sq_led s) < st_version (sq_led s) + 1" and rd: "good_rand rd"
    and K: "no_path_clash (sq_led s) K" "st_history (sq_led s) \<longrightarrow> HistoryKey \<in> K" "op_Key ` set lops \<subseteq> K"
    and b: "batch_ok (sq_led s) (H (st_version (sq_led s))) (batchMap (sq_led s) lops)" "\<forall>op \<in> set lops. \<not> reserved op"
    and f: "\<forall>op \<in> set bops. foreign (bo_key op)"
    and D: "database K (applyPuts lops (contentOf (sq_led s) (H (st_version (sq_led s))))) (applyBatch bops (recordsOf (sq_led s))) (catalog s) DB"
  shows "outcome (\<lambda>e s'. may_fail \<and> (same H lo s s' \<or> onlyLed s s' \<and> committed K H lo DB s False s'))
    (\<lambda>u s'. onlyLed s s' \<and> committed K H lo DB s True s') (commitSql rd lops bops s1)"
proof (cases "commitSql rd lops bops s1")
  case (Pair r s')
  let ?l = "sq_led s" and ?l' = "sq_led s'"
  obtain H' v' where h: "historyAfter ?l H lops = (H', v')" by (cases "historyAfter ?l H lops")
  have re: "read_eq ?l (sq_led s1)" and o1: "onlyLed s s1" using s1 by (auto simp: same_def kept_def)
  note F = read_eq_funs [OF re] read_eq_fields(5) [OF re]
  note S = commitSql_ledger [OF sameD(1) [OF s1] _ rd _ b(2) f Pair, unfolded F h fst_conv snd_conv, OF v b(1)]
  have o: "onlyLed s s'" "catalog s' = catalog s" using S onlyLed_trans [OF o1] onlyLed_tables(1) [OF onlyLed_trans [OF o1]] by (auto simp: catalog_def)
  have content: "contentOf ?l (H' v') (rowKey i pk) = applyPuts lops (contentOf ?l (H (st_version ?l))) (rowKey i pk)" if "rowKey i pk \<in> K" for i pk
  proof (rule historyAfter_content [OF _ _ h])
    have "insert (rowKey i pk) (op_Key ` set lops) \<subseteq> K" using K(3) that by simp
    then show "no_path_clash ?l (insert (rowKey i pk) (op_Key ` set lops))"
      using K(1) unfolding no_path_clash_def by (rule inj_on_subset [rotated])
    show "st_history ?l \<longrightarrow> pathOf ?l HistoryKey \<noteq> pathOf ?l (rowKey i pk)"
      using inj_on_eq_iff [OF K(1) [unfolded no_path_clash_def], of HistoryKey "rowKey i pk"] K(2) that rowKey_other(3) [of i pk] by auto
  qed
  have cl: "contentOf ?l' = contentOf ?l" if "pathOf ?l' = pathOf ?l" using that by (simp add: contentOf_def fun_eq_iff)
  note old = historyAfter_old [OF h v]
  show ?thesis
  proof (cases r)
    case (Inl e)
    have "same H lo s s'" if "kept (sq_led s1) H lo ?l'"
      using same_trans [OF s1] S that by (auto simp: same_def)
    moreover have "committed K H lo DB s False s'" if p: "putDone (sq_led s1) H lo lops ?l'"
    proof -
      have "pathOf ?l' = pathOf ?l" "ledger ?l' H' lo" "st_version ?l' = v'" "\<forall>k. foreign k \<longrightarrow> recordsOf ?l' k = recordsOf ?l k"
        using p sameD(4) [OF s1] by (simp_all add: putDone_def F h)
      moreover have "rowsOk K (contentOf ?l (H' v')) d (DB (td_ID d))" if "d \<in> set (catalog s)" for d
        using D that content by (simp add: database_def tableState_def rowsOk_def)
      ultimately show ?thesis using old cl o(2) by (auto simp: committed_def)
    qed
    ultimately show ?thesis using S Inl Pair o(1) by auto
  next
    case (Inr u)
    then have s': "ledger ?l' H' lo" "st_version ?l' = v'" "pathOf ?l' = pathOf ?l"
      and rec: "\<forall>k. foreign k \<longrightarrow> recordsOf ?l' k = applyBatch (bops @ [markerOp v']) (recordsOf ?l) k" using S sameD(4) [OF s1] by auto
    have "recordsOf ?l' k = applyBatch bops (recordsOf ?l) k" if "k \<in> tableKeys d" for k d
      using rec foreign_tableKeys [OF that] by (simp add: applyBatch_snoc applyOp_def markerOp_def)
    then have "database K (contentOf ?l (H' v')) (recordsOf ?l') (catalog s) DB"
      by (intro database_cong [OF D content])
    then show ?thesis using s' old cl o Inr Pair by (auto simp: committed_def)
  qed
qed

lemma commitTxn_ledger:
  assumes l: "ledger (sq_led s) H lo" and v: "st_version (sq_led s) < st_version (sq_led s) + 1" and rd: "good_rand rd"
    and db: "database K (contentOf (sq_led s) (H (st_version (sq_led s)))) (recordsOf (sq_led s)) (catalog s) DB"
    and K: "no_path_clash (sq_led s) K" "st_history (sq_led s) \<longrightarrow> HistoryKey \<in> K" and tx: "txnOk K s txn"
    and base: "st_version (sq_led s) = tx_baseVersion txn \<Longrightarrow> based DB txn"
    and b: "\<And>lops bops. writeSet s (sort_key fst (tx_tables txn)) = Inr (lops, bops) \<Longrightarrow>
       batch_ok (sq_led s) (H (st_version (sq_led s))) (batchMap (sq_led s) lops)"
  shows "outcome (\<lambda>e s'. same H lo s s' \<or> may_fail \<and> based DB txn \<and> onlyLed s s' \<and> committed K H lo (afterTables DB (tx_tables txn)) s False s')
    (\<lambda>u s'. based DB txn \<and> onlyLed s s' \<and> committed K H lo (afterTables DB (tx_tables txn)) s True s')
    (commitTxn rd txn s)"
proof (cases "tx_tables txn = []")
  case True
  then show ?thesis using l db by (auto simp: commitTxn_def based_def committed_def)
next
  case False
  let ?moved = "st_version (sq_led s) \<noteq> tx_baseVersion txn" and ?es = "sort_key fst (tx_tables txn)"
  let ?DB = "afterTables DB (tx_tables txn)"
  have k: "keysIn K s ?es" "distinct (map fst (tx_tables txn))" using tx distinct_map_sort [of fst "tx_tables txn" fst] by (auto simp: txnOk_def keysIn_def)
  have c: "commitTxn rd txn s = andThen (commitTables ?moved ?es) (\<lambda>r. if fst r = [] then ret () else commitSql rd (fst r) (snd r)) s"
    using False by (simp add: commitTxn_def Root_def case_prod_unfold Let_def)
  show ?thesis unfolding c
  proof (rule outcome_bind, rule commitTables_spec [OF same_refl [OF l]], simp)
    fix r s1
    assume r: "same H lo s s1 \<and> writeSet s ?es = Inr r \<and> (?moved \<longrightarrow> (\<forall>e \<in> set ?es. tableValidated H s e))"
    obtain lops bops where q: "r = (lops, bops)" by (cases r)
    have bs: "based DB txn" using base commitTables_based [where H = H and K = K, OF db tx] r by auto
    have D: "database K (applyPuts lops (contentOf (sq_led s) (H (st_version (sq_led s))))) (applyBatch bops (recordsOf (sq_led s))) (catalog s) ?DB"
      using writeSet_database [OF db, of ?es lops bops] r q k based_buffers [OF bs tx] by (auto simp: afterTables_sort keysIn_def)
    show "outcome (\<lambda>e s'. same H lo s s' \<or> may_fail \<and> based DB txn \<and> onlyLed s s' \<and> committed K H lo ?DB s False s')
      (\<lambda>u s'. based DB txn \<and> onlyLed s s' \<and> committed K H lo ?DB s True s')
      ((if fst r = [] then ret () else commitSql rd (fst r) (snd r)) s1)"
    proof (cases "lops = []")
      case True
      then have "bops = []" using writeSet_empty r q by blast
      have s1: "same H lo s s1" using r by simp
      note S = sameD [OF s1]
      have "catalog s1 = catalog s" "contentOf (sq_led s1) = contentOf (sq_led s)" using S by (simp_all add: catalog_def contentOf_def fun_eq_iff)
      then have "committed K H lo ?DB s True s1" using D True \<open>bops = []\<close> S
        unfolding committed_def by (intro exI [of _ H]) (simp add: applyBatch_def)
      then show ?thesis using True q bs s1 by (simp add: same_def)
    next
      case False
      have w: "writeSet s ?es = Inr (lops, bops)" using r q by simp
      note W = writeSet_keys [OF w k(1)]
      have s1: "same H lo s s1" using r by simp
      show ?thesis using outcome_mono [OF commitSql_committed [OF s1 v rd K _ b [OF w] _ _ D]] W bs False q by auto
    qed
  qed
qed

end

end
