(* ===== verification/Sql_Scan.thy ===== *)
theory Sql_Scan
  imports Sql_Txn
begin

text \<open>
  Scans of a table (\<^verbatim>\<open>sqlledger/table.go\<close>): the forward iterator, which walks a keyspace in chunks and
  merges a transaction's overlay into the committed keys, the reverse iterator, and the partitions that
  start them. An iterator step returns \<open>None\<close> for \<^verbatim>\<open>io.EOF\<close>. The loops may not end on a hostile backend,
  so they are partial functions.
\<close>

record scanIter =
  si_next :: bytes
  si_end :: bytes
  si_secondary :: bool
  si_ov :: "scanOverlay option"
  si_ovPos :: nat
  si_buf :: "KV list"
  si_pos :: nat
  si_done :: bool

definition newScanIter :: "bytes \<Rightarrow> bytes \<Rightarrow> bool \<Rightarrow> scanOverlay option \<Rightarrow> scanIter" where
  "newScanIter start end secondary ov =
     \<lparr>si_next = start, si_end = end, si_secondary = secondary, si_ov = ov, si_ovPos = 0, si_buf = [], si_pos = 0,
      si_done = False\<rparr>"

text \<open>The first part of \<^verbatim>\<open>Next\<close>: the next chunk when the buffer is used up.\<close>

definition fetchChunk :: "scanIter \<Rightarrow> ('b SqlStore, scanIter) io" where
  "fetchChunk it =
     (if si_pos it \<ge> length (si_buf it) \<and> \<not> si_done it then
        andThen (onBackend (callScan (si_next it) (si_end it) scanChunkSize)) (\<lambda>kvs.
        ret (it\<lparr>si_done := length kvs < unat scanChunkSize,
                si_next := (if kvs \<noteq> [] then kv_key (last kvs) @ [0] else si_next it),
                si_buf := kvs, si_pos := 0\<rparr>))
      else ret it)"

text \<open>The switch of \<^verbatim>\<open>Next\<close>: an entry, the end, or another round.\<close>

datatype scanStep = Emit KV scanIter | Finished | Again scanIter

definition masked :: "scanOverlay option \<Rightarrow> bytes \<Rightarrow> bool" where
  "masked ov k = (case ov of None \<Rightarrow> False | Some ov \<Rightarrow> k \<in> set (ov_masks ov))"

definition pickEntry :: "scanIter \<Rightarrow> scanStep" where
  "pickEntry it =
     (let adds = (case si_ov it of None \<Rightarrow> [] | Some ov \<Rightarrow> ov_adds ov);
          haveB = si_pos it < length (si_buf it);
          haveO = si_ovPos it < length adds;
          b = si_buf it ! si_pos it;
          a = adds ! si_ovPos it
      in if haveB \<and> haveO then
           (let c = stringsCompare (kv_key a) (kv_key b)
            in if c \<le> 0 then
                 Emit a (it\<lparr>si_ovPos := si_ovPos it + 1, si_pos := (if c = 0 then si_pos it + 1 else si_pos it)\<rparr>)
               else if masked (si_ov it) (kv_key b) then Again (it\<lparr>si_pos := si_pos it + 1\<rparr>)
               else Emit b (it\<lparr>si_pos := si_pos it + 1\<rparr>))
         else if haveB then
           (if masked (si_ov it) (kv_key b) then Again (it\<lparr>si_pos := si_pos it + 1\<rparr>)
            else Emit b (it\<lparr>si_pos := si_pos it + 1\<rparr>))
         else if haveO \<and> si_done it then Emit a (it\<lparr>si_ovPos := si_ovPos it + 1\<rparr>)
         else if si_done it then Finished
         else Again it)"

partial_function (option) nextEntry :: "scanIter \<Rightarrow> 'b SqlStore \<Rightarrow> ('b, (KV \<times> scanIter) option) loop" where
  "nextEntry it s =
     (case fetchChunk it s of
        (Inl e, s1) \<Rightarrow> Some (Inl e, s1)
      | (Inr it1, s1) \<Rightarrow>
          (case pickEntry it1 of
             Emit kv it2 \<Rightarrow> Some (Inr (Some (kv, it2)), s1)
           | Finished \<Rightarrow> Some (Inr None, s1)
           | Again it2 \<Rightarrow> nextEntry it2 s1))"

text \<open>The primary-key encoding that an entry stands for.\<close>

definition entryPK :: "bool \<Rightarrow> KV \<Rightarrow> goerr + bytes" where
  "entryPK secondary kv =
     (if secondary then Inr (kv_value kv)
      else if length (kv_key kv) < 9 then Inl (Panic ''slice bounds out of range'')
      else Inr (drop 9 (kv_key kv)))"

definition scanNext ::
  "tableTxn option \<Rightarrow> tableDef \<Rightarrow> scanIter \<Rightarrow> 'b SqlStore \<Rightarrow> ('b, (Row \<times> scanIter) option) loop"
where
  "scanNext tt def it s =
     (case nextEntry it s of
        None \<Rightarrow> None
      | Some (Inl e, s1) \<Rightarrow> Some (Inl e, s1)
      | Some (Inr None, s1) \<Rightarrow> Some (Inr None, s1)
      | Some (Inr (Some (kv, it1)), s1) \<Rightarrow>
          Some (andThen (liftE (entryPK (si_secondary it) kv)) (\<lambda>pkEnc.
                andThen (readRowTxn tt def pkEnc) (\<lambda>row. ret (Some (row, it1)))) s1))"

section \<open>Reverse scans\<close>

partial_function (option) collectEntries :: "bytes \<Rightarrow> bytes \<Rightarrow> KV list \<Rightarrow> 'b SqlStore \<Rightarrow> ('b, KV list) loop" where
  "collectEntries start end entries s =
     (case onBackend (callScan start end scanChunkSize) s of
        (Inl e, s1) \<Rightarrow> Some (Inl e, s1)
      | (Inr kvs, s1) \<Rightarrow>
          if length kvs < unat scanChunkSize then Some (Inr (entries @ kvs), s1)
          else collectEntries (kv_key (last kvs) @ [0]) end (entries @ kvs) s1)"

record reverseIter =
  ri_pks :: "bytes list"
  ri_pos :: int

fun entryPKs :: "bool \<Rightarrow> KV list \<Rightarrow> goerr + bytes list" where
  "entryPKs secondary [] = Inr []"
| "entryPKs secondary (kv # kvs) =
     (case entryPK secondary kv of
        Inl e \<Rightarrow> Inl e
      | Inr pk \<Rightarrow> (case entryPKs secondary kvs of Inl e \<Rightarrow> Inl e | Inr pks \<Rightarrow> Inr (pk # pks)))"

definition newReverseScanIter ::
  "bytes \<Rightarrow> bytes \<Rightarrow> bool \<Rightarrow> scanOverlay option \<Rightarrow> 'b SqlStore \<Rightarrow> ('b, reverseIter) loop"
where
  "newReverseScanIter start end secondary ov s =
     (case collectEntries start end [] s of
        None \<Rightarrow> None
      | Some (Inl e, s1) \<Rightarrow> Some (Inl e, s1)
      | Some (Inr entries, s1) \<Rightarrow>
          Some (andThen (liftE (entryPKs secondary (mergeOverlay entries ov))) (\<lambda>pks.
                ret \<lparr>ri_pks = pks, ri_pos = int (length pks) - 1\<rparr>) s1))"

definition reverseNext ::
  "tableTxn option \<Rightarrow> tableDef \<Rightarrow> reverseIter \<Rightarrow> ('b SqlStore, (Row \<times> reverseIter) option) io"
where
  "reverseNext tt def it =
     (if ri_pos it < 0 then ret None
      else andThen (readRowTxn tt def (ri_pks it ! nat (ri_pos it))) (\<lambda>row.
           ret (Some (row, it\<lparr>ri_pos := ri_pos it - 1\<rparr>))))"

section \<open>Partitions\<close>

datatype RowIter = Forward scanIter | Reverse reverseIter

datatype Partition = FullScan bytes | IndexRange indexRangePartition

definition Partitions :: "tableDef \<Rightarrow> Partition list" where
  "Partitions def = [FullScan (scanKey (td_ID def) [])]"

definition PartitionRows ::
  "tableTxn option \<Rightarrow> tableDef \<Rightarrow> Partition \<Rightarrow> 'b SqlStore \<Rightarrow> ('b, RowIter) loop"
where
  "PartitionRows tt def p s =
     (case p of
        FullScan pre \<Rightarrow>
          (case incBytes pre of
             None \<Rightarrow> Some (Inl (TextErr ''table keyspace overflow''), s)
           | Some end \<Rightarrow>
               (case buildOverlay def tt None pre end of
                  Inl e \<Rightarrow> Some (Inl e, s)
                | Inr ov \<Rightarrow> Some (Inr (Forward (newScanIter pre end False ov)), s)))
      | IndexRange part \<Rightarrow>
          (case (if pt_secondary part then map_option Some (indexByID (pt_idxID part) def) else Some None) of
             None \<Rightarrow> Some (Inl (TextErr ''table %s: unknown index id %d''), s)
           | Some idx \<Rightarrow>
               (case buildOverlay def tt idx (pt_start part) (pt_end part) of
                  Inl e \<Rightarrow> Some (Inl e, s)
                | Inr ov \<Rightarrow>
                    if pt_reverse part then
                      (case newReverseScanIter (pt_start part) (pt_end part) (pt_secondary part) ov s of
                         None \<Rightarrow> None
                       | Some (Inl e, s1) \<Rightarrow> Some (Inl e, s1)
                       | Some (Inr it, s1) \<Rightarrow> Some (Inr (Reverse it), s1))
                    else Some (Inr (Forward (newScanIter (pt_start part) (pt_end part) (pt_secondary part) ov)), s))))"

end
