(* ===== verification/Scan_Inv.thy ===== *)
theory Scan_Inv
  imports Txn_Inv Sql_Scan
begin

text \<open>
  What reads of a table return, over an honest backend. A partition's iterator pages through the derived keyspace and
  merges in the pending rows of the transaction. \<open>mergeLoop_spec\<close> and \<open>nextEntry_spec\<close> describe one
  step of the merge, \<open>forward_scan\<close> and \<open>reverse_scan\<close> a whole iteration, and
  \<open>scanPartition_spec\<close> puts them together: the iterator ends, and its rows are those of the table as the transaction
  sees it, in the order of the index. \<open>uniqueConflict_spec\<close> shows that the look-up behind a unique index, which reads
  two entries at most, is exact, and \<open>VerifiedGet_row\<close> that a verified read gives the row of the table with evidence that
  checks out.
\<close>

section \<open>Listings\<close>

text \<open>The records of a range, in key order.\<close>

definition listing :: "(bytes \<rightharpoonup> bytes) \<Rightarrow> bytes \<Rightarrow> bytes \<Rightarrow> KV list" where
  "listing V start end =
     map (\<lambda>k. \<lparr>kv_key = k, kv_value = the (V k)\<rparr>) (sorted_list_of_set {k \<in> dom V. inRange start end k})"

abbreviation (input) ascending :: "KV list \<Rightarrow> bool" where
  "ascending kvs \<equiv> sorted_wrt (<) (map kv_key kvs)"

lemma listing_ascending: "ascending (listing V start end)"
  by (simp add: listing_def comp_def)

lemma set_listing: "finite (dom V) \<Longrightarrow> set (listing V start end) = {kv. V (kv_key kv) = Some (kv_value kv) \<and> inRange start end (kv_key kv)}"
  by (force simp: listing_def)

lemma ascending_inj: "ascending kvs \<Longrightarrow> a \<in> set kvs \<Longrightarrow> b \<in> set kvs \<Longrightarrow> kv_key a = kv_key b \<Longrightarrow> a = b"
  by (induction kvs) auto

lemma ascending_unique:
  assumes "ascending xs" "ascending ys" "set xs = set ys"
  shows "xs = ys"
  using assms
proof (induction xs arbitrary: ys)
  case (Cons x xs)
  then obtain y ys' where ys: "ys = y # ys'" by (cases ys) auto
  have "x = y"
  proof (rule ccontr)
    assume "x \<noteq> y"
    then have "x \<in> set ys'" "y \<in> set xs" using Cons.prems(3) ys by auto
    then show False using Cons.prems(1,2) ys by force
  qed
  moreover have "set xs = set ys'" using Cons.prems ys \<open>x = y\<close> by auto
  ultimately show ?case using Cons ys by auto
qed simp

lemma scanned_set:
  assumes "scanned V start end limit kvs" "finite (dom V)"
  shows "ascending kvs" "set kvs \<subseteq> set (listing V start end)"
    "kv \<in> set (listing V start end) \<Longrightarrow> kv \<in> set kvs \<or> limit \<noteq> 0 \<and> length kvs = unat limit \<and> (\<forall>x \<in> set kvs. kv_key x < kv_key kv)"
proof -
  show a: "ascending kvs" "set kvs \<subseteq> set (listing V start end)" using assms by (auto simp: scanned_def set_listing)
  assume "kv \<in> set (listing V start end)"
  then have kv: "V (kv_key kv) = Some (kv_value kv)" "inRange start end (kv_key kv)" using set_listing [OF assms(2)] by auto
  have "kv \<in> set kvs" if k: "kv_key kv \<in> kv_key ` set kvs"
  proof -
    obtain x where x: "x \<in> set kvs" "kv_key x = kv_key kv" using k by auto
    then have "kv_value x = kv_value kv" using assms(1) kv(1) by (auto simp: scanned_def)
    then show ?thesis using x by (metis KV.equality old.unit.exhaust)
  qed
  then show "kv \<in> set kvs \<or> limit \<noteq> 0 \<and> length kvs = unat limit \<and> (\<forall>x \<in> set kvs. kv_key x < kv_key kv)"
    using assms(1) kv by (auto simp: scanned_def)
qed

lemma scanned_all:
  assumes "scanned V start end limit kvs" "finite (dom V)" "limit \<noteq> 0 \<longrightarrow> length kvs < unat limit"
  shows "kvs = listing V start end"
proof (rule ascending_unique [OF scanned_set(1) [OF assms(1,2)] listing_ascending])
  have "kv \<in> set kvs" if "kv \<in> set (listing V start end)" for kv
    using scanned_set(3) [OF assms(1,2) that] assms(3) by auto
  then show "set kvs = set (listing V start end)" using scanned_set(2) [OF assms(1,2)] by auto
qed

lemma succ_key: "(k :: bytes) @ [0] \<le> x \<longleftrightarrow> k < x"
proof (induction k arbitrary: x)
  case Nil
  show ?case by (cases x) (auto simp: word_gt_0)
next
  case (Cons b k)
  then show ?case by (cases x) auto
qed

lemma scanned_more:
  assumes "scanned V start end limit kvs" "finite (dom V)" "kvs \<noteq> []"
  shows "listing V start end = kvs @ listing V (kv_key (last kvs) @ [0]) end"
proof (rule ascending_unique [OF listing_ascending])
  let ?k = "kv_key (last kvs)" and ?rest = "listing V (kv_key (last kvs) @ [0]) end"
  note S = scanned_set [OF assms(1,2)]
  have last: "kv_key x \<le> ?k" if "x \<in> set kvs" for x
    using that S(1) assms(3) by (induction kvs rule: rev_induct) (auto simp: sorted_wrt_append less_imp_le)
  have kin: "inRange start end ?k" using S(2) assms(3) set_listing [OF assms(2)] last_in_set by blast
  have after: "?k < kv_key y" if "y \<in> set ?rest" for y
    using that set_listing [OF assms(2)] by (auto simp: inRange_def succ_key)
  show "ascending (kvs @ ?rest)"
    using S(1) listing_ascending [of V "?k @ [0]" "end"] last after by (fastforce simp: sorted_wrt_append)
  have "x \<in> set kvs \<or> ?k < kv_key x" if "x \<in> set (listing V start end)" for x
    using S(3) [OF that] assms(3) last_in_set by blast
  moreover have "inRange (?k @ [0]) end x \<longleftrightarrow> inRange start end x \<and> ?k < x" for x
    using kin by (auto simp: inRange_def succ_key)
  ultimately show "set (listing V start end) = set (kvs @ ?rest)"
    using S(2) last by (fastforce simp: set_listing [OF assms(2)])
qed

section \<open>Merging an overlay\<close>

text \<open>What the merge means: the added entries, and the entries that are neither hidden nor replaced.\<close>

lemma mergeLoop_spec:
  assumes "ascending es" "ascending adds"
  shows "ascending (mergeLoop masks es adds) \<and>
    set (mergeLoop masks es adds) = set adds \<union> {e \<in> set es. kv_key e \<notin> set masks \<and> kv_key e \<notin> kv_key ` set adds}"
  using assms
proof (induction masks es adds rule: mergeLoop.induct)
  case (2 masks e es)
  then show ?case by auto
next
  case (3 masks e es a adds)
  consider "kv_key a < kv_key e" | "kv_key a = kv_key e" | "kv_key e < kv_key a" by force
  then show ?case
  proof cases
    case 1
    then show ?thesis using 3 by (auto simp: stringsCompare_def)
  next
    case 2
    then show ?thesis using 3 by (auto simp: stringsCompare_def)
  next
    case 3
    then show ?thesis using "3.IH"(2,3) "3.prems" by (auto simp: stringsCompare_def)
  qed
qed simp

section \<open>The forward iterator\<close>

definition addsOf :: "scanOverlay option \<Rightarrow> KV list" where
  "addsOf ov = (case ov of None \<Rightarrow> [] | Some ov \<Rightarrow> ov_adds ov)"

definition masksOf :: "scanOverlay option \<Rightarrow> bytes list" where
  "masksOf ov = (case ov of None \<Rightarrow> [] | Some ov \<Rightarrow> ov_masks ov)"

lemma mergeLoop_nil [simp]: "mergeLoop [] es [] = es"
  by (induction es) simp_all

lemma mergeOverlay_loop: "mergeOverlay es ov = mergeLoop (masksOf ov) es (addsOf ov)"
  by (cases ov) (simp_all add: mergeOverlay_def masksOf_def addsOf_def)

lemma masked_masksOf: "masked ov k \<longleftrightarrow> k \<in> set (masksOf ov)"
  by (cases ov) (simp_all add: masked_def masksOf_def)

text \<open>The committed entries that an iterator has not passed yet, and the entries that it still has to yield.\<close>

definition todo :: "(bytes \<rightharpoonup> bytes) \<Rightarrow> scanIter \<Rightarrow> KV list" where
  "todo V it = drop (si_pos it) (si_buf it) @ (if si_done it then [] else listing V (si_next it) (si_end it))"

definition remaining :: "(bytes \<rightharpoonup> bytes) \<Rightarrow> scanIter \<Rightarrow> KV list" where
  "remaining V it = mergeLoop (masksOf (si_ov it)) (todo V it) (drop (si_ovPos it) (addsOf (si_ov it)))"

lemma remaining_new: "remaining V (newScanIter start end secondary ov) = mergeOverlay (listing V start end) ov"
  by (simp add: remaining_def todo_def newScanIter_def mergeOverlay_loop)

lemma pickEntry_remaining:
  assumes "si_pos it < length (si_buf it) \<or> si_done it"
  shows "case pickEntry it of
      Emit kv it' \<Rightarrow> remaining V it = kv # remaining V it' \<and> si_secondary it' = si_secondary it
    | Finished \<Rightarrow> remaining V it = []
    | Again it' \<Rightarrow> remaining V it = remaining V it' \<and> si_secondary it' = si_secondary it \<and> length (todo V it') < length (todo V it)"
proof (cases "si_pos it < length (si_buf it)")
  case True
  let ?b = "si_buf it ! si_pos it"
  have t: "todo V it = ?b # todo V (it\<lparr>si_pos := si_pos it + 1\<rparr>)" using True by (simp add: todo_def Cons_nth_drop_Suc)
  show ?thesis
  proof (cases "si_ovPos it < length (addsOf (si_ov it))")
    case O: True
    let ?a = "addsOf (si_ov it) ! si_ovPos it"
    have a: "drop (si_ovPos it) (addsOf (si_ov it)) = ?a # drop (si_ovPos it + 1) (addsOf (si_ov it))"
      using O by (simp add: Cons_nth_drop_Suc)
    have T: "todo V (it\<lparr>si_ovPos := p\<rparr>) = todo V it" "todo V (it\<lparr>si_ovPos := p, si_pos := q\<rparr>) = todo V (it\<lparr>si_pos := q\<rparr>)" for p q
      by (simp_all add: todo_def)
    show ?thesis using True O a t
      by (auto simp: pickEntry_def Let_def addsOf_def [symmetric] masked_masksOf remaining_def T)
  next
    case False
    then show ?thesis using True t
      by (auto simp: pickEntry_def Let_def addsOf_def [symmetric] masked_masksOf remaining_def)
  qed
next
  case False
  then have "todo V it = []" "todo V (it\<lparr>si_ovPos := p\<rparr>) = []" for p using assms by (simp_all add: todo_def)
  then show ?thesis using assms False
    by (auto simp: pickEntry_def Let_def addsOf_def [symmetric] remaining_def Cons_nth_drop_Suc [symmetric])
qed

text \<open>What one step of an iterator yields: its first remaining entry, and the iterator for the others.\<close>

definition yields :: "(bytes \<rightharpoonup> bytes) \<Rightarrow> scanIter \<Rightarrow> (KV \<times> scanIter) option \<Rightarrow> bool" where
  "yields V it r =
     (case r of
        None \<Rightarrow> remaining V it = []
      | Some (kv, it') \<Rightarrow> remaining V it = kv # remaining V it' \<and> si_secondary it' = si_secondary it)"

lemma yields_cong:
  "remaining V it' = remaining V it \<Longrightarrow> si_secondary it' = si_secondary it \<Longrightarrow> yields V it' r = yields V it r"
  by (cases r) (auto simp: yields_def)

context kv_backend
begin

lemma ledger_finite: "ledger s H lo \<Longrightarrow> finite (dom (recordsOf s))"
  using view_finite unfolding ledger_def honest_def recordsOf_def by blast

lemma fetchChunk_spec:
  assumes s: "same H lo s0 s"
  shows "outcome (\<lambda>e s'. may_fail \<and> same H lo s0 s')
    (\<lambda>it' s'. same H lo s0 s' \<and> todo (recordsOf (sq_led s0)) it' = todo (recordsOf (sq_led s0)) it \<and>
       remaining (recordsOf (sq_led s0)) it' = remaining (recordsOf (sq_led s0)) it \<and>
       (si_pos it' < length (si_buf it') \<or> si_done it') \<and> si_secondary it' = si_secondary it)
    (fetchChunk it s)"
proof (cases "si_pos it \<ge> length (si_buf it) \<and> \<not> si_done it")
  case True
  let ?V = "recordsOf (sq_led s0)"
  have fin: "finite (dom ?V)" using ledger_finite [OF sameD(1) [OF s]] sameD(4) [OF s] by simp
  have t: "todo ?V it = listing ?V (si_next it) (si_end it)" using True by (simp add: todo_def)
  have T: "todo ?V (it\<lparr>si_done := length kvs < unat scanChunkSize, si_next := (if kvs \<noteq> [] then kv_key (last kvs) @ [0] else si_next it),
      si_buf := kvs, si_pos := 0\<rparr>) = todo ?V it" if "scanned ?V (si_next it) (si_end it) scanChunkSize kvs" for kvs
    unfolding t using scanned_all [OF that fin] scanned_more [OF that fin] by (auto simp: todo_def)
  show ?thesis unfolding fetchChunk_def if_P [OF True]
    by (rule outcome_bind, rule onBackend_scan [OF s]) (use T in \<open>auto simp: remaining_def\<close>)
qed (use s in \<open>auto simp: fetchChunk_def\<close>)

lemma nextEntry_spec:
  assumes s: "same H lo s0 s"
  shows "\<exists>res. nextEntry it s = Some res \<and>
    outcome (\<lambda>e s'. may_fail \<and> same H lo s0 s') (\<lambda>r s'. same H lo s0 s' \<and> yields (recordsOf (sq_led s0)) it r) res"
  using s
proof (induction "length (todo (recordsOf (sq_led s0)) it)" arbitrary: it s rule: less_induct)
  case less
  let ?V = "recordsOf (sq_led s0)"
  obtain r s1 where f: "fetchChunk it s = (r, s1)" by (cases "fetchChunk it s")
  note F = fetchChunk_spec [OF less.prems, of it, unfolded f]
  show ?case
  proof (cases r)
    case (Inl e)
    then show ?thesis using F by (subst nextEntry.simps) (simp add: f)
  next
    case (Inr it1)
    then have I: "same H lo s0 s1" "todo ?V it1 = todo ?V it" "remaining ?V it1 = remaining ?V it"
      "si_pos it1 < length (si_buf it1) \<or> si_done it1" "si_secondary it1 = si_secondary it" using F by auto
    note P = pickEntry_remaining [OF I(4), of ?V]
    show ?thesis
    proof (cases "pickEntry it1")
      case (Again it2)
      then have "yields ?V it2 = yields ?V it" "length (todo ?V it2) < length (todo ?V it)"
        using P I yields_cong [of ?V it2 it] by (auto simp: fun_eq_iff)
      then show ?thesis using less.hyps [OF _ I(1), of it2] Again by (subst nextEntry.simps) (simp add: f Inr)
    qed (use P I in \<open>subst nextEntry.simps, auto simp: f Inr yields_def\<close>)+
  qed
qed

end

section \<open>The entries of a table\<close>

text \<open>The entry of a row in the primary keyspace or in an index, and the space it lies in.\<close>

definition entryKey :: "tableDef \<Rightarrow> indexDef option \<Rightarrow> bytes \<Rightarrow> Row \<Rightarrow> goerr + bytes" where
  "entryKey def idx pk row = (case idx of None \<Rightarrow> Inr (scanKey (td_ID def) pk) | Some idx \<Rightarrow> indexKey def idx pk row)"

definition inSpace :: "tableDef \<Rightarrow> indexDef option \<Rightarrow> bytes \<Rightarrow> bytes \<Rightarrow> bool" where
  "inSpace def idx start end \<longleftrightarrow>
     end \<noteq> [] \<and> (\<forall>i. idx = Some i \<longrightarrow> i \<in> set (td_Indexes def)) \<and>
     (\<forall>k. start \<le> k \<longrightarrow> k < end \<longrightarrow>
        (\<exists>t. k = (case idx of None \<Rightarrow> scanKey (td_ID def) t | Some i \<Rightarrow> secondarySpace (ix_ID i) @ t)))"

text \<open>The entries are those of the rows of \<open>T\<close> in the range, in key order, each naming its row.\<close>

definition lists :: "tableDef \<Rightarrow> indexDef option \<Rightarrow> rows \<Rightarrow> bytes \<Rightarrow> bytes \<Rightarrow> KV list \<Rightarrow> bool" where
  "lists def idx T start end kvs \<longleftrightarrow>
     ascending kvs \<and>
     (\<forall>kv \<in> set kvs. \<exists>pk row. entryPK (idx \<noteq> None) kv = Inr pk \<and> T pk = Some row \<and> entryKey def idx pk row = Inr (kv_key kv) \<and>
        start \<le> kv_key kv \<and> kv_key kv < end) \<and>
     (\<forall>pk row k. T pk = Some row \<longrightarrow> entryKey def idx pk row = Inr k \<longrightarrow> start \<le> k \<longrightarrow> k < end \<longrightarrow>
        (\<exists>kv \<in> set kvs. kv_key kv = k))"

lemma entryKey_inj: "entryKey def idx pk r = Inr k \<Longrightarrow> entryKey def idx pk' r' = Inr k \<Longrightarrow> pk = pk'"
  by (auto simp: entryKey_def dest: indexKey_inj split: option.splits)

lemma entryPK_scanKey [simp]: "entryPK False \<lparr>kv_key = scanKey i pk, kv_value = v\<rparr> = Inr pk"
  by (simp add: entryPK_def scanKey_def)

lemma listing_lists:
  assumes e: "entriesOk def T V" and s: "inSpace def idx start end" and f: "finite (dom V)"
  shows "lists def idx T start end (listing V start end)"
proof -
  have r: "inRange start end k \<longleftrightarrow> start \<le> k \<and> k < end" for k using s by (simp add: inRange_def inSpace_def)
  have a: "\<exists>pk row. entryPK (idx \<noteq> None) kv = Inr pk \<and> T pk = Some row \<and> entryKey def idx pk row = Inr (kv_key kv)"
    if kv: "V (kv_key kv) = Some (kv_value kv)" "start \<le> kv_key kv" "kv_key kv < end" for kv
  proof (cases idx)
    case None
    obtain t where t: "kv_key kv = scanKey (td_ID def) t" using s kv None by (auto simp: inSpace_def)
    then have "T t \<noteq> None" using e kv(1) by (auto simp: entriesOk_def split: if_splits)
    moreover have "entryPK False kv = Inr t" using t by (simp add: entryPK_def scanKey_def)
    ultimately show ?thesis using None t by (auto simp: entryKey_def)
  next
    case (Some i)
    obtain t where t: "kv_key kv = secondarySpace (ix_ID i) @ t" "i \<in> set (td_Indexes def)" using s kv Some by (auto simp: inSpace_def)
    then have "\<exists>row. T (kv_value kv) = Some row \<and> indexKey def i (kv_value kv) row = Inr (kv_key kv)" using e kv(1) by (simp add: entriesOk_def)
    then show ?thesis using Some by (auto simp: entryKey_def entryPK_def)
  qed
  have b: "V k \<noteq> None" if "T pk = Some row" "entryKey def idx pk row = Inr k" for pk row k
  proof (cases idx)
    case None
    then show ?thesis using that e by (auto simp: entryKey_def entriesOk_def)
  next
    case (Some i)
    then have k: "indexKey def i pk row = Inr k" "i \<in> set (td_Indexes def)" using that s by (auto simp: entryKey_def inSpace_def)
    obtain t where "k = secondarySpace (ix_ID i) @ t" using indexKey_space [OF k(1)] by blast
    then have "V k = Some pk" using e k that(1) by (auto simp: entriesOk_def)
    then show ?thesis by simp
  qed
  have "\<exists>kv \<in> set (listing V start end). kv_key kv = k" if "T pk = Some row" "entryKey def idx pk row = Inr k" "start \<le> k" "k < end" for pk row k
    using b [OF that(1,2)] that(3,4) by (intro bexI [of _ "\<lparr>kv_key = k, kv_value = the (V k)\<rparr>"]) (auto simp: set_listing [OF f] r)
  then show ?thesis using a listing_ascending unfolding lists_def by (auto simp: set_listing [OF f] r)
qed

section \<open>Overlays\<close>

text \<open>The entries that a buffer adds to a range.\<close>

definition addOf :: "tableDef \<Rightarrow> indexDef option \<Rightarrow> bytes \<Rightarrow> bytes \<Rightarrow> pendingRow \<Rightarrow> KV list" where
  "addOf def idx start end p =
     (case pr_new p of
        None \<Rightarrow> []
      | Some new \<Rightarrow>
          (case entryKey def idx (pr_pkEnc p) new of
             Inl e \<Rightarrow> []
           | Inr k \<Rightarrow> if start \<le> k \<and> k < end then [\<lparr>kv_key = k, kv_value = pr_pkEnc p\<rparr>] else []))"

definition oldKey :: "tableDef \<Rightarrow> indexDef option \<Rightarrow> bytes \<Rightarrow> bytes \<Rightarrow> pendingRow \<Rightarrow> bytes \<Rightarrow> bool" where
  "oldKey def idx start end p k \<longleftrightarrow>
     start \<le> k \<and> k < end \<and> (\<exists>old. pr_old p = Some old \<and> entryKey def idx (pr_pkEnc p) old = Inr k)"

lemma addOf_mem:
  "kv \<in> set (addOf def idx start end p) \<longleftrightarrow>
     (\<exists>new. pr_new p = Some new \<and> entryKey def idx (pr_pkEnc p) new = Inr (kv_key kv)) \<and> start \<le> kv_key kv \<and> kv_key kv < end \<and>
     kv_value kv = pr_pkEnc p"
  by (cases kv; cases "pr_new p"; cases "entryKey def idx (pr_pkEnc p) (the (pr_new p))") (auto simp: addOf_def)

lemma overlayRow_spec:
  assumes "overlayRow def idx start end p ov = Inr ov'"
  shows "ov_adds ov' = ov_adds ov @ addOf def idx start end p"
    "k \<notin> kv_key ` set (ov_adds ov') \<Longrightarrow> k \<in> set (ov_masks ov') \<longleftrightarrow> k \<in> set (ov_masks ov) \<or> oldKey def idx start end p k"
proof -
  note defs = overlayRow_def addOf_def oldKey_def entryKey_def addKey_def maskKey_def Let_def
  show "ov_adds ov' = ov_adds ov @ addOf def idx start end p"
    using assms by (cases idx; cases "pr_new p"; cases "pr_old p") (auto simp: defs map_sum_def split: sum.splits if_splits)
  show "k \<notin> kv_key ` set (ov_adds ov') \<Longrightarrow> k \<in> set (ov_masks ov') \<longleftrightarrow> k \<in> set (ov_masks ov) \<or> oldKey def idx start end p k"
    using assms by (cases idx; cases "pr_new p"; cases "pr_old p") (auto simp: defs map_sum_def split: sum.splits if_splits)
qed

lemma overlayRows_spec:
  "overlayRows def idx start end ps ov = Inr ov' \<Longrightarrow>
     ov_adds ov' = ov_adds ov @ concat (map (addOf def idx start end) ps) \<and>
     (\<forall>k. k \<notin> kv_key ` set (ov_adds ov') \<longrightarrow>
        (k \<in> set (ov_masks ov') \<longleftrightarrow> k \<in> set (ov_masks ov) \<or> (\<exists>p \<in> set ps. oldKey def idx start end p k)))"
proof (induction ps arbitrary: ov)
  case (Cons p ps)
  obtain ov1 where o: "overlayRow def idx start end p ov = Inr ov1" "overlayRows def idx start end ps ov1 = Inr ov'"
    using Cons.prems by (auto split: sum.splits)
  show ?case using overlayRow_spec [OF o(1)] Cons.IH [OF o(2)] by auto
qed simp

lemma removeAll_adds: "set (foldl (\<lambda>m kv. removeAll (kv_key kv) m) masks adds) = set masks - kv_key ` set adds"
  by (induction adds arbitrary: masks) auto

lemma buildOverlay_spec:
  assumes "buildOverlay def (Some tt) idx start end = Inr ov"
  shows "set (addsOf ov) = set (concat (map (addOf def idx start end) (map snd tt)))"
    "sorted (map kv_key (addsOf ov))" "mset (addsOf ov) = mset (concat (map (addOf def idx start end) (map snd tt)))"
    "set (masksOf ov) = {k. \<exists>p \<in> snd ` set tt. oldKey def idx start end p k} - kv_key ` set (addsOf ov)"
proof -
  let ?A = "concat (map (addOf def idx start end) (map snd tt))"
  have "set (addsOf ov) = set ?A \<and> sorted (map kv_key (addsOf ov)) \<and> mset (addsOf ov) = mset ?A \<and>
    set (masksOf ov) = {k. \<exists>p \<in> snd ` set tt. oldKey def idx start end p k} - kv_key ` set (addsOf ov)"
  proof (cases "tt = []")
    case True
    then show ?thesis using assms by (auto simp: buildOverlay_def addsOf_def masksOf_def)
  next
    case False
    then obtain ov1 where o: "overlayRows def idx start end (map snd tt) \<lparr>ov_adds = [], ov_masks = []\<rparr> = Inr ov1"
      using assms by (auto simp: buildOverlay_def split: sum.splits)
    note O = overlayRows_spec [OF o]
    show ?thesis
    proof (cases "ov_adds ov1 = [] \<and> ov_masks ov1 = []")
      case True
      then show ?thesis using assms False o O by (auto simp: buildOverlay_def addsOf_def masksOf_def)
    next
      case n: False
      then have "ov = Some \<lparr>ov_adds = sort_key kv_key (ov_adds ov1),
          ov_masks = foldl (\<lambda>m kv. removeAll (kv_key kv) m) (ov_masks ov1) (sort_key kv_key (ov_adds ov1))\<rparr>"
        using assms False o by (auto simp: buildOverlay_def Let_def split: if_splits)
      then show ?thesis using O by (auto simp: addsOf_def masksOf_def removeAll_adds image_iff) (metis snd_conv)+
    qed
  qed
  then show "set (addsOf ov) = set ?A" "sorted (map kv_key (addsOf ov))" "mset (addsOf ov) = mset ?A"
    "set (masksOf ov) = {k. \<exists>p \<in> snd ` set tt. oldKey def idx start end p k} - kv_key ` set (addsOf ov)" by auto
qed

text \<open>A buffer whose old images are the current rows.\<close>

definition current :: "tableDef \<Rightarrow> rows \<Rightarrow> tableTxn \<Rightarrow> bool" where
  "current def T tt \<longleftrightarrow> distinct (map fst tt) \<and> (\<forall>(k, p) \<in> set tt. pr_pkEnc p = k \<and> pendingOk def T p)"

lemma adds_distinct:
  assumes "distinct (map fst tt)" "\<forall>(k, p) \<in> set tt. pr_pkEnc p = k"
  shows "distinct (map kv_key (concat (map (addOf def idx start end) (map snd tt))))"
  using assms
proof (induction tt)
  case (Cons x tt)
  obtain k p where x: "x = (k, p)" by (cases x)
  have "distinct (map kv_key (addOf def idx start end p))" by (auto simp: addOf_def split: option.splits sum.splits)
  moreover have "kv_key a \<noteq> kv_key b" if "a \<in> set (addOf def idx start end p)" "q \<in> snd ` set tt" "b \<in> set (addOf def idx start end q)" for a b q
  proof
    assume "kv_key a = kv_key b"
    then have "pr_pkEnc p = pr_pkEnc q" using that(1,3) entryKey_inj unfolding addOf_mem by metis
    then show False using Cons.prems that(2) x by force
  qed
  ultimately show ?case using Cons x by (auto simp: image_iff)
qed simp

lemma current_at:
  assumes "current def T tt" "p \<in> snd ` set tt"
  shows "map_of tt (pr_pkEnc p) = Some p" "pr_old p = T (pr_pkEnc p)" "changes p \<Longrightarrow> afterTxn T tt (pr_pkEnc p) = pr_new p"
proof -
  show m: "map_of tt (pr_pkEnc p) = Some p" "pr_old p = T (pr_pkEnc p)" using assms by (force simp: current_def pendingOk_def)+
  show "changes p \<Longrightarrow> afterTxn T tt (pr_pkEnc p) = pr_new p" using m(1) by (simp add: afterTxn_def)
qed

lemma current_same:
  assumes "current def T tt" "\<forall>p \<in> snd ` set tt. pr_pkEnc p = pk \<longrightarrow> \<not> changes p"
  shows "afterTxn T tt pk = T pk"
  using assms by (auto simp: current_def afterTxn_def split: option.splits dest!: map_of_SomeD) force

text \<open>The members of a merged listing.\<close>

lemma merge_members:
  assumes c: "current def T tt" and b: "buildOverlay def (Some tt) idx start end = Inr ov" and l: "ascending kvs"
  shows "ascending (mergeOverlay kvs ov)"
    "kv \<in> set (mergeOverlay kvs ov) \<longleftrightarrow>
       (\<exists>p \<in> snd ` set tt. kv \<in> set (addOf def idx start end p)) \<or>
       kv \<in> set kvs \<and> (\<forall>p \<in> snd ` set tt. \<not> oldKey def idx start end p (kv_key kv) \<and> kv_key kv \<notin> kv_key ` set (addOf def idx start end p))"
proof -
  note B = buildOverlay_spec [OF b]
  have tt: "distinct (map fst tt)" "\<forall>(k, p) \<in> set tt. pr_pkEnc p = k" using c by (auto simp: current_def)
  have adds: "set (addsOf ov) = (\<Union>p \<in> snd ` set tt. set (addOf def idx start end p))" unfolding B(1) by auto
  have "distinct (map kv_key (addsOf ov))"
    using adds_distinct [OF tt, of def idx start "end"]
      mset_eq_imp_distinct_iff [of "map kv_key (addsOf ov)" "map kv_key (concat (map (addOf def idx start end) (map snd tt)))"]
    unfolding mset_map B(3) by blast
  then have asc: "ascending (addsOf ov)" using B(2) by (simp add: strict_sorted_iff)
  note M = mergeLoop_spec [OF l asc, of "masksOf ov"]
  show "ascending (mergeOverlay kvs ov)" using M by (simp add: mergeOverlay_loop)
  show "kv \<in> set (mergeOverlay kvs ov) \<longleftrightarrow>
       (\<exists>p \<in> snd ` set tt. kv \<in> set (addOf def idx start end p)) \<or>
       kv \<in> set kvs \<and> (\<forall>p \<in> snd ` set tt. \<not> oldKey def idx start end p (kv_key kv) \<and> kv_key kv \<notin> kv_key ` set (addOf def idx start end p))"
    using M unfolding mergeOverlay_loop B(4) adds by auto
qed

text \<open>An entry of the merged listing names a row of the table after the transaction, and every such row has one.\<close>

lemma overlay_sound:
  assumes c: "current def T tt" and b: "buildOverlay def (Some tt) idx start end = Inr ov"
    and l: "lists def idx T start end kvs" and kv: "kv \<in> set (mergeOverlay kvs ov)"
  shows "\<exists>pk row. entryPK (idx \<noteq> None) kv = Inr pk \<and> afterTxn T tt pk = Some row \<and> entryKey def idx pk row = Inr (kv_key kv) \<and>
      start \<le> kv_key kv \<and> kv_key kv < end"
proof -
  have asc: "ascending kvs" using l by (simp add: lists_def)
  show ?thesis
  proof (cases "\<exists>p \<in> snd ` set tt. kv \<in> set (addOf def idx start end p)")
    case True
    then obtain p r where p: "p \<in> snd ` set tt" "pr_new p = Some r" "entryKey def idx (pr_pkEnc p) r = Inr (kv_key kv)"
      "start \<le> kv_key kv" "kv_key kv < end" "kv_value kv = pr_pkEnc p" unfolding addOf_mem by blast
    have "entryPK (idx \<noteq> None) kv = Inr (pr_pkEnc p)"
      using p(3,6) by (cases idx; cases kv) (auto simp: entryKey_def entryPK_def scanKey_def)
    then show ?thesis using p current_at(3) [OF c p(1)] by (auto simp: changes_def)
  next
    case False
    then have k: "kv \<in> set kvs" "\<forall>p \<in> snd ` set tt. \<not> oldKey def idx start end p (kv_key kv)"
      using kv merge_members(2) [OF c b asc] by auto
    obtain pk row where r: "entryPK (idx \<noteq> None) kv = Inr pk" "T pk = Some row" "entryKey def idx pk row = Inr (kv_key kv)"
      "start \<le> kv_key kv" "kv_key kv < end" using l k(1) unfolding lists_def by blast
    have "\<not> changes p" if p: "p \<in> snd ` set tt" "pr_pkEnc p = pk" for p
      using current_at(2) [OF c p(1)] p r k(2) by (auto simp: oldKey_def)
    then show ?thesis using r current_same [OF c, of pk] by auto
  qed
qed

lemma overlay_complete:
  assumes c: "current def T tt" and b: "buildOverlay def (Some tt) idx start end = Inr ov"
    and l: "lists def idx T start end kvs"
    and r: "afterTxn T tt pk = Some row" "entryKey def idx pk row = Inr k" "start \<le> k" "k < end"
  shows "\<exists>kv \<in> set (mergeOverlay kvs ov). kv_key kv = k"
proof -
  have asc: "ascending kvs" using l by (simp add: lists_def)
  note m = merge_members(2) [OF c b asc]
  show ?thesis
  proof (cases "\<exists>p \<in> snd ` set tt. pr_pkEnc p = pk \<and> changes p")
    case True
    then obtain p where p: "p \<in> snd ` set tt" "pr_pkEnc p = pk" "changes p" by blast
    then have "pr_new p = Some row" using current_at(3) [OF c p(1,3)] r(1) by simp
    then have "\<lparr>kv_key = k, kv_value = pk\<rparr> \<in> set (addOf def idx start end p)" using p r unfolding addOf_mem by auto
    then show ?thesis using m p(1) by force
  next
    case False
    then have T: "T pk = Some row" using current_same [OF c, of pk] r(1) by auto
    then obtain kv where kv: "kv \<in> set kvs" "kv_key kv = k" using l r unfolding lists_def by blast
    have no: "pr_pkEnc p \<noteq> pk" if "p \<in> snd ` set tt" "pr_new p \<noteq> None \<or> pr_old p \<noteq> None" for p
      using False that by (auto simp: changes_def)
    have "k \<notin> kv_key ` set (addOf def idx start end p)" if "p \<in> snd ` set tt" for p
      using no [OF that] entryKey_inj [OF _ r(2)] by (auto simp: addOf_mem)
    moreover have "\<not> oldKey def idx start end p k" if "p \<in> snd ` set tt" for p
      using no [OF that] entryKey_inj [OF _ r(2)] by (auto simp: oldKey_def)
    ultimately have "kv \<in> set (mergeOverlay kvs ov)" unfolding m using kv by simp
    then show ?thesis using kv(2) by blast
  qed
qed

lemma overlay_lists:
  assumes "current def T tt" "buildOverlay def (Some tt) idx start end = Inr ov" "lists def idx T start end kvs"
  shows "lists def idx (afterTxn T tt) start end (mergeOverlay kvs ov)"
  using merge_members(1) [OF assms(1,2)] overlay_sound [OF assms] overlay_complete [OF assms] assms(3)
  unfolding lists_def by blast

lemma entryKey_total:
  assumes "rowOk def pk row" "\<forall>i. idx = Some i \<longrightarrow> i \<in> set (td_Indexes def)"
  shows "\<exists>k. entryKey def idx pk row = Inr k"
  using assms by (cases idx) (auto simp: entryKey_def rowOk_def)

lemma overlayRows_total:
  assumes "\<forall>p \<in> set ps. \<forall>r. (pr_old p = Some r \<or> pr_new p = Some r) \<longrightarrow> (\<exists>k. entryKey def idx (pr_pkEnc p) r = Inr k)"
  shows "\<exists>ov'. overlayRows def idx start end ps ov = Inr ov'"
  using assms
proof (induction ps arbitrary: ov)
  case (Cons p ps)
  have "\<exists>ov'. overlayRow def idx start end p ov = Inr ov'"
  proof (cases idx)
    case (Some i)
    then have k: "\<exists>k. indexKey def i (pr_pkEnc p) r = Inr k" if "pr_old p = Some r \<or> pr_new p = Some r" for r
      using Cons.prems that by (auto simp: entryKey_def)
    obtain ov1 where "(case pr_old p of None \<Rightarrow> Inr ov
        | Some old \<Rightarrow> map_sum id (\<lambda>k. maskKey start end k ov) (indexKey def i (pr_pkEnc p) old)) = Inr ov1"
      using k by (cases "pr_old p") fastforce+
    then show ?thesis using k Some by (cases "pr_new p") (fastforce simp: overlayRow_def)+
  qed (simp add: overlayRow_def Let_def)
  then show ?case using Cons by auto
qed simp

lemma buildOverlay_total:
  assumes "current def T tt" "tableOk def T" "\<forall>i. idx = Some i \<longrightarrow> i \<in> set (td_Indexes def)"
  shows "\<exists>ov. buildOverlay def (Some tt) idx start end = Inr ov"
proof -
  have "rowOk def (pr_pkEnc p) r" if "p \<in> snd ` set tt" "pr_old p = Some r \<or> pr_new p = Some r" for p r
    using that assms(1,2) by (force simp: current_def pendingOk_def tableOk_def)
  then have "\<exists>ov'. overlayRows def idx start end (map snd tt) \<lparr>ov_adds = [], ov_masks = []\<rparr> = Inr ov'"
    using entryKey_total [OF _ assms(3)] by (intro overlayRows_total) auto
  then show ?thesis by (auto simp: buildOverlay_def Let_def)
qed

section \<open>Rows\<close>

text \<open>The table as a transaction sees it.\<close>

definition viewOf :: "rows \<Rightarrow> tableTxn option \<Rightarrow> rows" where
  "viewOf T tt = (case tt of None \<Rightarrow> T | Some rows \<Rightarrow> afterTxn T rows)"

definition currentView :: "tableDef \<Rightarrow> rows \<Rightarrow> tableTxn option \<Rightarrow> bool" where
  "currentView def T tt = (case tt of None \<Rightarrow> True | Some rows \<Rightarrow> current def T rows)"

text \<open>The row that an entry stands for.\<close>

definition rowOf :: "rows \<Rightarrow> bool \<Rightarrow> KV \<Rightarrow> Row option" where
  "rowOf T secondary kv = (case entryPK secondary kv of Inl e \<Rightarrow> None | Inr pk \<Rightarrow> T pk)"

text \<open>The engine's loop over an iterator: \<^verbatim>\<open>Next\<close> until \<^verbatim>\<open>io.EOF\<close>, at most \<open>n\<close> calls.\<close>

fun readAll :: "nat \<Rightarrow> tableTxn option \<Rightarrow> tableDef \<Rightarrow> RowIter \<Rightarrow> 'b SqlStore \<Rightarrow> ('b, Row list) loop" where
  "readAll 0 tt def it s = None"
| "readAll (Suc n) tt def it s =
     (case (case it of
              Forward f \<Rightarrow> map_option (map_prod (map_sum id (map_option (map_prod id Forward))) id) (scanNext tt def f s)
            | Reverse r \<Rightarrow> Some (map_prod (map_sum id (map_option (map_prod id Reverse))) id (reverseNext tt def r s))) of
        None \<Rightarrow> None
      | Some (Inl e, s1) \<Rightarrow> Some (Inl e, s1)
      | Some (Inr None, s1) \<Rightarrow> Some (Inr [], s1)
      | Some (Inr (Some (row, it1)), s1) \<Rightarrow>
          map_option (map_prod (map_sum id (Cons row)) id) (readAll n tt def it1 s1))"

lemma decode_encode: "typedRow cols row \<Longrightarrow> encodeRow cols row = Inr v \<Longrightarrow> length v < 2 ^ 63 \<Longrightarrow> decodeRow cols v = Inr row"
  using encodeRowLoop_decode [of cols row "[]" v] by (auto simp: encodeRow_def decodeRow_def split: if_splits)

context kv_backend
begin

lemma readRow_spec:
  assumes s: "same H lo s0 s" and t: "tableState K (contentOf (sq_led s0) (H (st_version (sq_led s0)))) V def T" and r: "T pk = Some row"
  shows "outcome (\<lambda>e s'. may_fail \<and> same H lo s0 s') (\<lambda>x s'. x = row \<and> same H lo s0 s') (readRow def pk s)"
proof -
  have ok: "rowOk def pk row" using t r by (simp add: tableState_def tableOk_def)
  then obtain v where v: "encodeRow (td_Columns def) row = Inr v" "length v < 2 ^ 63" "typedRow (td_Columns def) row"
    using encodeRow_typed [of "td_Columns def" row] by (auto simp: rowOk_def)
  have "rowKey (td_ID def) pk \<in> K" using t r by (auto simp: tableState_def rowsOk_def)
  then have c: "H (st_version (sq_led s0)) (pathOf (sq_led s0) (rowKey (td_ID def) pk)) = Some (rowPayload (td_ID def) v)"
    using t r v by (simp add: tableState_def rowsOk_def contentOf_def payloadOf_def)
  show ?thesis unfolding readRow_def
    by (rule outcome_bind, rule onLedger_Get [OF s])
      (auto simp: c rowPayload_def liftE_def decode_encode [OF v(3,1,2)])
qed

lemma readRowTxn_spec:
  assumes s: "same H lo s0 s" and t: "tableState K (contentOf (sq_led s0) (H (st_version (sq_led s0)))) V def T"
    and c: "currentView def T tt" and r: "viewOf T tt pk = Some row"
  shows "outcome (\<lambda>e s'. may_fail \<and> same H lo s0 s') (\<lambda>x s'. x = row \<and> same H lo s0 s') (readRowTxn tt def pk s)"
proof (cases "\<exists>rows p. tt = Some rows \<and> map_of rows pk = Some p")
  case True
  then obtain rows p where p: "tt = Some rows" "map_of rows pk = Some p" by blast
  then have "pr_pkEnc p = pk" "pr_old p = T pk" using c by (auto simp: currentView_def current_def pendingOk_def dest!: map_of_SomeD)
  then have "pr_new p = Some row" using r p by (auto simp: viewOf_def afterTxn_def changes_def split: if_splits)
  then show ?thesis using s p by (simp add: readRowTxn_def)
next
  case False
  then have "T pk = Some row" "readRowTxn tt def pk s = readRow def pk s"
    using r by (auto simp: viewOf_def afterTxn_def readRowTxn_def split: option.splits)
  then show ?thesis using readRow_spec [OF s t, of pk row] by simp
qed

text \<open>What reading an iterator to its end gives.\<close>

definition reads :: "(u64 \<Rightarrow> hash \<rightharpoonup> bytes) \<Rightarrow> u64 \<Rightarrow> 'b SqlStore \<Rightarrow> Row option list \<Rightarrow> ('b, Row list) loop \<Rightarrow> bool" where
  "reads H lo s0 rows l \<longleftrightarrow>
     (\<exists>res. l = Some res \<and>
        outcome (\<lambda>e s'. may_fail \<and> same H lo s0 s') (\<lambda>rs s'. map Some rs = rows \<and> same H lo s0 s') res)"

lemma reads_Cons:
  assumes "reads H lo s0 rows l"
  shows "reads H lo s0 (Some row # rows) (map_option (map_prod (map_sum id (Cons row)) id) l)"
proof -
  obtain r s' where "l = Some (r, s')"
    "outcome (\<lambda>e s'. may_fail \<and> same H lo s0 s') (\<lambda>rs s'. map Some rs = rows \<and> same H lo s0 s') (r, s')"
    using assms by (auto simp: reads_def)
  then show ?thesis unfolding reads_def by (cases r) auto
qed

lemma scanNext_spec:
  assumes s: "same H lo s0 s" and t: "tableState K (contentOf (sq_led s0) (H (st_version (sq_led s0)))) V def T"
    and c: "currentView def T tt"
    and r: "\<forall>kv \<in> set (remaining (recordsOf (sq_led s0)) it). rowOf (viewOf T tt) (si_secondary it) kv \<noteq> None"
  shows "\<exists>res. scanNext tt def it s = Some res \<and>
    outcome (\<lambda>e s'. may_fail \<and> same H lo s0 s')
      (\<lambda>x s'. same H lo s0 s' \<and>
        (case x of
           None \<Rightarrow> remaining (recordsOf (sq_led s0)) it = []
         | Some (row, it') \<Rightarrow> \<exists>kv. remaining (recordsOf (sq_led s0)) it = kv # remaining (recordsOf (sq_led s0)) it' \<and>
             si_secondary it' = si_secondary it \<and> rowOf (viewOf T tt) (si_secondary it) kv = Some row)) res"
proof -
  let ?V = "recordsOf (sq_led s0)"
  obtain q s1 where q: "nextEntry it s = Some (q, s1)"
    "outcome (\<lambda>e s'. may_fail \<and> same H lo s0 s') (\<lambda>r s'. same H lo s0 s' \<and> yields ?V it r) (q, s1)"
    using nextEntry_spec [OF s, of it] by auto
  show ?thesis
  proof (cases "\<exists>kv it'. q = Inr (Some (kv, it'))")
    case True
    then obtain kv it' where k: "q = Inr (Some (kv, it'))" by blast
    then have y: "remaining ?V it = kv # remaining ?V it'" "si_secondary it' = si_secondary it" "same H lo s0 s1" using q(2) by (auto simp: yields_def)
    obtain pk row where p: "entryPK (si_secondary it) kv = Inr pk" "viewOf T tt pk = Some row"
      using r y(1) by (auto simp: rowOf_def split: sum.splits)
    have "outcome (\<lambda>e s'. may_fail \<and> same H lo s0 s')
      (\<lambda>x s'. same H lo s0 s' \<and>
        (case x of
           None \<Rightarrow> remaining ?V it = []
         | Some (row, it') \<Rightarrow> \<exists>kv. remaining ?V it = kv # remaining ?V it' \<and>
             si_secondary it' = si_secondary it \<and> rowOf (viewOf T tt) (si_secondary it) kv = Some row))
      (andThen (readRowTxn tt def pk) (\<lambda>row. ret (Some (row, it'))) s1)"
      by (rule outcome_bind, rule readRowTxn_spec [OF y(3) t c p(2)]) (use y p in \<open>auto simp: rowOf_def\<close>)
    then show ?thesis using q(1) k p(1) by (simp add: scanNext_def)
  next
    case False
    then show ?thesis using q by (cases q) (auto simp: scanNext_def yields_def split: option.splits)
  qed
qed

lemma readAll_forward:
  assumes "same H lo s0 s" "tableState K (contentOf (sq_led s0) (H (st_version (sq_led s0)))) V def T" "currentView def T tt"
    "\<forall>kv \<in> set (remaining (recordsOf (sq_led s0)) it). rowOf (viewOf T tt) (si_secondary it) kv \<noteq> None"
    "length (remaining (recordsOf (sq_led s0)) it) < n"
  shows "reads H lo s0 (map (rowOf (viewOf T tt) (si_secondary it)) (remaining (recordsOf (sq_led s0)) it)) (readAll n tt def (Forward it) s)"
  using assms
proof (induction n arbitrary: it s)
  case (Suc n)
  let ?V = "recordsOf (sq_led s0)"
  obtain res where res: "scanNext tt def it s = Some res"
    "outcome (\<lambda>e s'. may_fail \<and> same H lo s0 s')
      (\<lambda>x s'. same H lo s0 s' \<and>
        (case x of
           None \<Rightarrow> remaining ?V it = []
         | Some (row, it') \<Rightarrow> \<exists>kv. remaining ?V it = kv # remaining ?V it' \<and>
             si_secondary it' = si_secondary it \<and> rowOf (viewOf T tt) (si_secondary it) kv = Some row)) res"
    using scanNext_spec [OF Suc.prems(1-4)] by blast
  show ?case
  proof (cases "\<exists>row it' s1. res = (Inr (Some (row, it')), s1)")
    case True
    then obtain row it' s1 where r: "res = (Inr (Some (row, it')), s1)" by blast
    then obtain kv where k: "same H lo s0 s1" "remaining ?V it = kv # remaining ?V it'" "si_secondary it' = si_secondary it"
      "rowOf (viewOf T tt) (si_secondary it) kv = Some row" using res(2) by auto
    have "reads H lo s0 (map (rowOf (viewOf T tt) (si_secondary it')) (remaining ?V it')) (readAll n tt def (Forward it') s1)"
      by (rule Suc.IH [OF k(1) Suc.prems(2,3)]) (use Suc.prems(4,5) k in auto)
    then show ?thesis using reads_Cons [of H lo s0 _ _ row] res(1) r k by simp
  next
    case False
    then show ?thesis using res unfolding reads_def
      by (cases res; cases "fst res") (auto split: option.splits)
  qed
qed simp

section \<open>Reverse scans\<close>

lemma collectEntries_spec:
  assumes "same H lo s0 s"
  shows "\<exists>res. collectEntries start end es s = Some res \<and>
    outcome (\<lambda>e s'. may_fail \<and> same H lo s0 s') (\<lambda>kvs s'. kvs = es @ listing (recordsOf (sq_led s0)) start end \<and> same H lo s0 s') res"
  using assms
proof (induction "length (listing (recordsOf (sq_led s0)) start end)" arbitrary: start es s rule: less_induct)
  case less
  let ?V = "recordsOf (sq_led s0)"
  have fin: "finite (dom ?V)" using ledger_finite [OF sameD(1) [OF less.prems]] sameD(4) [OF less.prems] by simp
  obtain r s1 where c: "onBackend (callScan start end scanChunkSize) s = (r, s1)" by (cases "onBackend (callScan start end scanChunkSize) s")
  note S = onBackend_scan [OF less.prems, of start "end" scanChunkSize, unfolded c]
  show ?case
  proof (cases r)
    case (Inl e)
    then show ?thesis using S by (subst collectEntries.simps) (simp add: c)
  next
    case (Inr kvs)
    then have k: "scanned ?V start end scanChunkSize kvs" "same H lo s0 s1" using S by auto
    show ?thesis
    proof (cases "length kvs < unat scanChunkSize")
      case True
      then show ?thesis using scanned_all [OF k(1) fin] k(2) Inr by (subst collectEntries.simps) (simp add: c)
    next
      case False
      then have ne: "kvs \<noteq> []" by auto
      note M = scanned_more [OF k(1) fin ne]
      have "\<exists>res. collectEntries (kv_key (last kvs) @ [0]) end (es @ kvs) s1 = Some res \<and>
        outcome (\<lambda>e s'. may_fail \<and> same H lo s0 s')
          (\<lambda>kvs' s'. kvs' = (es @ kvs) @ listing ?V (kv_key (last kvs) @ [0]) end \<and> same H lo s0 s') res"
        by (rule less.hyps [OF _ k(2)]) (use M ne in simp)
      then show ?thesis using False Inr M by (subst collectEntries.simps) (simp add: c)
    qed
  qed
qed

lemma readAll_reverse:
  assumes "same H lo s0 s" "tableState K (contentOf (sq_led s0) (H (st_version (sq_led s0)))) V def T" "currentView def T tt"
    "\<forall>pk \<in> set (ri_pks it). viewOf T tt pk \<noteq> None" "ri_pos it + 1 \<le> int (length (ri_pks it))" "nat (ri_pos it + 1) < n"
  shows "reads H lo s0 (map (viewOf T tt) (rev (take (nat (ri_pos it + 1)) (ri_pks it)))) (readAll n tt def (Reverse it) s)"
  using assms
proof (induction n arbitrary: it s)
  case (Suc n)
  show ?case
  proof (cases "ri_pos it < 0")
    case True
    then show ?thesis using Suc.prems(1) by (simp add: reverseNext_def reads_def ret_def)
  next
    case False
    define m where "m = nat (ri_pos it)"
    have m: "ri_pos it = int m" "m < length (ri_pks it)" "nat (ri_pos it + 1) = Suc m" using False Suc.prems(5) by (auto simp: m_def)
    obtain row where row: "viewOf T tt (ri_pks it ! m) = Some row" using Suc.prems(4) m(2) by (meson nth_mem not_None_eq)
    note R = readRowTxn_spec [OF Suc.prems(1-3) row]
    have nx: "reverseNext tt def it s = andThen (readRowTxn tt def (ri_pks it ! m)) (\<lambda>row. ret (Some (row, it\<lparr>ri_pos := ri_pos it - 1\<rparr>))) s"
      using False m(1) by (simp add: reverseNext_def)
    show ?thesis
    proof (cases "readRowTxn tt def (ri_pks it ! m) s")
      case (Pair r s1)
      show ?thesis
      proof (cases r)
        case (Inl e)
        then show ?thesis using R Pair unfolding reads_def by (simp add: nx andThen_def)
      next
        case (Inr x)
        then have x: "x = row" "same H lo s0 s1" using R Pair by auto
        have "reads H lo s0 (map (viewOf T tt) (rev (take (nat (ri_pos (it\<lparr>ri_pos := ri_pos it - 1\<rparr>) + 1)) (ri_pks (it\<lparr>ri_pos := ri_pos it - 1\<rparr>)))))
            (readAll n tt def (Reverse (it\<lparr>ri_pos := ri_pos it - 1\<rparr>)) s1)"
          by (rule Suc.IH [OF x(2) Suc.prems(2,3)]) (use Suc.prems m in auto)
        from reads_Cons [OF this, of row] show ?thesis
          using Pair Inr x m row by (simp add: nx andThen_def ret_def take_Suc_conv_app_nth)
      qed
    qed
  qed
qed simp

end

text \<open>The keys that a list of entries names.\<close>

lemma entryPKs_map:
  "\<forall>kv \<in> set kvs. \<exists>pk. entryPK secondary kv = Inr pk \<Longrightarrow>
     \<exists>pks. entryPKs secondary kvs = Inr pks \<and> (\<forall>T. map T pks = map (rowOf T secondary) kvs)"
proof (induction kvs)
  case (Cons kv kvs)
  then show ?case by (force simp: rowOf_def)
qed simp

section \<open>Partitions\<close>

text \<open>Reading a partition to its end.\<close>

definition scanPartition :: "nat \<Rightarrow> tableTxn option \<Rightarrow> tableDef \<Rightarrow> Partition \<Rightarrow> 'b SqlStore \<Rightarrow> ('b, Row list) loop" where
  "scanPartition n tt def p s =
     (case PartitionRows tt def p s of
        None \<Rightarrow> None
      | Some (Inl e, s1) \<Rightarrow> Some (Inl e, s1)
      | Some (Inr it, s1) \<Rightarrow> readAll n tt def it s1)"

definition partIndex :: "tableDef \<Rightarrow> Partition \<Rightarrow> indexDef option" where
  "partIndex def p = (case p of FullScan pre \<Rightarrow> None | IndexRange part \<Rightarrow> if pt_secondary part then indexByID (pt_idxID part) def else None)"

definition partBounds :: "Partition \<Rightarrow> bytes \<times> bytes" where
  "partBounds p = (case p of FullScan pre \<Rightarrow> (pre, the (incBytes pre)) | IndexRange part \<Rightarrow> (pt_start part, pt_end part))"

definition partReverse :: "Partition \<Rightarrow> bool" where
  "partReverse p = (case p of FullScan pre \<Rightarrow> False | IndexRange part \<Rightarrow> pt_reverse part)"

text \<open>A partition of the table: the full scan, or a range within one of its key spaces.\<close>

definition servable :: "tableDef \<Rightarrow> Partition \<Rightarrow> bool" where
  "servable def p \<longleftrightarrow>
     (case p of
        FullScan pre \<Rightarrow> pre = scanKey (td_ID def) []
      | IndexRange part \<Rightarrow>
          (pt_secondary part \<longrightarrow> indexByID (pt_idxID part) def \<noteq> None) \<and>
          inSpace def (partIndex def p) (pt_start part) (pt_end part))"

lemma indexByID_mem: "indexByID i def = Some idx \<Longrightarrow> idx \<in> set (td_Indexes def)"
  by (auto simp: indexByID_def find_Some_iff)

lemma incLoop_defined: "b \<in> set bs \<Longrightarrow> b \<noteq> 0xFF \<Longrightarrow> \<exists>c. incLoop bs = Some c"
  by (induction bs) auto

lemma scanKey_end: "\<exists>e. incBytes (scanKey i []) = Some e"
  using incLoop_defined [of scanPrefix "rev (scanKey i [])"] by (auto simp: incBytes_def scanKey_def)

lemma servable_space:
  assumes "servable def p"
  shows "inSpace def (partIndex def p) (fst (partBounds p)) (snd (partBounds p))"
proof (cases p)
  case (FullScan pre)
  obtain e where e: "incBytes (scanKey (td_ID def) []) = Some e" using scanKey_end by blast
  have "\<exists>t. k = scanKey (td_ID def) t" if "scanKey (td_ID def) [] \<le> k" "k < e" for k
    using that incBytes_range [OF e, of k] by (auto simp: scanKey_def prefix_def)
  moreover have "e \<noteq> []" using incBytes_greater [OF e] by auto
  ultimately show ?thesis using assms FullScan e by (simp add: servable_def inSpace_def partIndex_def partBounds_def)
qed (use assms in \<open>simp add: servable_def partBounds_def\<close>)

lemma boundedColumn_end: "boundedColumn pre m k lo hi = Some (start, end) \<Longrightarrow> pre \<noteq> [] \<Longrightarrow> end \<noteq> []"
  by (cases hi) (auto simp: boundedColumn_def Let_def split: option.splits sum.splits if_splits dest!: incBytes_greater)

lemma rangeLoop_end: "rangeLoop secondary def os rng pre = Inr (Some (start, end)) \<Longrightarrow> pre \<noteq> [] \<Longrightarrow> end \<noteq> []"
proof (induction secondary def os rng pre rule: rangeLoop.induct)
  case (1 secondary def ord os expr rng pre)
  obtain col k where k: "at (td_Columns def) ord = Inr col" "kind col = Inr k" using 1(2) by (auto split: sum.splits)
  show ?case
  proof (cases "rangeColumn secondary k pre (re_LowerBound expr) (re_UpperBound expr)")
    case (Exact pre')
    then have "pre' \<noteq> []" using 1(3) rangeColumn_Exact by fastforce
    then show ?thesis using 1(1) [OF k Exact] 1(2) k Exact by simp
  next
    case (Ranged b)
    then show ?thesis using 1(2,3) k rangeColumn_Ranged [of secondary k pre "re_LowerBound expr" "re_UpperBound expr"] boundedColumn_end by auto
  qed
qed (auto dest: incBytes_greater)

text \<open>The partitions of an index lookup are ranges of that index.\<close>

lemma lookupLoop_bounds:
  "lookupLoop x isReverse i ranges = Inr parts \<Longrightarrow> part \<in> set parts \<Longrightarrow>
     pt_secondary part = (li_idx x \<noteq> None) \<and> pt_idxID part = (case li_idx x of None \<Rightarrow> 0 | Some idx \<Rightarrow> ix_ID idx) \<and>
     pt_reverse part = isReverse \<and> (\<exists>rng \<in> set ranges. rangeBounds x rng = Inr (Some (pt_start part, pt_end part)))"
proof (induction ranges arbitrary: i parts)
  case (Cons rng ranges)
  obtain start "end" ps where p: "rangeBounds x rng = Inr (Some (start, end))" "lookupLoop x isReverse (i + 1) ranges = Inr ps"
    "parts = \<lparr>pt_start = start, pt_end = end, pt_secondary = (li_idx x \<noteq> None),
       pt_idxID = (case li_idx x of None \<Rightarrow> 0 | Some idx \<Rightarrow> ix_ID idx), pt_reverse = isReverse, pt_seq = i\<rparr> # ps"
    using Cons.prems(1) by (auto split: sum.splits option.splits)
  show ?case using Cons.IH [OF p(2)] Cons.prems(2) p(1,3) by auto
qed simp

lemma find_distinct: "distinct (map f xs) \<Longrightarrow> x \<in> set xs \<Longrightarrow> find (\<lambda>y. f y = f x) xs = Some x"
  by (induction xs) auto

lemma lookup_servable:
  assumes l: "LookupPartitions x ranges isEmpty isReverse = Inr parts" "part \<in> set parts"
    and i: "\<forall>idx. li_idx x = Some idx \<longrightarrow> idx \<in> set (td_Indexes (li_def x))" "distinct (map ix_ID (td_Indexes (li_def x)))"
  shows "servable (li_def x) (IndexRange part)" "partIndex (li_def x) (IndexRange part) = li_idx x" "pt_reverse part = isReverse"
    "\<exists>rng \<in> set ranges. rangeBounds x rng = Inr (Some (pt_start part, pt_end part))"
proof -
  obtain ps where ps: "lookupLoop x isReverse 0 ranges = Inr ps" "part \<in> set ps"
    using l by (auto simp: LookupPartitions_def split: if_splits sum.splits)
  note B = lookupLoop_bounds [OF ps]
  show "pt_reverse part = isReverse" "\<exists>rng \<in> set ranges. rangeBounds x rng = Inr (Some (pt_start part, pt_end part))" using B by auto
  have find: "indexByID (ix_ID idx) (li_def x) = Some idx" if "li_idx x = Some idx" for idx
    using find_distinct [of ix_ID] i that by (simp add: indexByID_def)
  show p: "partIndex (li_def x) (IndexRange part) = li_idx x"
    using B find by (cases "li_idx x") (auto simp: partIndex_def)
  obtain rng where r: "rangeBounds x rng = Inr (Some (pt_start part, pt_end part))" using B by blast
  have "inSpace (li_def x) (li_idx x) (pt_start part) (pt_end part)"
  proof (cases "li_idx x")
    case None
    then have "rangeLoop False (li_def x) (ords x) rng (scanKey (td_ID (li_def x)) []) = Inr (Some (pt_start part, pt_end part))"
      using r by (simp add: rangeBounds_def)
    from rangeLoop_space [OF this] rangeLoop_end [OF this] show ?thesis
      using None by (fastforce simp: inSpace_def scanKey_def prefix_def)
  next
    case (Some idx)
    then have "rangeLoop True (li_def x) (ords x) rng (secondarySpace (ix_ID idx)) = Inr (Some (pt_start part, pt_end part))"
      using r by (simp add: rangeBounds_def)
    from rangeLoop_space [OF this] rangeLoop_end [OF this] show ?thesis
      using Some i by (fastforce simp: inSpace_def secondarySpace_def prefix_def)
  qed
  then show "servable (li_def x) (IndexRange part)" using p B find by (auto simp: servable_def split: option.splits)
qed

context kv_backend
begin

lemma forward_scan:
  assumes "ledger (sq_led s) H lo" "tableState K (contentOf (sq_led s) (H (st_version (sq_led s)))) V def T" "currentView def T tt"
    and "kvs = mergeOverlay (listing (recordsOf (sq_led s)) start end) ov"
    and "\<forall>kv \<in> set kvs. \<exists>pk. entryPK secondary kv = Inr pk \<and> viewOf T tt pk \<noteq> None" "length kvs < n"
  shows "reads H lo s (map (rowOf (viewOf T tt) secondary) kvs) (readAll n tt def (Forward (newScanIter start end secondary ov)) s)"
proof -
  have sec: "si_secondary (newScanIter start end secondary ov) = secondary" by (simp add: newScanIter_def)
  have "\<forall>kv \<in> set kvs. rowOf (viewOf T tt) secondary kv \<noteq> None" using assms(5) by (auto simp: rowOf_def)
  then show ?thesis
    using readAll_forward [OF same_refl [OF assms(1)] assms(2,3), of "newScanIter start end secondary ov" n] assms(6)
    unfolding remaining_new sec assms(4) by blast
qed

lemma reverse_scan:
  assumes "ledger (sq_led s) H lo" "tableState K (contentOf (sq_led s) (H (st_version (sq_led s)))) V def T" "currentView def T tt"
    and k: "kvs = mergeOverlay (listing (recordsOf (sq_led s)) start end) ov"
    and named: "\<forall>kv \<in> set kvs. \<exists>pk. entryPK secondary kv = Inr pk \<and> viewOf T tt pk \<noteq> None" and n: "length kvs < n"
  shows "reads H lo s (rev (map (rowOf (viewOf T tt) secondary) kvs))
    (case newReverseScanIter start end secondary ov s of
       None \<Rightarrow> None | Some (Inl e, s1) \<Rightarrow> Some (Inl e, s1) | Some (Inr it, s1) \<Rightarrow> readAll n tt def (Reverse it) s1)"
proof -
  obtain r s1 where c: "collectEntries start end [] s = Some (r, s1)"
    "outcome (\<lambda>e s'. may_fail \<and> same H lo s s') (\<lambda>kvs s'. kvs = [] @ listing (recordsOf (sq_led s)) start end \<and> same H lo s s') (r, s1)"
    using collectEntries_spec [OF same_refl [OF assms(1)], of start "end" "[]"] by auto
  show ?thesis
  proof (cases r)
    case (Inl e)
    then show ?thesis using c unfolding reads_def by (simp add: newReverseScanIter_def)
  next
    case (Inr es)
    then have es: "mergeOverlay es ov = kvs" "same H lo s s1" using c(2) k by auto
    obtain pks where pks: "entryPKs secondary kvs = Inr pks" "\<And>T. map T pks = map (rowOf T secondary) kvs"
      using entryPKs_map [of kvs secondary] named by blast
    have len: "length pks = length kvs" using pks(2) [of "\<lambda>_. None"] by (metis length_map)
    have "viewOf T tt pk \<noteq> None" if "pk \<in> set pks" for pk
    proof -
      have "viewOf T tt pk \<in> set (map (rowOf (viewOf T tt) secondary) kvs)" using that by (simp only: pks(2) [symmetric] set_map) simp
      then show ?thesis using named by (auto simp: rowOf_def)
    qed
    then have "reads H lo s (map (viewOf T tt) (rev (take (length pks) pks))) (readAll n tt def (Reverse \<lparr>ri_pks = pks, ri_pos = int (length pks) - 1\<rparr>) s1)"
      using readAll_reverse [OF es(2) assms(2,3), of "\<lparr>ri_pks = pks, ri_pos = int (length pks) - 1\<rparr>" n] n len by simp
    moreover have "newReverseScanIter start end secondary ov s = Some (Inr \<lparr>ri_pks = pks, ri_pos = int (length pks) - 1\<rparr>, s1)"
      by (simp add: newReverseScanIter_def c(1) Inr es(1) pks(1) ret_def)
    ultimately show ?thesis using pks(2) [of "viewOf T tt"] by (simp add: rev_map [symmetric])
  qed
qed

lemma scanPartition_spec:
  assumes l: "ledger (sq_led s) H lo"
    and t: "tableState K (contentOf (sq_led s) (H (st_version (sq_led s)))) (recordsOf (sq_led s)) def T"
    and c: "currentView def T tt" and p: "servable def p"
  shows "\<exists>kvs. lists def (partIndex def p) (viewOf T tt) (fst (partBounds p)) (snd (partBounds p)) kvs \<and>
    (\<forall>n > length kvs. reads H lo s ((if partReverse p then rev else id) (map (rowOf (viewOf T tt) (partIndex def p \<noteq> None)) kvs))
       (scanPartition n tt def p s))"
proof -
  let ?V = "recordsOf (sq_led s)" and ?start = "fst (partBounds p)" and ?stop = "snd (partBounds p)" and ?idx = "partIndex def p"
  have fin: "finite (dom ?V)" using ledger_finite [OF l] .
  have sp: "inSpace def ?idx ?start ?stop" by (rule servable_space [OF p])
  have l0: "lists def ?idx T ?start ?stop (listing ?V ?start ?stop)"
    by (rule listing_lists [OF _ sp fin]) (use t in \<open>simp add: tableState_def\<close>)
  have ix: "\<forall>i. ?idx = Some i \<longrightarrow> i \<in> set (td_Indexes def)" using sp by (simp add: inSpace_def)
  obtain ov where ov: "buildOverlay def tt ?idx ?start ?stop = Inr ov"
    "lists def ?idx (viewOf T tt) ?start ?stop (mergeOverlay (listing ?V ?start ?stop) ov)"
  proof (cases tt)
    case None
    show ?thesis by (rule that [of None]) (use l0 None in \<open>simp_all add: buildOverlay_def viewOf_def mergeOverlay_def\<close>)
  next
    case (Some rows)
    then have c': "current def T rows" using c by (simp add: currentView_def)
    obtain ov where "buildOverlay def (Some rows) ?idx ?start ?stop = Inr ov"
      using buildOverlay_total [OF c' _ ix] t by (auto simp: tableState_def)
    then show ?thesis using overlay_lists [OF c' _ l0] that [of ov] Some by (simp add: viewOf_def)
  qed
  let ?kvs = "mergeOverlay (listing ?V ?start ?stop) ov" and ?sec = "?idx \<noteq> None"
  have named: "\<forall>kv \<in> set ?kvs. \<exists>pk. entryPK ?sec kv = Inr pk \<and> viewOf T tt pk \<noteq> None" using ov(2) by (fastforce simp: lists_def)
  have "reads H lo s ((if partReverse p then rev else id) (map (rowOf (viewOf T tt) ?sec) ?kvs)) (scanPartition n tt def p s)"
    if n: "length ?kvs < n" for n
  proof (cases p)
    case (FullScan pre)
    have "PartitionRows tt def p s = Some (Inr (Forward (newScanIter ?start ?stop ?sec ov)), s)"
      using FullScan p ov(1) scanKey_end [of "td_ID def"]
      by (auto simp: PartitionRows_def servable_def partBounds_def partIndex_def)
    then show ?thesis using FullScan forward_scan [OF l t c refl named n] by (simp add: scanPartition_def partReverse_def)
  next
    case (IndexRange part)
    then have i: "(if pt_secondary part then map_option Some (indexByID (pt_idxID part) def) else Some None) = Some ?idx"
      "pt_secondary part = ?sec" using p by (auto simp: servable_def partIndex_def)
    have b: "?start = pt_start part" "?stop = pt_end part" using IndexRange by (simp_all add: partBounds_def)
    show ?thesis
      using IndexRange i ov(1) forward_scan [OF l t c refl named n] reverse_scan [OF l t c refl named n]
      unfolding b by (auto simp: scanPartition_def PartitionRows_def partReverse_def split: option.splits sum.splits prod.splits)
  qed
  then show ?thesis using ov(2) by blast
qed

end

section \<open>Unique indexes\<close>

text \<open>The entries with given columns: their keys start with the encoding of the columns, which no other columns share.\<close>

lemma indexKey_cols:
  assumes row: "encodeIndexCols def idx row = Inr (colsEnc, n)"
  shows "(\<exists>t. indexKey def idx pk r = Inr (secondarySpace (ix_ID idx) @ colsEnc @ t)) \<longleftrightarrow> (\<exists>n'. encodeIndexCols def idx r = Inr (colsEnc, n'))"
proof
  assume "\<exists>t. indexKey def idx pk r = Inr (secondarySpace (ix_ID idx) @ colsEnc @ t)"
  then obtain t c n' where t: "encodeIndexCols def idx r = Inr (c, n')" "c @ pk = colsEnc @ t"
    by (auto simp: indexKey_def split: sum.splits)
  obtain ps where ps: "colsEnc = concat ps" "list_all2 (piece True def row) (ix_ColOrds idx) ps" using encodeIndexCols_pieces [OF row] by blast
  obtain qs where qs: "c = concat qs" "list_all2 (piece True def r) (ix_ColOrds idx) qs" using encodeIndexCols_pieces [OF t(1)] by blast
  have "pk = t" using pieces_eq [OF qs(2) ps(2), of pk t] t(2) by (simp add: ps(1) qs(1))
  then show "\<exists>n'. encodeIndexCols def idx r = Inr (colsEnc, n')" using t by simp
qed (auto simp: indexKey_def)

lemma conflict_scan:
  assumes e: "entriesOk def T V" and i: "idx \<in> set (td_Indexes def)" and row: "encodeIndexCols def idx row = Inr (colsEnc, n)"
    and b: "incBytes (secondarySpace (ix_ID idx) @ colsEnc) = Some end" and f: "finite (dom V)"
    and k: "scanned V (secondarySpace (ix_ID idx) @ colsEnc) end 2 kvs"
  shows "(\<exists>kv \<in> set kvs. kv_value kv \<noteq> pkEnc) \<longleftrightarrow> (\<exists>pk r' n'. pk \<noteq> pkEnc \<and> T pk = Some r' \<and> encodeIndexCols def idx r' = Inr (colsEnc, n'))"
proof -
  let ?start = "secondarySpace (ix_ID idx) @ colsEnc"
  have ne: "end \<noteq> []" using incBytes_greater [OF b] by auto
  have rng: "inRange ?start end x \<longleftrightarrow> (\<exists>t. x = ?start @ t)" for x using incBytes_range [OF b, of x] ne by (auto simp: inRange_def prefix_def)
  have V: "V (?start @ t) = Some pk \<longleftrightarrow> (\<exists>r'. T pk = Some r' \<and> indexKey def idx pk r' = Inr (?start @ t))" for t pk
    using e i by (simp add: entriesOk_def)
  have own: "t = pk" if v: "V (?start @ t) = Some pk" for t pk
  proof -
    obtain r' where r': "indexKey def idx pk r' = Inr (?start @ t)" using v unfolding V by blast
    then obtain n' where "encodeIndexCols def idx r' = Inr (colsEnc, n')" using indexKey_cols [OF row, of pk r'] by auto
    then show ?thesis using r' by (simp add: indexKey_def)
  qed
  show ?thesis
  proof
    assume "\<exists>kv \<in> set kvs. kv_value kv \<noteq> pkEnc"
    then obtain kv where kv: "kv \<in> set kvs" "kv_value kv \<noteq> pkEnc" by blast
    then obtain t where "V (?start @ t) = Some (kv_value kv)" using k rng by (auto simp: scanned_def)
    then obtain r' where "T (kv_value kv) = Some r'" "indexKey def idx (kv_value kv) r' = Inr (?start @ t)" unfolding V by blast
    then show "\<exists>pk r' n'. pk \<noteq> pkEnc \<and> T pk = Some r' \<and> encodeIndexCols def idx r' = Inr (colsEnc, n')"
      using kv(2) indexKey_cols [OF row] by (metis append.assoc)
  next
    assume "\<exists>pk r' n'. pk \<noteq> pkEnc \<and> T pk = Some r' \<and> encodeIndexCols def idx r' = Inr (colsEnc, n')"
    then obtain pk r' n' where r: "pk \<noteq> pkEnc" "T pk = Some r'" "encodeIndexCols def idx r' = Inr (colsEnc, n')" by blast
    have v: "V (?start @ pk) = Some pk" unfolding V using r by (simp add: indexKey_def)
    show "\<exists>kv \<in> set kvs. kv_value kv \<noteq> pkEnc"
    proof (cases "?start @ pk \<in> kv_key ` set kvs")
      case True
      then show ?thesis using k v r(1) by (force simp: scanned_def)
    next
      case False
      have "length kvs = 2" using k v rng False by (auto simp: scanned_def)
      then obtain a c where ac: "kvs = [a, c]" by (auto simp: numeral_2_eq_2 length_Suc_conv)
      have "kv_value a \<noteq> kv_value c"
      proof
        assume eq: "kv_value a = kv_value c"
        obtain t u where t: "kv_key a = ?start @ t" "kv_key c = ?start @ u" using k rng ac by (auto simp: scanned_def)
        have "t = kv_value a" "u = kv_value c" using own k ac t by (auto simp: scanned_def)
        then show False using k ac t eq by (auto simp: scanned_def)
      qed
      then show ?thesis using ac by auto
    qed
  qed
qed

context kv_backend
begin

lemma uniqueConflict_spec:
  assumes s: "same H lo s0 s" and e: "entriesOk def T (recordsOf (sq_led s0))" and i: "idx \<in> set (td_Indexes def)"
    and row: "encodeIndexCols def idx row = Inr (colsEnc, n)"
  shows "outcome (\<lambda>e s'. may_fail \<and> same H lo s0 s')
    (\<lambda>r s'. same H lo s0 s' \<and>
       r = (\<exists>pk r' n'. pk \<noteq> pkEnc \<and> T pk = Some r' \<and> encodeIndexCols def idx r' = Inr (colsEnc, n')))
    (uniqueConflict idx colsEnc pkEnc s)"
proof -
  have fin: "finite (dom (recordsOf (sq_led s0)))" using ledger_finite [OF sameD(1) [OF s]] sameD(4) [OF s] by simp
  obtain "end" where b: "incBytes (secondarySpace (ix_ID idx) @ colsEnc) = Some end"
    using incLoop_defined [of secondaryPrefix "rev (secondarySpace (ix_ID idx) @ colsEnc)"] by (auto simp: incBytes_def secondarySpace_def)
  have "outcome (\<lambda>e s'. may_fail \<and> same H lo s0 s')
    (\<lambda>r s'. same H lo s0 s' \<and>
       r = (\<exists>pk r' n'. pk \<noteq> pkEnc \<and> T pk = Some r' \<and> encodeIndexCols def idx r' = Inr (colsEnc, n')))
    (andThen (onBackend (callScan (secondarySpace (ix_ID idx) @ colsEnc) end 2)) (\<lambda>kvs. ret (\<exists>kv \<in> set kvs. kv_value kv \<noteq> pkEnc)) s)"
    by (rule outcome_bind, rule onBackend_scan [OF s]) (use conflict_scan [OF e i row b fin] in auto)
  then show ?thesis by (simp add: uniqueConflict_def b Let_def)
qed

section \<open>Verified reads\<close>

text \<open>A verified read gives the row of the table together with a proof that the ledger's root vouches for.\<close>

lemma VerifiedGet_row:
  assumes l: "ledger (sq_led s) H lo"
    and t: "tableState K (contentOf (sq_led s) (H (st_version (sq_led s)))) (recordsOf (sq_led s)) def T"
    and def: "map_of (sq_tables s) (toLower table) = Some def" "length pkValues = length (td_PKOrds def)"
    and pk: "encodePKValues def (td_PKOrds def) pkValues [] = Inr pkEnc" "rowKey (td_ID def) pkEnc \<in> K"
  shows "outcome (\<lambda>e s'. may_fail \<and> same H lo s s')
    (\<lambda>vr s'. same H lo s s' \<and> vw_Row vr = T pkEnc \<and> vw_Key vr = rowKey (td_ID def) pkEnc \<and> (vw_Root vr, vw_Version vr) = Root (sq_led s) \<and>
       vw_Value vr = contentOf (sq_led s) (H (st_version (sq_led s))) (vw_Key vr) \<and> VerifySql s vr (vw_Root vr) = Inr True)
    (VerifiedGet table pkValues s)"
proof -
  let ?key = "rowKey (td_ID def) pkEnc" and ?l = "sq_led s"
  have V: "VerifySql s vr (vw_Root vr) = Inr True"
    if "proves ?l (st_root ?l) (H (st_version ?l)) (pathOf ?l ?key) (vw_Proof vr)" "vw_Key vr = ?key" "vw_Root vr = st_root ?l"
      "vw_Value vr = H (st_version ?l) (pathOf ?l ?key)" for vr
    using that by (auto simp: VerifySql_def VerifyAbsent_def VerifyValue_def proves_def absentVerified_def Root_def Let_def split: option.splits)
  have c: "contentOf ?l (H (st_version ?l)) ?key = Option.bind (T pkEnc) (payloadOf def)" using t pk(2) by (simp add: tableState_def rowsOk_def)
  have row: "\<exists>v. payloadOf def row = Some (tagRow # putUint64 (td_ID def) @ v) \<and> decodeRow (td_Columns def) v = Inr row" if "T pkEnc = Some row" for row
  proof -
    have ok: "rowOk def pkEnc row" using t that by (simp add: tableState_def tableOk_def)
    obtain v where v: "encodeRow (td_Columns def) row = Inr v" using encodeRow_typed [of "td_Columns def" row] ok by (auto simp: rowOk_def)
    then show ?thesis using decode_encode [of "td_Columns def" row v] ok by (simp add: payloadOf_def rowPayload_def rowOk_def)
  qed
  have fin: "outcome (\<lambda>e s'. may_fail \<and> same H lo s s')
      (\<lambda>vr s'. same H lo s s' \<and> vw_Row vr = T pkEnc \<and> vw_Key vr = ?key \<and> (vw_Root vr, vw_Version vr) = (st_root ?l, st_version ?l) \<and>
         vw_Value vr = contentOf ?l (H (st_version ?l)) (vw_Key vr) \<and> VerifySql s vr (vw_Root vr) = Inr True)
      ((let out = \<lparr>vw_Row = None, vw_Key = ?key, vw_Value = None, vw_Proof = evidence, vw_Root = st_root ?l, vw_Version = st_version ?l\<rparr>
        in case r of
             None \<Rightarrow> ret out
           | Some raw \<Rightarrow>
               if length raw < 9 \<or> raw ! 0 \<noteq> tagRow then throw (TextErr ''table %q: row entry is corrupt'')
               else
                 (case decodeRow (td_Columns def) (drop 9 raw) of
                    Inl e \<Rightarrow> throw e
                  | Inr row \<Rightarrow> ret (out\<lparr>vw_Value := Some raw, vw_Row := Some row\<rparr>))) s2)"
    if s2: "same H lo s s2" "r = H (st_version ?l) (pathOf ?l ?key)" "proves ?l (st_root ?l) (H (st_version ?l)) (pathOf ?l ?key) evidence" for r evidence s2
  proof (cases "T pkEnc")
    case None
    then show ?thesis using c s2 V by (simp add: contentOf_def)
  next
    case (Some row)
    obtain v where v: "payloadOf def row = Some (tagRow # putUint64 (td_ID def) @ v)" "decodeRow (td_Columns def) v = Inr row" using row [OF Some] by blast
    then show ?thesis using c s2 V Some by (simp add: contentOf_def)
  qed
  show ?thesis
    unfolding VerifiedGet_def Root_def def pk Let_def option.case sum.case prod.case
    apply (simp only: def not_True_eq_False if_False simp_thms)
    apply (rule outcome_bind, rule onLedger_Prove [OF l], simp)
    apply (elim conjE)
    apply (rule outcome_bind, rule onLedger_Get, assumption, simp)
    subgoal for evidence s1 r s2 using fin [of s2 r evidence] by (simp add: Let_def)
    done
qed

end

end
