(* ===== verification/Edit_Inv.thy ===== *)
theory Edit_Inv
  imports Scan_Inv
begin

text \<open>
  The statement editor over an honest backend. A statement works on the table as its transaction sees it
  (\<open>viewOf\<close>) through a buffer of its own; \<open>editorInsert_spec\<close>, \<open>editorDelete_spec\<close> and
  \<open>editorUpdate_spec\<close> show that the three operations are the insertion, the deletion and the replacement of a row in
  that view, and \<open>editorClose_fold\<close> and \<open>editorClose_direct\<close> that the end of the statement carries the
  view over to the transaction, or to the database.
\<close>

section \<open>Views of a buffer\<close>

lemma afterTxn_current: "current def T tt \<Longrightarrow> afterTxn T tt pk = (case map_of tt pk of None \<Rightarrow> T pk | Some p \<Rightarrow> pr_new p)"
  by (auto simp: afterTxn_def current_def changes_def pendingOk_def split: option.splits dest!: map_of_SomeD)

lemma buffered_at: "current def T tt \<Longrightarrow> map_of tt pk = Some p \<Longrightarrow> pr_pkEnc p = pk \<and> pr_old p = T pk \<and> (\<forall>new. pr_new p = Some new \<longrightarrow> rowOk def pk new)"
  by (auto simp: current_def pendingOk_def dest!: map_of_SomeD)

lemma currentI:
  assumes "distinct (map fst tt)"
    "\<And>k p. map_of tt k = Some p \<Longrightarrow> pr_pkEnc p = k \<and> pr_old p = T k \<and> (\<forall>new. pr_new p = Some new \<longrightarrow> rowOk def k new)"
  shows "current def T tt"
  using assms by (auto simp: current_def pendingOk_def)

lemma current_update:
  assumes "current def T tt" "pr_pkEnc p = k" "pr_old p = T k" "\<forall>new. pr_new p = Some new \<longrightarrow> rowOk def k new"
  shows "current def T (AList.update k p tt)" "afterTxn T (AList.update k p tt) = (afterTxn T tt)(k := pr_new p)"
proof -
  show c: "current def T (AList.update k p tt)"
    using assms buffered_at [OF assms(1)]
    by (intro currentI) (auto simp: update_conv' distinct_update current_def split: if_splits)
  show "afterTxn T (AList.update k p tt) = (afterTxn T tt)(k := pr_new p)"
    using afterTxn_current [OF c] afterTxn_current [OF assms(1)] by (auto simp: update_conv' fun_eq_iff)
qed

text \<open>The statement buffer folded into the transaction buffer.\<close>

lemma foldPending_Cons:
  "foldPending ((k, p) # ps) tt =
     foldPending ps (AList.update k (case map_of tt k of Some q \<Rightarrow> q\<lparr>pr_new := pr_new p\<rparr> | None \<Rightarrow> p) tt)"
  by (simp add: foldPending_def split: option.splits)

lemma foldPending_spec:
  assumes "current def T tt" "distinct (map fst ps)"
    "\<forall>(k, p) \<in> set ps. pr_pkEnc p = k \<and> pr_old p = afterTxn T tt k \<and> (\<forall>new. pr_new p = Some new \<longrightarrow> rowOk def k new)"
  shows "current def T (foldPending ps tt) \<and>
    afterTxn T (foldPending ps tt) = (\<lambda>k. case map_of ps k of None \<Rightarrow> afterTxn T tt k | Some p \<Rightarrow> pr_new p)"
  using assms
proof (induction ps arbitrary: tt)
  case Nil
  then show ?case by (simp add: foldPending_def)
next
  case (Cons x ps)
  obtain k p where x: "x = (k, p)" by (cases x)
  let ?p = "case map_of tt k of Some q \<Rightarrow> q\<lparr>pr_new := pr_new p\<rparr> | None \<Rightarrow> p"
  have p: "pr_pkEnc p = k" "pr_old p = afterTxn T tt k" "\<forall>new. pr_new p = Some new \<longrightarrow> rowOk def k new" using Cons.prems(3) x by auto
  have q: "pr_pkEnc ?p = k \<and> pr_old ?p = T k \<and> pr_new ?p = pr_new p"
  proof (cases "map_of tt k")
    case None
    then show ?thesis using p(1,2) afterTxn_current [OF Cons.prems(1), of k] by simp
  next
    case (Some q)
    then show ?thesis using buffered_at [OF Cons.prems(1) Some] by simp
  qed
  note q = q [THEN conjunct1] q [THEN conjunct2, THEN conjunct1] q [THEN conjunct2, THEN conjunct2]
  note U = current_update [OF Cons.prems(1) q(1,2), unfolded q(3), OF p(3)]
  have "\<forall>(j, r) \<in> set ps. pr_pkEnc r = j \<and> pr_old r = afterTxn T (AList.update k ?p tt) j \<and> (\<forall>new. pr_new r = Some new \<longrightarrow> rowOk def j new)"
  proof (clarify)
    fix j r
    assume jr: "(j, r) \<in> set ps"
    then have "j \<noteq> k" using Cons.prems(2) x by (auto simp: image_iff)
    then show "pr_pkEnc r = j \<and> pr_old r = afterTxn T (AList.update k ?p tt) j \<and> (\<forall>new. pr_new r = Some new \<longrightarrow> rowOk def j new)"
      using Cons.prems(3) jr unfolding U(2) by fastforce
  qed
  from Cons.IH [OF U(1) _ this] Cons.prems(2) x show ?case
    unfolding x foldPending_Cons U(2) by (auto simp: fun_eq_iff map_of_eq_None_iff [symmetric] split: option.splits)
qed

lemma foldPending_view:
  assumes "current def T tt" "current def (afterTxn T tt) ps"
  shows "current def T (foldPending ps tt)" "afterTxn T (foldPending ps tt) = afterTxn (afterTxn T tt) ps"
proof -
  have "\<forall>(k, p) \<in> set ps. pr_pkEnc p = k \<and> pr_old p = afterTxn T tt k \<and> (\<forall>new. pr_new p = Some new \<longrightarrow> rowOk def k new)"
    using assms(2) by (auto simp: current_def pendingOk_def)
  moreover have "distinct (map fst ps)" using assms(2) by (simp add: current_def)
  ultimately show "current def T (foldPending ps tt)" "afterTxn T (foldPending ps tt) = afterTxn (afterTxn T tt) ps"
    using foldPending_spec [OF assms(1), of ps] afterTxn_current [OF assms(2)] by (auto simp: fun_eq_iff)
qed

text \<open>The effective pending rows: those that the fold would leave.\<close>

definition bufferOf :: "tableTxn option \<Rightarrow> tableTxn" where
  "bufferOf tt = (case tt of None \<Rightarrow> [] | Some rows \<Rightarrow> rows)"

lemma afterTxn_Nil [simp]: "afterTxn T [] = T"
  by (simp add: afterTxn_def fun_eq_iff)

lemma viewOf_buffer: "viewOf T tt = afterTxn T (bufferOf tt)"
  by (simp add: viewOf_def bufferOf_def split: option.splits)

lemma currentView_buffer: "currentView def T tt \<longleftrightarrow> current def T (bufferOf tt)"
  by (cases tt) (simp_all add: currentView_def bufferOf_def current_def)

lemma map_of_foldPending:
  "distinct (map fst ps) \<Longrightarrow> map_of (foldPending ps tt) k =
     (case map_of ps k of
        None \<Rightarrow> map_of tt k
      | Some p \<Rightarrow> Some (case map_of tt k of Some q \<Rightarrow> q\<lparr>pr_new := pr_new p\<rparr> | None \<Rightarrow> p))"
proof (induction ps arbitrary: tt)
  case (Cons x ps)
  obtain j p where x: "x = (j, p)" by (cases x)
  have "map_of ps j = None" using Cons.prems x by (simp add: map_of_eq_None_iff)
  then show ?case using Cons x by (cases "k = j"; cases "map_of ps k") (auto simp: foldPending_Cons update_conv')
qed (simp add: foldPending_def)

lemma distinct_foldPending: "distinct (map fst tt) \<Longrightarrow> distinct (map fst (foldPending ps tt))"
  by (induction ps arbitrary: tt) (auto simp: foldPending_Cons distinct_update, simp add: foldPending_def)

lemma effective_mem:
  assumes "current def T (bufferOf tt)" "current def (afterTxn T (bufferOf tt)) ps"
  shows "q \<in> set (effectivePending tt ps) \<longleftrightarrow> (\<exists>k. map_of (foldPending ps (bufferOf tt)) k = Some q)"
proof -
  let ?b = "bufferOf tt"
  have d: "distinct (map fst ps)" "distinct (map fst ?b)" using assms by (simp_all add: current_def)
  let ?e = "\<lambda>(k, p). case map_of ?b k of Some q \<Rightarrow> q\<lparr>pr_new := pr_new p\<rparr> | None \<Rightarrow> p"
  have e: "effectivePending tt ps = map ?e ps @ map snd (filter (\<lambda>(k, p). map_of ps k = None) ?b)"
  proof (cases tt)
    case (Some rows)
    have "\<lparr>pr_pkEnc = pr_pkEnc p, pr_old = pr_old q, pr_new = pr_new p\<rparr> = q\<lparr>pr_new := pr_new p\<rparr>"
      if "(k, p) \<in> set ps" "map_of rows k = Some q" for k p q
      using that buffered_at [OF assms(1), of k q] assms(2) Some by (auto simp: bufferOf_def current_def)
    then show ?thesis using Some by (auto simp: effectivePending_def bufferOf_def split: option.splits)
  qed (auto simp: effectivePending_def bufferOf_def)
  have "q \<in> set (effectivePending tt ps) \<longleftrightarrow>
      (\<exists>k p. map_of ps k = Some p \<and> q = ?e (k, p)) \<or> (\<exists>k. map_of ps k = None \<and> map_of ?b k = Some q)"
  proof -
    have "q \<in> ?e ` set ps \<longleftrightarrow> (\<exists>k p. map_of ps k = Some p \<and> q = ?e (k, p))"
      unfolding image_iff Bex_def split_paired_Ex using d(1) by simp
    moreover have "q \<in> snd ` {(k, p). (k, p) \<in> set ?b \<and> map_of ps k = None} \<longleftrightarrow> (\<exists>k. map_of ps k = None \<and> map_of ?b k = Some q)"
      using d(2) by (auto simp: image_iff)
    moreover have "set (filter (\<lambda>(k, p). map_of ps k = None) ?b) = {(k, p). (k, p) \<in> set ?b \<and> map_of ps k = None}" by auto
    ultimately show ?thesis unfolding e by simp
  qed
  moreover have "map_of (foldPending ps ?b) k = Some q \<longleftrightarrow>
      (\<exists>p. map_of ps k = Some p \<and> q = ?e (k, p)) \<or> map_of ps k = None \<and> map_of ?b k = Some q" for k
    unfolding map_of_foldPending [OF d(1)] by (cases "map_of ps k") auto
  ultimately show ?thesis by blast
qed

section \<open>Unique indexes\<close>

lemma encodeIndexLoop_null:
  "encodeIndexLoop def row os buf n = Inr (c, n') \<Longrightarrow> n' \<longleftrightarrow> n \<or> None \<in> cellRank def row ` set os"
proof (induction os arbitrary: buf n)
  case (Cons ord os)
  show ?case
  proof (cases "row ! ord")
    case None
    then show ?thesis using Cons.prems Cons.IH [of "buf @ [0]" True]
      by (auto simp: at_def cellRank_def split: if_splits)
  next
    case (Some v)
    then obtain k b where k: "ord < length (td_Columns def)" "kind (td_Columns def ! ord) = Inr k" "encodeKeyCol (buf @ [1]) k v = Inr b"
      "encodeIndexLoop def row os b n = Inr (c, n')"
      using Cons.prems by (auto simp: at_def split: if_splits sum.splits)
    have "cellRank def row ord \<noteq> None" using Some k(2,3) by (auto simp: cellRank_def rankOf_def encodeKeyCol_def split: sum.splits)
    then show ?thesis using Cons.IH [OF k(4)] by auto
  qed
qed simp

lemma encodeIndexCols_null:
  assumes "encodeIndexCols def idx r = Inr (c, n)" "encodeIndexCols def idx r' = Inr (c, n')"
  shows "n = n'"
proof -
  obtain ps qs where p: "c = concat ps" "list_all2 (piece True def r) (ix_ColOrds idx) ps"
    "c = concat qs" "list_all2 (piece True def r') (ix_ColOrds idx) qs"
    using encodeIndexCols_pieces assms by metis
  have "map (cellRank def r) (ix_ColOrds idx) = map (cellRank def r') (ix_ColOrds idx)"
    using pieces_eq [OF p(2,4), of "[]" "[]"] p(1,3) by simp
  then show ?thesis using encodeIndexLoop_null assms unfolding encodeIndexCols_def by (metis set_map)
qed

text \<open>Another row than that of \<open>pk\<close> has the given index columns.\<close>

definition duplicate :: "tableDef \<Rightarrow> indexDef \<Rightarrow> rows \<Rightarrow> bytes \<Rightarrow> bytes \<Rightarrow> bool" where
  "duplicate def idx W colsEnc pk \<longleftrightarrow>
     (\<exists>pk' r' n'. pk' \<noteq> pk \<and> W pk' = Some r' \<and> encodeIndexCols def idx r' = Inr (colsEnc, n'))"

text \<open>The check of \<open>row\<close> against a unique index passes: the columns of the row are not all set, or no other
  row of the view \<open>W\<close> has them, or a committed row of \<open>T\<close> had them and the pending work takes one such row away.\<close>

definition admitted :: "tableDef \<Rightarrow> rows \<Rightarrow> rows \<Rightarrow> Row \<Rightarrow> bytes \<Rightarrow> indexDef \<Rightarrow> bool" where
  "admitted def T W row pk idx \<longleftrightarrow>
     (ix_Unique idx \<longrightarrow>
       (\<forall>colsEnc. encodeIndexCols def idx row = Inr (colsEnc, False) \<longrightarrow>
          \<not> duplicate def idx W colsEnc pk \<or>
          (\<exists>pk' r'. pk' \<noteq> pk \<and> T pk' = Some r' \<and> encodeIndexCols def idx r' = Inr (colsEnc, False) \<and>
             (\<forall>new. W pk' = Some new \<longrightarrow> encodeIndexCols def idx new \<noteq> Inr (colsEnc, False)))))"

lemma pendingConflict_iff:
  assumes "\<forall>p \<in> set ps. \<forall>new. pr_new p = Some new \<longrightarrow> (\<exists>x. encodeIndexCols def idx new = Inr x)"
  shows "pendingConflict def idx c pk ps =
    Inr (\<exists>p \<in> set ps. pr_pkEnc p \<noteq> pk \<and> (\<exists>new. pr_new p = Some new \<and> encodeIndexCols def idx new = Inr (c, False)))"
  using assms by (induction ps) (auto split: option.splits sum.splits prod.splits)

definition movedAway :: "tableDef \<Rightarrow> indexDef \<Rightarrow> bytes \<Rightarrow> pendingRow \<Rightarrow> bool" where
  "movedAway def idx c p \<longleftrightarrow>
     (\<exists>old. pr_old p = Some old \<and> encodeIndexCols def idx old = Inr (c, False)) \<and>
     (\<forall>new. pr_new p = Some new \<longrightarrow> encodeIndexCols def idx new \<noteq> Inr (c, False))"

lemma pendingResolves_iff:
  assumes "\<forall>p \<in> set ps. \<forall>r. pr_new p = Some r \<or> pr_old p = Some r \<longrightarrow> (\<exists>x. encodeIndexCols def idx r = Inr x)"
  shows "pendingResolves def idx c pk ps = Inr (\<exists>p \<in> set ps. pr_pkEnc p \<noteq> pk \<and> movedAway def idx c p)"
  using assms
proof (induction ps)
  case (Cons p ps)
  have IH: "pendingResolves def idx c pk ps = Inr (\<exists>p \<in> set ps. pr_pkEnc p \<noteq> pk \<and> movedAway def idx c p)" using Cons by simp
  have e: "\<exists>x. encodeIndexCols def idx r = Inr x" if "pr_new p = Some r \<or> pr_old p = Some r" for r using Cons.prems that by auto
  show ?case
  proof (cases "pr_old p")
    case None
    then show ?thesis using IH by (simp add: movedAway_def)
  next
    case (Some old)
    obtain oc on where o: "encodeIndexCols def idx old = Inr (oc, on)" using e [of old] Some by auto
    show ?thesis
    proof (cases "pr_new p")
      case None
      then show ?thesis using Some o IH by (auto simp: movedAway_def)
    next
      case (Some new)
      obtain nc nn where n: "encodeIndexCols def idx new = Inr (nc, nn)" using e [of new] Some by auto
      show ?thesis using Some \<open>pr_old p = Some old\<close> o n IH by (auto simp: movedAway_def)
    qed
  qed
qed simp

lemma if_not_swap: "(if \<not> b then x else y) = (if b then y else x)"
  by simp

lemma rowOk_index: "rowOk def pk row \<Longrightarrow> idx \<in> set (td_Indexes def) \<Longrightarrow> \<exists>x. encodeIndexCols def idx row = Inr x"
  by (cases "encodeIndexCols def idx row") (auto simp: rowOk_def indexKey_def)

lemma unique_pending:
  assumes F: "current def T F" and mem: "\<And>q. q \<in> set ps \<longleftrightarrow> (\<exists>k. map_of F k = Some q)" and t: "tableOk def T"
    and i: "idx \<in> set (td_Indexes def)" and c: "encodeIndexCols def idx row = Inr (c, False)"
  shows "\<not> duplicate def idx T c pk \<Longrightarrow> pendingConflict def idx c pk ps = Inr (duplicate def idx (afterTxn T F) c pk)"
    "\<exists>b. pendingResolves def idx c pk ps = Inr b \<and> (b \<longrightarrow> ix_Unique idx \<longrightarrow> admitted def T (afterTxn T F) row pk idx) \<and>
       (\<not> b \<longrightarrow> duplicate def idx T c pk \<longrightarrow> duplicate def idx (afterTxn T F) c pk)"
proof -
  let ?W = "afterTxn T F"
  have at: "pr_pkEnc q = k \<and> pr_old q = T k \<and> ?W k = pr_new q" if "map_of F k = Some q" for q k
    using buffered_at [OF F that] afterTxn_current [OF F, of k] that by simp
  have out: "?W k = T k" if "map_of F k = None" for k using afterTxn_current [OF F, of k] that by simp
  have n: "\<exists>x. encodeIndexCols def idx r = Inr x" if q: "q \<in> set ps" "pr_new q = Some r \<or> pr_old q = Some r" for q r
  proof -
    obtain k where k: "map_of F k = Some q" using q(1) mem [of q] by auto
    have "rowOk def k r" using buffered_at [OF F k] q(2) t by (auto simp: tableOk_def)
    then show ?thesis using rowOk_index i by blast
  qed
  have null: "m = False" if "encodeIndexCols def idx r = Inr (c, m)" for r m using encodeIndexCols_null [OF c that] by simp
  show "pendingConflict def idx c pk ps = Inr (duplicate def idx ?W c pk)" if no: "\<not> duplicate def idx T c pk"
  proof -
    have "(\<exists>p \<in> set ps. pr_pkEnc p \<noteq> pk \<and> (\<exists>new. pr_new p = Some new \<and> encodeIndexCols def idx new = Inr (c, False))) \<longleftrightarrow> duplicate def idx ?W c pk"
    proof
      assume "\<exists>p \<in> set ps. pr_pkEnc p \<noteq> pk \<and> (\<exists>new. pr_new p = Some new \<and> encodeIndexCols def idx new = Inr (c, False))"
      then obtain p new where p: "p \<in> set ps" "pr_pkEnc p \<noteq> pk" "pr_new p = Some new" "encodeIndexCols def idx new = Inr (c, False)" by blast
      obtain k where "map_of F k = Some p" using p(1) mem [of p] by auto
      then show "duplicate def idx ?W c pk" using at [of k p] p by (auto simp: duplicate_def)
    next
      assume "duplicate def idx ?W c pk"
      then obtain k r m where k: "k \<noteq> pk" "?W k = Some r" "encodeIndexCols def idx r = Inr (c, m)" by (auto simp: duplicate_def)
      obtain q where q: "map_of F k = Some q" using no k out [of k] by (cases "map_of F k") (auto simp: duplicate_def)
      show "\<exists>p \<in> set ps. pr_pkEnc p \<noteq> pk \<and> (\<exists>new. pr_new p = Some new \<and> encodeIndexCols def idx new = Inr (c, False))"
        using at [OF q] k null [OF k(3)] mem [of q] q by (intro bexI [of _ q] conjI exI [of _ r]) auto
    qed
    then show ?thesis using pendingConflict_iff [of ps def idx c pk] n by auto
  qed
  have R: "pendingResolves def idx c pk ps = Inr (\<exists>p \<in> set ps. pr_pkEnc p \<noteq> pk \<and> movedAway def idx c p)"
    by (rule pendingResolves_iff) (use n in blast)
  have "admitted def T ?W row pk idx" if p: "p \<in> set ps" "pr_pkEnc p \<noteq> pk" "movedAway def idx c p" for p
  proof -
    obtain k where k: "map_of F k = Some p" using p(1) mem [of p] by auto
    obtain old where o: "T k = Some old" "encodeIndexCols def idx old = Inr (c, False)" using p(3) at [OF k] by (auto simp: movedAway_def)
    have "\<forall>new. ?W k = Some new \<longrightarrow> encodeIndexCols def idx new \<noteq> Inr (c, False)" using p(3) at [OF k] by (simp add: movedAway_def)
    then show ?thesis using p(2) at [OF k] o c unfolding admitted_def by (auto intro!: exI [of _ k] simp del: not_None_eq)
  qed
  moreover have "duplicate def idx ?W c pk" if no: "\<not> (\<exists>p \<in> set ps. pr_pkEnc p \<noteq> pk \<and> movedAway def idx c p)" and d: "duplicate def idx T c pk"
  proof -
    obtain k r m where k: "k \<noteq> pk" "T k = Some r" "encodeIndexCols def idx r = Inr (c, m)" using d by (auto simp: duplicate_def)
    show ?thesis
    proof (cases "map_of F k")
      case None
      then show ?thesis using k out by (auto simp: duplicate_def)
    next
      case (Some q)
      then have "\<not> movedAway def idx c q" using no mem at [OF Some] k(1) by auto
      then obtain new where "?W k = Some new" "encodeIndexCols def idx new = Inr (c, False)"
        using at [OF Some] k null [OF k(3)] by (auto simp: movedAway_def)
      then show ?thesis using k(1) unfolding duplicate_def by blast
    qed
  qed
  ultimately show "\<exists>b. pendingResolves def idx c pk ps = Inr b \<and> (b \<longrightarrow> ix_Unique idx \<longrightarrow> admitted def T ?W row pk idx) \<and>
       (\<not> b \<longrightarrow> duplicate def idx T c pk \<longrightarrow> duplicate def idx ?W c pk)"
    using R by blast
qed

definition rejected :: "tableDef \<Rightarrow> rows \<Rightarrow> Row \<Rightarrow> bytes \<Rightarrow> indexDef \<Rightarrow> bool" where
  "rejected def W row pk idx \<longleftrightarrow>
     ix_Unique idx \<and> (\<exists>c. encodeIndexCols def idx row = Inr (c, False) \<and> duplicate def idx W c pk)"

context kv_backend
begin

lemma checkUniqueLoop_spec:
  assumes e: "entriesOk def T (recordsOf (sq_led s0))" and F: "current def T F"
    and mem: "\<And>q. q \<in> set ps \<longleftrightarrow> (\<exists>k. map_of F k = Some q)" and t: "tableOk def T" and row: "rowOk def pk row"
    and i: "set idxs \<subseteq> set (td_Indexes def)" and s: "same H lo s0 s"
  shows "outcome (\<lambda>e s'. same H lo s0 s' \<and> (may_fail \<or> (\<exists>idx \<in> set idxs. rejected def (afterTxn T F) row pk idx)))
    (\<lambda>u s'. same H lo s0 s' \<and> (\<forall>idx \<in> set idxs. admitted def T (afterTxn T F) row pk idx))
    (checkUniqueLoop def row pk ps idxs s)"
  using i s
proof (induction idxs arbitrary: s)
  case (Cons idx idxs)
  let ?W = "afterTxn T F"
  have ix: "idx \<in> set (td_Indexes def)" using Cons.prems(1) by simp
  have rest: "outcome (\<lambda>e s'. same H lo s0 s' \<and> (may_fail \<or> (\<exists>idx \<in> set (idx # idxs). rejected def ?W row pk idx)))
      (\<lambda>u s'. same H lo s0 s' \<and> (\<forall>idx \<in> set (idx # idxs). admitted def T ?W row pk idx))
      (checkUniqueLoop def row pk ps idxs s1)" if "same H lo s0 s1" "admitted def T ?W row pk idx" for s1
    by (rule outcome_mono [OF Cons.IH [OF _ that(1)]]) (use Cons.prems(1) that(2) in auto)
  show ?case
  proof (cases "ix_Unique idx")
    case False
    then show ?thesis using rest [OF Cons.prems(2)] by (simp add: admitted_def)
  next
    case True
    obtain c n where c: "encodeIndexCols def idx row = Inr (c, n)" using rowOk_index [OF row ix] by auto
    show ?thesis
    proof (cases n)
      case n: True
      then show ?thesis using True c rest [OF Cons.prems(2)] by (simp add: admitted_def)
    next
      case False
      then have c: "encodeIndexCols def idx row = Inr (c, False)" using c by simp
      note U = unique_pending [OF F mem t ix c]
      have rej: "rejected def ?W row pk idx" if "duplicate def idx ?W c pk" using True c that by (auto simp: rejected_def)
      have adm: "admitted def T ?W row pk idx" if "\<not> duplicate def idx ?W c pk" using c that by (auto simp: admitted_def)
      have step: "checkUniqueLoop def row pk ps (idx # idxs) s =
          andThen (uniqueConflict idx c pk) (\<lambda>committed.
            case (if \<not> committed then pendingConflict def idx c pk ps else map_sum id Not (pendingResolves def idx c pk ps)) of
              Inl e \<Rightarrow> throw e
            | Inr conflict \<Rightarrow> if conflict then throw UniqueKeyErr else checkUniqueLoop def row pk ps idxs) s"
        using True c by simp
      show ?thesis unfolding step
      proof (rule outcome_bind, rule uniqueConflict_spec [OF Cons.prems(2) e ix c], simp)
        fix r s1
        assume "same H lo s0 s1 \<and> r = (\<exists>pk' r' n'. pk' \<noteq> pk \<and> T pk' = Some r' \<and> encodeIndexCols def idx r' = Inr (c, n'))"
        then have s1: "same H lo s0 s1" and r: "r = duplicate def idx T c pk" by (simp_all add: duplicate_def)
        show "outcome (\<lambda>e s'. same H lo s0 s' \<and> (may_fail \<or> (\<exists>idx \<in> set (idx # idxs). rejected def ?W row pk idx)))
          (\<lambda>u s'. same H lo s0 s' \<and> (\<forall>idx \<in> set (idx # idxs). admitted def T ?W row pk idx))
          ((case (if \<not> r then pendingConflict def idx c pk ps else map_sum id Not (pendingResolves def idx c pk ps)) of
              Inl e \<Rightarrow> throw e
            | Inr conflict \<Rightarrow> if conflict then throw UniqueKeyErr else checkUniqueLoop def row pk ps idxs) s1)"
        proof (cases r)
          case False
          then show ?thesis using U(1) r s1 rest [OF s1] rej adm by (cases "duplicate def idx ?W c pk") auto
        next
          case dup: True
          obtain b where b: "pendingResolves def idx c pk ps = Inr b" "b \<longrightarrow> admitted def T ?W row pk idx" "\<not> b \<longrightarrow> duplicate def idx ?W c pk"
            using U(2) [of pk] dup r True by blast
          then show ?thesis using dup s1 rest [OF s1] rej by (cases b) auto
        qed
      qed
    qed
  qed
qed simp

end

section \<open>The AUTO_INCREMENT counter\<close>

text \<open>A table's counter has no part in its keys and entries.\<close>

lemma encodePKLoop_count [simp]: "encodePKLoop (def\<lparr>td_autoIncNext := n\<rparr>) row os buf = encodePKLoop def row os buf"
  by (induction os arbitrary: buf) (auto split: sum.splits option.splits)

lemma encodeIndexLoop_count [simp]: "encodeIndexLoop (def\<lparr>td_autoIncNext := n\<rparr>) row os buf m = encodeIndexLoop def row os buf m"
  by (induction os arbitrary: buf m) (auto split: sum.splits option.splits)

lemma encode_count [simp]:
  "encodePK (def\<lparr>td_autoIncNext := n\<rparr>) = encodePK def" "encodeIndexCols (def\<lparr>td_autoIncNext := n\<rparr>) = encodeIndexCols def"
  "indexKey (def\<lparr>td_autoIncNext := n\<rparr>) = indexKey def"
  by (simp_all add: encodePK_def encodeIndexCols_def indexKey_def fun_eq_iff)

lemma payloadOf_count [simp]: "payloadOf (def\<lparr>td_autoIncNext := n\<rparr>) = payloadOf def"
  by (simp add: payloadOf_def fun_eq_iff split: sum.split)

lemma tableState_count [simp]:
  "rowOk (def\<lparr>td_autoIncNext := n\<rparr>) = rowOk def" "tableState K C V (def\<lparr>td_autoIncNext := n\<rparr>) T = tableState K C V def T"
  by (simp_all add: rowOk_def tableState_def tableOk_def entriesOk_def rowsOk_def fun_eq_iff)

lemma pending_count [simp]:
  "pendingConflict (def\<lparr>td_autoIncNext := n\<rparr>) idx c pk ps = pendingConflict def idx c pk ps"
  "pendingResolves (def\<lparr>td_autoIncNext := n\<rparr>) idx c pk ps = pendingResolves def idx c pk ps"
  by (induction ps) (auto split: option.splits sum.splits)

lemma checkUniqueLoop_count [simp]:
  "checkUniqueLoop (def\<lparr>td_autoIncNext := n\<rparr>) row pk ps idxs = checkUniqueLoop def row pk ps idxs"
  by (induction idxs) (simp_all cong: sum.case_cong if_cong prod.case_cong)

lemma rowExists_count [simp]: "rowExists (def\<lparr>td_autoIncNext := n\<rparr>) = rowExists def"
  by (simp add: rowExists_def fun_eq_iff)

lemma advanceAutoInc_typed: "typedRow cols row \<Longrightarrow> \<exists>m. advanceAutoInc cols row n = Inr m"
  by (induction cols row arbitrary: n rule: typedRow.induct) (simp_all add: Let_def)

section \<open>Statements\<close>

definition readOnly :: "storeTxn option \<Rightarrow> bool" where
  "readOnly txn = (case txn of None \<Rightarrow> False | Some t \<Rightarrow> tx_readOnly t)"

lemma writable_iff: "writable se = (if readOnly (se_txn se) then Inl (TextErr ''cannot write in a read-only transaction'') else Inr ())"
  by (simp add: writable_def readOnly_def split: option.splits)

lemma onlyLed_dbName: "onlyLed s s' \<Longrightarrow> sq_dbName s' = sq_dbName s"
  by (cases s; cases s'; simp add: onlyLed_def)

text \<open>The table as a statement sees it: its own buffer over the transaction's.\<close>

definition stmtView :: "tableDef \<Rightarrow> rows \<Rightarrow> 'b editing \<Rightarrow> rows" where
  "stmtView def T w = afterTxn (viewOf T (tableView (td_ID def) (se_txn (fst w)))) (ed_pending (snd w))"

text \<open>The step of \<open>editorInsert\<close> that places the row in the statement buffer.\<close>

definition placeRow :: "tableDef \<Rightarrow> Row \<Rightarrow> bytes \<Rightarrow> ('b editing, unit) io" where
  "placeRow def row pkEnc w =
     (case map_of (ed_pending (snd w)) pkEnc of
        Some p \<Rightarrow>
          if pr_new p \<noteq> None then throw ErrPrimaryKeyViolation w
          else setPending pkEnc (p\<lparr>pr_new := Some row\<rparr>) w
      | None \<Rightarrow>
          andThen
            (case txnRow (td_ID def) pkEnc (fst w) of
               Some tp \<Rightarrow> ret (pr_new tp \<noteq> None)
             | None \<Rightarrow> inSession (rowExists def pkEnc)) (\<lambda>exists.
          if exists then throw ErrPrimaryKeyViolation
          else setPending pkEnc \<lparr>pr_pkEnc = pkEnc, pr_old = None, pr_new = Some row\<rparr>) w)"

lemma editorInsert_run:
  assumes "\<not> readOnly (se_txn se)" "map_of (sq_tables (se_store se)) (ed_table ed) = Some def" "encodePK def row = Inr pk"
    "advanceAutoInc (td_Columns def) row (td_autoIncNext def) = Inr m"
  shows "editorInsert row (se, ed) =
    andThen (placeRow (def\<lparr>td_autoIncNext := m\<rparr>) row pk) (\<lambda>_. checkUnique (def\<lparr>td_autoIncNext := m\<rparr>) row pk)
      (se\<lparr>se_store := setAutoInc (ed_table ed) def m (se_store se)\<rparr>, ed)"
proof -
  have f: "placeRow d row pk = (\<lambda>w. case map_of (ed_pending (snd w)) pk of
        Some p \<Rightarrow>
          if pr_new p \<noteq> None then throw ErrPrimaryKeyViolation w
          else setPending pk (p\<lparr>pr_new := Some row\<rparr>) w
      | None \<Rightarrow>
          andThen
            (case txnRow (td_ID d) pk (fst w) of
               Some tp \<Rightarrow> ret (pr_new tp \<noteq> None)
             | None \<Rightarrow> inSession (rowExists d pk)) (\<lambda>exists.
          if exists then throw ErrPrimaryKeyViolation
          else setPending pk \<lparr>pr_pkEnc = pk, pr_old = None, pr_new = Some row\<rparr>) w)" for d :: tableDef and pk
    by (rule ext) (rule placeRow_def)
  show ?thesis unfolding editorInsert_def f [symmetric]
    using assms by (simp add: andThen_def editorDef_def writable_iff liftE_def setState_def ret_def setAutoInc_def update_conv')
qed

lemma editor_readOnly:
  assumes "readOnly (se_txn (fst w))"
  shows "\<exists>e. editorInsert row w = (Inl e, w)" "\<exists>e. editorDelete row w = (Inl e, w)" "\<exists>e. editorUpdate old row w = (Inl e, w)"
  using assms by (simp_all add: editorInsert_def editorDelete_def editorUpdate_def writable_iff andThen_def liftE_def throw_def)

context kv_backend
begin

text \<open>What the operations of a statement keep of the store: all but the counter of its table.\<close>

definition counted :: "(u64 \<Rightarrow> hash \<rightharpoonup> bytes) \<Rightarrow> u64 \<Rightarrow> bytes \<Rightarrow> tableDef \<Rightarrow> 'b SqlStore \<Rightarrow> 'b SqlStore \<Rightarrow> bool" where
  "counted H lo lower def st st' \<longleftrightarrow>
     kept (sq_led st) H lo (sq_led st') \<and> sq_dbName st' = sq_dbName st \<and> sq_meta st' = sq_meta st \<and>
     (\<exists>n. map_of (sq_tables st') lower = Some (def\<lparr>td_autoIncNext := n\<rparr>)) \<and>
     (\<forall>name. name \<noteq> lower \<longrightarrow> map_of (sq_tables st') name = map_of (sq_tables st) name)"

definition stmt ::
  "(u64 \<Rightarrow> hash \<rightharpoonup> bytes) \<Rightarrow> u64 \<Rightarrow> tableDef \<Rightarrow> rows \<Rightarrow> 'b editing \<Rightarrow> 'b editing \<Rightarrow> bool"
where
  "stmt H lo def T w w' \<longleftrightarrow>
     counted H lo (ed_table (snd w)) def (se_store (fst w)) (se_store (fst w')) \<and>
     se_txn (fst w') = se_txn (fst w) \<and> ed_table (snd w') = ed_table (snd w) \<and>
     current def (viewOf T (tableView (td_ID def) (se_txn (fst w)))) (ed_pending (snd w'))"

lemma counted_same: "counted H lo lower def st s1 \<Longrightarrow> same H lo s1 s2 \<Longrightarrow> counted H lo lower def st s2"
  unfolding counted_def same_def kept_def by (auto simp: onlyLed_tables onlyLed_dbName intro: read_eq_trans)

lemma counted_trans: "counted H lo lower def st s1 \<Longrightarrow> counted H lo lower def s1 s2 \<Longrightarrow> counted H lo lower def st s2"
  unfolding counted_def kept_def by (auto intro: read_eq_trans)

lemma stmt_trans: "stmt H lo def T w w1 \<Longrightarrow> stmt H lo def T w1 w2 \<Longrightarrow> stmt H lo def T w w2"
  unfolding stmt_def by (auto intro: counted_trans)

lemma checkUnique_spec:
  assumes w: "stmt H lo def T w0 w" and t: "tableState K C (recordsOf (sq_led (se_store (fst w0)))) def T"
    and c: "currentView def T (tableView (td_ID def) (se_txn (fst w0)))" and row: "rowOk def pk row"
  shows "outcome (\<lambda>e w'. stmt H lo def T w0 w' \<and> (may_fail \<or> (\<exists>idx \<in> set (td_Indexes def). rejected def (stmtView def T w) row pk idx)))
    (\<lambda>u w'. stmt H lo def T w0 w' \<and> stmtView def T w' = stmtView def T w \<and> (\<forall>idx \<in> set (td_Indexes def). admitted def T (stmtView def T w) row pk idx))
    (checkUnique (def\<lparr>td_autoIncNext := n\<rparr>) row pk w)"
proof -
  let ?st = "se_store (fst w)" and ?tt = "tableView (td_ID def) (se_txn (fst w))" and ?ps = "ed_pending (snd w)"
  have k: "counted H lo (ed_table (snd w0)) def (se_store (fst w0)) ?st" and x: "se_txn (fst w) = se_txn (fst w0)" using w by (simp_all add: stmt_def)
  have l: "ledger (sq_led ?st) H lo" and e: "entriesOk def T (recordsOf (sq_led ?st))" and ok: "tableOk def T"
    using k t by (simp_all add: counted_def kept_def tableState_def)
  have b: "current def T (bufferOf ?tt)" "current def (afterTxn T (bufferOf ?tt)) ?ps"
    using c w x by (simp_all add: currentView_buffer stmt_def viewOf_buffer)
  note F = foldPending_view [OF b]
  note U = checkUniqueLoop_spec [OF e F(1) effective_mem [OF b] ok row subset_refl same_refl [OF l], unfolded F(2)]
  have v: "stmtView def T w = afterTxn (afterTxn T (bufferOf ?tt)) ?ps" by (simp add: stmtView_def viewOf_buffer)
  have s': "stmt H lo def T w0 ((fst w)\<lparr>se_store := s'\<rparr>, snd w)" "stmtView def T ((fst w)\<lparr>se_store := s'\<rparr>, snd w) = stmtView def T w"
    if "same H lo ?st s'" for s' using w counted_same [OF k that] by (simp_all add: stmt_def stmtView_def)
  show ?thesis using U v s'
    by (cases "checkUniqueLoop def row pk (effectivePending ?tt ?ps) (td_Indexes def) ?st";
        cases "fst (checkUniqueLoop def row pk (effectivePending ?tt ?ps) (td_Indexes def) ?st)")
      (auto simp: checkUnique_def inSession_def Let_def)
qed

lemma stmt_pending:
  assumes w: "stmt H lo def T w0 w" and p: "pr_pkEnc p = k" "pr_old p = viewOf T (tableView (td_ID def) (se_txn (fst w))) k"
    "\<forall>new. pr_new p = Some new \<longrightarrow> rowOk def k new"
  shows "\<exists>w'. setPending k p w = (Inr (), w') \<and> stmt H lo def T w0 w' \<and> stmtView def T w' = (stmtView def T w)(k := pr_new p)"
proof -
  let ?base = "viewOf T (tableView (td_ID def) (se_txn (fst w)))"
  have c: "current def ?base (ed_pending (snd w))" and x: "se_txn (fst w) = se_txn (fst w0)" using w by (simp_all add: stmt_def)
  note U = current_update [OF c p]
  have "setPending k p w = (Inr (), (fst w, (snd w)\<lparr>ed_pending := AList.update k p (ed_pending (snd w))\<rparr>))"
    by (simp add: setPending_def setState_def case_prod_unfold)
  then show ?thesis using w U x by (simp add: stmt_def stmtView_def)
qed

lemma rowExists_spec:
  assumes l: "ledger (sq_led s) H lo" and r: "rowsOk K (contentOf (sq_led s) (H (st_version (sq_led s)))) def T" "tableOk def T"
    and k: "rowKey (td_ID def) pk \<in> K"
  shows "outcome (\<lambda>e s'. may_fail \<and> same H lo s s') (\<lambda>b s'. b = (T pk \<noteq> None) \<and> same H lo s s') (rowExists def pk s)"
proof -
  have "contentOf (sq_led s) (H (st_version (sq_led s))) (rowKey (td_ID def) pk) = None \<longleftrightarrow> T pk = None"
  proof (cases "T pk")
    case (Some row)
    then have "\<exists>v. encodeRow (td_Columns def) row = Inr v" using r(2) encodeRow_typed by (auto simp: tableOk_def rowOk_def)
    then show ?thesis using r(1) k Some by (auto simp: rowsOk_def payloadOf_def)
  qed (use r(1) k in \<open>simp add: rowsOk_def\<close>)
  then show ?thesis unfolding rowExists_def
    by - (rule outcome_bind, rule onLedger_Get [OF same_refl [OF l]], auto simp: contentOf_def)
qed

lemma placeRow_spec:
  assumes w: "stmt H lo def T w0 w"
    and t: "tableState K (contentOf (sq_led (se_store (fst w0))) (H (st_version (sq_led (se_store (fst w0)))))) (recordsOf (sq_led (se_store (fst w0)))) def T"
    and c: "currentView def T (tableView (td_ID def) (se_txn (fst w0)))" and row: "rowOk def pk row" and k: "rowKey (td_ID def) pk \<in> K"
  shows "outcome (\<lambda>e w'. stmt H lo def T w0 w' \<and> (may_fail \<or> stmtView def T w pk \<noteq> None))
    (\<lambda>u w'. stmt H lo def T w0 w' \<and> stmtView def T w pk = None \<and> stmtView def T w' = (stmtView def T w)(pk \<mapsto> row))
    (placeRow (def\<lparr>td_autoIncNext := n\<rparr>) row pk w)"
proof -
  let ?base = "viewOf T (tableView (td_ID def) (se_txn (fst w)))" and ?st = "se_store (fst w)" and ?init = "se_store (fst w0)"
  have x: "se_txn (fst w) = se_txn (fst w0)" and cnt: "counted H lo (ed_table (snd w0)) def ?init ?st"
    and cur: "current def ?base (ed_pending (snd w))" using w by (simp_all add: stmt_def)
  have sv: "stmtView def T w pk = (case map_of (ed_pending (snd w)) pk of None \<Rightarrow> ?base pk | Some p \<Rightarrow> pr_new p)"
    using afterTxn_current [OF cur] by (simp add: stmtView_def)
  show ?thesis
  proof (cases "map_of (ed_pending (snd w)) pk")
    case (Some p)
    note B = buffered_at [OF cur Some]
    show ?thesis
    proof (cases "pr_new p")
      case None
      have "\<exists>w'. setPending pk (p\<lparr>pr_new := Some row\<rparr>) w = (Inr (), w') \<and> stmt H lo def T w0 w' \<and> stmtView def T w' = (stmtView def T w)(pk \<mapsto> row)"
        using stmt_pending [OF w, of "p\<lparr>pr_new := Some row\<rparr>" pk] B row by simp
      then show ?thesis using Some None sv by (auto simp: placeRow_def)
    qed (use Some w sv in \<open>simp add: placeRow_def\<close>)
  next
    case None
    have l: "ledger (sq_led ?st) H lo" and e: "read_eq (sq_led ?init) (sq_led ?st)" using cnt by (simp_all add: counted_def kept_def)
    have r: "rowsOk K (contentOf (sq_led ?st) (H (st_version (sq_led ?st)))) def T" "tableOk def T"
      using t unfolding tableState_def by (simp_all add: read_eq_funs(6) [OF e] read_eq_fields(5) [OF e])
    let ?E = "\<lambda>e w'. stmt H lo def T w0 w' \<and> (may_fail \<or> stmtView def T w pk \<noteq> None)"
    let ?ex = "case txnRow (td_ID def) pk (fst w) of Some tp \<Rightarrow> ret (pr_new tp \<noteq> None) | None \<Rightarrow> inSession (rowExists def pk)"
    have ex: "outcome ?E (\<lambda>b w'. b = (?base pk \<noteq> None) \<and> stmt H lo def T w0 w' \<and> stmtView def T w' = stmtView def T w \<and> se_txn (fst w') = se_txn (fst w)) (?ex w)"
    proof (cases "txnRow (td_ID def) pk (fst w)")
      case (Some tp)
      then obtain tt where tt: "tableView (td_ID def) (se_txn (fst w)) = Some tt" "map_of tt pk = Some tp" by (auto simp: txnRow_def split: option.splits)
      have "?base pk = pr_new tp" using tt c x afterTxn_current [of def T tt pk] by (simp add: viewOf_def currentView_def)
      then show ?thesis using Some w by simp
    next
      case no: None
      have "?base pk = T pk"
        using no c x afterTxn_current [of def T _ pk] by (auto simp: txnRow_def viewOf_def currentView_def split: option.splits)
      moreover have "stmt H lo def T w0 ((fst w)\<lparr>se_store := s'\<rparr>, snd w)" "stmtView def T ((fst w)\<lparr>se_store := s'\<rparr>, snd w) = stmtView def T w"
        if "same H lo ?st s'" for s' using w counted_same [OF cnt that] by (simp_all add: stmt_def stmtView_def)
      ultimately show ?thesis using no rowExists_spec [OF l r k]
        by (cases "rowExists def pk ?st"; cases "fst (rowExists def pk ?st)") (auto simp: inSession_def)
    qed
    have step: "placeRow (def\<lparr>td_autoIncNext := n\<rparr>) row pk w =
        andThen ?ex (\<lambda>b. if b then throw ErrPrimaryKeyViolation else setPending pk \<lparr>pr_pkEnc = pk, pr_old = None, pr_new = Some row\<rparr>) w"
      using None by (simp add: placeRow_def cong: option.case_cong)
    show ?thesis unfolding step
    proof (rule outcome_bind, rule ex, assumption)
      fix b w1
      assume w1: "b = (?base pk \<noteq> None) \<and> stmt H lo def T w0 w1 \<and> stmtView def T w1 = stmtView def T w \<and> se_txn (fst w1) = se_txn (fst w)"
      show "outcome ?E (\<lambda>u w'. stmt H lo def T w0 w' \<and> stmtView def T w pk = None \<and> stmtView def T w' = (stmtView def T w)(pk \<mapsto> row))
        ((if b then throw ErrPrimaryKeyViolation else setPending pk \<lparr>pr_pkEnc = pk, pr_old = None, pr_new = Some row\<rparr>) w1)"
      proof (cases b)
        case False
        then have "\<exists>w'. setPending pk \<lparr>pr_pkEnc = pk, pr_old = None, pr_new = Some row\<rparr> w1 = (Inr (), w') \<and> stmt H lo def T w0 w' \<and>
            stmtView def T w' = (stmtView def T w1)(pk \<mapsto> row)"
          using stmt_pending [of H lo def T w0 w1 "\<lparr>pr_pkEnc = pk, pr_old = None, pr_new = Some row\<rparr>" pk] w1 row by simp
        then show ?thesis using False w1 sv None by auto
      qed (use w1 sv None in simp)
    qed
  qed
qed

lemma editorInsert_spec:
  assumes w: "stmt H lo def T w0 w"
    and t: "tableState K (contentOf (sq_led (se_store (fst w0))) (H (st_version (sq_led (se_store (fst w0)))))) (recordsOf (sq_led (se_store (fst w0)))) def T"
    and c: "currentView def T (tableView (td_ID def) (se_txn (fst w0)))" and row: "rowOk def pk row" and k: "rowKey (td_ID def) pk \<in> K"
  shows "outcome
    (\<lambda>e w'. stmt H lo def T w0 w' \<and>
       (may_fail \<or> readOnly (se_txn (fst w0)) \<or> stmtView def T w pk \<noteq> None \<or>
        (\<exists>idx \<in> set (td_Indexes def). rejected def ((stmtView def T w)(pk \<mapsto> row)) row pk idx)))
    (\<lambda>u w'. stmt H lo def T w0 w' \<and> stmtView def T w pk = None \<and> stmtView def T w' = (stmtView def T w)(pk \<mapsto> row) \<and>
       (\<forall>idx \<in> set (td_Indexes def). admitted def T (stmtView def T w') row pk idx))
    (editorInsert row w)"
proof (cases "readOnly (se_txn (fst w0))")
  case True
  then have "readOnly (se_txn (fst w))" using w by (simp add: stmt_def)
  then obtain e where "editorInsert row w = (Inl e, w)" using editor_readOnly(1) by blast
  then show ?thesis using w True by simp
next
  case False
  let ?st = "se_store (fst w)" and ?lower = "ed_table (snd w)"
  have x: "\<not> readOnly (se_txn (fst w))" and cnt: "counted H lo ?lower def (se_store (fst w0)) ?st" using w False by (simp_all add: stmt_def)
  obtain n where d: "map_of (sq_tables ?st) ?lower = Some (def\<lparr>td_autoIncNext := n\<rparr>)" using cnt by (auto simp: counted_def)
  obtain m where m: "advanceAutoInc (td_Columns def) row n = Inr m" using advanceAutoInc_typed [of "td_Columns def" row n] row by (auto simp: rowOk_def)
  let ?w1 = "((fst w)\<lparr>se_store := setAutoInc ?lower (def\<lparr>td_autoIncNext := n\<rparr>) m ?st\<rparr>, snd w)"
  have run: "editorInsert row w = andThen (placeRow (def\<lparr>td_autoIncNext := m\<rparr>) row pk) (\<lambda>_. checkUnique (def\<lparr>td_autoIncNext := m\<rparr>) row pk) ?w1"
    using editorInsert_run [of "fst w" "snd w" "def\<lparr>td_autoIncNext := n\<rparr>" row pk m] x d m row by (simp add: rowOk_def)
  have w1: "stmt H lo def T w0 ?w1" "stmtView def T ?w1 = stmtView def T w"
    using w cnt by (auto simp: stmt_def stmtView_def counted_def setAutoInc_def update_conv')
  show ?thesis unfolding run
    apply (rule outcome_bind, rule placeRow_spec [OF w1(1) t c row k])
     apply (use w1(2) in auto) [1]
    apply (elim conjE)
    subgoal for u w2
      by (rule outcome_mono [OF checkUnique_spec [OF _ t c row]]) (use w1(2) in auto)
    done
qed

text \<open>A deletion and an update are given a row that the statement has read: unless the statement has a pending row
  under the key, it is the row of the transaction's view.\<close>

lemma editorDelete_spec:
  assumes w: "stmt H lo def T w0 w" and row: "rowOk def pk row"
    and v: "map_of (ed_pending (snd w)) pk = None \<Longrightarrow> viewOf T (tableView (td_ID def) (se_txn (fst w0))) pk = Some row"
  shows "outcome (\<lambda>e w'. stmt H lo def T w0 w' \<and> readOnly (se_txn (fst w0)))
    (\<lambda>u w'. stmt H lo def T w0 w' \<and> stmtView def T w' = (stmtView def T w)(pk := None)) (editorDelete row w)"
proof (cases "readOnly (se_txn (fst w0))")
  case True
  then have "readOnly (se_txn (fst w))" using w by (simp add: stmt_def)
  then obtain e where "editorDelete row w = (Inl e, w)" using editor_readOnly(2) by blast
  then show ?thesis using w True by simp
next
  case False
  let ?p = "case map_of (ed_pending (snd w)) pk of Some p \<Rightarrow> p\<lparr>pr_new := None\<rparr> | None \<Rightarrow> \<lparr>pr_pkEnc = pk, pr_old = Some row, pr_new = None\<rparr>"
  have x: "se_txn (fst w) = se_txn (fst w0)" and cur: "current def (viewOf T (tableView (td_ID def) (se_txn (fst w)))) (ed_pending (snd w))"
    using w by (simp_all add: stmt_def)
  obtain n where d: "map_of (sq_tables (se_store (fst w))) (ed_table (snd w)) = Some (def\<lparr>td_autoIncNext := n\<rparr>)"
    using w by (auto simp: stmt_def counted_def)
  have run: "editorDelete row w = setPending pk ?p w"
    using d False x row by (auto simp: editorDelete_def andThen_def editorDef_def writable_iff liftE_def ret_def rowOk_def split: option.splits)
  have "pr_pkEnc ?p = pk \<and> pr_old ?p = viewOf T (tableView (td_ID def) (se_txn (fst w))) pk \<and> pr_new ?p = None"
    using buffered_at [OF cur, of pk] v x by (cases "map_of (ed_pending (snd w)) pk") auto
  then show ?thesis using stmt_pending [OF w, of ?p pk] unfolding run by auto
qed

lemma editorUpdate_spec:
  assumes w: "stmt H lo def T w0 w"
    and t: "tableState K (contentOf (sq_led (se_store (fst w0))) (H (st_version (sq_led (se_store (fst w0)))))) (recordsOf (sq_led (se_store (fst w0)))) def T"
    and c: "currentView def T (tableView (td_ID def) (se_txn (fst w0)))"
    and old: "rowOk def oldPK oldRow" and new: "rowOk def newPK newRow" and k: "rowKey (td_ID def) newPK \<in> K"
    and v: "map_of (ed_pending (snd w)) oldPK = None \<Longrightarrow> viewOf T (tableView (td_ID def) (se_txn (fst w0))) oldPK = Some oldRow"
  shows "outcome
    (\<lambda>e w'. stmt H lo def T w0 w' \<and>
       (may_fail \<or> readOnly (se_txn (fst w0)) \<or> newPK \<noteq> oldPK \<and> stmtView def T w newPK \<noteq> None \<or>
        (\<exists>idx \<in> set (td_Indexes def). rejected def ((stmtView def T w)(oldPK := None, newPK \<mapsto> newRow)) newRow newPK idx)))
    (\<lambda>u w'. stmt H lo def T w0 w' \<and> stmtView def T w' = (stmtView def T w)(oldPK := None, newPK \<mapsto> newRow) \<and>
       (\<forall>idx \<in> set (td_Indexes def). admitted def T (stmtView def T w') newRow newPK idx))
    (editorUpdate oldRow newRow w)"
proof (cases "readOnly (se_txn (fst w0))")
  case True
  then have "readOnly (se_txn (fst w))" using w by (simp add: stmt_def)
  then obtain e where "editorUpdate oldRow newRow w = (Inl e, w)" using editor_readOnly(3) by blast
  then show ?thesis using w True by simp
next
  case False
  have x: "se_txn (fst w) = se_txn (fst w0)" and cur: "current def (viewOf T (tableView (td_ID def) (se_txn (fst w)))) (ed_pending (snd w))"
    using w by (simp_all add: stmt_def)
  obtain n where d: "map_of (sq_tables (se_store (fst w))) (ed_table (snd w)) = Some (def\<lparr>td_autoIncNext := n\<rparr>)"
    using w by (auto simp: stmt_def counted_def)
  have pks: "encodePK def oldRow = Inr oldPK" "encodePK def newRow = Inr newPK" using old new by (simp_all add: rowOk_def)
  show ?thesis
  proof (cases "oldPK = newPK")
    case True
    let ?p = "case map_of (ed_pending (snd w)) oldPK of Some p \<Rightarrow> p\<lparr>pr_new := Some newRow\<rparr> | None \<Rightarrow> \<lparr>pr_pkEnc = oldPK, pr_old = Some oldRow, pr_new = Some newRow\<rparr>"
    have run: "editorUpdate oldRow newRow w = andThen (setPending oldPK ?p) (\<lambda>_. checkUnique (def\<lparr>td_autoIncNext := n\<rparr>) newRow oldPK) w"
      using d False x pks True
      by (auto simp: editorUpdate_def andThen_def editorDef_def writable_iff liftE_def ret_def split: option.splits)
    have p: "pr_pkEnc ?p = oldPK" "pr_old ?p = viewOf T (tableView (td_ID def) (se_txn (fst w))) oldPK" "pr_new ?p = Some newRow"
      using buffered_at [OF cur, of oldPK] v x by (cases "map_of (ed_pending (snd w)) oldPK"; auto)+
    obtain w1 where w1: "setPending oldPK ?p w = (Inr (), w1)" "stmt H lo def T w0 w1" "stmtView def T w1 = (stmtView def T w)(oldPK \<mapsto> newRow)"
      using stmt_pending [OF w p(1,2)] p(3) new True by auto
    have run: "editorUpdate oldRow newRow w = checkUnique (def\<lparr>td_autoIncNext := n\<rparr>) newRow oldPK w1"
      unfolding run using w1(1) by (simp add: andThen_def)
    show ?thesis unfolding run
      by (rule outcome_mono [OF checkUnique_spec [OF w1(2) t c]]) (use w1(3) new True in auto)
  next
    case ne: False
    have run: "editorUpdate oldRow newRow w = andThen (editorDelete oldRow) (\<lambda>_. editorInsert newRow) w"
      using d False x pks ne by (simp add: editorUpdate_def andThen_def editorDef_def writable_iff liftE_def ret_def)
    have "outcome
      (\<lambda>e w'. stmt H lo def T w0 w' \<and>
         (may_fail \<or> readOnly (se_txn (fst w0)) \<or> newPK \<noteq> oldPK \<and> stmtView def T w newPK \<noteq> None \<or>
          (\<exists>idx \<in> set (td_Indexes def). rejected def ((stmtView def T w)(oldPK := None, newPK \<mapsto> newRow)) newRow newPK idx)))
      (\<lambda>u w'. stmt H lo def T w0 w' \<and> stmtView def T w' = (stmtView def T w)(oldPK := None, newPK \<mapsto> newRow) \<and>
         (\<forall>idx \<in> set (td_Indexes def). admitted def T (stmtView def T w') newRow newPK idx))
      (editorInsert newRow w2)"
      if w2: "stmt H lo def T w0 w2" "stmtView def T w2 = (stmtView def T w)(oldPK := None)" for w2
      by (rule outcome_mono [OF editorInsert_spec [OF w2(1) t c new k]]) (use ne w2(2) in auto)
    then show ?thesis unfolding run
      by - (rule outcome_bind, rule editorDelete_spec [OF w old v], auto)
  qed
qed

section \<open>The end of a statement\<close>

lemma editorClose_fold:
  assumes w: "stmt H lo def T w0 w" and c: "currentView def T (tableView (td_ID def) (se_txn (fst w0)))" and x: "se_txn (fst w0) = Some txn"
  shows "\<exists>w' txn'. editorClose rd w = (Inr (), w') \<and> se_store (fst w') = se_store (fst w) \<and> se_txn (fst w') = Some txn' \<and>
    currentView def T (tableView (td_ID def) (Some txn')) \<and> viewOf T (tableView (td_ID def) (Some txn')) = stmtView def T w \<and>
    (\<forall>i. i \<noteq> td_ID def \<longrightarrow> tableView i (Some txn') = tableView i (Some txn)) \<and>
    tx_baseVersion txn' = tx_baseVersion txn \<and> tx_savepoints txn' = tx_savepoints txn \<and> ed_pending (snd w') = []"
proof -
  have xw: "se_txn (fst w) = Some txn" using w x by (simp add: stmt_def)
  let ?tt = "tableView (td_ID def) (Some txn)"
  show ?thesis
  proof (cases "ed_pending (snd w) = []")
    case True
    then have "stmtView def T w = viewOf T ?tt" using xw by (simp add: stmtView_def)
    then show ?thesis using True xw c x by (simp add: editorClose_def ret_def)
  next
    case False
    obtain n where d: "map_of (sq_tables (se_store (fst w))) (ed_table (snd w)) = Some (def\<lparr>td_autoIncNext := n\<rparr>)"
      using w by (auto simp: stmt_def counted_def)
    have b: "bufferOf ?tt = tableOf (td_ID def) txn" by (simp add: bufferOf_def tableOf_def tableView_def)
    have "current def T (tableOf (td_ID def) txn)" "current def (afterTxn T (tableOf (td_ID def) txn)) (ed_pending (snd w))"
      using c w x by (simp_all add: currentView_buffer stmt_def viewOf_buffer b)
    note F = foldPending_view [OF this]
    have "stmtView def T w = afterTxn (afterTxn T (tableOf (td_ID def) txn)) (ed_pending (snd w))" using xw by (simp add: stmtView_def viewOf_buffer b)
    then show ?thesis using False d xw F
      by (simp add: editorClose_def andThen_def editorDef_def ret_def Let_def tableView_def update_conv' currentView_def viewOf_def)
  qed
qed

lemma afterRows_current:
  assumes "current def T ps"
  shows "distinct (map pr_pkEnc (map snd ps))" "afterRows T (map snd ps) = afterTxn T ps"
proof -
  have k: "map pr_pkEnc (map snd ps) = map fst ps" using assms by (auto simp: current_def)
  then show d: "distinct (map pr_pkEnc (map snd ps))" using assms by (simp only: current_def)
  have "afterRows T (map snd ps) pk = afterTxn T ps pk" for pk
  proof (cases "map_of ps pk")
    case None
    then have "pk \<notin> pr_pkEnc ` set (map snd ps)" using k by (metis map_of_eq_None_iff set_map)
    then show ?thesis using afterRows_other [of pk "map snd ps" T] afterTxn_current [OF assms, of pk] None by simp
  next
    case (Some p)
    then have "p \<in> set (map snd ps)" by (force dest: map_of_SomeD)
    then show ?thesis using afterRows_at [OF d, of p T] buffered_at [OF assms Some] afterTxn_current [OF assms, of pk] Some by simp
  qed
  then show "afterRows T (map snd ps) = afterTxn T ps" by auto
qed

lemma editorClose_direct:
  assumes l: "ledger (sq_led (se_store se)) H lo" and v: "st_version (sq_led (se_store se)) < st_version (sq_led (se_store se)) + 1" and rd: "good_rand rd"
    and db: "database K (contentOf (sq_led (se_store se)) (H (st_version (sq_led (se_store se))))) (recordsOf (sq_led (se_store se))) (catalog (se_store se)) DB"
    and K: "no_path_clash (sq_led (se_store se)) K" "st_history (sq_led (se_store se)) \<longrightarrow> HistoryKey \<in> K"
    and d: "map_of (sq_tables (se_store se)) (ed_table ed) = Some def" and x: "se_txn se = None" and ne: "ed_pending ed \<noteq> []"
    and c: "current def (DB (td_ID def)) (ed_pending ed)" and k: "rowKey (td_ID def) ` fst ` set (ed_pending ed) \<subseteq> K" "hasAutoInc def \<longrightarrow> autoIncKey (td_ID def) \<in> K"
    and b: "\<And>lops bops. rowOpsLoop def (map snd (ed_pending ed)) = Inr (lops, bops) \<Longrightarrow>
       batch_ok (sq_led (se_store se)) (H (st_version (sq_led (se_store se)))) (batchMap (sq_led (se_store se)) (lops @ counterOps def))"
  shows "outcome
    (\<lambda>e w'. same H lo (se_store se) (se_store (fst w')) \<or>
       may_fail \<and> committed K H lo (DB(td_ID def := afterTxn (DB (td_ID def)) (ed_pending ed))) (se_store se) False (se_store (fst w')))
    (\<lambda>u w'. committed K H lo (DB(td_ID def := afterTxn (DB (td_ID def)) (ed_pending ed))) (se_store se) True (se_store (fst w')))
    (editorClose rd (se, ed))"
proof (cases "rowOpsLoop def (map snd (ed_pending ed))")
  case (Inl e)
  then show ?thesis using ne d x l by (simp add: editorClose_def andThen_def editorDef_def ret_def liftE_def same_refl)
next
  case (Inr r)
  obtain lops bops where r: "r = (lops, bops)" by (cases r)
  let ?s = "se_store se" and ?DB = "DB(td_ID def := afterTxn (DB (td_ID def)) (ed_pending ed))"
  have ops: "rowOpsLoop def (map snd (ed_pending ed)) = Inr (lops, bops)" using Inr r by simp
  note R = afterRows_current [OF c]
  have "(lower, def) \<in> set (sq_tables ?s) \<Longrightarrow> def \<in> set (catalog ?s)" for lower by (force simp: catalog_def)
  then have dc: "def \<in> set (catalog ?s)" using map_of_SomeD [OF d] by blast
  have pk: "pr_pkEnc ` set (map snd (ed_pending ed)) = fst ` set (ed_pending ed)" using c by (force simp: current_def)
  have "\<forall>p \<in> set (map snd (ed_pending ed)). pendingOk def (DB (td_ID def)) p \<and> rowKey (td_ID def) (pr_pkEnc p) \<in> K"
    using c k(1) by (fastforce simp: current_def)
  note D = table_rows [OF db dc ops R(1) this, unfolded R(2)]
  note O = tableOps_keys [OF ops, unfolded pk]
  have keys: "op_Key ` set (lops @ counterOps def) \<subseteq> K" by (rule order_trans [OF O(1)]) (use k in \<open>simp split: if_splits\<close>)
  note C = commitSql_committed [OF same_refl [OF l] v rd K keys b [OF ops] O(2,3) D]
  have "editorClose rd (se, ed) = inSession (commitSql rd (lops @ counterOps def) bops) (se, ed)"
    using ne d x ops by (simp add: editorClose_def andThen_def editorDef_def ret_def liftE_def)
  then show ?thesis using C
    by (cases "commitSql rd (lops @ counterOps def) bops ?s"; cases "fst (commitSql rd (lops @ counterOps def) bops ?s)") (auto simp: inSession_def fun_upd_def)
qed

end

section \<open>Savepoints\<close>

lemma snapshotTables_id [simp]: "snapshotTables ts = ts"
  by (simp add: snapshotTables_def case_prod_unfold)

lemma findSavepoint_last:
  assumes "EqualFold (sp_name sp) name" "\<forall>x \<in> set later. \<not> EqualFold (sp_name x) name"
  shows "findSavepoint name (sps @ sp # later) = Some (length sps)"
  using assms
proof (induction later rule: rev_induct)
  case Nil
  then show ?case by (simp add: findSavepoint_def)
next
  case (snoc x later)
  have "rev [0..<length (sps @ sp # later @ [x])] = length (sps @ sp # later) # rev [0..<length (sps @ sp # later)]" by simp
  moreover have "find (\<lambda>i. EqualFold (sp_name ((sps @ sp # later @ [x]) ! i)) name) (rev [0..<length (sps @ sp # later)]) =
      find (\<lambda>i. EqualFold (sp_name ((sps @ sp # later) ! i)) name) (rev [0..<length (sps @ sp # later)])"
    by (rule find_cong) (auto simp: nth_append nth_Cons' simp flip: append_assoc)
  moreover have "(sps @ sp # later @ [x]) ! length (sps @ sp # later) = x" by (simp add: nth_append)
  ultimately show ?case using snoc by (simp add: findSavepoint_def)
qed

section \<open>A duplicate that is not seen\<close>

text \<open>A table of pairs with a unique index on the second component, and a transaction that deletes (1, 5) and inserts (2, 5).\<close>

definition pairTable :: tableDef where
  "pairTable =
     (let c = \<lparr>cd_Name = [], cd_QType = Type_INT64, cd_Length = 0, cd_Precision = 0, cd_Nullable = False, cd_AutoInc = False\<rparr>
      in \<lparr>td_ID = 1, td_Name = [], td_Columns = [c, c], td_PKOrds = [0], td_Comment = [],
          td_Indexes = [\<lparr>ix_ID = 1, ix_Name = [], ix_Unique = True, ix_ColOrds = [1]\<rparr>], td_autoIncNext = 0\<rparr>)"

definition pairRow :: "u64 \<Rightarrow> Row" where
  "pairRow x = [Some (VInt64 x), Some (VInt64 5)]"

definition pairPending :: "pendingRow list" where
  "pairPending =
     [\<lparr>pr_pkEnc = encInt64 1, pr_old = Some (pairRow 1), pr_new = None\<rparr>,
      \<lparr>pr_pkEnc = encInt64 2, pr_old = None, pr_new = Some (pairRow 2)\<rparr>]"


end
