(* ===== verification/Sql_Example.thy ===== *)
theory Sql_Example
  imports Mem_Store Edit_Inv
begin

text \<open>
  A SQL store on the empty in-memory ledger with one table, an integer primary key with a unique index on it: the
  instance on which the properties of the SQL layer are exercised.
\<close>

definition keyIndex :: indexDef where
  "keyIndex = \<lparr>ix_ID = 1, ix_Name = ascii ''u'', ix_Unique = True, ix_ColOrds = [0]\<rparr>"

definition keyTable :: tableDef where
  "keyTable = intTable\<lparr>td_Indexes := [keyIndex]\<rparr>"

definition sqlNew :: "MemBackend SqlStore" where
  "sqlNew = \<lparr>sq_led = newLedger [], sq_dbName = ascii ''db'', sq_meta = \<lparr>cm_NextTableID = 2, cm_NextIndexID = 2, cm_Tables = [[]]\<rparr>,
     sq_tables = [([], keyTable)]\<rparr>"

definition fivePK :: bytes where
  "fivePK = [128, 0, 0, 0, 0, 0, 0, 5]"

definition five :: Row where
  "five = [Some (VInt64 5)]"

definition insertFive :: pendingRow where
  "insertFive = \<lparr>pr_pkEnc = fivePK, pr_old = None, pr_new = Some five\<rparr>"

lemma five_encodes: "encodePK keyTable five = Inr fivePK" "encodeIndexCols keyTable keyIndex five = Inr (1 # fivePK, False)"
  "encodePKValues keyTable (td_PKOrds keyTable) [VInt64 5] [] = Inr fivePK" "typedRow (td_Columns keyTable) five"
  by code_simp+

lemma five_row: "case encodeRow (td_Columns keyTable) five of Inl e \<Rightarrow> False | Inr v \<Rightarrow> length v < 100"
  by code_simp

lemma keyTable_simps [simp]: "td_Indexes keyTable = [keyIndex]" "td_ID keyTable = 1" "hasAutoInc keyTable = False"
  by (simp_all add: keyTable_def intTable_def hasAutoInc_def)

lemma five_ok: "rowOk keyTable fivePK five"
  using five_encodes five_row by (auto simp: rowOk_def indexKey_def split: sum.splits)

lemma newLedger_foreign: "foreign k \<Longrightarrow> mem.recordsOf (newLedger []) k = None"
  by (auto simp: mem.recordsOf_def newLedger_def Create_def newStore_def Let_def sealCheckpoint_def callWriteBatch_def memBackend_def
      memWriteBatch_def setBackendState_def memApply_def NewMemBackend_def update_conv' foreign_def record_key_defs)

lemma sqlNew_simps [simp]: "sq_led sqlNew = newLedger []" "sq_tables sqlNew = [([], keyTable)]" "catalog sqlNew = [keyTable]"
  "tableByID 1 sqlNew = Some keyTable"
  by (simp_all add: sqlNew_def catalog_def tableByID_def)

lemma contentOf_empty [simp]: "contentOf l Map.empty = Map.empty"
  by (simp add: contentOf_def fun_eq_iff)

lemma keyTable_state: "tableState K (contentOf (newLedger []) Map.empty) (mem.recordsOf (newLedger [])) keyTable Map.empty"
  using newLedger_foreign foreign_sql by (simp add: tableState_def tableOk_def entriesOk_def rowsOk_def)

lemma sqlNew_database: "database K (contentOf (newLedger []) Map.empty) (mem.recordsOf (newLedger [])) [keyTable] (\<lambda>_. Map.empty)"
  using keyTable_state by (simp add: database_def)

lemma insertFive_current: "current keyTable Map.empty [(fivePK, insertFive)]"
  using five_ok by (simp add: current_def pendingOk_def insertFive_def)

lemma no_clash_one: "no_path_clash l {k}"
  by (simp add: no_path_clash_def)

lemma insertFive_ops:
  assumes "rowOpsLoop keyTable [insertFive] = Inr (lops, bops)"
  shows "\<exists>v. lops = [Put (rowKey 1 fivePK) v]"
  using assms by (auto simp: buildRowOps_def insertFive_def Let_def split: sum.splits)

definition sixPK :: bytes where
  "sixPK = [128, 0, 0, 0, 0, 0, 0, 6]"

definition six :: Row where
  "six = [Some (VInt64 6)]"

lemma six_ok: "rowOk keyTable sixPK six"
proof -
  have "encodePK keyTable six = Inr sixPK" "encodeIndexCols keyTable keyIndex six = Inr (1 # sixPK, False)" "typedRow (td_Columns keyTable) six"
    "case encodeRow (td_Columns keyTable) six of Inl e \<Rightarrow> False | Inr v \<Rightarrow> length v < 100"
    by code_simp+
  then show ?thesis by (auto simp: rowOk_def indexKey_def split: sum.splits)
qed

lemma ledger_sqlNew: "mem.ledger (sq_led sqlNew) (\<lambda>_. Map.empty) 0"
  by (simp add: plain)

lemma state_sqlNew:
  "tableState K (contentOf (sq_led sqlNew) ((\<lambda>_. Map.empty) (st_version (sq_led sqlNew)))) (mem.recordsOf (sq_led sqlNew)) keyTable Map.empty"
  using keyTable_state by simp

text \<open>A statement on the table, in a transaction and on its own.\<close>

definition newTxn :: storeTxn where
  "newTxn = \<lparr>tx_baseVersion = 0, tx_readOnly = False, tx_tables = [], tx_savepoints = []\<rparr>"

definition stmtOn :: "storeTxn option \<Rightarrow> tableTxn \<Rightarrow> MemBackend editing" where
  "stmtOn txn ps = (\<lparr>se_store = sqlNew, se_txn = txn\<rparr>, \<lparr>ed_table = [], ed_pending = ps\<rparr>)"

lemma stmtOn_simps [simp]:
  "se_store (fst (stmtOn txn ps)) = sqlNew" "se_txn (fst (stmtOn txn ps)) = txn" "ed_pending (snd (stmtOn txn ps)) = ps"
  by (simp_all add: stmtOn_def)

lemma statement_new:
  assumes "current keyTable (viewOf Map.empty (tableView 1 txn)) ps"
  shows "mem.stmt (\<lambda>_. Map.empty) 0 keyTable Map.empty (stmtOn txn qs) (stmtOn txn ps)"
proof -
  have "keyTable\<lparr>td_autoIncNext := td_autoIncNext keyTable\<rparr> = keyTable" by simp
  then have "\<exists>n. keyTable = keyTable\<lparr>td_autoIncNext := n\<rparr>" by metis
  then show ?thesis using assms ledger_sqlNew by (simp add: mem.stmt_def mem.counted_def mem.kept_def stmtOn_def)
qed

lemma newTxn_view [simp]: "tableView i (Some newTxn) = None" "viewOf T None = T" "readOnly (Some newTxn) = False" "readOnly None = False"
  by (simp_all add: tableView_def newTxn_def viewOf_def readOnly_def)

lemma view_stmtOn: "stmtView keyTable Map.empty (stmtOn (Some newTxn) [(fivePK, insertFive)]) = [fivePK \<mapsto> five]"
  "stmtView keyTable Map.empty (stmtOn (Some newTxn) []) = Map.empty"
  by (auto simp: stmtView_def afterTxn_def insertFive_def changes_def fun_eq_iff)

lemma rejected_one [simp]: "\<not> rejected keyTable [pk \<mapsto> row] row pk idx"
  by (simp add: rejected_def duplicate_def)

end
