(* ===== verification/Spec2Isabelle.thy ===== *)
theory Spec2Isabelle
  imports Pebble_Backend Sql_Example
begin

text \<open>
  A verification of Privasys immutable-ledger, the Go module under \<^verbatim>\<open>src/\<close>.

  \<^bold>\<open>The program.\<close> \<^verbatim>\<open>ledger/\<close> is an authenticated key-value store: a versioned sparse Merkle tree over hashed paths, kept as encrypted
  records in a storage backend, with proofs of presence and absence, a chain that links the roots of the versions, forks, snapshots and pruning.
  \<^verbatim>\<open>backend/pebble/\<close> adapts the Pebble database to the storage interface. \<^verbatim>\<open>sqlledger/\<close> puts SQL tables on top: rows are ledger entries, and two derived
  keyspaces in the same backend, outside the ledger's records, hold the primary keys and the index entries in key order. A query engine that is not
  part of the repository drives tables, iterators, editors and transactions.

  \<^bold>\<open>Conventions.\<close> Bytes are \<open>8 word\<close>, versions and ids \<open>64 word\<close> with the wrap-around of Go; strings are byte lists, Go maps association
  lists, structs records, and every error or panic is a value of \<open>goerr\<close>. An operation with effects is a function from the
  state to a result and a state (\<open>io\<close> in \<open>Prelude\<close>, with the combinators \<open>andThen\<close>, \<open>ret\<close>, \<open>throw\<close>). SHA-256, HMAC and AES-GCM are defined in full
  (\<open>Go_Crypto\<close>, \<open>Aead\<close>); random nonces are a parameter \<open>rd\<close>, and an interface value is the record of its methods.

  \<^bold>\<open>The ledger.\<close> One theory for each part, in the order of the code:
  \<^item> \<open>Node\<close> (\<^verbatim>\<open>hash.go\<close>, \<^verbatim>\<open>node.go\<close>), \<open>Merkle_Proof\<close> and \<open>Proving\<close> (\<^verbatim>\<open>proof.go\<close>), \<open>Aead\<close>, \<open>Backend\<close>, \<open>Cache\<close>;
  \<^item> \<open>Store\<close>, \<open>Commit\<close> and \<open>Pruning\<close> (\<^verbatim>\<open>store.go\<close>: the \<^verbatim>\<open>Store\<close> struct and its opening and reads, the write path, \<^verbatim>\<open>Prune\<close>);
  \<^item> \<open>Audit_Log\<close> (\<^verbatim>\<open>audit.go\<close>), \<open>Snapshot\<close> (\<^verbatim>\<open>snapshot.go\<close>), \<open>Fork\<close> (\<^verbatim>\<open>fork.go\<close>), \<open>Pebble_Backend\<close> (\<^verbatim>\<open>pebble.go\<close>).

  The contract of a backend is the locale \<open>kv_backend\<close>: point reads, atomic batches and ordered scans over an abstract map, with a flag that says whether
  it may fail. The in-memory backend is its interpretation \<open>mem\<close>, and \<open>pebble_contract\<close> shows that the Pebble adapter keeps it for every database that does
  what Pebble documents. The locale \<open>record_reader\<close> is what the tree algorithms need of record reads; \<open>kv_backend\<close> is a
  sublocale of it. \<open>Smt_Spec\<close> defines the reference root of a set of entries, without a tree.

  The lemmas climb from the records to the content. \<open>Tree_Inv\<close>, \<open>Commit_Inv\<close> and \<open>Apply_Inv\<close> give the shape of the stored tree and the correctness of
  \<^verbatim>\<open>applySubtree\<close>; \<open>Read_Inv\<close> reads and proofs; \<open>Batch_Inv\<close> and \<open>Store_Inv\<close> the batch of a commit and the invariant over all versions. \<open>Ledger\<close> reads a store
  as a history of maps, one for each version, and states every operation over it. \<open>Opening\<close>, \<open>Chain_Inv\<close>, \<open>Fork_Inv\<close> and \<open>Prune_Inv\<close> add the remaining
  operations, and \<open>Ledger_Run\<close> takes them together as a step relation whose runs keep the invariant. \<open>Tamper_Evidence\<close> is about backends
  that return anything at all.

  \<^bold>\<open>The SQL layer.\<close> \<open>Sql_Codec\<close> (\<^verbatim>\<open>codec.go\<close>), \<open>Sql_Keys\<close> (\<^verbatim>\<open>index.go\<close> and the keys of \<^verbatim>\<open>store.go\<close>), \<open>Sql_Store\<close> (\<^verbatim>\<open>store.go\<close>, \<^verbatim>\<open>verify.go\<close>), \<open>Sql_Txn\<close>
  (\<^verbatim>\<open>txn.go\<close> and the editor of \<^verbatim>\<open>table.go\<close>), \<open>Sql_Scan\<close> (the iterators of \<^verbatim>\<open>table.go\<close>) and \<open>Sql_Ddl\<close> (\<^verbatim>\<open>database.go\<close>, \<^verbatim>\<open>engine.go\<close>). \<open>Codec_Inv\<close> shows that key forms keep the order of the columns and
  that rows read back; \<open>Index_Inv\<close> that index ranges are sound; \<open>Sql_Inv\<close> that ledger and keyspaces do not interfere. \<open>Table_Inv\<close> abstracts a table to a map from
  primary keys to rows, with \<open>tableState\<close> relating it to ledger and keyspaces. Over that map, \<open>Txn_Inv\<close> states commits, \<open>Scan_Inv\<close> scans and verified reads, and \<open>Edit_Inv\<close> the
  statement editor. \<open>Mem_Store\<close> and \<open>Sql_Example\<close> hold the concrete stores on which the theorems are exercised.

  \<^bold>\<open>Hypotheses.\<close> Theorems on an honest backend assume \<open>kv_backend\<close> for its operations and the ledger invariant, which \<^verbatim>\<open>Create\<close> establishes and every operation keeps. Hash collisions cannot be excluded
  in a logic: where the content matters, a theorem assumes that the paths in play differ (\<open>batch_ok\<close>, \<open>root_distinct\<close>, \<open>no_path_clash\<close> on a set \<open>K\<close> of ledger
  keys), and \<open>Verify_binding\<close> yields the collision instead. A version counter at its last value is excluded where the code adds one to it. A transaction is assumed to be based on the
  current rows only if no other commit came in between; \<open>insert_adds\<close>, \<open>update_replaces\<close> and \<open>close_folds\<close> show that statements keep this, and \<open>commitTxn_atomic\<close> that the
  validation of the commit restores it otherwise.

  \<^bold>\<open>Loops and bounds.\<close> Recursion over the tree ends after 64 nibbles and is a total function there. A loop whose end depends on the backend is a \<open>partial_function\<close> with \<open>None\<close> for
  not ending (\<open>pruneStale\<close>, \<open>pruneRoots\<close>, \<open>historyLoop\<close>, \<open>nextEntry\<close>, \<open>collectEntries\<close>, \<open>pebbleLoop\<close>, and the loops of \<open>Sql_Store\<close> and \<open>Sql_Ddl\<close>); that it returns is part of \<open>Prune_returns\<close>,
  \<open>VerifyHistory_accepts\<close>, \<open>scan_shows\<close> and \<open>pebble_contract\<close>. The diff of two versions and the export of leaves recurse as deep as the records say, and the Go stack is the argument
  \<open>stack\<close>; running out of it is a panic. \<open>readAll\<close> calls an iterator \<open>n\<close> times at most, and \<open>scan_shows\<close> holds for every \<open>n\<close> above the number of rows.

  \<^bold>\<open>Not modelled.\<close> Locks and goroutines: each operation runs alone, as the store's mutex has it, and interleaving is that of whole operations. The query engine and the wiring to it (\<^verbatim>\<open>NewEngine\<close>,
  \<^verbatim>\<open>NewContext\<close>, \<^verbatim>\<open>Exec\<close>), Pebble, the JSON form of catalog entries and the engine's type constructors are other people's code: parameters where the repository's code uses their results. Error messages are kept as
  their format strings, and only their kinds matter. Case folding is that of ASCII. Constant descriptive methods of the engine's interfaces are left out. For the catalog operations, the rebuild of the keyspaces, \<^verbatim>\<open>ChangesAt\<close> and
  the snapshot export there are definitions and no theorems beyond the ones on the operations that they are made of.
\<close>

section \<open>The store as a ledger\<close>

text \<open>C1. Refinement. On every backend that honours its contract, \<^verbatim>\<open>PutBatch\<close> implements the abstract
  step on a history of maps: a batch that does not change the content returns the current root and
  version and changes nothing; any other appends the new content (with the chain head on a chained
  store) as the next version, keeps every older version, returns the new root and version, and touches no
  key outside the ledger's record space. A backend error leaves the whole ledger as it was.\<close>

theorem PutBatch_refines:
  assumes "kv_backend getB writeB scanB live view may" "kv_backend.ledger getB writeB scanB live view s H lo"
    and "st_version s < st_version s + 1" "good_rand rd" "batch_ok s (H (st_version s)) (batchMap s ops)" "\<forall>op \<in> set ops. \<not> reserved op"
  shows "runs may (kv_backend.kept getB writeB scanB live view s H lo)
     (\<lambda>rv s'. rv = Root s' \<and>
       (if putMap (H (st_version s)) (batchMap s ops) = H (st_version s) then kv_backend.kept getB writeB scanB live view s H lo s'
        else let nv = st_version s + 1; D' = putMap (H (st_version s)) (linked s (nextHead s nv) (batchMap s ops))
             in kv_backend.ledger getB writeB scanB live view s' (H(nv := D')) lo \<and>
                advanced s nv (if st_history s then nextHead s nv else st_historyHead s) s' \<and>
                (\<forall>k. foreign k \<longrightarrow> kv_backend.recordsOf view s' k = kv_backend.recordsOf view s k)))
     (PutBatch rd ops s)"
  using assms by (rule kv_backend.PutBatch_ledger)

theorem PutBatch_refines_witness:
  "\<exists>s'. PutBatch zeroNonce [Put [1] [2]] (newLedger []) = (Inr (Root s'), s') \<and> st_version s' = 1 \<and>
     mem.ledger s' ((\<lambda>_. Map.empty)(1 := [pathOf (newLedger []) [1] \<mapsto> [2]])) 0"
proof -
  let ?s = "newLedger []"
  have v: "st_version ?s < st_version ?s + 1" by (simp add: version_plain)
  have D: "putMap Map.empty [pathOf ?s [1] \<mapsto> Some [2]] = [pathOf ?s [1] \<mapsto> [2]]" by (auto simp: putMap_def fun_eq_iff)
  have "batch_ok ?s Map.empty (batchMap ?s [Put [1] [2]])" by (rule batch_ok_single) (simp add: plain(7))
  from runs_no_fail [OF PutBatch_refines [OF mem.kv_backend_axioms plain(2) v good_zeroNonce this not_reserved]]
  obtain rv s' where "PutBatch zeroNonce [Put [1] [2]] ?s = (Inr rv, s')" "rv = Root s'"
    "mem.ledger s' ((\<lambda>_. Map.empty)(1 := [pathOf ?s [1] \<mapsto> [2]])) 0" "advanced ?s 1 (st_historyHead ?s) s'"
    by (auto simp: version_plain batchMap_single D linked_def plain(7) Let_def split: if_splits)
  then show ?thesis using advanced_fields(4) by blast
qed

text \<open>C13. \<^verbatim>\<open>Get\<close> returns the current content at the key's path, and only a backend error can keep it
  from doing so.\<close>

theorem Get_current:
  assumes "kv_backend getB writeB scanB live view may" "kv_backend.ledger getB writeB scanB live view s H lo"
  shows "runs may (kv_backend.kept getB writeB scanB live view s H lo)
     (\<lambda>r s'. r = H (st_version s) (pathOf s key) \<and> kv_backend.kept getB writeB scanB live view s H lo s') (Get key s)"
  using assms by (rule kv_backend.Get_ledger)

theorem Get_current_witness: "\<exists>s'. Get [1] (newLedger []) = (Inr None, s')"
  using runs_no_fail [OF Get_current [OF mem.kv_backend_axioms plain(2), of "[1]"]] by auto

text \<open>C14. Time travel: \<^verbatim>\<open>GetAt\<close> at any retained version returns the content of that version.\<close>

theorem GetAt_retained:
  assumes "kv_backend getB writeB scanB live view may" "kv_backend.ledger getB writeB scanB live view s H lo"
    and "lo \<le> w" "w \<le> st_version s" "root_distinct s (H w)"
  shows "runs may (kv_backend.kept getB writeB scanB live view s H lo)
     (\<lambda>r s'. r = H w (pathOf s key) \<and> kv_backend.kept getB writeB scanB live view s H lo s') (GetAt w key s)"
  using assms by (rule kv_backend.GetAt_ledger)

theorem GetAt_retained_witness: "\<exists>s'. GetAt 0 [1] (newLedger []) = (Inr None, s')"
  using runs_no_fail [OF GetAt_retained [OF mem.kv_backend_axioms plain(2) _ _ root_distinct_empty, of 0 "[1]"]]
  by (auto simp: version_plain)

text \<open>C15. Soundness of proofs made by the store: what \<^verbatim>\<open>Prove\<close> returns is accepted by the stateless
  verifiers against the current root, \<^verbatim>\<open>VerifyAbsent\<close> exactly when the key is absent and
  \<^verbatim>\<open>VerifyValue\<close> exactly for the values with the commitment of the stored one.\<close>

theorem Prove_accepted:
  assumes "kv_backend getB writeB scanB live view may" "kv_backend.ledger getB writeB scanB live view s H lo"
  shows "runs may (kv_backend.kept getB writeB scanB live view s H lo)
     (\<lambda>p s'. VerifyAbsent s (st_root s) key p = Inr (H (st_version s) (pathOf s key) = None) \<and>
        (\<forall>val. VerifyValue s (st_root s) key val p =
           Inr (\<exists>v. H (st_version s) (pathOf s key) = Some v \<and> vhOf s (pathOf s key) v = vhOf s (pathOf s key) val)))
     (Prove key s)"
  by (rule runs_mono, rule kv_backend.Prove_ledger [OF assms])
    (auto simp: proves_def VerifyAbsent_def VerifyValue_def absentVerified_def Let_def split: option.splits)

theorem Prove_accepted_witness:
  "\<exists>p s'. Prove [1] (newLedger []) = (Inr p, s') \<and> VerifyAbsent (newLedger []) placeholderHash [1] p = Inr True"
  using runs_no_fail [OF Prove_accepted [OF mem.kv_backend_axioms plain(2), of "[1]"]] by (auto simp: version_plain)

text \<open>C16. Proofs of the past: \<^verbatim>\<open>ProveAt\<close> at a retained version gives a well-formed proof that
  \<^verbatim>\<open>Verify\<close> accepts against that version's root and that shows that version's content.\<close>

theorem ProveAt_accepted:
  assumes "kv_backend getB writeB scanB live view may" "kv_backend.ledger getB writeB scanB live view s H lo"
    and "lo \<le> w" "w \<le> st_version s" "root_distinct s (H w)"
  shows "runs may (kv_backend.kept getB writeB scanB live view s H lo)
     (\<lambda>p s'. (\<forall>root. contentRoot s (H w) root \<longrightarrow> proves s root (H w) (pathOf s key) p) \<and>
        kv_backend.kept getB writeB scanB live view s H lo s') (ProveAt w key s)"
  using assms by (rule kv_backend.ProveAt_ledger)

theorem ProveAt_accepted_witness:
  "\<exists>p s'. ProveAt 0 [1] (newLedger []) = (Inr p, s') \<and> proves (newLedger []) placeholderHash Map.empty (pathOf (newLedger []) [1]) p"
proof -
  have "contentRoot (newLedger []) Map.empty placeholderHash" by (simp add: contentRoot_def commitmentsOf_def [abs_def])
  then show ?thesis
    using runs_no_fail [OF ProveAt_accepted [OF mem.kv_backend_axioms plain(2) _ _ root_distinct_empty, of 0 "[1]"]]
    by (auto simp: version_plain)
qed

text \<open>C17. The root authenticates the content: the store's root is the reference sparse Merkle root of
  the value commitments of its current content, whatever commits led there.\<close>

theorem Root_authentic:
  assumes "kv_backend getB writeB scanB live view may" "kv_backend.ledger getB writeB scanB live view s H lo"
    and "represents xs (commitmentsOf s (H (st_version s)))"
  shows "st_root s = smt 0 xs"
  using kv_backend.Root_ledger [OF assms(1,2)] is_smt_unique [OF _ assms(3)] by (simp add: contentRoot_def)

theorem Root_authentic_witness: "st_root (newLedger []) = smt 0 []"
  by (rule Root_authentic [OF mem.kv_backend_axioms plain(2)]) (simp add: represents_def commitmentsOf_def [abs_def])

text \<open>\<^verbatim>\<open>Create\<close> on an empty backend starts a ledger whose history is empty, at version 0 with the
  placeholder root; it fails only when the backend does.\<close>

theorem Create_starts:
  assumes "kv_backend getB writeB scanB live view may" "be_Get be = getB" "be_WriteBatch be = writeB" "be_Scan be = scanB"
    "live (be_state be)" "view (be_state be) = Map.empty" "good_rand rd" "newStore be ck opts = Inr s0"
  shows "case Create rd be ck opts of
      Inl e \<Rightarrow> may \<and> (\<exists>m. e = BackendErr m)
    | Inr s \<Rightarrow> kv_backend.ledger getB writeB scanB live view s (\<lambda>_. Map.empty) 0 \<and> Root s = (placeholderHash, 0) \<and> st_ck s = ck \<and>
        st_cipher s = st_cipher s0 \<and> st_ckptMAC s = st_ckptMAC s0 \<and> st_history s = st_wantHistory s0 \<and> st_historyHead s = zeroHash"
  using assms by (rule kv_backend.Create_ledger)

theorem Create_starts_witness:
  "\<exists>s. Create zeroNonce (memBackend NewMemBackend) (replicate 32 7) [] = Inr s \<and> mem.ledger s (\<lambda>_. Map.empty) 0"
proof -
  have "case Create zeroNonce (memBackend NewMemBackend) (replicate 32 7) [] of
      Inl e \<Rightarrow> False \<and> (\<exists>m. e = BackendErr m)
    | Inr s \<Rightarrow> mem.ledger s (\<lambda>_. Map.empty) 0 \<and> Root s = (placeholderHash, 0) \<and> st_ck s = replicate 32 7 \<and>
        st_cipher s = st_cipher plainBase \<and> st_ckptMAC s = st_ckptMAC plainBase \<and> st_history s = st_wantHistory plainBase \<and> st_historyHead s = zeroHash"
    by (rule Create_starts [OF mem.kv_backend_axioms _ _ _ _ _ good_zeroNonce newStore_plain(1)])
      (simp_all add: memBackend_def memLive_new)
  then show ?thesis by (auto split: sum.splits)
qed

text \<open>C25. Reopening: \<^verbatim>\<open>OpenLatest\<close> with the same keys on the records of a store gives a store with the
  same root, version, tree, chain flag and chain head, over the same history.\<close>

theorem OpenLatest_restores:
  assumes "kv_backend getB writeB scanB live view may" "kv_backend.ledger getB writeB scanB live view s H lo" "chain_ok s H lo"
    "root_distinct s (H (st_version s))" "newStore (st_backend s) (st_ck s) opts = Inr n" "st_cipher n = st_cipher s"
    "st_ckptMAC n = st_ckptMAC s" "st_wantHistory n \<longrightarrow> st_history s"
  shows "case OpenLatest (st_backend s) (st_ck s) opts of
      Inl e \<Rightarrow> may \<and> (\<exists>m. e = errBackend m)
    | Inr s' \<Rightarrow> kv_backend.ledger getB writeB scanB live view s' H lo \<and> chain_ok s' H lo \<and> reopened s s'"
  using assms by (rule kv_backend.OpenLatest_ledger)

theorem OpenLatest_restores_witness:
  "\<exists>s'. OpenLatest (st_backend (newLedger [])) (st_ck (newLedger [])) [] = Inr s' \<and> Root s' = (placeholderHash, 0)"
proof -
  let ?s = "newLedger []"
  have n: "newStore (st_backend ?s) (st_ck ?s) [] = Inr (plainBase\<lparr>st_backend := st_backend ?s\<rparr>)"
    by (simp add: newStore_def plainBase_def plain(4))
  have "case OpenLatest (st_backend ?s) (st_ck ?s) [] of
      Inl e \<Rightarrow> False \<and> (\<exists>m. e = errBackend m)
    | Inr s' \<Rightarrow> mem.ledger s' (\<lambda>_. Map.empty) 0 \<and> chain_ok s' (\<lambda>_. Map.empty) 0 \<and> reopened ?s s'"
    by (rule OpenLatest_restores [OF mem.kv_backend_axioms plain(2) chain_new(1) root_distinct_empty n])
      (simp_all add: plain newStore_plain(2))
  then show ?thesis using plain(3) by (auto simp: reopened_def same_store_def Root_def split: sum.splits)
qed

text \<open>C18. \<^verbatim>\<open>PreviewBatch\<close> is \<^verbatim>\<open>PutBatch\<close> without the write: it leaves the ledger as it was and returns
  exactly the root and version that a commit of the same batch returns, whatever nonces each of them
  draws.\<close>

theorem Preview_predicts:
  assumes "kv_backend getB writeB scanB live view may" "kv_backend.ledger getB writeB scanB live view s H lo"
    and "st_version s < st_version s + 1" "good_rand rd" "good_rand rd'"
      "batch_ok s (H (st_version s)) (batchMap s ops)" "\<forall>op \<in> set ops. \<not> reserved op"
  shows "runs may (kv_backend.kept getB writeB scanB live view s H lo)
     (\<lambda>rv s1. kv_backend.kept getB writeB scanB live view s H lo s1 \<and>
        (\<forall>rv' s2. PutBatch rd' ops s = (Inr rv', s2) \<longrightarrow> rv' = rv)) (PreviewBatch rd ops s)"
proof (rule runs_mono, rule kv_backend.PreviewBatch_ledger [OF assms(1-4,6,7)], assumption)
  fix rv s1 assume a: "batch_result s H ops rv \<and> kv_backend.kept getB writeB scanB live view s H lo s1"
  have "rv' = rv" if "PutBatch rd' ops s = (Inr rv', s2)" for rv' s2
    using runs_InrD [OF kv_backend.PutBatch_result [OF assms(1-3,5-7)] that] a batch_result_unique by blast
  with a show "kv_backend.kept getB writeB scanB live view s H lo s1 \<and> (\<forall>rv' s2. PutBatch rd' ops s = (Inr rv', s2) \<longrightarrow> rv' = rv)"
    by blast
qed

theorem Preview_predicts_witness:
  "\<exists>rv s1. PreviewBatch zeroNonce [Put [1] [2]] (newLedger []) = (Inr rv, s1) \<and>
     (\<forall>rv' s2. PutBatch zeroNonce [Put [1] [2]] (newLedger []) = (Inr rv', s2) \<longrightarrow> rv' = rv)"
proof -
  let ?s = "newLedger []"
  have v: "st_version ?s < st_version ?s + 1" by (simp add: version_plain)
  have "batch_ok ?s Map.empty (batchMap ?s [Put [1] [2]])" by (rule batch_ok_single) (simp add: plain(7))
  from runs_no_fail [OF Preview_predicts [OF mem.kv_backend_axioms plain(2) v good_zeroNonce good_zeroNonce this not_reserved]]
  show ?thesis by auto
qed

text \<open>C19. A fork that was taken at the current root seals to the root and version that a commit of its
  operations gives.\<close>

theorem Seal_predicts:
  assumes "kv_backend getB writeB scanB live view may" "kv_backend.ledger getB writeB scanB live view s H lo"
    and "RootBefore f = Root s" "st_version s < st_version s + 1" "good_rand rd" "good_rand rd'"
      "batch_ok s (H (st_version s)) (batchMap s (forkOps f))" "\<forall>op \<in> set (forkOps f). \<not> reserved op"
  shows "runs may (kv_backend.kept getB writeB scanB live view s H lo)
     (\<lambda>sf s1. (sf_RootBefore sf, sf_VersionBefore sf) = Root s \<and> kv_backend.kept getB writeB scanB live view s H lo s1 \<and>
        (\<forall>rv s2. PutBatch rd' (sf_Ops sf) s = (Inr rv, s2) \<longrightarrow> rv = (sf_RootAfter sf, sf_VersionAfter sf))) (Seal rd f s)"
proof (rule runs_mono, rule kv_backend.Seal_ledger [OF assms(1-5,7,8)], assumption)
  fix sf s1 assume a: "sf_Ops sf = forkOps f \<and> (sf_RootBefore sf, sf_VersionBefore sf) = Root s \<and>
     batch_result s H (forkOps f) (sf_RootAfter sf, sf_VersionAfter sf) \<and> kv_backend.kept getB writeB scanB live view s H lo s1"
  have "rv = (sf_RootAfter sf, sf_VersionAfter sf)" if "PutBatch rd' (sf_Ops sf) s = (Inr rv, s2)" for rv s2
    using runs_InrD [OF kv_backend.PutBatch_result [OF assms(1,2,4,6-8)]] that a batch_result_unique by metis
  with a show "(sf_RootBefore sf, sf_VersionBefore sf) = Root s \<and> kv_backend.kept getB writeB scanB live view s H lo s1 \<and>
     (\<forall>rv s2. PutBatch rd' (sf_Ops sf) s = (Inr rv, s2) \<longrightarrow> rv = (sf_RootAfter sf, sf_VersionAfter sf))" by blast
qed

theorem Seal_predicts_witness:
  "\<exists>sf s1. Seal zeroNonce (forkPut [1] [2] (NewFork (newLedger []))) (newLedger []) = (Inr sf, s1) \<and>
     (sf_RootBefore sf, sf_VersionBefore sf) = (placeholderHash, 0)"
proof -
  let ?s = "newLedger []" and ?f = "forkPut [1] [2] (NewFork (newLedger []))"
  have o: "forkOps ?f = [Put [1] [2]]" and r: "RootBefore ?f = Root ?s"
    by (simp_all add: forkOps_def forkPut_def NewFork_def Root_def RootBefore_def)
  have v: "st_version ?s < st_version ?s + 1" by (simp add: version_plain)
  have b: "batch_ok ?s Map.empty (batchMap ?s (forkOps ?f))" unfolding o by (rule batch_ok_single) (simp add: plain(7))
  have n: "\<forall>op \<in> set (forkOps ?f). \<not> reserved op" unfolding o by (rule not_reserved) simp
  from runs_no_fail [OF Seal_predicts [OF mem.kv_backend_axioms plain(2) r v good_zeroNonce good_zeroNonce b n]]
  show ?thesis by (auto simp: plain(3))
qed

text \<open>C20. What a fork shows is what its commit makes true: a read through the fork returns, for every key
  whose path is not the chain head's, the content that the key has once the fork's operations are
  applied to the store's content.\<close>

theorem forkGet_shows:
  assumes "kv_backend getB writeB scanB live view may" "kv_backend.ledger getB writeB scanB live view s H lo"
    and "no_path_clash s (insert key (fst ` set (fk_overlay f)))"
  shows "runs may (kv_backend.kept getB writeB scanB live view s H lo)
     (\<lambda>r s'. r = putMap (H (st_version s)) (batchMap s (forkOps f)) (pathOf s key) \<and>
        kv_backend.kept getB writeB scanB live view s H lo s') (forkGet f key s)"
  using assms by (rule kv_backend.forkGet_ledger)

theorem forkGet_shows_witness:
  "\<exists>s'. forkGet (forkPut [1] [2] (NewFork (newLedger []))) [1] (newLedger []) = (Inr (Some [2]), s')"
proof -
  let ?s = "newLedger []" and ?f = "forkPut [1] [2] (NewFork (newLedger []))"
  have o: "fk_overlay ?f = [([1], Some [2])]" "forkOps ?f = [Put [1] [2]]"
    by (simp_all add: forkOps_def forkPut_def NewFork_def Root_def)
  have "no_path_clash ?s (insert [1] (fst ` set (fk_overlay ?f)))" by (simp add: o no_path_clash_def)
  from runs_no_fail [OF forkGet_shows [OF mem.kv_backend_axioms plain(2) this]]
  show ?thesis by (auto simp: o batchMap_single putMap_def)
qed

section \<open>Pruning\<close>

text \<open>C3. \<^verbatim>\<open>Prune\<close> is safe: it deletes nothing that a version at or above its horizon needs. Every such
  version, its root record and the checkpoint are intact afterwards, also when the backend fails between
  two batches.\<close>

theorem Prune_safe:
  assumes "kv_backend getB writeB scanB live view may" "kv_backend.ledger getB writeB scanB live view s H lo"
    and "pruneHorizon s bv \<le> st_version s" "Prune bv s = Some (r, s')"
  shows "kv_backend.ledger getB writeB scanB live view s' H (max lo (pruneHorizon s bv)) \<and> Root s' = Root s"
  using kv_backend.Prune_ledger [OF assms(1,2) refl assms(3)] assms(4) read_eq_fields(4,5) by (fastforce simp: Root_def)

text \<open>C21. \<^verbatim>\<open>Prune\<close> returns: on a backend that honours its contract the two scan-and-delete loops end,
  and the only error is the backend's.\<close>

theorem Prune_returns:
  assumes "kv_backend getB writeB scanB live view may" "kv_backend.ledger getB writeB scanB live view s H lo"
    and "pruneHorizon s bv \<le> st_version s"
  shows "\<exists>stats eo s'. Prune bv s = Some ((stats, eo), s') \<and> (eo = None \<or> may \<and> (\<exists>m. eo = Some (errBackend m)))"
  using kv_backend.Prune_ledger [OF assms(1,2) refl assms(3)] by (fastforce split: option.splits)

text \<open>C22. \<^verbatim>\<open>Prune\<close> is complete: when it succeeds, no stale entry at or below the horizon is left and no
  root record below it.\<close>

theorem Prune_complete:
  assumes "kv_backend getB writeB scanB live view may" "kv_backend.ledger getB writeB scanB live view s H lo"
    and "pruneHorizon s bv \<le> st_version s" "Prune bv s = Some ((stats, None), s')"
  shows "pruned (view (be_state (st_backend s'))) (pruneHorizon s bv)"
  using kv_backend.Prune_ledger [OF assms(1,2) refl assms(3)] assms(4) by auto

theorem Prune_returns_witness: "\<exists>stats s'. Prune 0 (newLedger []) = Some ((stats, None), s')"
  using Prune_returns [OF mem.kv_backend_axioms plain(2), of 0] by (auto simp: pruneHorizon_def split: option.splits)

theorem Prune_safe_witness: "\<exists>r s'. Prune 0 (newLedger []) = Some (r, s') \<and> mem.ledger s' (\<lambda>_. Map.empty) 0"
proof -
  obtain r s' where p: "Prune 0 (newLedger []) = Some (r, s')" using newLedger_prunes by blast
  have h: "pruneHorizon (newLedger []) 0 \<le> st_version (newLedger [])" by (simp add: pruneHorizon_def newLedger_pin)
  show ?thesis using Prune_safe [OF mem.kv_backend_axioms plain(2) h p] p by (auto simp: pruneHorizon_def newLedger_pin)
qed

theorem Prune_complete_witness:
  "\<exists>stats s'. Prune 0 (newLedger []) = Some ((stats, None), s') \<and> pruned (map_of (mb_m (be_state (st_backend s')))) 0"
proof -
  obtain stats s' where p: "Prune 0 (newLedger []) = Some ((stats, None), s')" using newLedger_prunes by blast
  have h: "pruneHorizon (newLedger []) 0 \<le> st_version (newLedger [])" by (simp add: pruneHorizon_def newLedger_pin)
  show ?thesis using Prune_complete [OF mem.kv_backend_axioms plain(2) h p] p by (auto simp: pruneHorizon_def newLedger_pin)
qed

text \<open>C23. A pinned version is never pruned away: with a pin at or above the oldest retained version,
  \<^verbatim>\<open>Prune\<close> to any horizon keeps the pinned version readable.\<close>

theorem Prune_keeps_pin:
  assumes "kv_backend getB writeB scanB live view may" "kv_backend.ledger getB writeB scanB live view s H lo"
    and "st_snapshotPin s = Some pin" "lo \<le> pin" "pin \<le> st_version s" "root_distinct s (H pin)" "Prune bv s = Some (r, s')"
  shows "runs may (\<lambda>_. True) (\<lambda>v _. v = H pin (pathOf s key)) (GetAt pin key s')"
proof -
  have hp: "pruneHorizon s bv \<le> pin" using assms(3) by (auto simp: pruneHorizon_def not_less)
  then have hv: "pruneHorizon s bv \<le> st_version s" using assms(5) by simp
  have P: "kv_backend.ledger getB writeB scanB live view s' H (max lo (pruneHorizon s bv))" "read_eq s s'"
    using kv_backend.Prune_ledger [OF assms(1,2) refl hv] assms(7) by auto
  note F = read_eq_fields [OF P(2)]
  have "root_distinct s' (H pin)" using assms(6) contentRoot_cong [OF F(1)] by (simp add: root_distinct_def)
  then have "runs may (kv_backend.kept getB writeB scanB live view s' H (max lo (pruneHorizon s bv)))
      (\<lambda>v s''. v = H pin (pathOf s' key) \<and> kv_backend.kept getB writeB scanB live view s' H (max lo (pruneHorizon s bv)) s'') (GetAt pin key s')"
    using hp assms(4,5) F(5) by (intro kv_backend.GetAt_ledger [OF assms(1) P(1)]) simp_all
  then show ?thesis by (rule runs_mono) (simp_all add: commitments_cong(1) [OF F(1,2)])
qed

theorem Prune_keeps_pin_witness:
  "\<exists>r s' s''. Prune 5 (PinVersion (Some 0) (newLedger [])) = Some (r, s') \<and> GetAt 0 [1] s' = (Inr None, s'')"
proof -
  let ?s = "PinVersion (Some 0) (newLedger [])"
  have l: "mem.ledger ?s (\<lambda>_. Map.empty) 0" by (rule mem.ledger_pin [OF plain(2)])
  have v: "st_version ?s = 0" "st_snapshotPin ?s = Some 0" by (simp_all add: PinVersion_def version_plain)
  then have h: "pruneHorizon ?s 5 = 0" by (simp add: pruneHorizon_def)
  obtain r s' where p: "Prune 5 ?s = Some (r, s')" using mem.Prune_ledger [OF l h [symmetric]] v by auto
  from runs_no_fail [OF Prune_keeps_pin [OF mem.kv_backend_axioms l v(2) _ _ root_distinct_empty p, of "[1]"]] v
  show ?thesis using p by auto
qed

section \<open>The history chain\<close>

text \<open>C24. The chain audit of an honest store returns and accepts: from any retained version and the head
  recorded there, \<^verbatim>\<open>VerifyHistory\<close> recomputes the live head, unless the backend fails. The version
  counter has to be below its last value, where the loop counter would wrap.\<close>

theorem VerifyHistory_accepts:
  assumes "kv_backend getB writeB scanB live view may" "kv_backend.ledger getB writeB scanB live view s H lo" "chain_ok s H lo"
    "st_history s" "lo \<le> w" "w \<le> st_version s" "st_version s < st_version s + 1"
  shows "\<exists>r s'. VerifyHistory w (headAt s H w) s = Some (r, s') \<and> kv_backend.kept getB writeB scanB live view s H lo s' \<and>
     (case r of Inl e \<Rightarrow> may \<and> (\<exists>m. e = WrapErr ''history walk at version %d (pruned?)'' (errBackend m)) | Inr u \<Rightarrow> True)"
  using assms by (rule kv_backend.VerifyHistory_ledger)

theorem VerifyHistory_accepts_witness: "\<exists>s'. VerifyHistory 0 zeroHash (newLedger [WithHistoryChain]) = Some (Inr (), s')"
proof -
  let ?s = "newLedger [WithHistoryChain]"
  have "st_history ?s" "st_version ?s = 0" "headAt ?s (\<lambda>_. Map.empty) 0 = zeroHash"
    using chained(7) version_chained by (simp_all add: headAt_def)
  then obtain r s' where "VerifyHistory 0 zeroHash ?s = Some (r, s')"
    "case r of Inl e \<Rightarrow> False \<and> (\<exists>m. e = WrapErr ''history walk at version %d (pruned?)'' (errBackend m)) | Inr u \<Rightarrow> True"
    using VerifyHistory_accepts [OF mem.kv_backend_axioms chained(2) chain_new(2), of 0] by auto
  then show ?thesis by (cases r) auto
qed

text \<open>The head recorded at a retained version is readable, and is the link that the chain has there.\<close>

theorem HistoryHeadAt_reads:
  assumes "kv_backend getB writeB scanB live view may" "kv_backend.ledger getB writeB scanB live view s H lo" "chain_ok s H lo"
    "st_history s" "lo \<le> w" "w \<le> st_version s" "root_distinct s (H w)"
  shows "runs may (kv_backend.kept getB writeB scanB live view s H lo)
     (\<lambda>r s'. r = headAt s H w \<and> kv_backend.kept getB writeB scanB live view s H lo s') (HistoryHeadAt w s)"
  using assms by (rule kv_backend.HistoryHeadAt_ledger)

theorem HistoryHeadAt_reads_witness: "\<exists>s'. HistoryHeadAt 0 (newLedger [WithHistoryChain]) = (Inr zeroHash, s')"
proof -
  let ?s = "newLedger [WithHistoryChain]"
  have "st_history ?s" "st_version ?s = 0" "headAt ?s (\<lambda>_. Map.empty) 0 = zeroHash"
    using chained(7) version_chained by (simp_all add: headAt_def)
  then show ?thesis
    using runs_no_fail [OF HistoryHeadAt_reads [OF mem.kv_backend_axioms chained(2) chain_new(2) _ _ _ root_distinct_empty, of 0]] by auto
qed

section \<open>The life of a store\<close>



section \<open>Error behaviour\<close>

text \<open>C31. A batch with a key in the reserved key space is refused as invalid before anything is read or
  written, whatever the backend does.\<close>

theorem PutBatch_reserved:
  assumes "\<exists>op \<in> set ops. reserved op"
  shows "PutBatch rd ops s = (Inl (errInvalid ''key %q uses the reserved system prefix''), s)"
proof -
  have "dedupe s ops [] = Inl (errInvalid ''key %q uses the reserved system prefix'')"
    using dedupe_spec [where m = "[]" and s = s and ops = ops] assms by (auto split: sum.splits)
  then show ?thesis by (simp add: PutBatch_def computeBatch_def liftE_run andThen_def liftE_def)
qed

theorem PutBatch_reserved_witness:
  "PutBatch zeroNonce [Put [1] [2], Del HistoryKey] (newLedger []) =
     (Inl (errInvalid ''key %q uses the reserved system prefix''), newLedger [])"
  by (rule PutBatch_reserved) (simp add: reserved_def Del_def HistoryKey_def reservedKeyPrefix_def hasPrefix_def ascii_def)

text \<open>No operation reads a version that does not exist yet: reads, proofs, the chain audit and pruning
  refuse a version above the current one as invalid, without touching the store.\<close>

theorem future_versions_refused:
  assumes "st_version s < v"
  shows "RootAt v s = (Inl (errInvalid ''version %d is in the future (current %d)''), s) \<and>
    GetAt v key s = (Inl (errInvalid ''version %d is in the future (current %d)''), s) \<and>
    ProveAt v key s = (Inl (errInvalid ''version %d is in the future (current %d)''), s) \<and>
    (st_history s \<longrightarrow> VerifyHistory v head s = Some (Inl (errInvalid ''version %d is in the future (current %d)''), s)) \<and>
    (st_snapshotPin s = None \<longrightarrow>
       Prune v s = Some ((noStats, Some (errInvalid ''cannot prune to future version %d (current %d)'')), s))"
  using assms by (simp add: RootAt_def GetAt_def ProveAt_def VerifyHistory_def Prune_def pruneHorizon_def throw_def)

theorem future_versions_refused_witness:
  "Prune 3 (newLedger []) = Some ((noStats, Some (errInvalid ''cannot prune to future version %d (current %d)'')), newLedger [])"
  using future_versions_refused [of "newLedger []" 3] by (simp add: version_plain newLedger_pin)

section \<open>A backend that lies\<close>


text \<open>C4. Whatever the backend returns, a value that \<^verbatim>\<open>Get\<close> returns is authentic: a well-formed Merkle
  proof exists that \<^verbatim>\<open>Verify\<close> accepts for this key and this value against the store's root. No contract
  of the backend is assumed.\<close>

theorem Get_authentic:
  assumes "Get key s = (Inr (Some v), s')" "cache_wf (st_cache s)" "rootHashOf (st_rootChild s) = st_root s"
  shows "\<exists>p. wf_proof p \<and>
     Verify (st_root s) (pathOf s key) p = Inr \<lparr>v_present = True, v_vh = vhOf s (pathOf s key) v\<rparr>"
proof -
  let ?path = "pathOf s key"
  obtain c where c: "st_rootChild s = Some c" "walkFrom ?path [] c s = (Inr (Some v), s')"
    using assms(1) by (cases "st_rootChild s") (auto simp: Get_def walk_def ret_def)
  obtain ss where ss: "length ss \<le> 256" "\<forall>x \<in> set ss. is_hash x" "c_hash c = foldFrom ?path 0 ss (leafHash ?path (vhOf s ?path v))"
    using walkFrom_proof [OF c(2) assms(2)] by auto
  let ?p = "\<lparr>p_leaf = Some \<lparr>pl_path = ?path, pl_vh = vhOf s ?path v\<rparr>, p_siblings = rev ss\<rparr>"
  have "wf_proof ?p" using ss is_hash_pathOf by (simp add: wf_proof_def)
  moreover have "Verify (st_root s) ?path ?p = Inr \<lparr>v_present = True, v_vh = vhOf s ?path v\<rparr>"
    using ss assms(3) c(1) unfolding Verify_Inr by (simp add: covers_def statementOf_def foldDown_foldFrom termHash_def rootHashOf_def)
  ultimately show ?thesis by blast
qed

theorem Get_authentic_witness:
  "\<exists>(s :: MemBackend Store) s' p. Get [1] s = (Inr (Some [2]), s') \<and> Verify (st_root s) (pathOf s [1]) p = Inr \<lparr>v_present = True, v_vh = vhOf s (pathOf s [1]) [2]\<rparr>"
proof -
  obtain s where s: "st_version s = 1" "pathOf s = pathOf (newLedger [])"
    "mem.ledger s ((\<lambda>_. Map.empty)(1 := [pathOf (newLedger []) [1] \<mapsto> [2]])) 0" using one_entry by blast
  obtain s' where g: "Get [1] s = (Inr (Some [2]), s')"
    using runs_no_fail [OF mem.Get_ledger [OF s(3), of "[1]"]] s(1,2) by auto
  obtain p where "Verify (st_root s) (pathOf s [1]) p = Inr \<lparr>v_present = True, v_vh = vhOf s (pathOf s [1]) [2]\<rparr>"
    using Get_authentic [OF g] mem.ledger_cache_wf [OF s(3)] by auto
  with g show ?thesis by (intro exI conjI)
qed

section \<open>The checkpoint\<close>

text \<open>Round trip of the checkpoint record, encrypted or authenticated: what \<^verbatim>\<open>sealCheckpoint\<close> writes,
  \<^verbatim>\<open>openCheckpoint\<close> reads back, with the flag of the history chain.\<close>

theorem checkpoint_roundtrip:
  assumes "good_rand rd" "is_hash root"
  shows "\<exists>rec. sealCheckpoint s (rd c) root v = Inr rec \<and>
     openCheckpoint s rec = Inr (root, v, if st_history s then ckptFlagHistory else 0)"
  using assms by (rule sealCheckpoint_open)

theorem checkpoint_roundtrip_witness:
  "\<exists>rec. sealCheckpoint (newLedger [WithHistoryChain]) (zeroNonce NonceCkpt) placeholderHash 9 = Inr rec \<and>
     openCheckpoint (newLedger [WithHistoryChain]) rec = Inr (placeholderHash, 9, 1)"
  using checkpoint_roundtrip [OF good_zeroNonce is_hash_placeholder, of "newLedger [WithHistoryChain]" NonceCkpt 9] chained(7) by simp

section \<open>The SQL layer\<close>

text \<open>C6. Atomic commits without lost updates. When \<^verbatim>\<open>commitTxn\<close> succeeds, every row that the transaction writes was,
  at that moment, the one that the transaction had seen, even though other sessions may have committed since it began; and all its writes are in
  the database, in the ledger as in the derived keyspaces, with every older version of the ledger as it was. When it fails, the store is as
  before, unless the backend failed between the two writes of a commit: then the rows are in the ledger and the keyspaces still lag behind.\<close>

theorem commitTxn_atomic:
  assumes "kv_backend getB writeB scanB live view may" "kv_backend.ledger getB writeB scanB live view (sq_led s) H lo"
    and "st_version (sq_led s) < st_version (sq_led s) + 1" "good_rand rd"
    and "database K (contentOf (sq_led s) (H (st_version (sq_led s)))) (kv_backend.recordsOf view (sq_led s)) (catalog s) DB"
    and "no_path_clash (sq_led s) K" "st_history (sq_led s) \<longrightarrow> HistoryKey \<in> K" "txnOk K s txn"
    and "st_version (sq_led s) = tx_baseVersion txn \<Longrightarrow> based DB txn"
    and "\<And>lops bops. writeSet s (sort_key fst (tx_tables txn)) = Inr (lops, bops) \<Longrightarrow>
       batch_ok (sq_led s) (H (st_version (sq_led s))) (batchMap (sq_led s) lops)"
  shows "outcome
    (\<lambda>e s'. kv_backend.same getB writeB scanB live view H lo s s' \<or>
       may \<and> based DB txn \<and> onlyLed s s' \<and>
       kv_backend.committed getB writeB scanB live view K H lo (afterTables DB (tx_tables txn)) s False s')
    (\<lambda>u s'. based DB txn \<and> onlyLed s s' \<and>
       kv_backend.committed getB writeB scanB live view K H lo (afterTables DB (tx_tables txn)) s True s')
    (commitTxn rd txn s)"
  using assms by (rule kv_backend.commitTxn_ledger)

theorem commitTxn_atomic_witness:
  "let txn = \<lparr>tx_baseVersion = 0, tx_readOnly = False, tx_tables = [(1, [(fivePK, insertFive)])], tx_savepoints = []\<rparr>
   in outcome (\<lambda>e s'. mem.same (\<lambda>_. Map.empty) 0 sqlNew s')
     (\<lambda>u s'. mem.committed {rowKey 1 fivePK} (\<lambda>_. Map.empty) 0 (\<lambda>i. if i = 1 then [fivePK \<mapsto> five] else Map.empty) sqlNew True s')
     (commitTxn zeroNonce txn sqlNew)"
proof -
  let ?txn = "\<lparr>tx_baseVersion = 0, tx_readOnly = False, tx_tables = [(1, [(fivePK, insertFive)])], tx_savepoints = []\<rparr>"
  let ?K = "{rowKey 1 fivePK}" and ?DB = "\<lambda>_::u64. Map.empty :: rows"
  have ch: "changes insertFive" by (simp add: changes_def insertFive_def)
  have tx: "txnOk ?K sqlNew ?txn" using five_ok by (simp add: txnOk_def keysIn_def pendingWf_def insertFive_def)
  have base: "based ?DB ?txn" by (simp add: based_def insertFive_def)
  have b: "batch_ok (sq_led sqlNew) Map.empty (batchMap (sq_led sqlNew) lops)"
    if "writeSet sqlNew (sort_key fst (tx_tables ?txn)) = Inr (lops, bops)" for lops bops
    using that insertFive_ops batch_ok_single [of "newLedger []"] ch
    by (auto simp: counterOps_def plain(7) split: sum.splits)
  have a: "afterTables ?DB (tx_tables ?txn) = (\<lambda>i. if i = 1 then [fivePK \<mapsto> five] else Map.empty)"
    using ch by (auto simp: afterTables_def afterTxn_def insertFive_def fun_eq_iff)
  have v: "st_version (sq_led sqlNew) < st_version (sq_led sqlNew) + 1" by (simp add: version_plain)
  have l: "mem.ledger (sq_led sqlNew) (\<lambda>_. Map.empty) 0" by (simp add: plain)
  have db: "database ?K (contentOf (sq_led sqlNew) ((\<lambda>_. Map.empty) (st_version (sq_led sqlNew)))) (mem.recordsOf (sq_led sqlNew)) (catalog sqlNew) ?DB"
    using sqlNew_database by simp
  have h: "st_history (sq_led sqlNew) \<longrightarrow> HistoryKey \<in> ?K" by (simp add: plain)
  note C = commitTxn_atomic [OF mem.kv_backend_axioms l v good_zeroNonce db no_clash_one h tx base b, unfolded a]
  show ?thesis unfolding Let_def by (rule outcome_mono [OF C]) auto
qed

text \<open>C7. A scan shows the table as its transaction sees it. Reading a partition to its end, forward or backward, over the full table or a range of an index, on
  committed rows with the transaction's pending rows merged in, ends and gives exactly the rows of the transaction's view whose key lies in the range, each once, in key
  order; unless the backend fails, and without a change to the store.\<close>

theorem scan_shows:
  assumes "kv_backend getB writeB scanB live view may" "kv_backend.ledger getB writeB scanB live view (sq_led s) H lo"
    and "tableState K (contentOf (sq_led s) (H (st_version (sq_led s)))) (kv_backend.recordsOf view (sq_led s)) def T"
    and "currentView def T tt" "servable def p"
  shows "\<exists>kvs. lists def (partIndex def p) (viewOf T tt) (fst (partBounds p)) (snd (partBounds p)) kvs \<and>
    (\<forall>n > length kvs. kv_backend.reads getB writeB scanB live view may H lo s
       ((if partReverse p then rev else id) (map (rowOf (viewOf T tt) (partIndex def p \<noteq> None)) kvs)) (scanPartition n tt def p s))"
  using assms by (rule kv_backend.scanPartition_spec)

theorem scan_shows_witness:
  "\<exists>n rows s'. scanPartition n (Some [(fivePK, insertFive)]) keyTable (FullScan (scanKey 1 [])) sqlNew = Some (Inr rows, s') \<and> set rows = {five}"
proof -
  let ?tt = "Some [(fivePK, insertFive)]" and ?p = "FullScan (scanKey 1 [])"
  have view: "viewOf Map.empty ?tt = [fivePK \<mapsto> five]" by (auto simp: viewOf_def afterTxn_def insertFive_def changes_def fun_eq_iff)
  obtain e where e: "incBytes (scanKey 1 []) = Some e" using scanKey_end by blast
  have p: "partIndex keyTable ?p = None" "partBounds ?p = (scanKey 1 [], e)" "\<not> partReverse ?p" "servable keyTable ?p"
    using e by (simp_all add: partIndex_def partBounds_def partReverse_def servable_def)
  have c: "currentView keyTable Map.empty ?tt" using insertFive_current by (simp add: currentView_def)
  obtain kvs where kvs: "lists keyTable None [fivePK \<mapsto> five] (scanKey 1 []) e kvs"
    "mem.reads (\<lambda>_. Map.empty) 0 sqlNew (map (rowOf [fivePK \<mapsto> five] False) kvs) (scanPartition (Suc (length kvs)) ?tt keyTable ?p sqlNew)"
    using scan_shows [OF mem.kv_backend_axioms _ _ c p(4), of sqlNew "\<lambda>_. Map.empty" 0 UNIV] plain(2) keyTable_state p view by (auto simp: p)
  have rows: "rowOf [fivePK \<mapsto> five] False kv = Some five" if "kv \<in> set kvs" for kv
    using kvs(1) that by (fastforce simp: lists_def rowOf_def split: if_splits)
  have "scanKey 1 [] \<le> scanKey 1 fivePK" "scanKey 1 fivePK < e"
    using incBytes_range [OF e, of "scanKey 1 fivePK"] by (simp_all add: scanKey_def)
  then have "kvs \<noteq> []" using kvs(1) by (auto simp: lists_def entryKey_def)
  obtain rs s' where r: "scanPartition (Suc (length kvs)) ?tt keyTable ?p sqlNew = Some (Inr rs, s')"
    "map Some rs = map (rowOf [fivePK \<mapsto> five] False) kvs"
    using kvs(2) unfolding mem.reads_def outcome_def by (fastforce split: prod.splits sum.splits)
  have "map Some rs = map (\<lambda>_. Some five) kvs" unfolding r(2) using rows by simp
  then have "Some ` set rs = Some ` {five}" using \<open>kvs \<noteq> []\<close> by (metis image_constant_conv image_empty image_insert set_empty set_map)
  then have "set rs = {five}" by (simp only: inj_image_eq_iff inj_Some)
  then show ?thesis using r(1) by blast
qed

text \<open>C12. Verified reads. On a table in a consistent state \<^verbatim>\<open>VerifiedGet\<close> returns the row under the given key, or none where the table has none, together with the ledger's root
  and version and a proof, and \<^verbatim>\<open>Verify\<close> accepts the proof against that root for the value, or the absence, of exactly this row's ledger key. Only the backend can make it fail.\<close>

theorem verified_read:
  assumes "kv_backend getB writeB scanB live view may" "kv_backend.ledger getB writeB scanB live view (sq_led s) H lo"
    and "tableState K (contentOf (sq_led s) (H (st_version (sq_led s)))) (kv_backend.recordsOf view (sq_led s)) def T"
    and "map_of (sq_tables s) (toLower table) = Some def" "length pkValues = length (td_PKOrds def)"
    and "encodePKValues def (td_PKOrds def) pkValues [] = Inr pkEnc" "rowKey (td_ID def) pkEnc \<in> K"
  shows "outcome (\<lambda>e s'. may \<and> kv_backend.same getB writeB scanB live view H lo s s')
    (\<lambda>vr s'. kv_backend.same getB writeB scanB live view H lo s s' \<and> vw_Row vr = T pkEnc \<and> vw_Key vr = rowKey (td_ID def) pkEnc \<and>
       (vw_Root vr, vw_Version vr) = Root (sq_led s) \<and> vw_Value vr = contentOf (sq_led s) (H (st_version (sq_led s))) (vw_Key vr) \<and>
       VerifySql s vr (vw_Root vr) = Inr True)
    (VerifiedGet table pkValues s)"
  using assms by (rule kv_backend.VerifiedGet_row)

theorem verified_read_witness:
  "\<exists>vr s'. VerifiedGet [] [VInt64 5] sqlNew = (Inr vr, s') \<and> vw_Row vr = None \<and> VerifySql sqlNew vr (vw_Root vr) = Inr True"
proof -
  have l: "mem.ledger (sq_led sqlNew) (\<lambda>_. Map.empty) 0" by (simp add: plain)
  have t: "tableState UNIV (contentOf (sq_led sqlNew) ((\<lambda>_. Map.empty) (st_version (sq_led sqlNew)))) (mem.recordsOf (sq_led sqlNew)) keyTable Map.empty"
    using keyTable_state by simp
  have d: "map_of (sq_tables sqlNew) (toLower []) = Some keyTable" "length [VInt64 5] = length (td_PKOrds keyTable)"
    by (simp_all add: toLower_def) (simp add: keyTable_def intTable_def)
  show ?thesis using verified_read [OF mem.kv_backend_axioms l t d five_encodes(3) UNIV_I]
    by (cases "VerifiedGet [] [VInt64 5] sqlNew"; cases "fst (VerifiedGet [] [VInt64 5] sqlNew)") auto
qed

text \<open>C34. Unique look-ups are exact. \<^verbatim>\<open>uniqueConflict\<close> reads two index entries at most, and still reports a conflict exactly when another row of the table
  has the same index columns.\<close>

theorem unique_exact:
  assumes "kv_backend getB writeB scanB live view may" "kv_backend.same getB writeB scanB live view H lo s0 s"
    and "entriesOk def T (kv_backend.recordsOf view (sq_led s0))" "idx \<in> set (td_Indexes def)" "encodeIndexCols def idx row = Inr (colsEnc, n)"
  shows "outcome (\<lambda>e s'. may \<and> kv_backend.same getB writeB scanB live view H lo s0 s')
    (\<lambda>r s'. kv_backend.same getB writeB scanB live view H lo s0 s' \<and>
       r = (\<exists>pk r' n'. pk \<noteq> pkEnc \<and> T pk = Some r' \<and> encodeIndexCols def idx r' = Inr (colsEnc, n')))
    (uniqueConflict idx colsEnc pkEnc s)"
  using assms by (rule kv_backend.uniqueConflict_spec)

theorem unique_exact_witness: "\<exists>s'. uniqueConflict keyIndex (1 # fivePK) fivePK sqlNew = (Inr False, s')"
proof -
  have s: "mem.same (\<lambda>_. Map.empty) 0 sqlNew sqlNew" by (rule mem.same_refl) (simp add: plain)
  have e: "entriesOk keyTable Map.empty (mem.recordsOf (sq_led sqlNew))" using keyTable_state [of UNIV] by (simp add: tableState_def)
  show ?thesis using unique_exact [OF mem.kv_backend_axioms s e _ five_encodes(2), of fivePK]
    by (cases "uniqueConflict keyIndex (1 # fivePK) fivePK sqlNew"; cases "fst (uniqueConflict keyIndex (1 # fivePK) fivePK sqlNew)") auto
qed

text \<open>C8. INSERT. In a statement on a table in a consistent state, the editor's \<^verbatim>\<open>Insert\<close> adds the row to the table as the statement sees it, its own pending rows over those of the transaction
  over the committed ones, when that table has no row under the primary key; and for each unique index no other row has the columns, or one that had them was committed and pending work has taken it away.
  It fails only with the backend, in a read-only transaction, on a primary key that is taken, or on a true duplicate in a unique index. Beyond the buffer only the table's AUTO_INCREMENT counter changes.\<close>

theorem insert_adds:
  assumes "kv_backend getB writeB scanB live view may" "kv_backend.stmt getB writeB scanB live view H lo def T w0 w"
    and "tableState K (contentOf (sq_led (se_store (fst w0))) (H (st_version (sq_led (se_store (fst w0))))))
           (kv_backend.recordsOf view (sq_led (se_store (fst w0)))) def T"
    and "currentView def T (tableView (td_ID def) (se_txn (fst w0)))" "rowOk def pk row" "rowKey (td_ID def) pk \<in> K"
  shows "outcome
    (\<lambda>e w'. kv_backend.stmt getB writeB scanB live view H lo def T w0 w' \<and>
       (may \<or> readOnly (se_txn (fst w0)) \<or> stmtView def T w pk \<noteq> None \<or>
        (\<exists>idx \<in> set (td_Indexes def). rejected def ((stmtView def T w)(pk \<mapsto> row)) row pk idx)))
    (\<lambda>u w'. kv_backend.stmt getB writeB scanB live view H lo def T w0 w' \<and>
       stmtView def T w pk = None \<and> stmtView def T w' = (stmtView def T w)(pk \<mapsto> row) \<and>
       (\<forall>idx \<in> set (td_Indexes def). admitted def T (stmtView def T w') row pk idx))
    (editorInsert row w)"
  using assms by (rule kv_backend.editorInsert_spec)

theorem insert_adds_witness:
  "\<exists>w'. editorInsert five (stmtOn (Some newTxn) []) = (Inr (), w') \<and> stmtView keyTable Map.empty w' = [fivePK \<mapsto> five]"
proof -
  let ?w = "stmtOn (Some newTxn) []"
  have s: "mem.stmt (\<lambda>_. Map.empty) 0 keyTable Map.empty ?w ?w" by (rule statement_new) (simp add: current_def)
  have t: "tableState UNIV (contentOf (sq_led (se_store (fst ?w))) ((\<lambda>_. Map.empty) (st_version (sq_led (se_store (fst ?w))))))
      (mem.recordsOf (sq_led (se_store (fst ?w)))) keyTable Map.empty" using state_sqlNew by simp
  have c: "currentView keyTable Map.empty (tableView (td_ID keyTable) (se_txn (fst ?w)))" by (simp add: currentView_def)
  show ?thesis using insert_adds [OF mem.kv_backend_axioms s t c five_ok UNIV_I]
    by (cases "editorInsert five ?w"; cases "fst (editorInsert five ?w)") (auto simp: view_stmtOn)
qed

text \<open>C9. UPDATE. The editor's \<^verbatim>\<open>Update\<close> of a row that the statement has read replaces it by the new row in the table as the statement sees it, whether the primary key stays or moves. It fails only with the
  backend, in a read-only transaction, when the key moves onto that of another row, or on a true duplicate in a unique index.\<close>

theorem update_replaces:
  assumes "kv_backend getB writeB scanB live view may" "kv_backend.stmt getB writeB scanB live view H lo def T w0 w"
    and "tableState K (contentOf (sq_led (se_store (fst w0))) (H (st_version (sq_led (se_store (fst w0))))))
           (kv_backend.recordsOf view (sq_led (se_store (fst w0)))) def T"
    and "currentView def T (tableView (td_ID def) (se_txn (fst w0)))"
    and "rowOk def oldPK oldRow" "rowOk def newPK newRow" "rowKey (td_ID def) newPK \<in> K"
    and "map_of (ed_pending (snd w)) oldPK = None \<Longrightarrow> viewOf T (tableView (td_ID def) (se_txn (fst w0))) oldPK = Some oldRow"
  shows "outcome
    (\<lambda>e w'. kv_backend.stmt getB writeB scanB live view H lo def T w0 w' \<and>
       (may \<or> readOnly (se_txn (fst w0)) \<or> newPK \<noteq> oldPK \<and> stmtView def T w newPK \<noteq> None \<or>
        (\<exists>idx \<in> set (td_Indexes def). rejected def ((stmtView def T w)(oldPK := None, newPK \<mapsto> newRow)) newRow newPK idx)))
    (\<lambda>u w'. kv_backend.stmt getB writeB scanB live view H lo def T w0 w' \<and>
       stmtView def T w' = (stmtView def T w)(oldPK := None, newPK \<mapsto> newRow) \<and>
       (\<forall>idx \<in> set (td_Indexes def). admitted def T (stmtView def T w') newRow newPK idx))
    (editorUpdate oldRow newRow w)"
  using assms by (rule kv_backend.editorUpdate_spec)

theorem update_replaces_witness:
  "\<exists>w'. editorUpdate five six (stmtOn (Some newTxn) [(fivePK, insertFive)]) = (Inr (), w') \<and> stmtView keyTable Map.empty w' = [sixPK \<mapsto> six]"
proof -
  let ?w = "stmtOn (Some newTxn) [(fivePK, insertFive)]"
  have s: "mem.stmt (\<lambda>_. Map.empty) 0 keyTable Map.empty ?w ?w" by (rule statement_new) (simp add: insertFive_current)
  have t: "tableState UNIV (contentOf (sq_led (se_store (fst ?w))) ((\<lambda>_. Map.empty) (st_version (sq_led (se_store (fst ?w))))))
      (mem.recordsOf (sq_led (se_store (fst ?w)))) keyTable Map.empty" using state_sqlNew by simp
  have c: "currentView keyTable Map.empty (tableView (td_ID keyTable) (se_txn (fst ?w)))" by (simp add: currentView_def)
  have ne: "fivePK \<noteq> sixPK" by (simp add: fivePK_def sixPK_def)
  have v: "map_of (ed_pending (snd ?w)) fivePK = None \<Longrightarrow> viewOf Map.empty (tableView (td_ID keyTable) (se_txn (fst ?w))) fivePK = Some five" by simp
  have m: "(Map.empty(fivePK \<mapsto> five))(fivePK := None, sixPK \<mapsto> six) = [sixPK \<mapsto> six]" "[fivePK \<mapsto> five] sixPK = None" using ne by auto
  show ?thesis using update_replaces [OF mem.kv_backend_axioms s t c five_ok six_ok UNIV_I v] ne
    by (cases "editorUpdate five six ?w"; cases "fst (editorUpdate five six ?w)") (auto simp: view_stmtOn m simp del: fun_upd_apply)
qed

text \<open>C10. End of a statement in a transaction. \<^verbatim>\<open>Close\<close> folds the statement's buffer into the transaction's: the transaction's view of the table becomes what the statement saw, its pending rows are again based on the
  committed ones, its other tables, base version and savepoints stay, and nothing is written to the store.\<close>

theorem close_folds:
  assumes "kv_backend getB writeB scanB live view may" "kv_backend.stmt getB writeB scanB live view H lo def T w0 w"
    and "currentView def T (tableView (td_ID def) (se_txn (fst w0)))" "se_txn (fst w0) = Some txn"
  shows "\<exists>w' txn'. editorClose rd w = (Inr (), w') \<and> se_store (fst w') = se_store (fst w) \<and> se_txn (fst w') = Some txn' \<and>
    currentView def T (tableView (td_ID def) (Some txn')) \<and> viewOf T (tableView (td_ID def) (Some txn')) = stmtView def T w \<and>
    (\<forall>i. i \<noteq> td_ID def \<longrightarrow> tableView i (Some txn') = tableView i (Some txn)) \<and>
    tx_baseVersion txn' = tx_baseVersion txn \<and> tx_savepoints txn' = tx_savepoints txn \<and> ed_pending (snd w') = []"
  using assms by (rule kv_backend.editorClose_fold)

theorem close_folds_witness:
  "\<exists>w' txn'. editorClose zeroNonce (stmtOn (Some newTxn) [(fivePK, insertFive)]) = (Inr (), w') \<and> se_txn (fst w') = Some txn' \<and>
     viewOf Map.empty (tableView 1 (Some txn')) = [fivePK \<mapsto> five]"
proof -
  let ?w = "stmtOn (Some newTxn) [(fivePK, insertFive)]"
  have s: "mem.stmt (\<lambda>_. Map.empty) 0 keyTable Map.empty ?w ?w" by (rule statement_new) (simp add: insertFive_current)
  have c: "currentView keyTable Map.empty (tableView (td_ID keyTable) (se_txn (fst ?w)))" by (simp add: currentView_def)
  show ?thesis using close_folds [OF mem.kv_backend_axioms s c, of newTxn zeroNonce] by (auto simp: view_stmtOn)
qed

text \<open>C11. Statements outside a transaction. \<^verbatim>\<open>Close\<close> commits the statement's rows directly: on success the database is the one with all of them written, in the ledger and in the derived keyspaces; on an error it is
  as before, unless the backend failed between the two writes.\<close>

theorem close_commits:
  assumes "kv_backend getB writeB scanB live view may" "kv_backend.ledger getB writeB scanB live view (sq_led (se_store se)) H lo"
    and "st_version (sq_led (se_store se)) < st_version (sq_led (se_store se)) + 1" "good_rand rd"
    and "database K (contentOf (sq_led (se_store se)) (H (st_version (sq_led (se_store se))))) (kv_backend.recordsOf view (sq_led (se_store se)))
           (catalog (se_store se)) DB"
    and "no_path_clash (sq_led (se_store se)) K" "st_history (sq_led (se_store se)) \<longrightarrow> HistoryKey \<in> K"
    and "map_of (sq_tables (se_store se)) (ed_table ed) = Some def" "se_txn se = None" "ed_pending ed \<noteq> []"
    and "current def (DB (td_ID def)) (ed_pending ed)" "rowKey (td_ID def) ` fst ` set (ed_pending ed) \<subseteq> K" "hasAutoInc def \<longrightarrow> autoIncKey (td_ID def) \<in> K"
    and "\<And>lops bops. rowOpsLoop def (map snd (ed_pending ed)) = Inr (lops, bops) \<Longrightarrow>
       batch_ok (sq_led (se_store se)) (H (st_version (sq_led (se_store se)))) (batchMap (sq_led (se_store se)) (lops @ counterOps def))"
  shows "outcome
    (\<lambda>e w'. kv_backend.same getB writeB scanB live view H lo (se_store se) (se_store (fst w')) \<or>
       may \<and> kv_backend.committed getB writeB scanB live view K H lo (DB(td_ID def := afterTxn (DB (td_ID def)) (ed_pending ed))) (se_store se) False (se_store (fst w')))
    (\<lambda>u w'. kv_backend.committed getB writeB scanB live view K H lo (DB(td_ID def := afterTxn (DB (td_ID def)) (ed_pending ed))) (se_store se) True (se_store (fst w')))
    (editorClose rd (se, ed))"
  using assms by (rule kv_backend.editorClose_direct)

theorem close_commits_witness:
  "outcome (\<lambda>e w'. mem.same (\<lambda>_. Map.empty) 0 sqlNew (se_store (fst w')))
     (\<lambda>u w'. mem.committed {rowKey 1 fivePK} (\<lambda>_. Map.empty) 0 ((\<lambda>_. Map.empty)(1 := [fivePK \<mapsto> five])) sqlNew True (se_store (fst w')))
     (editorClose zeroNonce (stmtOn None [(fivePK, insertFive)]))"
proof -
  let ?se = "\<lparr>se_store = sqlNew, se_txn = None\<rparr>" and ?ed = "\<lparr>ed_table = [], ed_pending = [(fivePK, insertFive)]\<rparr>"
  let ?K = "{rowKey 1 fivePK}" and ?DB = "\<lambda>_::u64. Map.empty :: rows"
  have b: "batch_ok (sq_led (se_store ?se)) ((\<lambda>_. Map.empty) (st_version (sq_led (se_store ?se)))) (batchMap (sq_led (se_store ?se)) (lops @ counterOps keyTable))"
    if "rowOpsLoop keyTable (map snd (ed_pending ?ed)) = Inr (lops, bops)" for lops bops
    using that insertFive_ops [of lops bops] batch_ok_single [of "newLedger []"] by (auto simp: counterOps_def plain(7))
  have v: "st_version (sq_led (se_store ?se)) < st_version (sq_led (se_store ?se)) + 1" by (simp add: version_plain)
  have l: "mem.ledger (sq_led (se_store ?se)) (\<lambda>_. Map.empty) 0" using ledger_sqlNew by simp
  have db: "database ?K (contentOf (sq_led (se_store ?se)) ((\<lambda>_. Map.empty) (st_version (sq_led (se_store ?se))))) (mem.recordsOf (sq_led (se_store ?se)))
      (catalog (se_store ?se)) ?DB" using sqlNew_database by simp
  have h: "no_path_clash (sq_led (se_store ?se)) ?K" "st_history (sq_led (se_store ?se)) \<longrightarrow> HistoryKey \<in> ?K" by (simp_all add: no_clash_one plain)
  have d: "map_of (sq_tables (se_store ?se)) (ed_table ?ed) = Some keyTable" "se_txn ?se = None" "ed_pending ?ed \<noteq> []"
    "current keyTable (?DB (td_ID keyTable)) (ed_pending ?ed)" "rowKey (td_ID keyTable) ` fst ` set (ed_pending ?ed) \<subseteq> ?K"
    "hasAutoInc keyTable \<longrightarrow> autoIncKey (td_ID keyTable) \<in> ?K"
    using insertFive_current by simp_all
  have a: "afterTxn Map.empty [(fivePK, insertFive)] = [fivePK \<mapsto> five]" by (auto simp: afterTxn_def insertFive_def changes_def fun_eq_iff)
  show ?thesis unfolding stmtOn_def
    by (rule outcome_mono [OF close_commits [OF mem.kv_backend_axioms l v good_zeroNonce db h d b]]) (auto simp: a)
qed



end
